(* ===== verification/Machine_Int.thy ===== *)
theory Machine_Int
  imports Main "HOL-Library.Word"
begin

text \<open>
  The arithmetic of \<open>usize\<close> as the Rust code spells it, on natural numbers: \<open>wrapping\<close>
  operations (\<open>wmul\<close>, \<open>wadd\<close>), \<open>checked\<close> ones that return \<^term>\<open>None\<close> on overflow, and
  saturating addition; and the casts between widths.
\<close>

section \<open>Unsigned 64-bit arithmetic\<close>

definition usize_max :: nat where
  "usize_max = 2 ^ 64 - 1"

definition wmul :: "nat \<Rightarrow> nat \<Rightarrow> nat" where
  "wmul a b = a * b mod 2 ^ 64"

definition wadd :: "nat \<Rightarrow> nat \<Rightarrow> nat" where
  "wadd a b = (a + b) mod 2 ^ 64"

definition checked_mul :: "nat \<Rightarrow> nat \<Rightarrow> nat option" where
  "checked_mul a b = (if a * b \<le> usize_max then Some (a * b) else None)"

definition checked_add :: "nat \<Rightarrow> nat \<Rightarrow> nat option" where
  "checked_add a b = (if a + b \<le> usize_max then Some (a + b) else None)"

lemma wmul_exact: "a * b \<le> usize_max \<Longrightarrow> wmul a b = a * b"
  by (simp add: wmul_def usize_max_def)

lemma wadd_exact: "a + b \<le> usize_max \<Longrightarrow> wadd a b = a + b"
  by (simp add: wadd_def usize_max_def)

lemma checked_mul_Some: "checked_mul a b = Some c \<longleftrightarrow> c = a * b \<and> a * b \<le> usize_max"
  by (auto simp: checked_mul_def)

lemma checked_add_Some: "checked_add a b = Some c \<longleftrightarrow> c = a + b \<and> a + b \<le> usize_max"
  by (auto simp: checked_add_def)

definition saturating_add :: "nat \<Rightarrow> nat \<Rightarrow> nat" where
  "saturating_add a b = min (a + b) usize_max"

lemma checked_add_None: "checked_add a b = None \<longleftrightarrow> usize_max < a + b"
  by (auto simp: checked_add_def)

lemma saturating_add_exact: "a + b \<le> usize_max \<Longrightarrow> saturating_add a b = a + b"
  by (simp add: saturating_add_def)

section \<open>Casts\<close>

text \<open>\<open>n as i32\<close>\<close>

definition as_i32 :: "nat \<Rightarrow> int" where
  "as_i32 n = sint (word_of_nat n :: 32 word)"

lemma as_i32_exact: "n < 2 ^ 31 \<Longrightarrow> as_i32 n = int n"
  by (simp add: as_i32_def sint_uint unat_of_nat take_bit_nat_eq_self_iff uint_nat
    signed_take_bit_int_eq_self_iff)

end
