(* ===== verification/Prelude.thy ===== *)
theory Prelude
  imports Main "HOL-Library.Word" "HOL-Library.Multiset" Machine_Int
begin

text \<open>
  Shared vocabulary of the development: the machine types of the Rust code, the
  result type for fallible operations, the vector operations the schedulers use
  (\<open>position\<close>, \<open>remove\<close>, \<open>insert\<close> of \<open>Vec\<close> and \<open>VecDeque\<close>) with the lemmas every component
  shares, and the contract of an event-driven component whose operations keep an
  invariant.

  A Rust function that returns \<open>Result\<close> and mutates \<open>self\<close> becomes a function returning
  a pair of an \<^typ>\<open>'e + 'a\<close> (\<open>Inl\<close> the error) and the new state, because the state may
  have changed before the error was raised.
\<close>

section \<open>Machine types\<close>

type_synonym u8 = "8 word"
type_synonym u32 = "32 word"
type_synonym u64 = "64 word"
type_synonym token = u32

section \<open>Lemma collections\<close>

named_theorems inv_intros \<open>introduction rules for component invariants\<close>
named_theorems op_frames \<open>what an operation leaves unchanged\<close>

section \<open>Vectors\<close>

text \<open>\<open>iter().position(p)\<close>: the index of the first element that satisfies \<open>p\<close>.\<close>

fun position :: "('a \<Rightarrow> bool) \<Rightarrow> 'a list \<Rightarrow> nat option" where
  "position p [] = None"
| "position p (x # xs) = (if p x then Some 0 else map_option Suc (position p xs))"

text \<open>\<open>remove(i)\<close> and \<open>insert(i, x)\<close> of a vector or deque; both shift the tail.\<close>

definition remove_at :: "nat \<Rightarrow> 'a list \<Rightarrow> 'a list" where
  "remove_at i xs = take i xs @ drop (Suc i) xs"

definition insert_at :: "nat \<Rightarrow> 'a \<Rightarrow> 'a list \<Rightarrow> 'a list" where
  "insert_at i x xs = take i xs @ x # drop i xs"

lemma position_SomeD:
  "position p xs = Some i \<Longrightarrow> i < length xs \<and> p (xs ! i) \<and> (\<forall>j<i. \<not> p (xs ! j))"
proof (induction xs arbitrary: i)
  case (Cons x xs)
  then show ?case
    by (auto split: if_splits simp: nth_Cons less_Suc_eq_0_disj split: nat.splits)
qed simp

lemma position_less: "position p xs = Some i \<Longrightarrow> i < length xs"
  by (simp add: position_SomeD)

lemma position_holds: "position p xs = Some i \<Longrightarrow> p (xs ! i)"
  by (simp add: position_SomeD)

lemma position_None_iff: "position p xs = None \<longleftrightarrow> (\<forall>x\<in>set xs. \<not> p x)"
  by (induction xs) auto

lemma position_find: "map_option (\<lambda>i. xs ! i) (position p xs) = find p xs"
  by (induction xs) (auto simp: option.map_comp comp_def)

lemma position_update: "position p xs = Some k \<Longrightarrow> p y \<Longrightarrow> position p (xs[k := y]) = Some k"
  by (induction xs arbitrary: k) (auto split: if_splits nat.splits)

lemma position_append_fresh:
  "(\<And>x. x \<in> set xs \<Longrightarrow> \<not> p x) \<Longrightarrow> p y \<Longrightarrow> position p (xs @ y # ys) = Some (length xs)"
  by (induction xs) auto

lemma filter_update_both_out:
  "k < length xs \<Longrightarrow> \<not> p (xs ! k) \<Longrightarrow> \<not> p y \<Longrightarrow> filter p (xs[k := y]) = filter p xs"
  by (simp add: upd_conv_take_nth_drop) (metis filter.simps(2) filter_append id_take_nth_drop)

lemma length_remove_at: "i < length xs \<Longrightarrow> length (remove_at i xs) = length xs - 1"
  by (simp add: remove_at_def)

lemma remove_at_split: "i < length xs \<Longrightarrow> xs = take i xs @ xs ! i # drop (Suc i) xs"
  by (rule id_take_nth_drop)

lemma mset_remove_at: "i < length xs \<Longrightarrow> mset xs = add_mset (xs ! i) (mset (remove_at i xs))"
  by (metis add_mset_add_single mset.simps(2) mset_append remove_at_def remove_at_split
      union_mset_add_mset_right)

lemma set_remove_at_subset: "set (remove_at i xs) \<subseteq> set xs"
  by (auto simp: remove_at_def dest: in_set_takeD in_set_dropD)

lemma mset_insert_at: "mset (insert_at i x xs) = add_mset x (mset xs)"
  by (metis append_take_drop_id insert_at_def mset.simps(2) mset_append union_mset_add_mset_right)

lemma set_insert_at: "set (insert_at i x xs) = insert x (set xs)"
  by (metis mset_insert_at set_mset_add_mset_insert set_mset_mset)

lemma length_insert_at: "length (insert_at i x xs) = Suc (length xs)"
  by (metis mset_insert_at size_add_mset size_mset)

lemma insert_remove_at: "i < length xs \<Longrightarrow> insert_at i x (remove_at i xs) = xs[i := x]"
  by (simp add: insert_at_def remove_at_def upd_conv_take_nth_drop)

lemma map_nth_upt: "b \<le> length xs \<Longrightarrow> map (\<lambda>i. xs ! i) [a..<b] = drop a (take b xs)"
  by (rule nth_equalityI) auto

section \<open>Sums over the elements of a list\<close>

definition sum_by :: "('a \<Rightarrow> 'b::comm_monoid_add) \<Rightarrow> 'a list \<Rightarrow> 'b" where
  "sum_by f xs = sum_list (map f xs)"

lemma sum_by_simps [simp]:
  "sum_by f [] = 0"
  "sum_by f (x # xs) = f x + sum_by f xs"
  "sum_by f (xs @ ys) = sum_by f xs + sum_by f ys"
  by (simp_all add: sum_by_def)

lemma sum_by_remove_at:
  assumes "i < length xs"
  shows "sum_by f xs = f (xs ! i) + sum_by f (remove_at i xs)"
proof -
  have "sum_by f xs = sum_by f (take i xs @ xs ! i # drop (Suc i) xs)"
    using remove_at_split [OF assms] by simp
  also have "\<dots> = f (xs ! i) + sum_by f (remove_at i xs)"
    unfolding remove_at_def sum_by_simps by (rule add.left_commute)
  finally show ?thesis .
qed

lemma sum_by_insert_at: "sum_by f (insert_at i x xs) = f x + sum_by f xs"
proof -
  have "sum_by f (insert_at i x xs) = f x + (sum_by f (take i xs) + sum_by f (drop i xs))"
    unfolding insert_at_def sum_by_simps by (rule add.left_commute)
  also have "sum_by f (take i xs) + sum_by f (drop i xs) = sum_by f xs"
    by (metis append_take_drop_id sum_by_simps(3))
  finally show ?thesis .
qed

lemma sum_by_zero: "(\<And>x. x \<in> set xs \<Longrightarrow> f x = 0) \<Longrightarrow> sum_by f xs = 0"
  by (induction xs) auto

section \<open>Event-driven components\<close>

text \<open>
  The contract shared by every stateful component of the program: its operations are the
  events of a step function, and under a guard on the event each step keeps the
  component's invariant. The lemmas lift one step to a run of any length.
\<close>

fun run :: "('e \<Rightarrow> 's \<Rightarrow> 's) \<Rightarrow> 'e list \<Rightarrow> 's \<Rightarrow> 's" where
  "run f [] s = s"
| "run f (e # es) s = run f es (f e s)"

fun guarded :: "('e \<Rightarrow> 's \<Rightarrow> bool) \<Rightarrow> ('e \<Rightarrow> 's \<Rightarrow> 's) \<Rightarrow> 'e list \<Rightarrow> 's \<Rightarrow> bool" where
  "guarded g f [] s = True"
| "guarded g f (e # es) s = (g e s \<and> guarded g f es (f e s))"

locale component =
  fixes inv :: "'s \<Rightarrow> bool"
    and guard :: "'e \<Rightarrow> 's \<Rightarrow> bool"
    and step :: "'e \<Rightarrow> 's \<Rightarrow> 's"
  assumes step_keeps: "inv s \<Longrightarrow> guard e s \<Longrightarrow> inv (step e s)"
begin

lemma run_keeps: "inv s \<Longrightarrow> guarded guard step es s \<Longrightarrow> inv (run step es s)"
proof (induction es arbitrary: s)
  case Nil
  then show ?case by simp
next
  case (Cons e es)
  then show ?case by (simp add: step_keeps)
qed

lemma run_append: "run step (es @ es') s = run step es' (run step es s)"
  by (induction es arbitrary: s) auto

lemma guarded_append:
  "guarded guard step (es @ es') s \<longleftrightarrow> guarded guard step es s \<and> guarded guard step es' (run step es s)"
  by (induction es arbitrary: s) auto

lemma every_prefix_keeps:
  assumes "inv s" and "guarded guard step (es @ es') s"
  shows "inv (run step es s)"
  using assms by (auto simp: guarded_append intro: run_keeps)

end


section \<open>Reference-counted pools\<close>

text \<open>
  What a client of a reference-counted pool relies on: \<open>ok p H\<close> says that the references held
  outside are exactly \<open>H\<close>, taking hands out an item nobody holds, giving a reference back keeps the
  rest, and the free items together with the held ones are the whole pool.
\<close>

locale reference_pool =
  fixes ok :: "'p \<Rightarrow> 'i multiset \<Rightarrow> bool"
    and size_of :: "'p \<Rightarrow> nat"
    and free_of :: "'p \<Rightarrow> nat"
    and take_one :: "'p \<Rightarrow> ('e + 'i) \<times> 'p"
    and give :: "'i \<Rightarrow> 'p \<Rightarrow> 'p"
  assumes take_ok: "ok p H \<Longrightarrow> take_one p = (Inr i, p') \<Longrightarrow>
      ok p' (add_mset i H) \<and> i \<notin># H \<and> size_of p' = size_of p"
    and take_fails: "ok p H \<Longrightarrow> fst (take_one p) = Inl e \<Longrightarrow> free_of p = 0"
    and give_ok: "ok p (add_mset i H) \<Longrightarrow> ok (give i p) H \<and> size_of (give i p) = size_of p"
    and conserved: "ok p H \<Longrightarrow> free_of p + card (set_mset H) = size_of p"
begin

lemma give_all: "ok p (mset is + H) \<Longrightarrow> ok (fold give is p) H \<and> size_of (fold give is p) = size_of p"
proof (induction "is" arbitrary: p)
  case (Cons i "is")
  then have "ok (give i p) (mset is + H) \<and> size_of (give i p) = size_of p" using give_ok by simp
  with Cons.IH [of "give i p"] show ?case by simp
qed simp

text \<open>When the last holders give everything back, the whole pool is free.\<close>

lemma give_all_free: "ok p (mset is) \<Longrightarrow> free_of (fold give is p) = size_of p"
  using give_all [of p "is" "{#}"] conserved [of "fold give is p" "{#}"] by simp

lemma take_succeeds: "ok p H \<Longrightarrow> 0 < free_of p \<Longrightarrow> \<exists>i p'. take_one p = (Inr i, p')"
  using take_fails by (cases "take_one p"; cases "fst (take_one p)") auto

lemma take_uses_one:
  assumes "ok p H" and "take_one p = (Inr i, p')"
  shows "Suc (free_of p') = free_of p"
proof -
  have "ok p' (add_mset i H)" "i \<notin># H" "size_of p' = size_of p" using take_ok [OF assms] by simp_all
  moreover have "card (set_mset (add_mset i H)) = Suc (card (set_mset H))" using \<open>i \<notin># H\<close> by simp
  ultimately show ?thesis using conserved [OF assms(1)] conserved [of p' "add_mset i H"] by linarith
qed

text \<open>The free count only depends on what is held.\<close>

lemma same_held_same_free: "ok p H \<Longrightarrow> ok p' H \<Longrightarrow> size_of p' = size_of p \<Longrightarrow> free_of p' = free_of p"
  using conserved by (metis add_right_cancel)

end

end
