(* ===== verification/Sequence.thy ===== *)
theory Sequence
  imports Prelude
begin

text \<open>
  \<open>rust/crates/nv-engine/src/sequence.rs\<close>: one generation request. A sequence holds the
  prompt, the generated output, its place in the life cycle
  (waiting, prefill, decode, finished or aborted), the table of KV blocks it holds and the
  count of tokens whose KV has been computed. \<open>usize\<close> counters are \<^typ>\<open>nat\<close>; token ids
  are 32-bit words. An invalid transition is the error value \<open>BadTransition\<close>, which carries
  the state the Rust error message prints.
\<close>

section \<open>Data\<close>

definition MIN_RECOMPUTED_PREFILL_TOKENS :: nat where
  "MIN_RECOMPUTED_PREFILL_TOKENS = 1"

datatype sequence_state = Waiting | Prefill | Decode | Finished | Aborted

datatype finish_reason = MaxTokens | Eos | AbortedReason

record sequence =
  seq_id :: u64
  seq_prompt :: "token list"
  seq_output :: "token list"
  seq_state :: sequence_state
  block_table :: "nat list"
  max_new_tokens :: nat
  eos_token_id :: "token option"
  seq_finish :: "finish_reason option"
  draft_tokens :: "token list"
  accepted_token_count :: nat
  num_computed_tokens :: nat

text \<open>
  The errors of the engine crate. \<open>BadTransition\<close> and \<open>AppendOutsideDecode\<close> are raised
  here; the others by the block manager and the scheduler.
\<close>

datatype engine_error =
    BadTransition sequence_state sequence_state
  | AppendOutsideDecode sequence_state
  | NoFreeBlocks
  | NeedFreshBlocks nat nat
  | NeedSlotBlocks nat nat nat
  | AlreadyHasBlocks u64
  | NotRunning u64
  | NoPriorStep
  | WrongBatchKind
  | CountMismatch nat nat

section \<open>Operations\<close>

definition new_sequence :: "u64 \<Rightarrow> token list \<Rightarrow> nat \<Rightarrow> sequence" where
  "new_sequence i p m =
     \<lparr> seq_id = i, seq_prompt = p, seq_output = [], seq_state = Waiting, block_table = [],
       max_new_tokens = m, eos_token_id = None, seq_finish = None, draft_tokens = [],
       accepted_token_count = 0, num_computed_tokens = 0 \<rparr>"

definition with_eos :: "token option \<Rightarrow> sequence \<Rightarrow> sequence" where
  "with_eos e s = s\<lparr>eos_token_id := e\<rparr>"

definition total_len :: "sequence \<Rightarrow> nat" where
  "total_len s = length (seq_prompt s) + length (seq_output s)"

definition prompt_len :: "sequence \<Rightarrow> nat" where
  "prompt_len s = length (seq_prompt s)"

definition seq_tokens :: "sequence \<Rightarrow> token list" where
  "seq_tokens s = seq_prompt s @ seq_output s"

definition last_token :: "sequence \<Rightarrow> token option" where
  "last_token s =
     (if seq_output s \<noteq> [] then Some (last (seq_output s))
      else if seq_prompt s \<noteq> [] then Some (last (seq_prompt s)) else None)"

definition is_finished :: "sequence \<Rightarrow> bool" where
  "is_finished s = (case seq_state s of Finished \<Rightarrow> True | Aborted \<Rightarrow> True | _ \<Rightarrow> False)"

definition has_drafts :: "sequence \<Rightarrow> bool" where
  "has_drafts s = (draft_tokens s \<noteq> [])"

definition draft_len :: "sequence \<Rightarrow> nat" where
  "draft_len s = length (draft_tokens s)"

definition put_drafts :: "token list \<Rightarrow> sequence \<Rightarrow> sequence" where
  "put_drafts d s = s\<lparr>draft_tokens := d\<rparr>"

definition clear_drafts :: "sequence \<Rightarrow> sequence" where
  "clear_drafts s = s\<lparr>draft_tokens := []\<rparr>"

text \<open>\<open>saturating_sub\<close> on \<open>usize\<close> is subtraction on \<^typ>\<open>nat\<close>.\<close>

definition remaining_uncomputed :: "sequence \<Rightarrow> nat" where
  "remaining_uncomputed s = total_len s - num_computed_tokens s"

definition record_computed :: "nat \<Rightarrow> sequence \<Rightarrow> sequence" where
  "record_computed n s = s\<lparr>num_computed_tokens := num_computed_tokens s + n\<rparr>"

definition prefill_complete :: "sequence \<Rightarrow> bool" where
  "prefill_complete s = (total_len s \<le> num_computed_tokens s)"

definition reset_for_recompute :: "sequence \<Rightarrow> sequence" where
  "reset_for_recompute s = s\<lparr>num_computed_tokens := 0, seq_state := Waiting\<rparr>"

definition div_ceil :: "nat \<Rightarrow> nat \<Rightarrow> nat" where
  "div_ceil a b = (a + b - 1) div b"

definition num_blocks_needed :: "nat \<Rightarrow> sequence \<Rightarrow> nat" where
  "num_blocks_needed bs s = (let n = total_len s in if n = 0 then 0 else div_ceil n bs)"

text \<open>
  The tokens of logical block \<open>idx\<close>, read one position at a time across the seam between
  prompt and output. Rust computes \<open>end - start\<close> for the capacity, so the caller must keep
  \<open>idx * bs \<le> total_len\<close>; both callers do (\<open>block_index_in_range\<close> below).
\<close>

definition block_tokens :: "nat \<Rightarrow> nat \<Rightarrow> sequence \<Rightarrow> token list" where
  "block_tokens idx bs s =
     (let start = idx * bs;
          stop = min (start + bs) (total_len s)
      in map (\<lambda>i. if i < length (seq_prompt s) then seq_prompt s ! i
                  else seq_output s ! (i - length (seq_prompt s))) [start..<stop])"

definition transition_to_prefill_with_cache ::
  "nat \<Rightarrow> sequence \<Rightarrow> (engine_error + unit) \<times> sequence" where
  "transition_to_prefill_with_cache cached s =
     (case seq_state s of
        Waiting \<Rightarrow> (Inr (), s\<lparr>seq_state := Prefill,
          num_computed_tokens := min cached (total_len s - MIN_RECOMPUTED_PREFILL_TOKENS)\<rparr>)
      | st \<Rightarrow> (Inl (BadTransition Prefill st), s))"

definition transition_to_prefill :: "sequence \<Rightarrow> (engine_error + unit) \<times> sequence" where
  "transition_to_prefill s = transition_to_prefill_with_cache 0 s"

definition transition_to_decode :: "sequence \<Rightarrow> (engine_error + unit) \<times> sequence" where
  "transition_to_decode s =
     (case seq_state s of
        Prefill \<Rightarrow> (Inr (), s\<lparr>seq_state := Decode\<rparr>)
      | Decode \<Rightarrow> (Inr (), s\<lparr>seq_state := Decode\<rparr>)
      | st \<Rightarrow> (Inl (BadTransition Decode st), s))"

definition append_token :: "token \<Rightarrow> sequence \<Rightarrow> (engine_error + unit) \<times> sequence" where
  "append_token t s =
     (case seq_state s of
        Decode \<Rightarrow> (Inr (), s\<lparr>seq_output := seq_output s @ [t]\<rparr>)
      | st \<Rightarrow> (Inl (AppendOutsideDecode st), s))"

text \<open>The end-of-sequence token is tested before the token budget.\<close>

definition check_stop :: "sequence \<Rightarrow> finish_reason option" where
  "check_stop s =
     (if (case eos_token_id s of Some e \<Rightarrow> seq_output s \<noteq> [] \<and> last (seq_output s) = e | None \<Rightarrow> False)
      then Some Eos
      else if max_new_tokens s \<le> length (seq_output s) then Some MaxTokens
      else None)"

definition finish :: "finish_reason \<Rightarrow> sequence \<Rightarrow> sequence" where
  "finish r s = s\<lparr>seq_state := Finished, seq_finish := Some r\<rparr>"

definition abort_seq :: "sequence \<Rightarrow> sequence" where
  "abort_seq s = s\<lparr>seq_state := Aborted, seq_finish := Some AbortedReason\<rparr>"

section \<open>Blocks of a sequence\<close>

lemma length_seq_tokens [simp]: "length (seq_tokens s) = total_len s"
  by (simp add: seq_tokens_def total_len_def)

lemma block_tokens_slice:
  "block_tokens idx bs s = take bs (drop (idx * bs) (seq_tokens s))"
proof -
  have "block_tokens idx bs s =
      map (\<lambda>i. seq_tokens s ! i) [idx * bs..<min (idx * bs + bs) (total_len s)]"
    by (simp add: block_tokens_def Let_def seq_tokens_def nth_append)
  also have "\<dots> = take bs (drop (idx * bs) (seq_tokens s))"
    by (subst map_nth_upt) (auto simp: take_drop min_def add.commute)
  finally show ?thesis .
qed

lemma length_block_tokens:
  "length (block_tokens idx bs s) = min bs (total_len s - idx * bs)"
  by (simp add: block_tokens_slice)

lemma full_block_length:
  assumes "idx < total_len s div bs"
  shows "length (block_tokens idx bs s) = bs"
proof -
  have "Suc idx * bs \<le> total_len s"
    using assms by (metis Suc_leI div_times_less_eq_dividend le_trans mult_le_mono1)
  then show ?thesis by (simp add: length_block_tokens)
qed

lemma block_index_in_range:
  assumes "idx < total_len s div bs"
  shows "idx * bs \<le> total_len s"
  using assms by (meson div_times_less_eq_dividend le_trans less_imp_le mult_le_mono1)

lemma div_ceil_bounds:
  assumes "0 < b"
  shows "a \<le> div_ceil a b * b" and "0 < a \<Longrightarrow> (div_ceil a b - 1) * b < a"
proof -
  have *: "a + b - 1 = div_ceil a b * b + (a + b - 1) mod b"
    unfolding div_ceil_def by (rule div_mult_mod_eq [symmetric])
  have "(a + b - 1) mod b < b" using assms by simp
  with * assms show "a \<le> div_ceil a b * b" by linarith
  show "(div_ceil a b - 1) * b < a" if "0 < a"
  proof -
    have "div_ceil a b * b \<le> a + b - 1" using * by linarith
    then show ?thesis using assms that by (simp add: diff_mult_distrib)
  qed
qed

lemma div_ceil_le_iff:
  assumes "0 < b"
  shows "div_ceil a b \<le> n \<longleftrightarrow> a \<le> n * b"
proof
  assume "div_ceil a b \<le> n"
  then have "div_ceil a b * b \<le> n * b" by simp
  with div_ceil_bounds(1) [OF assms, of a] show "a \<le> n * b" by linarith
next
  assume "a \<le> n * b"
  then have "a + b - 1 < Suc n * b" using assms by simp
  then show "div_ceil a b \<le> n"
    unfolding div_ceil_def by (metis less_Suc_eq_le less_mult_imp_div_less)
qed

lemma div_ceil_0 [simp]: "0 < b \<Longrightarrow> div_ceil 0 b = 0"
  by (simp add: div_ceil_def)

lemma num_blocks_needed_div_ceil:
  "0 < bs \<Longrightarrow> num_blocks_needed bs s = div_ceil (total_len s) bs"
  by (simp add: num_blocks_needed_def Let_def)

text \<open>The blocks of a sequence, laid end to end, are its tokens: nothing is dropped at the seam.\<close>

lemma concat_chunks:
  assumes "0 < b"
  shows "length xs \<le> n * b \<Longrightarrow> concat (map (\<lambda>i. take b (drop (i * b) xs)) [0..<n]) = xs"
proof (induction n arbitrary: xs)
  case 0
  then show ?case by simp
next
  case (Suc n)
  have "[0..<Suc n] = 0 # map Suc [0..<n]"
    by (simp add: upt_conv_Cons map_Suc_upt del: upt_Suc)
  then have "concat (map (\<lambda>i. take b (drop (i * b) xs)) [0..<Suc n]) =
      take b xs @ concat (map (\<lambda>i. take b (drop (i * b) (drop b xs))) [0..<n])"
    by (simp add: comp_def add.commute)
  also have "\<dots> = take b xs @ drop b xs"
    using Suc.prems by (subst Suc.IH) simp_all
  finally show ?case by simp
qed

end
