(* ===== verification/Block_Manager.thy ===== *)
theory Block_Manager
  imports Sequence
begin

unbundle bit_operations_syntax

text \<open>
  \<open>rust/crates/nv-engine/src/block_manager.rs\<close>: the pool of KV-cache blocks. A block is free
  or referenced by some number of sequences; a block whose content is known carries the hash of
  its whole token prefix, and \<open>hash_to_block\<close> finds it again, also after it was freed, until
  \<open>pop_free\<close> hands it out for other content.

  The hash function is \<open>xxh3_64_with_seed\<close> of the crate xxhash-rust, which is not part of
  this repository: it is the argument \<open>xxh\<close> (bytes, then seed). An adapter name is given as
  its UTF-8 bytes. Block ids are indices into \<open>blocks\<close>; \<open>u32\<close> ids come from
  \<open>num_blocks as u32\<close>, which truncates, and the constructor below keeps that truncation.
\<close>

section \<open>Data\<close>

definition ADAPTER_SEED_TAG :: u64 where
  "ADAPTER_SEED_TAG = 0x9e3779b97f4a7c15"

type_synonym hasher = "u8 list \<Rightarrow> u64 \<Rightarrow> u64"
type_synonym adapter = "u8 list option"

record block =
  blk_id :: nat
  ref_count :: nat
  blk_hash :: "u64 option"
  blk_tokens :: "token list"
  kv_computed :: bool

definition new_block :: "nat \<Rightarrow> block" where
  "new_block i =
     \<lparr> blk_id = i, ref_count = 0, blk_hash = None, blk_tokens = [], kv_computed = False \<rparr>"

definition reset_block :: "block \<Rightarrow> block" where
  "reset_block b = b\<lparr>ref_count := 1, blk_hash := None, blk_tokens := [], kv_computed := False\<rparr>"

record allocation =
  alloc_table :: "nat list"
  cached_tokens :: nat

record block_manager =
  block_size :: nat
  num_blocks :: nat
  blocks :: "block list"
  free_list :: "nat list"
  hash_to_block :: "u64 \<rightharpoonup> nat"

record cow_copy =
  logical_idx :: nat
  src_block :: nat
  dst_block :: nat

definition new_block_manager :: "nat \<Rightarrow> nat \<Rightarrow> block_manager" where
  "new_block_manager n bs =
     \<lparr> block_size = bs, num_blocks = n,
       blocks = map new_block [0..<n mod 2 ^ 32], free_list = [0..<n mod 2 ^ 32],
       hash_to_block = Map.empty \<rparr>"

section \<open>Hashing\<close>

text \<open>The little-endian bytes of a token vector, as \<open>from_raw_parts\<close> reads them.\<close>

definition token_bytes :: "token \<Rightarrow> u8 list" where
  "token_bytes t = map (\<lambda>k. ucast (drop_bit (8 * k) t)) [0, 1, 2, 3]"

definition tokens_bytes :: "token list \<Rightarrow> u8 list" where
  "tokens_bytes ts = concat (map token_bytes ts)"

definition compute_block_hash_tagged :: "hasher \<Rightarrow> token list \<Rightarrow> u64 \<Rightarrow> adapter \<Rightarrow> u64" where
  "compute_block_hash_tagged xxh ts prefix adapter =
     (let seed = (case adapter of
                    Some name \<Rightarrow> xxh name (prefix XOR ADAPTER_SEED_TAG)
                  | None \<Rightarrow> prefix)
      in xxh (tokens_bytes ts) seed)"

definition compute_block_hash :: "hasher \<Rightarrow> token list \<Rightarrow> u64 \<Rightarrow> u64" where
  "compute_block_hash xxh ts prefix = compute_block_hash_tagged xxh ts prefix None"

section \<open>Taking and returning blocks\<close>

definition upd_block :: "nat \<Rightarrow> (block \<Rightarrow> block) \<Rightarrow> block_manager \<Rightarrow> block_manager" where
  "upd_block i f bm = bm\<lparr>blocks := (blocks bm)[i := f (blocks bm ! i)]\<rparr>"

definition num_free :: "block_manager \<Rightarrow> nat" where
  "num_free bm = length (free_list bm)"

definition used_blocks :: "block_manager \<Rightarrow> nat" where
  "used_blocks bm = num_blocks bm - length (free_list bm)"

definition ref_count_of :: "block_manager \<Rightarrow> nat \<Rightarrow> nat" where
  "ref_count_of bm i = ref_count (blocks bm ! i)"

text \<open>The hash of the block leaves the map only where the map still points at this block.\<close>

definition retire_hash :: "nat \<Rightarrow> block_manager \<Rightarrow> block_manager" where
  "retire_hash i bm =
     (case blk_hash (blocks bm ! i) of
        Some h \<Rightarrow> if hash_to_block bm h = Some i
                  then bm\<lparr>hash_to_block := (hash_to_block bm)(h := None)\<rparr> else bm
      | None \<Rightarrow> bm)"

definition pop_free :: "block_manager \<Rightarrow> (engine_error + nat) \<times> block_manager" where
  "pop_free bm =
     (case free_list bm of
        [] \<Rightarrow> (Inl NoFreeBlocks, bm)
      | i # rest \<Rightarrow> (Inr i, upd_block i reset_block (retire_hash i (bm\<lparr>free_list := rest\<rparr>))))"

definition take_shared :: "nat \<Rightarrow> block_manager \<Rightarrow> block_manager" where
  "take_shared i bm =
     (if ref_count (blocks bm ! i) = 0
      then upd_block i (\<lambda>b. b\<lparr>ref_count := 1\<rparr>)
             (bm\<lparr>free_list := filter (\<lambda>x. x \<noteq> i) (free_list bm)\<rparr>)
      else upd_block i (\<lambda>b. b\<lparr>ref_count := ref_count b + 1\<rparr>) bm)"

definition shareable :: "block_manager \<Rightarrow> u64 \<Rightarrow> token list \<Rightarrow> nat option" where
  "shareable bm h ts =
     (case hash_to_block bm h of
        Some i \<Rightarrow> if blk_tokens (blocks bm ! i) = ts then Some i else None
      | None \<Rightarrow> None)"

definition share_or_pop ::
  "block_manager \<Rightarrow> u64 \<Rightarrow> token list \<Rightarrow> (engine_error + nat \<times> bool) \<times> block_manager" where
  "share_or_pop bm h ts =
     (case shareable bm h ts of
        Some i \<Rightarrow> (Inr (i, True), take_shared i bm)
      | None \<Rightarrow>
          (case pop_free bm of
             (Inl e, bm1) \<Rightarrow> (Inl e, bm1)
           | (Inr i, bm1) \<Rightarrow>
               (Inr (i, False),
                (upd_block i (\<lambda>b. b\<lparr>blk_tokens := ts, blk_hash := Some h\<rparr>) bm1)
                  \<lparr>hash_to_block := (hash_to_block bm1)(h \<mapsto> i)\<rparr>)))"

text \<open>One step of \<open>release_ids\<close> and of \<open>deallocate\<close>, which have the same loop body.\<close>

definition release_one :: "nat \<Rightarrow> block_manager \<Rightarrow> block_manager" where
  "release_one i bm =
     (let b = blocks bm ! i in
      if ref_count b = 0 then bm
      else let bm1 = upd_block i (\<lambda>b. b\<lparr>ref_count := ref_count b - 1\<rparr>) bm in
           if ref_count b - 1 = 0 then bm1\<lparr>free_list := free_list bm1 @ [i]\<rparr> else bm1)"

definition release_ids :: "nat list \<Rightarrow> block_manager \<Rightarrow> block_manager" where
  "release_ids ids bm = fold release_one (rev ids) bm"

definition deallocate :: "sequence \<Rightarrow> block_manager \<Rightarrow> block_manager" where
  "deallocate s bm = fold release_one (rev (block_table s)) bm"

section \<open>Allocation with prefix sharing\<close>

type_synonym plan = "(u64 option \<times> token list) list"

text \<open>
  The first loop of \<open>allocate_with_prefix_tagged\<close>: for each full block its chained hash, and
  how many blocks must come off the free list. A shareable block that nobody references also
  occupies a free slot, so it counts.
\<close>

fun plan_full ::
  "hasher \<Rightarrow> adapter \<Rightarrow> block_manager \<Rightarrow> sequence \<Rightarrow> nat list \<Rightarrow> u64 \<Rightarrow> nat \<times> plan" where
  "plan_full xxh ad bm s [] prefix = (0, [])"
| "plan_full xxh ad bm s (i # is) prefix =
     (let ts = block_tokens i (block_size bm) s;
          h = compute_block_hash_tagged xxh ts prefix ad;
          fresh = (case shareable bm h ts of
                     Some j \<Rightarrow> if ref_count (blocks bm ! j) = 0 then 1 else 0
                   | None \<Rightarrow> 1);
          (r, p) = plan_full xxh ad bm s is h
      in (fresh + r, (Some h, ts) # p))"

text \<open>
  The second loop. \<open>leading\<close> is \<open>leading_run\<close>: cached tokens are counted only for the
  unbroken run of shared, computed blocks that starts at token 0. On an error the blocks taken so
  far go back.
\<close>

fun acquire_plan ::
  "plan \<Rightarrow> nat list \<Rightarrow> nat \<Rightarrow> bool \<Rightarrow> block_manager \<Rightarrow>
   (engine_error + nat list \<times> nat) \<times> block_manager" where
  "acquire_plan [] table cached leading bm = (Inr (table, cached), bm)"
| "acquire_plan ((Some h, ts) # p) table cached leading bm =
     (case share_or_pop bm h ts of
        (Inl e, bm1) \<Rightarrow> (Inl e, release_ids table bm1)
      | (Inr (i, was_shared), bm1) \<Rightarrow>
          (if leading \<and> was_shared \<and> kv_computed (blocks bm1 ! i)
           then acquire_plan p (table @ [i]) (cached + block_size bm) True bm1
           else acquire_plan p (table @ [i]) cached False bm1))"
| "acquire_plan ((None, ts) # p) table cached leading bm =
     (case pop_free bm of
        (Inl e, bm1) \<Rightarrow> (Inl e, release_ids table bm1)
      | (Inr i, bm1) \<Rightarrow>
          acquire_plan p (table @ [i]) cached False
            (upd_block i (\<lambda>b. b\<lparr>blk_tokens := ts, blk_hash := None\<rparr>) bm1))"

definition clamp_cached :: "nat \<Rightarrow> nat \<Rightarrow> nat \<Rightarrow> nat" where
  "clamp_cached cached bs tot =
     (if tot < cached + MIN_RECOMPUTED_PREFILL_TOKENS then cached - bs else cached)"

definition allocate_with_prefix_tagged ::
  "hasher \<Rightarrow> adapter \<Rightarrow> sequence \<Rightarrow> block_manager \<Rightarrow>
   (engine_error + allocation) \<times> block_manager" where
  "allocate_with_prefix_tagged xxh ad s bm =
     (if block_table s \<noteq> [] then (Inl (AlreadyHasBlocks (seq_id s)), bm)
      else if total_len s = 0 then (Inr \<lparr>alloc_table = [], cached_tokens = 0\<rparr>, bm)
      else
        let tot = total_len s;
            full = tot div block_size bm;
            (r, p) = plan_full xxh ad bm s [0..<full] 0;
            partial = (tot mod block_size bm \<noteq> 0);
            required = (if partial then r + 1 else r);
            plan = (if partial then p @ [(None, block_tokens full (block_size bm) s)] else p)
        in if length (free_list bm) < required
           then (Inl (NeedFreshBlocks required (length (free_list bm))), bm)
           else (case acquire_plan plan [] 0 True bm of
                   (Inl e, bm1) \<Rightarrow> (Inl e, bm1)
                 | (Inr (table, cached), bm1) \<Rightarrow>
                     (Inr \<lparr>alloc_table = table,
                           cached_tokens = clamp_cached cached (block_size bm) tot\<rparr>, bm1)))"

definition allocate_with_prefix ::
  "hasher \<Rightarrow> sequence \<Rightarrow> block_manager \<Rightarrow> (engine_error + allocation) \<times> block_manager" where
  "allocate_with_prefix xxh s bm = allocate_with_prefix_tagged xxh None s bm"

definition allocate_for_tagged ::
  "hasher \<Rightarrow> adapter \<Rightarrow> sequence \<Rightarrow> block_manager \<Rightarrow>
   (engine_error + nat list) \<times> block_manager" where
  "allocate_for_tagged xxh ad s bm =
     (case allocate_with_prefix_tagged xxh ad s bm of
        (Inl e, bm1) \<Rightarrow> (Inl e, bm1)
      | (Inr a, bm1) \<Rightarrow> (Inr (alloc_table a), bm1))"

definition allocate_for ::
  "hasher \<Rightarrow> sequence \<Rightarrow> block_manager \<Rightarrow> (engine_error + nat list) \<times> block_manager" where
  "allocate_for xxh s bm = allocate_for_tagged xxh None s bm"

section \<open>Marking and publishing computed blocks\<close>

definition fully_computed_blocks :: "block_manager \<Rightarrow> sequence \<Rightarrow> nat \<Rightarrow> nat" where
  "fully_computed_blocks bm s valid = min (valid div block_size bm) (length (block_table s))"

definition mark_kv_computed :: "sequence \<Rightarrow> nat \<Rightarrow> block_manager \<Rightarrow> block_manager" where
  "mark_kv_computed s valid bm =
     fold (\<lambda>i. upd_block i (\<lambda>b. b\<lparr>kv_computed := True\<rparr>))
       (take (fully_computed_blocks bm s valid) (block_table s)) bm"

text \<open>The chained hash of the first \<open>n\<close> full blocks; \<open>None\<close> where a block is not full.\<close>

fun prefix_chain :: "hasher \<Rightarrow> adapter \<Rightarrow> nat \<Rightarrow> sequence \<Rightarrow> nat list \<Rightarrow> u64 \<Rightarrow> u64 option" where
  "prefix_chain xxh ad bs s [] prefix = Some prefix"
| "prefix_chain xxh ad bs s (i # is) prefix =
     (let prev = block_tokens i bs s in
      if length prev \<noteq> bs then None
      else prefix_chain xxh ad bs s is (compute_block_hash_tagged xxh prev prefix ad))"

definition commit_filled_block_tagged ::
  "hasher \<Rightarrow> sequence \<Rightarrow> nat \<Rightarrow> adapter \<Rightarrow> block_manager \<Rightarrow> block_manager" where
  "commit_filled_block_tagged xxh s idx ad bm =
     (if length (block_table s) \<le> idx then bm
      else let ts = block_tokens idx (block_size bm) s in
      if length ts \<noteq> block_size bm then bm
      else (case prefix_chain xxh ad (block_size bm) s [0..<idx] 0 of
              None \<Rightarrow> bm
            | Some prefix \<Rightarrow>
                let h = compute_block_hash_tagged xxh ts prefix ad;
                    i = block_table s ! idx in
                if blk_hash (blocks bm ! i) \<noteq> None then bm
                else let bm1 = upd_block i (\<lambda>b. b\<lparr>blk_tokens := ts, blk_hash := Some h\<rparr>) bm in
                     if hash_to_block bm1 h = None
                     then bm1\<lparr>hash_to_block := (hash_to_block bm1)(h \<mapsto> i)\<rparr> else bm1))"

definition commit_filled_block ::
  "hasher \<Rightarrow> sequence \<Rightarrow> nat \<Rightarrow> block_manager \<Rightarrow> block_manager" where
  "commit_filled_block xxh s idx bm = commit_filled_block_tagged xxh s idx None bm"

definition publish_computed_blocks ::
  "hasher \<Rightarrow> sequence \<Rightarrow> nat \<Rightarrow> block_manager \<Rightarrow> block_manager" where
  "publish_computed_blocks xxh s valid bm =
     fold (\<lambda>i bm1. if blk_hash (blocks bm1 ! (block_table s ! i)) = None
                    then commit_filled_block xxh s i bm1 else bm1)
       [0..<fully_computed_blocks bm s valid] bm"

section \<open>Growing and forking\<close>

text \<open>
  \<open>for _ in 0..n \<open>{\<close> let id = self.pop_free()?; seq.block_table.push(id); \<open>}\<close>\<close>: an error leaves
  the blocks pushed so far in the sequence.
\<close>

fun push_blocks ::
  "nat \<Rightarrow> sequence \<Rightarrow> block_manager \<Rightarrow> (engine_error + unit) \<times> sequence \<times> block_manager" where
  "push_blocks 0 s bm = (Inr (), s, bm)"
| "push_blocks (Suc n) s bm =
     (case pop_free bm of
        (Inl e, bm1) \<Rightarrow> (Inl e, s, bm1)
      | (Inr i, bm1) \<Rightarrow> push_blocks n (s\<lparr>block_table := block_table s @ [i]\<rparr>) bm1)"

definition extend_for ::
  "sequence \<Rightarrow> block_manager \<Rightarrow> (engine_error + unit) \<times> sequence \<times> block_manager" where
  "extend_for s bm =
     (let needed = num_blocks_needed (block_size bm) s in
      if needed \<le> length (block_table s) then (Inr (), s, bm)
      else push_blocks (needed - length (block_table s)) s bm)"

definition extend_for_slots ::
  "sequence \<Rightarrow> nat \<Rightarrow> block_manager \<Rightarrow> (engine_error + unit) \<times> sequence \<times> block_manager" where
  "extend_for_slots s extra bm =
     (let target = total_len s + extra;
          needed = (if target = 0 then 0 else div_ceil target (block_size bm)) in
      if needed \<le> length (block_table s) then (Inr (), s, bm)
      else let to_add = needed - length (block_table s) in
           if length (free_list bm) < to_add
           then (Inl (NeedSlotBlocks to_add extra (length (free_list bm))), s, bm)
           else push_blocks to_add s bm)"

definition fork_tail_for_write ::
  "sequence \<Rightarrow> block_manager \<Rightarrow> (engine_error + cow_copy option) \<times> sequence \<times> block_manager" where
  "fork_tail_for_write s bm =
     (if block_table s = [] then (Inr None, s, bm)
      else let tail = last (block_table s);
               idx = length (block_table s) - 1 in
      if ref_count (blocks bm ! tail) \<le> 1 then (Inr None, s, bm)
      else (case pop_free bm of
              (Inl e, bm1) \<Rightarrow> (Inl e, s, bm1)
            | (Inr new, bm1) \<Rightarrow>
                let src = blk_tokens (blocks bm1 ! tail);
                    bm2 = upd_block new
                            (\<lambda>b. b\<lparr>ref_count := 1, blk_hash := None, blk_tokens := src\<rparr>) bm1;
                    bm3 = upd_block tail (\<lambda>b. b\<lparr>ref_count := ref_count b - 1\<rparr>) bm2
                in (Inr (Some \<lparr>logical_idx = idx, src_block = tail, dst_block = new\<rparr>),
                    s\<lparr>block_table := (block_table s)[idx := new]\<rparr>, bm3)))"

end
