(* ===== verification/Kv_Layout.thy ===== *)
theory Kv_Layout
  imports Block_Manager
begin

text \<open>
  \<open>rust/crates/nv-engine/src/kv.rs\<close> and the \<open>PoolGeometry\<close> of \<open>block_manager.rs\<close>: where the keys
  and values of a block lie in the one device buffer of the paged KV cache, and how many blocks a
  memory budget buys. \<open>usize\<close> is 64 bits wide: the checked operations return \<open>None\<close> on overflow,
  the plain ones wrap (\<open>wmul\<close>, \<open>wadd\<close>). The device allocator belongs to the crate cudarc; it is the
  argument \<open>alloc\<close>, and the buffer it returns is opaque.
\<close>

section \<open>Offsets\<close>

datatype kv_kind = KeyHalf | ValueHalf

fun kv_index :: "kv_kind \<Rightarrow> nat" where
  "kv_index KeyHalf = 0"
| "kv_index ValueHalf = 1"

datatype kv_error =
    LayerOutOfRange nat nat
  | BlockOutOfRange nat nat
  | KvStrideOverflow
  | LayerStrideOverflow
  | OffsetOverflow
  | ShapeOverflow
  | AllocFailed

definition checked_block_offset ::
  "nat \<Rightarrow> nat \<Rightarrow> kv_kind \<Rightarrow> nat \<Rightarrow> nat \<Rightarrow> nat \<Rightarrow> kv_error + nat" where
  "checked_block_offset layer num_layers kv block_idx nblocks block_elems =
     (if num_layers \<le> layer then Inl (LayerOutOfRange layer num_layers)
      else if nblocks \<le> block_idx then Inl (BlockOutOfRange block_idx nblocks)
      else (case checked_mul nblocks block_elems of
              None \<Rightarrow> Inl KvStrideOverflow
            | Some kv_stride \<Rightarrow>
                (case checked_mul kv_stride 2 of
                   None \<Rightarrow> Inl LayerStrideOverflow
                 | Some layer_stride \<Rightarrow>
                     (case Option.bind (Option.bind (checked_mul layer layer_stride)
                               (\<lambda>v. checked_add v (wmul (kv_index kv) kv_stride)))
                             (\<lambda>v. checked_add v (wmul block_idx block_elems)) of
                        None \<Rightarrow> Inl OffsetOverflow
                      | Some off \<Rightarrow> Inr off))))"

record 'st paged_kv =
  kv_storage :: 'st
  kv_num_layers :: nat
  kv_num_blocks :: nat
  num_kv_heads :: nat
  kv_block_size :: nat
  head_dim :: nat

definition new_paged_kv ::
  "(nat \<Rightarrow> 'st option) \<Rightarrow> nat \<Rightarrow> nat \<Rightarrow> nat \<Rightarrow> nat \<Rightarrow> nat \<Rightarrow> kv_error + 'st paged_kv" where
  "new_paged_kv alloc nl nb nh bs dim =
     (case Option.bind (Option.bind (Option.bind (Option.bind (checked_mul nl 2)
             (\<lambda>v. checked_mul v nb)) (\<lambda>v. checked_mul v nh)) (\<lambda>v. checked_mul v bs))
             (\<lambda>v. checked_mul v dim) of
        None \<Rightarrow> Inl ShapeOverflow
      | Some n \<Rightarrow>
          (case alloc n of
             None \<Rightarrow> Inl AllocFailed
           | Some st \<Rightarrow>
               Inr \<lparr>kv_storage = st, kv_num_layers = nl, kv_num_blocks = nb, num_kv_heads = nh,
                    kv_block_size = bs, head_dim = dim\<rparr>))"

definition block_elements :: "'st paged_kv \<Rightarrow> nat" where
  "block_elements p = wmul (wmul (num_kv_heads p) (kv_block_size p)) (head_dim p)"

definition layer_stride :: "'st paged_kv \<Rightarrow> nat" where
  "layer_stride p = wmul (wmul 2 (kv_num_blocks p)) (block_elements p)"

definition kv_stride :: "'st paged_kv \<Rightarrow> nat" where
  "kv_stride p = wmul (kv_num_blocks p) (block_elements p)"

definition block_offset :: "'st paged_kv \<Rightarrow> nat \<Rightarrow> kv_kind \<Rightarrow> nat \<Rightarrow> kv_error + nat" where
  "block_offset p layer kv i =
     checked_block_offset layer (kv_num_layers p) kv i (kv_num_blocks p) (block_elements p)"

definition total_elements :: "'st paged_kv \<Rightarrow> nat" where
  "total_elements p =
     wmul (wmul (wmul (wmul (wmul (kv_num_layers p) 2) (kv_num_blocks p)) (num_kv_heads p))
       (kv_block_size p)) (head_dim p)"

section \<open>The buffer is cut into disjoint blocks\<close>

lemma bind_checked_mul:
  "Option.bind (checked_mul a b) f = Some c \<longleftrightarrow> a * b \<le> usize_max \<and> f (a * b) = Some c"
  by (auto simp: checked_mul_def)

lemma new_paged_kv_shape:
  assumes "new_paged_kv alloc nl nb nh bs dim = Inr p"
  shows "kv_num_layers p = nl" "kv_num_blocks p = nb" "num_kv_heads p = nh" "kv_block_size p = bs"
    "head_dim p = dim" "nl * 2 * nb * nh * bs * dim \<le> usize_max"
    "alloc (nl * 2 * nb * nh * bs * dim) = Some (kv_storage p)"
    "nl * 2 \<le> usize_max" "nl * 2 * nb \<le> usize_max" "nl * 2 * nb * nh \<le> usize_max"
    "nl * 2 * nb * nh * bs \<le> usize_max"
  using assms unfolding new_paged_kv_def
  by (auto split: option.splits simp: bind_checked_mul checked_mul_Some)

lemma block_elements_exact:
  assumes p: "new_paged_kv alloc nl nb nh bs dim = Inr p" and "0 < nl" and "0 < nb"
  shows "block_elements p = nh * bs * dim" and "nl * 2 * nb * (nh * bs * dim) \<le> usize_max"
proof -
  note s = new_paged_kv_shape [OF p]
  show t: "nl * 2 * nb * (nh * bs * dim) \<le> usize_max" using s(6) by (simp add: ac_simps)
  have one: "1 \<le> nl * 2 * nb" using assms(2,3) by simp
  have "nh * bs \<le> nl * 2 * nb * (nh * bs)" using mult_le_mono1 [OF one, of "nh * bs"] unfolding nat_mult_1 .
  also have "\<dots> \<le> usize_max" using s(11) by (simp add: ac_simps)
  finally have "nh * bs \<le> usize_max" .
  moreover have "nh * bs * dim \<le> usize_max"
    using le_trans [OF mult_le_mono1 [OF one, of "nh * bs * dim"] t] unfolding nat_mult_1 .
  ultimately show "block_elements p = nh * bs * dim"
    by (simp add: block_elements_def s(1-5) wmul_exact)
qed

lemma radix_bound:
  fixes l n r m :: nat
  assumes "l < n" and "r < m"
  shows "l * m + r < n * m"
proof -
  have "l * m + r < Suc l * m" using assms(2) by simp
  also have "\<dots> \<le> n * m" using assms(1) by (intro mult_le_mono1) simp
  finally show ?thesis .
qed

text \<open>The offset of a block is its index in layer, half, block order times the block's size.\<close>

definition slot_index :: "nat \<Rightarrow> nat \<Rightarrow> kv_kind \<Rightarrow> nat \<Rightarrow> nat" where
  "slot_index nblocks layer kv i = (layer * 2 + kv_index kv) * nblocks + i"

lemma kv_index_less: "kv_index kv < 2"
  by (cases kv) simp_all

lemma slot_index_bound:
  assumes "layer < nl" and "i < nb"
  shows "slot_index nb layer kv i < nl * 2 * nb"
  unfolding slot_index_def by (intro radix_bound assms kv_index_less)

lemma slot_index_inj:
  assumes "i < nb" and "i' < nb" and "slot_index nb l k i = slot_index nb l' k' i'"
  shows "l = l' \<and> k = k' \<and> i = i'"
proof -
  have nb: "0 < nb" using assms(1) by simp
  have "slot_index nb l k i div nb = l * 2 + kv_index k" "slot_index nb l k i mod nb = i"
    "slot_index nb l' k' i' div nb = l' * 2 + kv_index k'" "slot_index nb l' k' i' mod nb = i'"
    using assms(1,2) nb by (simp_all add: slot_index_def)
  then have ii: "i = i'" and lk: "l * 2 + kv_index k = l' * 2 + kv_index k'" using assms(3) by simp_all
  have "l = l'" using arg_cong [OF lk, of "\<lambda>x. x div 2"] kv_index_less [of k] kv_index_less [of k'] by simp
  moreover have "k = k'" using lk \<open>l = l'\<close> by (cases k; cases k') simp_all
  ultimately show ?thesis using ii by simp
qed

lemma block_offset_exact:
  assumes p: "new_paged_kv alloc nl nb nh bs dim = Inr p" and l: "layer < nl" and i: "i < nb"
  shows "block_offset p layer kv i = Inr (slot_index nb layer kv i * (nh * bs * dim))"
proof -
  note s = new_paged_kv_shape [OF p]
  have pos: "0 < nl" "0 < nb" using l i by simp_all
  note be = block_elements_exact [OF p pos]
  let ?e = "nh * bs * dim"
  have le: "x * ?e \<le> usize_max" if "x \<le> nl * 2 * nb" for x
    using mult_le_mono1 [OF that, of ?e] be(2) by (rule le_trans)
  have b1: "nb \<le> nl * 2 * nb" "nb * 2 \<le> nl * 2 * nb" using pos by simp_all
  have b3: "layer * (2 * nb) \<le> nl * 2 * nb" using l by (simp add: mult.assoc)
  have ix: "slot_index nb layer kv i \<le> nl * 2 * nb" using slot_index_bound [OF l i, of kv] by simp
  have b4: "layer * 2 * nb + kv_index kv * nb \<le> nl * 2 * nb"
    using ix unfolding slot_index_def add_mult_distrib by (rule add_leD1)
  have 1: "checked_mul nb ?e = Some (nb * ?e)" using le [OF b1(1)] by (simp add: checked_mul_Some)
  have 2: "checked_mul (nb * ?e) 2 = Some (2 * nb * ?e)"
    using le [OF b1(2)] by (simp add: checked_mul_Some ac_simps)
  have 3: "checked_mul layer (2 * nb * ?e) = Some (layer * (2 * nb) * ?e)"
    using le [OF b3] by (simp add: checked_mul_Some ac_simps)
  have k: "wmul (kv_index kv) (nb * ?e) = kv_index kv * nb * ?e"
  proof (cases kv)
    case ValueHalf
    have "1 * (nb * ?e) \<le> usize_max" using le [OF b1(1)] by simp
    then show ?thesis using ValueHalf wmul_exact by simp
  qed (simp add: wmul_def)
  have 4: "checked_add (layer * (2 * nb) * ?e) (kv_index kv * nb * ?e) =
      Some ((layer * 2 * nb + kv_index kv * nb) * ?e)"
    using le [OF b4] by (simp add: checked_add_Some algebra_simps)
  have w: "wmul i ?e = i * ?e" using le [of i] i b1(1) by (simp add: wmul_exact)
  have 5: "checked_add ((layer * 2 * nb + kv_index kv * nb) * ?e) (i * ?e) =
      Some (slot_index nb layer kv i * ?e)"
    using le [OF ix] by (simp add: checked_add_Some slot_index_def algebra_simps)
  show ?thesis
    using l i by (simp add: block_offset_def checked_block_offset_def s be(1) 1 2 3 k 4 w 5)
qed

section \<open>Pool geometry\<close>

record pool_geometry =
  geo_num_layers :: nat
  geo_block_size :: nat
  kv_elems_per_slot :: nat
  scale_elems_per_slot :: nat

definition uniform_geometry :: "nat \<Rightarrow> nat \<Rightarrow> nat \<Rightarrow> nat \<Rightarrow> pool_geometry" where
  "uniform_geometry nl bs n_kv dim =
     \<lparr> geo_num_layers = nl, geo_block_size = bs, kv_elems_per_slot = wmul (wmul nl n_kv) dim,
       scale_elems_per_slot = wmul nl n_kv \<rparr>"

definition geometry_from_layer_shapes :: "nat \<Rightarrow> (nat \<times> nat) list \<Rightarrow> pool_geometry" where
  "geometry_from_layer_shapes bs shapes =
     \<lparr> geo_num_layers = length shapes, geo_block_size = bs,
       kv_elems_per_slot = foldl wadd 0 (map (\<lambda>(n_kv, dim). wmul n_kv dim) shapes),
       scale_elems_per_slot = foldl wadd 0 (map fst shapes) \<rparr>"

definition bytes_per_block :: "pool_geometry \<Rightarrow> nat" where
  "bytes_per_block g =
     (let slots = geo_block_size g;
          kv_bytes = wmul (wmul 2 slots) (kv_elems_per_slot g);
          scale_bytes = wmul (wmul (wmul 2 slots) (scale_elems_per_slot g)) 4
      in wadd kv_bytes scale_bytes)"

definition pool_bytes :: "nat \<Rightarrow> pool_geometry \<Rightarrow> nat" where
  "pool_bytes n g = wmul n (bytes_per_block g)"

text \<open>\<open>checked_div\<close> is \<open>None\<close> only for a zero divisor.\<close>

definition max_blocks_for_budget :: "nat \<Rightarrow> pool_geometry \<Rightarrow> nat" where
  "max_blocks_for_budget budget g = (if bytes_per_block g = 0 then 0 else budget div bytes_per_block g)"

lemma max_blocks_fit:
  assumes "budget \<le> usize_max"
  shows "pool_bytes (max_blocks_for_budget budget g) g \<le> budget"
proof (cases "bytes_per_block g = 0")
  case False
  have le: "budget div bytes_per_block g * bytes_per_block g \<le> budget" by simp
  have "pool_bytes (max_blocks_for_budget budget g) g = budget div bytes_per_block g * bytes_per_block g"
    using wmul_exact [OF le_trans [OF le assms]] False
    by (simp add: pool_bytes_def max_blocks_for_budget_def)
  with le show ?thesis by simp
qed (simp add: pool_bytes_def max_blocks_for_budget_def wmul_def)

lemma max_blocks_largest:
  assumes "n * bytes_per_block g \<le> budget" and "0 < bytes_per_block g"
  shows "n \<le> max_blocks_for_budget budget g"
  using assms by (simp add: max_blocks_for_budget_def less_eq_div_iff_mult_less_eq)

text \<open>A model whose layers all have one shape has the same geometry either way.\<close>

lemma wadd_step: "m * x mod 2 ^ 64 = a \<Longrightarrow> wadd a (x mod 2 ^ 64) = Suc m * x mod 2 ^ 64"
  by (auto simp: wadd_def mod_simps add.commute)

lemma foldl_wadd_replicate:
  "foldl wadd (k * x mod 2 ^ 64) (replicate n (x mod 2 ^ 64)) = (k + n) * x mod 2 ^ 64"
proof (induction n arbitrary: k)
  case (Suc n)
  have "wadd (k * x mod 2 ^ 64) (x mod 2 ^ 64) = Suc k * x mod 2 ^ 64" by (rule wadd_step) simp
  then show ?case using Suc.IH [of "Suc k"] by simp
qed simp

lemma geometry_uniform_shapes:
  assumes "n_kv \<le> usize_max"
  shows "geometry_from_layer_shapes bs (replicate nl (n_kv, dim)) = uniform_geometry nl bs n_kv dim"
proof -
  have small: "n_kv mod 2 ^ 64 = n_kv" using assms by (simp add: usize_max_def)
  have "foldl wadd 0 (replicate nl (n_kv * dim mod 2 ^ 64)) = nl * (n_kv * dim) mod 2 ^ 64"
    using foldl_wadd_replicate [of 0 "n_kv * dim" nl] by simp
  moreover have "foldl wadd 0 (replicate nl n_kv) = nl * n_kv mod 2 ^ 64"
    using foldl_wadd_replicate [of 0 n_kv nl] unfolding small by simp
  moreover have "nl * n_kv mod 2 ^ 64 * dim mod 2 ^ 64 = nl * (n_kv * dim) mod 2 ^ 64"
    by (simp add: mod_mult_left_eq mult.assoc)
  ultimately show ?thesis
    by (simp add: geometry_from_layer_shapes_def uniform_geometry_def wmul_def)
qed

section \<open>Properties\<close>

text \<open>
  Once the cache was built, every block of every layer has its own place: the offset of an
  in-range block is computed without error, its whole block lies inside the allocated buffer, and
  the blocks of two different (layer, half, block) triples do not overlap.
\<close>

theorem kv_blocks_are_disjoint:
  assumes "new_paged_kv alloc nl nb nh bs dim = Inr p"
    and "layer < nl" and "i < nb" and "layer' < nl" and "i' < nb"
    and "(layer, kv, i) \<noteq> (layer', kv', i')"
  shows "\<exists>off off'. block_offset p layer kv i = Inr off \<and> block_offset p layer' kv' i' = Inr off' \<and>
    off + block_elements p \<le> nl * 2 * nb * nh * bs * dim \<and>
    (off + block_elements p \<le> off' \<or> off' + block_elements p \<le> off)"
proof -
  let ?e = "nh * bs * dim" and ?x = "slot_index nb layer kv i" and ?x' = "slot_index nb layer' kv' i'"
  have pos: "0 < nl" "0 < nb" using assms(2,3) by simp_all
  have e: "block_elements p = ?e" by (rule block_elements_exact(1) [OF assms(1) pos])
  have "?x \<noteq> ?x'" using slot_index_inj [OF assms(3,5)] assms(6) by blast
  then have "Suc ?x \<le> ?x' \<or> Suc ?x' \<le> ?x" by linarith
  then have apart: "?x * ?e + ?e \<le> ?x' * ?e \<or> ?x' * ?e + ?e \<le> ?x * ?e"
    using mult_le_mono1 [of "Suc ?x" ?x' ?e] mult_le_mono1 [of "Suc ?x'" ?x ?e] by (auto simp: add.commute)
  have "Suc ?x * ?e \<le> nl * 2 * nb * ?e" using slot_index_bound [OF assms(2,3), of kv] by (intro mult_le_mono1) simp
  then have inside: "?x * ?e + ?e \<le> nl * 2 * nb * nh * bs * dim" by (simp add: ac_simps)
  show ?thesis
    using block_offset_exact [OF assms(1,2,3)] block_offset_exact [OF assms(1,4,5)] apart inside e by auto
qed

theorem kv_blocks_are_disjoint_witness:
  "\<exists>p :: unit paged_kv. new_paged_kv (\<lambda>n. Some ()) 2 3 4 5 6 = Inr p \<and>
     (\<exists>off off'. block_offset p 1 ValueHalf 2 = Inr off \<and> block_offset p 1 KeyHalf 2 = Inr off' \<and> off \<noteq> off')"
proof -
  have "\<exists>p :: unit paged_kv. new_paged_kv (\<lambda>n. Some ()) 2 3 4 5 6 = Inr p"
    by (simp add: new_paged_kv_def checked_mul_def usize_max_def)
  then obtain p :: "unit paged_kv" where p: "new_paged_kv (\<lambda>n. Some ()) 2 3 4 5 6 = Inr p" ..
  have "0 < block_elements p" using block_elements_exact(1) [OF p] by simp
  then show ?thesis
    using kv_blocks_are_disjoint [OF p, of 1 2 1 2 ValueHalf KeyHalf] p by force
qed

text \<open>
  Sizing the pool from a byte budget gives the largest number of blocks that fits: their bytes
  stay within the budget and one more block would not.
\<close>

theorem budget_buys_largest_pool:
  assumes "budget \<le> usize_max" and "0 < bytes_per_block g"
  shows "pool_bytes (max_blocks_for_budget budget g) g \<le> budget \<and>
    budget < (max_blocks_for_budget budget g + 1) * bytes_per_block g"
proof -
  have "budget < (max_blocks_for_budget budget g + 1) * bytes_per_block g"
    using max_blocks_largest [OF _ assms(2), of "max_blocks_for_budget budget g + 1" budget]
    by (rule_tac ccontr) (simp add: not_less)
  then show ?thesis using max_blocks_fit [OF assms(1)] by blast
qed

theorem budget_buys_largest_pool_witness:
  "max_blocks_for_budget 100000 (uniform_geometry 2 16 4 64) = 5 \<and>
   pool_bytes (max_blocks_for_budget 100000 (uniform_geometry 2 16 4 64)) (uniform_geometry 2 16 4 64) \<le> 100000"
proof -
  have b: "bytes_per_block (uniform_geometry 2 16 4 64) = 17408"
    by (simp add: bytes_per_block_def uniform_geometry_def wmul_def wadd_def)
  then show ?thesis
    using budget_buys_largest_pool [of 100000 "uniform_geometry 2 16 4 64"]
    by (simp add: max_blocks_for_budget_def usize_max_def)
qed

end
