(* ===== verification/Block_Pool.thy ===== *)
theory Block_Pool
  imports Block_Manager
begin

text \<open>
  The reference-count invariant of the block pool and its preservation by every operation of
  \<open>Block_Manager\<close>. The references held outside the pool, that is all entries of all block tables,
  are a multiset \<open>H\<close> of block ids; \<open>pool_ok bm H\<close> says that each reference count equals the
  number of holders, that the free list holds exactly the unreferenced blocks, once each, and
  that the hash map only names blocks that carry the hash, and that a block held more than once
  carries a hash (a block without one is written by its only holder).
\<close>

section \<open>The invariant\<close>

declare count_eq_zero_iff [simp]

definition pool_ok :: "block_manager \<Rightarrow> nat multiset \<Rightarrow> bool" where
  "pool_ok bm H \<longleftrightarrow>
     length (blocks bm) = num_blocks bm \<and>
     (\<forall>i<num_blocks bm. blk_id (blocks bm ! i) = i) \<and>
     (\<forall>i<num_blocks bm. ref_count (blocks bm ! i) = count H i) \<and>
     (\<forall>i. num_blocks bm \<le> i \<longrightarrow> count H i = 0) \<and>
     distinct (free_list bm) \<and>
     set (free_list bm) = {i. i < num_blocks bm \<and> count H i = 0} \<and>
     (\<forall>h i. hash_to_block bm h = Some i \<longrightarrow>
        i < num_blocks bm \<and> blk_hash (blocks bm ! i) = Some h) \<and>
     (\<forall>i. 1 < count H i \<longrightarrow> blk_hash (blocks bm ! i) \<noteq> None)"

lemma pool_okD:
  assumes "pool_ok bm H"
  shows "length (blocks bm) = num_blocks bm"
    and "i < num_blocks bm \<Longrightarrow> blk_id (blocks bm ! i) = i"
    and "i < num_blocks bm \<Longrightarrow> ref_count (blocks bm ! i) = count H i"
    and "num_blocks bm \<le> i \<Longrightarrow> count H i = 0"
    and "distinct (free_list bm)"
    and "set (free_list bm) = {i. i < num_blocks bm \<and> count H i = 0}"
    and "hash_to_block bm h = Some i \<Longrightarrow> i < num_blocks bm"
    and "hash_to_block bm h = Some i \<Longrightarrow> blk_hash (blocks bm ! i) = Some h"
    and "1 < count H i \<Longrightarrow> blk_hash (blocks bm ! i) \<noteq> None"
  using assms by (auto simp: pool_ok_def)

lemma pool_okI:
  assumes "length (blocks bm) = num_blocks bm"
    and "\<And>i. i < num_blocks bm \<Longrightarrow> blk_id (blocks bm ! i) = i"
    and "\<And>i. i < num_blocks bm \<Longrightarrow> ref_count (blocks bm ! i) = count H i"
    and "\<And>i. num_blocks bm \<le> i \<Longrightarrow> count H i = 0"
    and "distinct (free_list bm)"
    and "set (free_list bm) = {i. i < num_blocks bm \<and> count H i = 0}"
    and "\<And>h i. hash_to_block bm h = Some i \<Longrightarrow>
           i < num_blocks bm \<and> blk_hash (blocks bm ! i) = Some h"
    and "\<And>i. 1 < count H i \<Longrightarrow> blk_hash (blocks bm ! i) \<noteq> None"
  shows "pool_ok bm H"
  using assms by (simp add: pool_ok_def)

lemma pool_ok_held: "pool_ok bm H \<Longrightarrow> i \<in># H \<Longrightarrow> i < num_blocks bm"
  using pool_okD(4) [of bm H i] by (metis not_in_iff not_less)

lemma pool_ok_shared: "pool_ok bm H \<Longrightarrow> 1 < count H i \<Longrightarrow> i < num_blocks bm"
  using pool_ok_held [of bm H i] by (metis count_greater_zero_iff less_trans zero_less_one)

section \<open>Field access through updates\<close>

lemma upd_block_fields [simp]:
  "num_blocks (upd_block i f bm) = num_blocks bm"
  "block_size (upd_block i f bm) = block_size bm"
  "free_list (upd_block i f bm) = free_list bm"
  "hash_to_block (upd_block i f bm) = hash_to_block bm"
  "length (blocks (upd_block i f bm)) = length (blocks bm)"
  by (simp_all add: upd_block_def)

lemma nth_upd_block:
  "j < length (blocks bm) \<Longrightarrow>
   blocks (upd_block i f bm) ! j = (if j = i then f (blocks bm ! i) else blocks bm ! j)"
  by (auto simp: upd_block_def)

lemma retire_hash_fields [simp]:
  "num_blocks (retire_hash i bm) = num_blocks bm"
  "block_size (retire_hash i bm) = block_size bm"
  "free_list (retire_hash i bm) = free_list bm"
  "blocks (retire_hash i bm) = blocks bm"
  by (auto simp: retire_hash_def split: option.splits)

lemma hash_to_block_retire:
  "hash_to_block (retire_hash i bm) h =
     (if blk_hash (blocks bm ! i) = Some h \<and> hash_to_block bm h = Some i then None
      else hash_to_block bm h)"
  by (auto simp: retire_hash_def split: option.splits)

section \<open>The initial pool\<close>

lemma pool_ok_init: "n < 2 ^ 32 \<Longrightarrow> pool_ok (new_block_manager n bs) {#}"
  by (auto simp: pool_ok_def new_block_manager_def new_block_def)

section \<open>Taking a block\<close>

lemma pop_free_Inl_iff: "fst (pop_free bm) = Inl e \<longleftrightarrow> free_list bm = [] \<and> e = NoFreeBlocks"
  by (auto simp: pop_free_def split: list.splits)

lemma pop_free_InlD: "pop_free bm = (Inl e, bm') \<Longrightarrow> bm' = bm \<and> free_list bm = []"
  by (auto simp: pop_free_def split: list.splits)

lemma pop_free_Inr:
  assumes "pop_free bm = (Inr i, bm')"
  shows "free_list bm = i # free_list bm'"
    and "num_blocks bm' = num_blocks bm" and "block_size bm' = block_size bm"
    and "length (blocks bm') = length (blocks bm)"
    and "j < length (blocks bm) \<Longrightarrow>
         blocks bm' ! j = (if j = i then reset_block (blocks bm ! i) else blocks bm ! j)"
    and "hash_to_block bm' h =
         (if blk_hash (blocks bm ! i) = Some h \<and> hash_to_block bm h = Some i then None
          else hash_to_block bm h)"
  using assms by (auto simp: pop_free_def nth_upd_block hash_to_block_retire split: list.splits)

lemma pool_ok_pop:
  assumes ok: "pool_ok bm H" and pop: "pop_free bm = (Inr i, bm')"
  shows "pool_ok bm' (add_mset i H)" and "i < num_blocks bm" and "count H i = 0"
proof -
  note f = pop_free_Inr [OF pop] and d = pool_okD [OF ok]
  show i: "i < num_blocks bm" and c: "count H i = 0" using f(1) d(6) by auto
  have rest: "set (free_list bm') = set (free_list bm) - {i}"
    using d(5) f(1) by auto
  show "pool_ok bm' (add_mset i H)"
  proof (rule pool_okI)
    show "set (free_list bm') = {j. j < num_blocks bm' \<and> count (add_mset i H) j = 0}"
      unfolding rest d(6) f(2) by auto
    show "distinct (free_list bm')" using d(5) f(1) by simp
    fix h j assume "hash_to_block bm' h = Some j"
    then have "hash_to_block bm h = Some j" and "j \<noteq> i"
      using d(8) [of h j] by (auto simp: f(6) split: if_splits)
    then show "j < num_blocks bm' \<and> blk_hash (blocks bm' ! j) = Some h"
      using d(1,7,8) by (simp add: f)
  next
    fix j assume "1 < count (add_mset i H) j"
    then have "j \<noteq> i" and "1 < count H j" using c by (auto split: if_splits)
    moreover from this have "j < num_blocks bm" using pool_ok_shared [OF ok] by blast
    ultimately show "blk_hash (blocks bm' ! j) \<noteq> None" using d(1) d(9) [of j] f(5) [of j] by simp
  qed (use d(1-4) i c in \<open>auto simp: f(2,4,5) reset_block_def\<close>)
qed

lemma pool_ok_upd_frame:
  assumes ok: "pool_ok bm H"
    and f: "\<And>b. blk_id (f b) = blk_id b \<and> ref_count (f b) = ref_count b"
    and h: "\<And>h. blk_hash (blocks bm ! i) = Some h \<Longrightarrow> blk_hash (f (blocks bm ! i)) = Some h"
  shows "pool_ok (upd_block i f bm) H"
proof (rule pool_okI)
  note d = pool_okD [OF ok]
  fix j assume j: "1 < count H j"
  then have "j < num_blocks bm" by (rule pool_ok_shared [OF ok])
  then show "blk_hash (blocks (upd_block i f bm) ! j) \<noteq> None"
    using d(1) d(9) [OF j] h by (auto simp: nth_upd_block)
qed (use pool_okD [OF ok] f h in \<open>auto simp: nth_upd_block\<close>)

lemma pool_ok_map_upd:
  assumes ok: "pool_ok bm H" and i: "i < num_blocks bm" and h: "blk_hash (blocks bm ! i) = Some h"
  shows "pool_ok (bm\<lparr>hash_to_block := (hash_to_block bm)(h \<mapsto> i)\<rparr>) H"
  using ok i h unfolding pool_ok_def by auto

lemma take_shared_fields:
  "num_blocks (take_shared i bm) = num_blocks bm"
  "block_size (take_shared i bm) = block_size bm"
  "length (blocks (take_shared i bm)) = length (blocks bm)"
  "hash_to_block (take_shared i bm) = hash_to_block bm"
  by (simp_all add: take_shared_def)

lemma nth_take_shared:
  "j < length (blocks bm) \<Longrightarrow> blocks (take_shared i bm) ! j =
     (if j = i then (blocks bm ! i)\<lparr>ref_count := ref_count (blocks bm ! i) + 1\<rparr> else blocks bm ! j)"
  by (simp add: take_shared_def nth_upd_block)

lemma pool_ok_take_shared:
  assumes ok: "pool_ok bm H" and i: "i < num_blocks bm" and hash: "blk_hash (blocks bm ! i) \<noteq> None"
  shows "pool_ok (take_shared i bm) (add_mset i H)"
proof (rule pool_okI)
  note d = pool_okD [OF ok]
  have free: "free_list (take_shared i bm) = filter (\<lambda>x. x \<noteq> i) (free_list bm)"
  proof (cases "count H i = 0")
    case True
    then show ?thesis using d(3) [OF i] by (simp add: take_shared_def)
  next
    case False
    then have "filter (\<lambda>x. x \<noteq> i) (free_list bm) = free_list bm"
      using d(6) by (intro filter_True) auto
    with False show ?thesis using d(3) [OF i] by (simp add: take_shared_def)
  qed
  show "set (free_list (take_shared i bm)) =
      {j. j < num_blocks (take_shared i bm) \<and> count (add_mset i H) j = 0}"
    unfolding free take_shared_fields using d(6) by auto
  show "distinct (free_list (take_shared i bm))"
    unfolding free using d(5) by simp
  fix j assume j: "1 < count (add_mset i H) j"
  show "blk_hash (blocks (take_shared i bm) ! j) \<noteq> None"
  proof (cases "j = i")
    case True
    then show ?thesis using hash i d(1) by (simp add: nth_take_shared)
  next
    case False
    then have c: "1 < count H j" using j by simp
    then have "j < num_blocks bm" by (rule pool_ok_shared [OF ok])
    then show ?thesis using False d(1) d(9) [OF c] by (simp add: nth_take_shared)
  qed
qed (use pool_okD [OF ok] i in \<open>auto simp: take_shared_fields nth_take_shared\<close>)

section \<open>Returning a block\<close>

lemma release_one_fields [simp]:
  "num_blocks (release_one i bm) = num_blocks bm"
  "block_size (release_one i bm) = block_size bm"
  "length (blocks (release_one i bm)) = length (blocks bm)"
  "hash_to_block (release_one i bm) = hash_to_block bm"
  by (simp_all add: release_one_def Let_def)

lemma nth_release_one:
  "j < length (blocks bm) \<Longrightarrow> blocks (release_one i bm) ! j =
     (if j = i then (blocks bm ! i)\<lparr>ref_count := ref_count (blocks bm ! i) - 1\<rparr> else blocks bm ! j)"
  by (simp add: release_one_def Let_def nth_upd_block)

lemma pool_ok_release_one:
  assumes ok: "pool_ok bm (add_mset i H)"
  shows "pool_ok (release_one i bm) H"
proof (rule pool_okI)
  note d = pool_okD [OF ok]
  have i: "i < num_blocks bm" using pool_ok_held [OF ok] by simp
  have r: "ref_count (blocks bm ! i) = Suc (count H i)" using d(3) i by simp
  have notin: "i \<notin> set (free_list bm)" using d(6) by auto
  have free: "free_list (release_one i bm) = free_list bm @ (if count H i = 0 then [i] else [])"
    using r by (simp add: release_one_def Let_def count_eq_zero_iff)
  show "set (free_list (release_one i bm)) = {j. j < num_blocks (release_one i bm) \<and> count H j = 0}"
  proof (cases "count H i = 0")
    case True
    have "set (free_list bm) \<union> {i} = {j. j < num_blocks bm \<and> count H j = 0}"
      unfolding d(6) using i True by auto
    with True show ?thesis by (simp add: free)
  next
    case False
    have "set (free_list bm) = {j. j < num_blocks bm \<and> count H j = 0}"
      unfolding d(6) using False by auto
    with False show ?thesis by (simp add: free)
  qed
  show "distinct (free_list (release_one i bm))"
    unfolding free using d(5) notin by simp
  fix j assume "num_blocks (release_one i bm) \<le> j"
  then show "count H j = 0" using d(4) [of j] i by (simp split: if_splits)
next
  note d = pool_okD [OF ok]
  fix j assume j: "1 < count H j"
  then have j': "1 < count (add_mset i H) j" by (metis count_add_mset less_Suc_eq)
  then have "j < num_blocks bm" by (rule pool_ok_shared [OF ok])
  moreover note j'
  ultimately show "blk_hash (blocks (release_one i bm) ! j) \<noteq> None"
    using d(1) d(9) [of j] by (auto simp: nth_release_one)
qed (use pool_okD [OF ok] in \<open>auto simp: nth_release_one split: if_splits\<close>)

lemma pool_ok_release_list:
  "pool_ok bm (mset ids + H) \<Longrightarrow> pool_ok (fold release_one ids bm) H"
  by (induction ids arbitrary: bm) (auto intro: pool_ok_release_one)

lemma pool_ok_release_ids: "pool_ok bm (mset ids + H) \<Longrightarrow> pool_ok (release_ids ids bm) H"
  unfolding release_ids_def by (rule pool_ok_release_list) simp

lemma pool_ok_deallocate:
  "pool_ok bm (mset (block_table s) + H) \<Longrightarrow> pool_ok (deallocate s bm) H"
  unfolding deallocate_def by (rule pool_ok_release_list) simp

text \<open>Releasing ids that nobody references changes nothing, so a double release is harmless.\<close>

lemma release_one_unreferenced: "ref_count (blocks bm ! i) = 0 \<Longrightarrow> release_one i bm = bm"
  by (simp add: release_one_def Let_def)

lemma release_list_fields [simp]:
  "num_blocks (fold release_one ids bm) = num_blocks bm"
  "block_size (fold release_one ids bm) = block_size bm"
  "length (blocks (fold release_one ids bm)) = length (blocks bm)"
  "hash_to_block (fold release_one ids bm) = hash_to_block bm"
  by (induction ids arbitrary: bm) simp_all


section \<open>The pool as a reference-counted pool\<close>

lemma pool_ok_conserved:
  assumes "pool_ok bm H"
  shows "num_free bm + card (set_mset H) = num_blocks bm"
proof -
  note d = pool_okD [OF assms]
  have "set_mset H \<subseteq> {..<num_blocks bm}" using pool_ok_held [OF assms] by auto
  then have all: "set (free_list bm) \<union> set_mset H = {..<num_blocks bm}" by (auto simp: d(6))
  have "set (free_list bm) \<inter> set_mset H = {}" by (auto simp: d(6))
  then have "card (set (free_list bm)) + card (set_mset H) = num_blocks bm"
    using card_Un_disjoint [of "set (free_list bm)" "set_mset H"] all by simp
  then show ?thesis using distinct_card [OF d(5)] by (simp add: num_free_def)
qed

interpretation block_pool: reference_pool pool_ok num_blocks num_free pop_free release_one
proof
  fix bm H i bm' assume ok: "pool_ok bm H" and p: "pop_free bm = (Inr i, bm')"
  show "pool_ok bm' (add_mset i H) \<and> i \<notin># H \<and> num_blocks bm' = num_blocks bm"
    using pool_ok_pop [OF ok p] pop_free_Inr(2) [OF p] by auto
next
  fix bm H e assume "pool_ok bm H" and "fst (pop_free bm) = Inl e"
  then show "num_free bm = 0" by (simp add: pop_free_Inl_iff num_free_def)
next
  fix bm H i assume "pool_ok bm (add_mset i H)"
  then show "pool_ok (release_one i bm) H \<and> num_blocks (release_one i bm) = num_blocks bm"
    by (simp add: pool_ok_release_one)
next
  fix bm H assume "pool_ok bm H"
  then show "num_free bm + card (set_mset H) = num_blocks bm" by (rule pool_ok_conserved)
qed

end
