(* ===== verification/Block_Alloc.thy ===== *)
theory Block_Alloc
  imports Block_Pool
begin

text \<open>
  What the allocating operations of the block manager promise: the reference counts stay exact, a
  refused allocation gives back what it took, an allocation that passes the free-block check
  succeeds, held blocks are never rewritten, and the table handed out describes the sequence.
\<close>

section \<open>Contents of held blocks\<close>

definition same_content :: "block \<Rightarrow> block \<Rightarrow> bool" where
  "same_content b c \<longleftrightarrow>
     blk_hash b = blk_hash c \<and> blk_tokens b = blk_tokens c \<and> kv_computed b = kv_computed c"

definition keeps_held :: "nat multiset \<Rightarrow> block_manager \<Rightarrow> block_manager \<Rightarrow> bool" where
  "keeps_held H bm bm' \<longleftrightarrow>
     num_blocks bm' = num_blocks bm \<and> block_size bm' = block_size bm \<and>
     (\<forall>j\<in>#H. same_content (blocks bm ! j) (blocks bm' ! j))"

lemma same_content_refl [simp]: "same_content b b"
  by (simp add: same_content_def)

lemma keeps_held_refl [simp]: "keeps_held H bm bm"
  by (simp add: keeps_held_def)

lemma keeps_held_trans:
  "keeps_held H a b \<Longrightarrow> keeps_held H' b c \<Longrightarrow> H \<subseteq># H' \<Longrightarrow> keeps_held H a c"
  by (auto simp: keeps_held_def same_content_def dest: mset_subset_eqD)

lemma keeps_held_mono: "keeps_held H a b \<Longrightarrow> H' \<subseteq># H \<Longrightarrow> keeps_held H' a b"
  by (auto simp: keeps_held_def dest: mset_subset_eqD)

lemma keeps_held_pop:
  assumes ok: "pool_ok bm H" and pop: "pop_free bm = (Inr i, bm')"
  shows "keeps_held H bm bm'"
  using pool_ok_pop(3) [OF ok pop] pool_ok_held [OF ok] pool_okD(1) [OF ok]
  by (auto simp: keeps_held_def pop_free_Inr [OF pop])

lemma keeps_held_upd:
  assumes ok: "pool_ok bm H" and f: "i \<notin># H"
  shows "keeps_held H bm (upd_block i f bm)"
  using f pool_ok_held [OF ok] pool_okD(1) [OF ok] by (auto simp: keeps_held_def nth_upd_block)

lemma keeps_held_take_shared:
  assumes ok: "pool_ok bm H"
  shows "keeps_held H bm (take_shared i bm)"
  using pool_ok_held [OF ok] pool_okD(1) [OF ok]
  by (auto simp: keeps_held_def take_shared_fields nth_take_shared same_content_def)

lemma keeps_held_release_list:
  assumes "length (blocks bm) = num_blocks bm"
  shows "set_mset H \<subseteq> {..<num_blocks bm} \<Longrightarrow> keeps_held H bm (fold release_one ids bm)"
  using assms
proof (induction ids arbitrary: bm)
  case (Cons i ids)
  have "j < length (blocks bm)" if "j \<in># H" for j
    using Cons.prems that by auto
  then have "keeps_held H bm (release_one i bm)"
    by (auto simp: keeps_held_def nth_release_one same_content_def)
  moreover have "keeps_held H (release_one i bm) (fold release_one ids (release_one i bm))"
    using Cons.prems by (intro Cons.IH) auto
  ultimately show ?case by (auto intro: keeps_held_trans)
qed simp

lemma keeps_held_release:
  "pool_ok bm H \<Longrightarrow> H' \<subseteq># H \<Longrightarrow> keeps_held H' bm (fold release_one ids bm)"
  using pool_okD(1) pool_ok_held by (intro keeps_held_release_list) (auto dest: mset_subset_eqD)

section \<open>Sharing or popping one block\<close>

lemma shareable_SomeD:
  assumes ok: "pool_ok bm H" and s: "shareable bm h ts = Some i"
  shows "hash_to_block bm h = Some i" and "i < num_blocks bm"
    and "blk_hash (blocks bm ! i) = Some h" and "blk_tokens (blocks bm ! i) = ts"
  using s pool_okD(7,8) [OF ok]
  by (auto simp: shareable_def split: option.splits if_splits)

definition relabel :: "u64 \<Rightarrow> token list \<Rightarrow> nat \<Rightarrow> block_manager \<Rightarrow> block_manager" where
  "relabel h ts i bm =
     (upd_block i (\<lambda>b. b\<lparr>blk_tokens := ts, blk_hash := Some h\<rparr>) bm)
       \<lparr>hash_to_block := (hash_to_block bm)(h \<mapsto> i)\<rparr>"

lemma share_or_pop_cases:
  assumes "share_or_pop bm h ts = (r, bm')"
  obtains (share) i where "shareable bm h ts = Some i" "r = Inr (i, True)" "bm' = take_shared i bm"
  | (pop) i bm1 where "shareable bm h ts = None" "pop_free bm = (Inr i, bm1)"
      "r = Inr (i, False)" "bm' = relabel h ts i bm1"
  | (fail) "shareable bm h ts = None" "pop_free bm = (Inl NoFreeBlocks, bm)"
      "r = Inl NoFreeBlocks" "bm' = bm"
proof (cases "shareable bm h ts")
  case None
  obtain q bm1 where q: "pop_free bm = (q, bm1)" by (cases "pop_free bm")
  show ?thesis
  proof (cases q)
    case (Inl e)
    then have "e = NoFreeBlocks" "bm1 = bm" using q by (auto simp: pop_free_def split: list.splits)
    then show ?thesis using fail None q Inl assms by (simp add: share_or_pop_def)
  next
    case (Inr i)
    then show ?thesis using pop None q assms by (simp add: share_or_pop_def relabel_def)
  qed
next
  case (Some i)
  then show ?thesis using share assms by (simp add: share_or_pop_def)
qed

lemma relabel_fields [simp]:
  "num_blocks (relabel h ts i bm) = num_blocks bm"
  "block_size (relabel h ts i bm) = block_size bm"
  "free_list (relabel h ts i bm) = free_list bm"
  "length (blocks (relabel h ts i bm)) = length (blocks bm)"
  "hash_to_block (relabel h ts i bm) = (hash_to_block bm)(h \<mapsto> i)"
  by (simp_all add: relabel_def)

lemma nth_relabel:
  "j < length (blocks bm) \<Longrightarrow> blocks (relabel h ts i bm) ! j =
     (if j = i then (blocks bm ! i)\<lparr>blk_tokens := ts, blk_hash := Some h\<rparr> else blocks bm ! j)"
  by (simp add: relabel_def nth_upd_block)

lemma pool_ok_relabel:
  assumes ok: "pool_ok bm H" and i: "i < num_blocks bm" and none: "blk_hash (blocks bm ! i) = None"
  shows "pool_ok (relabel h ts i bm) H"
proof -
  have "pool_ok (upd_block i (\<lambda>b. b\<lparr>blk_tokens := ts, blk_hash := Some h\<rparr>) bm) H"
    using ok none by (intro pool_ok_upd_frame) auto
  then have "pool_ok ((upd_block i (\<lambda>b. b\<lparr>blk_tokens := ts, blk_hash := Some h\<rparr>) bm)
      \<lparr>hash_to_block := (hash_to_block (upd_block i (\<lambda>b. b\<lparr>blk_tokens := ts, blk_hash := Some h\<rparr>) bm))
         (h \<mapsto> i)\<rparr>) H"
    using i pool_okD(1) [OF ok] by (intro pool_ok_map_upd) (auto simp: nth_upd_block)
  then show ?thesis by (simp add: relabel_def)
qed

lemma popped_block:
  assumes ok: "pool_ok bm H" and pop: "pop_free bm = (Inr i, bm1)"
  shows "blocks bm1 ! i = reset_block (blocks bm ! i)" and "i < num_blocks bm1"
    and "length (blocks bm1) = num_blocks bm1"
  using pool_ok_pop [OF ok pop] pool_okD(1) [OF ok] by (auto simp: pop_free_Inr [OF pop])

lemma pool_ok_share_or_pop:
  assumes ok: "pool_ok bm H" and r: "share_or_pop bm h ts = (Inr (i, sh), bm')"
  shows "pool_ok bm' (add_mset i H)" and "keeps_held H bm bm'" and "i < num_blocks bm"
    and "blk_hash (blocks bm' ! i) = Some h" and "blk_tokens (blocks bm' ! i) = ts"
    and "sh \<Longrightarrow> kv_computed (blocks bm' ! i) = kv_computed (blocks bm ! i)"
    and "\<not> sh \<Longrightarrow> \<not> kv_computed (blocks bm' ! i) \<and> i \<notin># H"
proof -
  note len = pool_okD(1) [OF ok]
  have "pool_ok bm' (add_mset i H) \<and> keeps_held H bm bm' \<and> i < num_blocks bm \<and>
    blk_hash (blocks bm' ! i) = Some h \<and> blk_tokens (blocks bm' ! i) = ts \<and>
    (sh \<longrightarrow> kv_computed (blocks bm' ! i) = kv_computed (blocks bm ! i)) \<and>
    (\<not> sh \<longrightarrow> \<not> kv_computed (blocks bm' ! i) \<and> i \<notin># H)"
    using r
  proof (cases rule: share_or_pop_cases)
    case (share k)
    note s = shareable_SomeD [OF ok share(1)]
    have "k = i" "sh" using share(2) by auto
    with s len show ?thesis
      by (simp add: share(3) pool_ok_take_shared [OF ok] keeps_held_take_shared [OF ok] nth_take_shared)
  next
    case (pop k bm1)
    have [simp]: "k = i" "\<not> sh" using pop(3) by auto
    note p = pool_ok_pop [OF ok pop(2)] popped_block [OF ok pop(2)]
    have ok1: "pool_ok bm1 (add_mset i H)" using p(1) by simp
    have "keeps_held H bm bm1" by (rule keeps_held_pop [OF ok pop(2)])
    moreover have "keeps_held H bm1 (relabel h ts i bm1)"
      using p pool_ok_held [OF ok] pop_free_Inr(2) [OF pop(2)]
      by (auto simp: keeps_held_def nth_relabel)
    ultimately have "keeps_held H bm bm'"
      using pop(4) by (auto intro: keeps_held_trans)
    moreover have "pool_ok bm' (add_mset i H)"
      using pop(4) p by (simp add: pool_ok_relabel [OF ok1] reset_block_def)
    ultimately show ?thesis using pop(4) p by (simp add: nth_relabel reset_block_def)
  qed simp
  then show "pool_ok bm' (add_mset i H)" and "keeps_held H bm bm'" and "i < num_blocks bm"
    and "blk_hash (blocks bm' ! i) = Some h" and "blk_tokens (blocks bm' ! i) = ts"
    and "sh \<Longrightarrow> kv_computed (blocks bm' ! i) = kv_computed (blocks bm ! i)"
    and "\<not> sh \<Longrightarrow> \<not> kv_computed (blocks bm' ! i) \<and> i \<notin># H"
    by auto
qed

lemma share_or_pop_Inl: "share_or_pop bm h ts = (Inl e, bm') \<Longrightarrow> bm' = bm \<and> free_list bm = []"
  by (erule share_or_pop_cases) (auto dest: pop_free_InlD)

section \<open>Acquiring a plan\<close>

text \<open>
  The number of blocks a plan takes off the free list, read off the current pool: an entry is
  free of charge only where it shares a block that is already referenced.
\<close>

fun entry_need :: "block_manager \<Rightarrow> u64 option \<times> token list \<Rightarrow> nat" where
  "entry_need bm (None, ts) = 1"
| "entry_need bm (Some h, ts) =
     (case shareable bm h ts of
        Some j \<Rightarrow> if ref_count (blocks bm ! j) = 0 then 1 else 0
      | None \<Rightarrow> 1)"

definition plan_need :: "block_manager \<Rightarrow> plan \<Rightarrow> nat" where
  "plan_need bm p = sum_by (entry_need bm) p"

text \<open>No two entries of the plan carry the same hash for different tokens.\<close>

definition plan_collision_free :: "plan \<Rightarrow> bool" where
  "plan_collision_free p \<longleftrightarrow>
     (\<forall>h ts ts'. (Some h, ts) \<in> set p \<longrightarrow> (Some h, ts') \<in> set p \<longrightarrow> ts = ts')"

lemma entry_need_le_1: "entry_need bm e \<le> 1"
  by (cases e; cases "fst e") (auto split: option.splits)

lemma entry_need_0_iff:
  "entry_need bm e = 0 \<longleftrightarrow>
     (\<exists>h j. fst e = Some h \<and> hash_to_block bm h = Some j \<and>
       blk_tokens (blocks bm ! j) = snd e \<and> ref_count (blocks bm ! j) \<noteq> 0)"
  by (cases e; cases "fst e") (auto simp: shareable_def split: option.splits if_splits)

lemma entry_need_mono:
  assumes "entry_need bm e = 0 \<Longrightarrow> entry_need bm' e = 0"
  shows "entry_need bm' e \<le> entry_need bm e"
  using assms entry_need_le_1 [of bm' e] entry_need_le_1 [of bm e] by linarith

lemma entry_need_take_shared:
  assumes ok: "pool_ok bm H"
  shows "entry_need (take_shared i bm) e \<le> entry_need bm e"
  using pool_okD(1,7) [OF ok]
  by (intro entry_need_mono) (fastforce simp: entry_need_0_iff take_shared_fields nth_take_shared)

lemma entry_need_popped:
  assumes ok: "pool_ok bm H" and pop: "pop_free bm = (Inr i, bm1)"
    and z: "entry_need bm e = 0"
  obtains h j where "fst e = Some h" "hash_to_block bm1 h = Some j" "j \<noteq> i" "j < length (blocks bm1)"
    "blk_tokens (blocks bm1 ! j) = snd e" "ref_count (blocks bm1 ! j) \<noteq> 0"
proof -
  note d = pool_okD [OF ok] and p = pool_ok_pop [OF ok pop]
  from z obtain h j where e: "fst e = Some h" "hash_to_block bm h = Some j"
    "blk_tokens (blocks bm ! j) = snd e" "ref_count (blocks bm ! j) \<noteq> 0"
    by (auto simp: entry_need_0_iff)
  have j: "j < num_blocks bm" using d(7) e(2) by blast
  have "j \<noteq> i" using e(4) p(3) d(3) [OF j] by (metis p(2,3) d(3))
  then show ?thesis
    using that e j d(1) by (auto simp: pop_free_Inr [OF pop])
qed

lemma entry_need_pop_relabel:
  assumes ok: "pool_ok bm H" and pop: "pop_free bm = (Inr i, bm1)"
    and e: "fst e = Some h \<Longrightarrow> snd e = ts"
  shows "entry_need (relabel h ts i bm1) e \<le> entry_need bm e"
proof (rule entry_need_mono)
  assume "entry_need bm e = 0"
  then obtain h' j where *: "fst e = Some h'" "hash_to_block bm1 h' = Some j" "j \<noteq> i"
    "j < length (blocks bm1)" "blk_tokens (blocks bm1 ! j) = snd e" "ref_count (blocks bm1 ! j) \<noteq> 0"
    by (rule entry_need_popped [OF ok pop])
  have i: "i < length (blocks bm1)" "ref_count (blocks bm1 ! i) = 1"
    using popped_block [OF ok pop] by (auto simp: reset_block_def)
  show "entry_need (relabel h ts i bm1) e = 0"
    unfolding entry_need_0_iff using * i e by (cases "h' = h") (auto simp: nth_relabel)
qed

definition fill_tail :: "token list \<Rightarrow> nat \<Rightarrow> block_manager \<Rightarrow> block_manager" where
  "fill_tail ts i bm = upd_block i (\<lambda>b. b\<lparr>blk_tokens := ts, blk_hash := None\<rparr>) bm"

lemma entry_need_pop_fill:
  assumes ok: "pool_ok bm H" and pop: "pop_free bm = (Inr i, bm1)"
  shows "entry_need (fill_tail ts i bm1) e \<le> entry_need bm e"
proof (rule entry_need_mono)
  assume "entry_need bm e = 0"
  then show "entry_need (fill_tail ts i bm1) e = 0"
    by (rule entry_need_popped [OF ok pop])
      (auto simp: entry_need_0_iff fill_tail_def nth_upd_block)
qed

lemma plan_need_mono:
  "(\<And>e. e \<in> set p \<Longrightarrow> entry_need bm' e \<le> entry_need bm e) \<Longrightarrow> plan_need bm' p \<le> plan_need bm p"
  unfolding plan_need_def by (induction p) (auto intro: add_mono)

lemma length_free_take_shared:
  assumes ok: "pool_ok bm H" and i: "i < num_blocks bm"
  shows "length (free_list (take_shared i bm)) =
    length (free_list bm) - (if ref_count (blocks bm ! i) = 0 then 1 else 0)"
proof (cases "ref_count (blocks bm ! i) = 0")
  case True
  then have "i \<in> set (free_list bm)" using pool_okD(3,6) [OF ok] i by auto
  then have "length (filter (\<lambda>x. x \<noteq> i) (free_list bm)) = length (free_list bm) - 1"
    using pool_okD(5) [OF ok]
    by (metis distinct_card distinct_filter card_Diff_singleton set_minus_filter_out)
  then show ?thesis using True by (simp add: take_shared_def)
qed (simp add: take_shared_def)

lemma pool_ok_fill_tail:
  assumes ok: "pool_ok bm H" and pop: "pop_free bm = (Inr i, bm1)"
  shows "pool_ok (fill_tail ts i bm1) (add_mset i H)" and "keeps_held H bm (fill_tail ts i bm1)"
    and "blk_hash (blocks (fill_tail ts i bm1) ! i) = None"
    and "blk_tokens (blocks (fill_tail ts i bm1) ! i) = ts"
proof -
  note p = pool_ok_pop [OF ok pop] popped_block [OF ok pop]
  show "pool_ok (fill_tail ts i bm1) (add_mset i H)"
    unfolding fill_tail_def using p by (intro pool_ok_upd_frame) (auto simp: reset_block_def)
  have "keeps_held H bm1 (fill_tail ts i bm1)"
    using p pool_ok_held [OF ok] pop_free_Inr(2) [OF pop]
    by (auto simp: keeps_held_def fill_tail_def nth_upd_block)
  with keeps_held_pop [OF ok pop] show "keeps_held H bm (fill_tail ts i bm1)"
    by (rule keeps_held_trans) simp
qed (use popped_block [OF ok pop] in \<open>auto simp: fill_tail_def nth_upd_block\<close>)

lemma acquire_plan_succeeds:
  assumes "pool_ok bm H" and "plan_collision_free p" and "plan_need bm p \<le> length (free_list bm)"
  shows "\<exists>a bm'. acquire_plan p table cached leading bm = (Inr a, bm')"
  using assms
proof (induction p arbitrary: bm H table cached leading)
  case Nil
  then show ?case by simp
next
  case (Cons e p)
  have cf: "plan_collision_free p" using Cons.prems(2) by (auto simp: plan_collision_free_def)
  have need: "entry_need bm e + plan_need bm p \<le> length (free_list bm)"
    using Cons.prems(3) by (simp add: plan_need_def)
  show ?case
  proof (cases e)
    case (Pair k ts)
    show ?thesis
    proof (cases k)
      case None
      have "free_list bm \<noteq> []" using need Pair None by auto
      then obtain i bm1 where pop: "pop_free bm = (Inr i, bm1)"
        by (cases "free_list bm") (auto simp: pop_free_def)
      have "plan_need (fill_tail ts i bm1) p \<le> plan_need bm p"
        by (intro plan_need_mono entry_need_pop_fill [OF Cons.prems(1) pop])
      then have "plan_need (fill_tail ts i bm1) p \<le> length (free_list (fill_tail ts i bm1))"
        using need Pair None pop_free_Inr(1) [OF pop] by (simp add: fill_tail_def)
      from Cons.IH [OF pool_ok_fill_tail(1) [OF Cons.prems(1) pop] cf this] show ?thesis
        using Pair None pop by (simp add: fill_tail_def)
    next
      case (Some h)
      obtain r bm1 where sp: "share_or_pop bm h ts = (r, bm1)" by (cases "share_or_pop bm h ts")
      from sp have "\<exists>i sh. r = Inr (i, sh) \<and> plan_need bm1 p \<le> length (free_list bm1)"
      proof (cases rule: share_or_pop_cases)
        case (share i)
        note s = shareable_SomeD [OF Cons.prems(1) share(1)]
        have "plan_need bm1 p \<le> plan_need bm p"
          unfolding share(3) by (intro plan_need_mono entry_need_take_shared [OF Cons.prems(1)])
        then show ?thesis
          using need Pair Some share length_free_take_shared [OF Cons.prems(1) s(2)]
          by (auto split: if_splits)
      next
        case (pop i bm2)
        have "plan_need bm1 p \<le> plan_need bm p"
          unfolding pop(4)
        proof (intro plan_need_mono entry_need_pop_relabel [OF Cons.prems(1) pop(2)])
          fix e' assume "e' \<in> set p" "fst e' = Some h"
          then show "snd e' = ts"
            using Cons.prems(2) Pair Some unfolding plan_collision_free_def
            by (metis list.set_intros prod.collapse)
        qed
        then have "plan_need bm1 p \<le> length (free_list bm1)"
          using need Pair Some pop(1,4) pop_free_Inr(1) [OF pop(2)] by simp
        then show ?thesis using pop(3) by blast
      next
        case fail
        have "free_list bm = []" using pop_free_InlD [OF fail(2)] by simp
        moreover have "entry_need bm e = 1" using Pair Some fail(1) by simp
        ultimately show ?thesis using need by simp
      qed
      then obtain i sh where r: "r = Inr (i, sh)" and n: "plan_need bm1 p \<le> length (free_list bm1)"
        by blast
      have ok1: "pool_ok bm1 (add_mset i H)"
        using pool_ok_share_or_pop(1) [OF Cons.prems(1)] sp r by blast
      show ?thesis
        using Cons.IH [OF ok1 cf n] Pair Some sp r by simp
    qed
  qed
qed

text \<open>
  What an acquired table looks like: each entry of the plan got a block with the tokens and the
  hash the plan asked for, and the blocks counted as cached are a leading run of computed ones.
\<close>

definition entry_filled :: "block_manager \<Rightarrow> u64 option \<times> token list \<Rightarrow> nat \<Rightarrow> bool" where
  "entry_filled bm e i \<longleftrightarrow> blk_hash (blocks bm ! i) = fst e \<and> blk_tokens (blocks bm ! i) = snd e"

definition acquired ::
  "nat multiset \<Rightarrow> plan \<Rightarrow> nat \<Rightarrow> bool \<Rightarrow> block_manager \<Rightarrow> nat list \<Rightarrow> nat \<Rightarrow> block_manager \<Rightarrow> bool" where
  "acquired H p cached leading bm new cached' bm' \<longleftrightarrow>
     pool_ok bm' (mset new + H) \<and> keeps_held H bm bm' \<and>
     list_all2 (entry_filled bm') p new \<and>
     (\<exists>n\<le>length p. cached' = cached + n * block_size bm \<and> (0 < n \<longrightarrow> leading) \<and>
        (\<forall>k<n. kv_computed (blocks bm' ! (new ! k)) \<and> fst (p ! k) \<noteq> None))"

lemma entry_filled_keep:
  assumes "keeps_held H bm bm'" and "i \<in># H" and "entry_filled bm e i"
  shows "entry_filled bm' e i"
  using assms by (auto simp: keeps_held_def same_content_def entry_filled_def)

lemma acquired_Cons:
  assumes fill: "entry_filled bm1 e i" and keep: "keeps_held H bm bm1" 
    and rest: "acquired (add_mset i H) p c l bm1 new cached' bm'"
    and c: "c = cached \<and> \<not> l \<or>
      c = cached + block_size bm \<and> leading \<and> kv_computed (blocks bm1 ! i) \<and> fst e \<noteq> None"
  shows "acquired H (e # p) cached leading bm (i # new) cached' bm'"
proof -
  have keep': "keeps_held (add_mset i H) bm1 bm'" and ok: "pool_ok bm' (mset (i # new) + H)"
    and filled: "list_all2 (entry_filled bm') p new"
    using rest by (auto simp: acquired_def)
  obtain n where n: "n \<le> length p" "cached' = c + n * block_size bm1" "0 < n \<longrightarrow> l"
    "\<forall>k<n. kv_computed (blocks bm' ! (new ! k)) \<and> fst (p ! k) \<noteq> None"
    using rest by (auto simp: acquired_def)
  have bs: "block_size bm1 = block_size bm" using keep by (simp add: keeps_held_def)
  have kv: "kv_computed (blocks bm' ! i) = kv_computed (blocks bm1 ! i)"
    using keep' by (simp add: keeps_held_def same_content_def)
  have "\<exists>n\<le>length (e # p). cached' = cached + n * block_size bm \<and> (0 < n \<longrightarrow> leading) \<and>
      (\<forall>k<n. kv_computed (blocks bm' ! ((i # new) ! k)) \<and> fst ((e # p) ! k) \<noteq> None)"
    using c
  proof
    assume "c = cached \<and> \<not> l"
    then show ?thesis using n bs by (intro exI [of _ 0]) simp
  next
    assume c: "c = cached + block_size bm \<and> leading \<and> kv_computed (blocks bm1 ! i) \<and> fst e \<noteq> None"
    show ?thesis
      by (rule exI [of _ "Suc n"]) (use c n bs kv in \<open>auto simp: nth_Cons split: nat.splits\<close>)
  qed
  moreover have "entry_filled bm' e i"
    by (rule entry_filled_keep [OF keep' _ fill]) simp
  moreover have "keeps_held H bm bm'"
    using keep keep' by (rule keeps_held_trans) simp
  ultimately show ?thesis using ok filled unfolding acquired_def by auto
qed

lemma acquire_plan_acquired:
  assumes "acquire_plan p table cached leading bm = (Inr (table', cached'), bm')" and "pool_ok bm H"
  shows "\<exists>new. table' = table @ new \<and> acquired H p cached leading bm new cached' bm'"
  using assms
proof (induction p arbitrary: bm H table cached leading)
  case Nil
  then show ?case by (auto simp: acquired_def intro!: exI [of _ "[] :: nat list"])
next
  case (Cons e p)
  show ?case
  proof (cases e)
    case (Pair k ts)
    show ?thesis
    proof (cases k)
      case None
      obtain r bm1 where pop: "pop_free bm = (r, bm1)" by (cases "pop_free bm")
      then obtain i where r: "r = Inr i" using Cons.prems(1) Pair None by (cases r) auto
      have rec: "acquire_plan p (table @ [i]) cached False (fill_tail ts i bm1)
          = (Inr (table', cached'), bm')"
        using Cons.prems(1) Pair None pop r by (simp add: fill_tail_def)
      note f = pool_ok_fill_tail [OF Cons.prems(2) pop [unfolded r], of ts]
      obtain new where new: "table' = (table @ [i]) @ new"
        "acquired (add_mset i H) p cached False (fill_tail ts i bm1) new cached' bm'"
        using Cons.IH [OF rec f(1)] by blast
      have "acquired H (e # p) cached leading bm (i # new) cached' bm'"
        using f(2,3,4) new(2) Pair None by (intro acquired_Cons) (auto simp: entry_filled_def)
      then show ?thesis using new(1) by auto
    next
      case (Some h)
      obtain r bm1 where sp: "share_or_pop bm h ts = (r, bm1)" by (cases "share_or_pop bm h ts")
      then obtain i sh where r: "r = Inr (i, sh)"
        using Cons.prems(1) Pair Some by (cases r) auto
      note f = pool_ok_share_or_pop [OF Cons.prems(2) sp [unfolded r]]
      define l where "l = (leading \<and> sh \<and> kv_computed (blocks bm1 ! i))"
      define c where "c = (if l then cached + block_size bm else cached)"
      have rec: "acquire_plan p (table @ [i]) c l bm1 = (Inr (table', cached'), bm')"
        using Cons.prems(1) Pair Some sp r by (auto simp: l_def c_def split: if_splits)
      obtain new where new: "table' = (table @ [i]) @ new"
        "acquired (add_mset i H) p c l bm1 new cached' bm'"
        using Cons.IH [OF rec f(1)] by blast
      have "acquired H (e # p) cached leading bm (i # new) cached' bm'"
      proof (rule acquired_Cons [OF _ f(2) new(2)])
        show "entry_filled bm1 e i" using f(4,5) Pair Some by (simp add: entry_filled_def)
        show "c = cached \<and> \<not> l \<or>
            c = cached + block_size bm \<and> leading \<and> kv_computed (blocks bm1 ! i) \<and> fst e \<noteq> None"
          using Pair Some by (cases l) (auto simp: l_def c_def)
      qed
      then show ?thesis using new(1) by auto
    qed
  qed
qed

lemma acquire_plan_refused:
  assumes "acquire_plan p table cached leading bm = (Inl e, bm')" and "pool_ok bm (mset table + H)"
  shows "pool_ok bm' H \<and> keeps_held H bm bm' \<and> e = NoFreeBlocks"
  using assms
proof (induction p arbitrary: bm table cached leading)
  case Nil
  then show ?case by simp
next
  case (Cons x p)
  obtain k ts where x: "x = (k, ts)" by (cases x)
  have fail: "pool_ok (release_ids table bm) H \<and> keeps_held H bm (release_ids table bm)"
    using pool_ok_release_ids [OF Cons.prems(2)] keeps_held_release [OF Cons.prems(2), of H]
    by (simp add: release_ids_def)
  show ?case
  proof (cases k)
    case None
    obtain r bm1 where pop: "pop_free bm = (r, bm1)" by (cases "pop_free bm")
    show ?thesis
    proof (cases r)
      case (Inl e')
      have "e' = NoFreeBlocks" using pop Inl pop_free_Inl_iff [of bm e'] by simp
      then show ?thesis using fail Cons.prems(1) pop_free_InlD [of bm e' bm1] pop Inl x None by auto
    next
      case (Inr i)
      note f = pool_ok_fill_tail [OF Cons.prems(2) pop [unfolded Inr], of ts]
      have rec: "acquire_plan p (table @ [i]) cached False (fill_tail ts i bm1) = (Inl e, bm')"
        using Cons.prems(1) x None pop Inr by (simp add: fill_tail_def)
      have "pool_ok (fill_tail ts i bm1) (mset (table @ [i]) + H)" using f(1) by simp
      from Cons.IH [OF rec this] keeps_held_mono [OF f(2), of H] show ?thesis
        by (auto intro: keeps_held_trans)
    qed
  next
    case (Some h)
    obtain r bm1 where sp: "share_or_pop bm h ts = (r, bm1)" by (cases "share_or_pop bm h ts")
    show ?thesis
    proof (cases r)
      case (Inl e')
      have "bm1 = bm \<and> e' = NoFreeBlocks"
        using sp Inl by (auto elim!: share_or_pop_cases)
      then show ?thesis using fail Cons.prems(1) sp Inl x Some by auto
    next
      case (Inr q)
      obtain i sh where q: "q = (i, sh)" by (cases q)
      note f = pool_ok_share_or_pop [OF Cons.prems(2) sp [unfolded Inr q]]
      have "\<exists>c l. acquire_plan p (table @ [i]) c l bm1 = (Inl e, bm')"
        using Cons.prems(1) x Some sp Inr q by (auto split: if_splits)
      then obtain c l where rec: "acquire_plan p (table @ [i]) c l bm1 = (Inl e, bm')" by blast
      have "pool_ok bm1 (mset (table @ [i]) + H)" using f(1) by simp
      from Cons.IH [OF rec this] keeps_held_mono [OF f(2), of H] show ?thesis
        by (auto intro: keeps_held_trans)
    qed
  qed
qed

section \<open>The chained prefix hash\<close>

text \<open>
  \<open>chain_hash n\<close> is the hash the code computes for the first \<open>n\<close> full blocks: the previous
  hash is the seed of the next. It is a reference definition; the two loops of the code
  (\<open>plan_full\<close>, \<open>prefix_chain\<close>) compute it.
\<close>

fun chain_hash :: "hasher \<Rightarrow> adapter \<Rightarrow> nat \<Rightarrow> sequence \<Rightarrow> nat \<Rightarrow> u64" where
  "chain_hash xxh ad bs s 0 = 0"
| "chain_hash xxh ad bs s (Suc n) =
     compute_block_hash_tagged xxh (block_tokens n bs s) (chain_hash xxh ad bs s n) ad"

definition chain_plan :: "hasher \<Rightarrow> adapter \<Rightarrow> nat \<Rightarrow> sequence \<Rightarrow> nat \<Rightarrow> plan" where
  "chain_plan xxh ad bs s n =
     map (\<lambda>i. (Some (chain_hash xxh ad bs s (Suc i)), block_tokens i bs s)) [0..<n]"

lemma plan_full_chain:
  "plan_full xxh ad bm s [a..<a + k] (chain_hash xxh ad (block_size bm) s a) =
     (plan_need bm p, p)"
  if "p = map (\<lambda>i. (Some (chain_hash xxh ad (block_size bm) s (Suc i)),
                     block_tokens i (block_size bm) s)) [a..<a + k]"
  using that
proof (induction k arbitrary: a p)
  case 0
  then show ?case by (simp add: plan_need_def)
next
  case (Suc k)
  define q where "q = map (\<lambda>i. (Some (chain_hash xxh ad (block_size bm) s (Suc i)),
                     block_tokens i (block_size bm) s)) [Suc a..<Suc a + k]"
  have upt: "[a..<a + Suc k] = a # [Suc a..<Suc a + k]" by (simp add: upt_conv_Cons del: upt_Suc)
  have p: "p = (Some (chain_hash xxh ad (block_size bm) s (Suc a)), block_tokens a (block_size bm) s) # q"
    using Suc.prems by (simp only: upt q_def list.map)
  have "plan_full xxh ad bm s [Suc a..<Suc a + k] (chain_hash xxh ad (block_size bm) s (Suc a)) =
      (plan_need bm q, q)"
    using Suc.IH [OF q_def] .
  then show ?case
    unfolding upt plan_full.simps Let_def chain_hash.simps(2) [symmetric] p
    by (simp add: plan_need_def)
qed

lemma plan_full_eq:
  "plan_full xxh ad bm s [0..<n] 0 =
     (plan_need bm (chain_plan xxh ad (block_size bm) s n), chain_plan xxh ad (block_size bm) s n)"
  using plan_full_chain [of _ xxh ad bm s 0 n] by (simp add: chain_plan_def)

lemma prefix_chain_eq:
  assumes "\<And>i. i < n \<Longrightarrow> length (block_tokens i bs s) = bs"
  shows "prefix_chain xxh ad bs s [0..<n] 0 = Some (chain_hash xxh ad bs s n)"
proof -
  have "a + k = n \<Longrightarrow> prefix_chain xxh ad bs s [a..<a + k] (chain_hash xxh ad bs s a) =
      Some (chain_hash xxh ad bs s n)" for a k
  proof (induction k arbitrary: a)
    case (Suc k)
    have "[a..<a + Suc k] = a # [Suc a..<Suc a + k]" by (simp add: upt_conv_Cons del: upt_Suc)
    then show ?case
      using Suc.IH [of "Suc a"] Suc.prems assms [of a] by (simp add: Let_def del: upt_Suc)
  qed simp
  from this [of 0 n] show ?thesis by simp
qed

section \<open>The whole allocation\<close>

definition alloc_plan :: "hasher \<Rightarrow> adapter \<Rightarrow> nat \<Rightarrow> sequence \<Rightarrow> plan" where
  "alloc_plan xxh ad bs s =
     chain_plan xxh ad bs s (total_len s div bs) @
     (if total_len s mod bs = 0 then [] else [(None, block_tokens (total_len s div bs) bs s)])"

lemma allocate_unfold:
  "allocate_with_prefix_tagged xxh ad s bm =
     (if block_table s \<noteq> [] then (Inl (AlreadyHasBlocks (seq_id s)), bm)
      else if total_len s = 0 then (Inr \<lparr>alloc_table = [], cached_tokens = 0\<rparr>, bm)
      else let p = alloc_plan xxh ad (block_size bm) s in
        if length (free_list bm) < plan_need bm p
        then (Inl (NeedFreshBlocks (plan_need bm p) (length (free_list bm))), bm)
        else (case acquire_plan p [] 0 True bm of
                (Inl e, bm1) \<Rightarrow> (Inl e, bm1)
              | (Inr (table, cached), bm1) \<Rightarrow>
                  (Inr \<lparr>alloc_table = table,
                        cached_tokens = clamp_cached cached (block_size bm) (total_len s)\<rparr>, bm1)))"
  by (simp add: allocate_with_prefix_tagged_def plan_full_eq alloc_plan_def Let_def plan_need_def)

lemma length_alloc_plan:
  assumes "0 < bs"
  shows "length (alloc_plan xxh ad bs s) = div_ceil (total_len s) bs"
proof -
  have "div_ceil (total_len s) bs = total_len s div bs + (if total_len s mod bs = 0 then 0 else 1)"
  proof -
    let ?n = "total_len s" and ?q = "total_len s div bs"
    have n: "?n = ?q * bs + ?n mod bs" by simp
    have "?n mod bs < bs" using assms by simp
    show ?thesis
    proof (cases "?n mod bs = 0")
      case True
      have "?n + bs - 1 = ?q * bs + (bs - 1)" using n True assms by simp
      moreover have "(bs - 1) div bs = 0" using assms by simp
      ultimately have "(?n + bs - 1) div bs = ?q"
        using assms by (simp only: div_mult_self3)
      then show ?thesis using True by (simp add: div_ceil_def)
    next
      case False
      have "?n + bs - 1 = Suc ?q * bs + (?n mod bs - 1)" using n False by simp
      moreover have "(?n mod bs - 1) div bs = 0" using \<open>?n mod bs < bs\<close> by simp
      ultimately have "(?n + bs - 1) div bs = Suc ?q" using assms by (simp only: div_mult_self3)
      then show ?thesis using False by (simp add: div_ceil_def)
    qed
  qed
  then show ?thesis by (simp add: alloc_plan_def chain_plan_def)
qed

lemma nth_alloc_plan:
  "i < total_len s div bs \<Longrightarrow>
     alloc_plan xxh ad bs s ! i = (Some (chain_hash xxh ad bs s (Suc i)), block_tokens i bs s)"
  by (simp add: alloc_plan_def chain_plan_def nth_append)

lemma nth_alloc_plan_tail:
  "\<not> i < total_len s div bs \<Longrightarrow> i < length (alloc_plan xxh ad bs s) \<Longrightarrow>
     alloc_plan xxh ad bs s ! i = (None, block_tokens i bs s)"
  by (auto simp: alloc_plan_def chain_plan_def nth_append less_Suc_eq split: if_splits)

text \<open>
  The block table \<open>t\<close> describes sequence \<open>s\<close> up to position \<open>v\<close>: a block of the table that
  carries a hash lies below \<open>v\<close>, carries the chained hash of the sequence's own prefix, and
  holds the tokens of its logical block.
\<close>

definition describes ::
  "hasher \<Rightarrow> adapter \<Rightarrow> block_manager \<Rightarrow> sequence \<Rightarrow> nat list \<Rightarrow> nat \<Rightarrow> bool" where
  "describes xxh ad bm s t v \<longleftrightarrow>
     (\<forall>i<length t. \<forall>h. blk_hash (blocks bm ! (t ! i)) = Some h \<longrightarrow>
        Suc i * block_size bm \<le> v \<and>
        h = chain_hash xxh ad (block_size bm) s (Suc i) \<and>
        blk_tokens (blocks bm ! (t ! i)) = block_tokens i (block_size bm) s)"

lemma describesD:
  assumes "describes xxh ad bm s t v" and "i < length t" and "blk_hash (blocks bm ! (t ! i)) = Some h"
  shows "Suc i * block_size bm \<le> v" and "h = chain_hash xxh ad (block_size bm) s (Suc i)"
    and "blk_tokens (blocks bm ! (t ! i)) = block_tokens i (block_size bm) s"
  using assms by (auto simp: describes_def)

lemma describes_keep:
  assumes "keeps_held H bm bm'" and "set t \<subseteq> set_mset H" and "describes xxh ad bm s t v"
  shows "describes xxh ad bm' s t v"
proof -
  have "same_content (blocks bm ! (t ! i)) (blocks bm' ! (t ! i))" if "i < length t" for i
    using assms(1,2) nth_mem [OF that] by (auto simp: keeps_held_def)
  then show ?thesis
    using assms(1,3) by (auto simp: describes_def keeps_held_def same_content_def)
qed

lemma describes_empty [simp]: "describes xxh ad bm s [] v"
  by (simp add: describes_def)

lemma allocate_Inr:
  assumes ok: "pool_ok bm H" and bs: "0 < block_size bm"
    and alloc: "allocate_with_prefix_tagged xxh ad s bm = (Inr a, bm')"
  shows "pool_ok bm' (mset (alloc_table a) + H)" and "keeps_held H bm bm'"
    and "length (alloc_table a) = num_blocks_needed (block_size bm) s"
    and "describes xxh ad bm' s (alloc_table a) (total_len s)"
    and "\<And>i. i < total_len s div block_size bm \<Longrightarrow> blk_hash (blocks bm' ! (alloc_table a ! i)) \<noteq> None"
    and "\<exists>n. cached_tokens a = n * block_size bm \<and> n \<le> total_len s div block_size bm \<and>
           (\<forall>i<n. kv_computed (blocks bm' ! (alloc_table a ! i)))"
    and "0 < total_len s \<Longrightarrow> cached_tokens a + MIN_RECOMPUTED_PREFILL_TOKENS \<le> total_len s"
proof -
  let ?bs = "block_size bm" and ?t = "alloc_table a" and ?n = "total_len s"
  let ?p = "alloc_plan xxh ad ?bs s"
  have "pool_ok bm' (mset ?t + H) \<and> keeps_held H bm bm' \<and> list_all2 (entry_filled bm') ?p ?t \<and>
    (\<exists>n. cached_tokens a = n * ?bs \<and> n \<le> ?n div ?bs \<and> (\<forall>i<n. kv_computed (blocks bm' ! (?t ! i))) \<and>
      (0 < ?n \<longrightarrow> n * ?bs + 1 \<le> ?n))"
  proof (cases "?n = 0")
    case True
    then show ?thesis
      using alloc ok bs
      by (auto simp: allocate_unfold alloc_plan_def chain_plan_def split: if_splits)
  next
    case False
    then obtain t c where acq: "acquire_plan ?p [] 0 True bm = (Inr (t, c), bm')"
      and a: "a = \<lparr>alloc_table = t, cached_tokens = clamp_cached c ?bs ?n\<rparr>"
      using alloc by (auto simp: allocate_unfold Let_def split: if_splits prod.splits sum.splits)
    have t: "acquired H ?p 0 True bm t c bm'"
      using acquire_plan_acquired [OF acq ok] by simp
    then obtain n where n: "n \<le> length ?p" "c = n * ?bs"
      "\<forall>k<n. kv_computed (blocks bm' ! (t ! k)) \<and> fst (?p ! k) \<noteq> None"
      by (auto simp: acquired_def)
    have full: "n \<le> ?n div ?bs"
    proof (rule ccontr)
      assume "\<not> n \<le> ?n div ?bs"
      then have "fst (?p ! (?n div ?bs)) \<noteq> None" using n(3) by simp
      moreover have "?n div ?bs < length ?p" using \<open>\<not> n \<le> ?n div ?bs\<close> n(1) by simp
      ultimately show False by (simp add: nth_alloc_plan_tail)
    qed
    then have c: "c \<le> ?n" unfolding n(2) by (metis div_times_less_eq_dividend le_trans mult_le_mono1)
    define m where "m = (if ?n < c + 1 then n - 1 else n)"
    have "clamp_cached c ?bs ?n = m * ?bs"
      using n(2) by (simp add: clamp_cached_def m_def MIN_RECOMPUTED_PREFILL_TOKENS_def diff_mult_distrib)
    moreover have "m * ?bs + 1 \<le> ?n"
    proof (cases "?n < c + 1")
      case True
      then have "n * ?bs = ?n" and "0 < n" using c n(2) False by (simp, cases n) auto
      then show ?thesis using True bs by (cases n) (auto simp: m_def)
    qed (simp add: m_def n(2))
    moreover have mn: "m \<le> n" by (simp add: m_def)
    moreover have "m \<le> ?n div ?bs" using mn full by (rule le_trans)
    moreover have "\<forall>i<m. kv_computed (blocks bm' ! (t ! i))" using n(3) mn by simp
    ultimately have m: "clamp_cached c ?bs ?n = m * ?bs \<and> m \<le> ?n div ?bs \<and>
        (\<forall>i<m. kv_computed (blocks bm' ! (t ! i))) \<and> (0 < ?n \<longrightarrow> m * ?bs + 1 \<le> ?n)"
      by blast
    moreover have "pool_ok bm' (mset t + H) \<and> keeps_held H bm bm' \<and> list_all2 (entry_filled bm') ?p t"
      using t by (simp add: acquired_def)
    ultimately show ?thesis unfolding a allocation.simps by (intro conjI exI [of _ m]) blast+
  qed
  then obtain n where ok': "pool_ok bm' (mset ?t + H)" and keep: "keeps_held H bm bm'"
    and fill: "list_all2 (entry_filled bm') ?p ?t"
    and n: "cached_tokens a = n * ?bs" "n \<le> ?n div ?bs"
      "\<forall>i<n. kv_computed (blocks bm' ! (?t ! i))" "0 < ?n \<longrightarrow> n * ?bs + 1 \<le> ?n"
    by (elim conjE exE) (rule that)
  show "pool_ok bm' (mset ?t + H)" and "keeps_held H bm bm'" by fact+
  have len: "length ?t = length ?p" using fill by (simp add: list_all2_lengthD)
  then show "length ?t = num_blocks_needed ?bs s"
    using bs by (simp add: length_alloc_plan num_blocks_needed_div_ceil)
  have e: "entry_filled bm' (?p ! i) (?t ! i)" if "i < length ?t" for i
    using fill that by (simp add: list_all2_conv_all_nth)
  have div: "?n div ?bs \<le> length ?t"
    by (simp add: len alloc_plan_def chain_plan_def)
  show "describes xxh ad bm' s ?t ?n"
    unfolding describes_def
  proof (intro allI impI)
    fix i h assume i: "i < length ?t" and h: "blk_hash (blocks bm' ! (?t ! i)) = Some h"
    have full: "i < ?n div ?bs"
    proof (rule ccontr)
      assume "\<not> ?thesis"
      with i len have "fst (?p ! i) = None" by (simp add: nth_alloc_plan_tail)
      with e [OF i] h show False by (simp add: entry_filled_def)
    qed
    then have "Suc i * ?bs \<le> ?n"
      by (metis Suc_leI div_times_less_eq_dividend le_trans mult_le_mono1)
    then show "Suc i * block_size bm' \<le> ?n \<and> h = chain_hash xxh ad (block_size bm') s (Suc i) \<and>
        blk_tokens (blocks bm' ! (?t ! i)) = block_tokens i (block_size bm') s"
      using e [OF i] h nth_alloc_plan [OF full, of xxh ad] keep
      by (simp add: entry_filled_def keeps_held_def)
  qed
  show "blk_hash (blocks bm' ! (?t ! i)) \<noteq> None" if "i < ?n div ?bs" for i
    using e [of i] nth_alloc_plan [OF that, of xxh ad] that div by (simp add: entry_filled_def)
  show "\<exists>n. cached_tokens a = n * ?bs \<and> n \<le> ?n div ?bs \<and> (\<forall>i<n. kv_computed (blocks bm' ! (?t ! i)))"
    using n(1-3) by (intro exI [of _ n] conjI)
  show "0 < ?n \<Longrightarrow> cached_tokens a + MIN_RECOMPUTED_PREFILL_TOKENS \<le> ?n"
    using n by (simp add: MIN_RECOMPUTED_PREFILL_TOKENS_def)
qed

lemma allocate_Inl:
  assumes ok: "pool_ok bm H" and alloc: "allocate_with_prefix_tagged xxh ad s bm = (Inl e, bm')"
  shows "pool_ok bm' H \<and> keeps_held H bm bm'"
  using alloc ok acquire_plan_refused [of "alloc_plan xxh ad (block_size bm) s" "[]" 0 True bm _ bm' H]
  by (auto simp: allocate_unfold Let_def split: if_splits prod.splits sum.splits)

lemma allocate_succeeds:
  assumes ok: "pool_ok bm H" and empty: "block_table s = []"
    and cf: "plan_collision_free (alloc_plan xxh ad (block_size bm) s)"
    and room: "plan_need bm (alloc_plan xxh ad (block_size bm) s) \<le> num_free bm"
  shows "\<exists>a bm'. allocate_with_prefix_tagged xxh ad s bm = (Inr a, bm')"
proof -
  obtain t c bm' where "acquire_plan (alloc_plan xxh ad (block_size bm) s) [] 0 True bm = (Inr (t, c), bm')"
    using acquire_plan_succeeds [OF ok cf, of "[]" 0 True] room by (auto simp: num_free_def)
  then show ?thesis using empty room by (simp add: allocate_unfold Let_def num_free_def)
qed

lemma plan_need_le_length: "plan_need bm p \<le> length p"
  unfolding plan_need_def using entry_need_le_1 [of bm]
  by (induction p) (auto intro: le_trans add_mono [of _ 1 _ "length _", simplified])

end
