(* ===== verification/Block_Ops.thy ===== *)
theory Block_Ops
  imports Block_Alloc
begin

text \<open>
  The remaining operations of the block manager: marking and publishing computed blocks, growing a
  table, copy-on-write of a shared tail. Each keeps the reference counts exact and leaves the
  labels (hash and tokens) of every block that another sequence holds alone.
\<close>

section \<open>Labels\<close>

definition keeps_labels :: "nat multiset \<Rightarrow> block_manager \<Rightarrow> block_manager \<Rightarrow> bool" where
  "keeps_labels H bm bm' \<longleftrightarrow>
     num_blocks bm' = num_blocks bm \<and> block_size bm' = block_size bm \<and>
     (\<forall>j\<in>#H. blk_hash (blocks bm' ! j) = blk_hash (blocks bm ! j) \<and>
             blk_tokens (blocks bm' ! j) = blk_tokens (blocks bm ! j))"

lemma keeps_labels_refl [simp]: "keeps_labels H bm bm"
  by (simp add: keeps_labels_def)

lemma keeps_labels_trans: "keeps_labels H a b \<Longrightarrow> keeps_labels H b c \<Longrightarrow> keeps_labels H a c"
  by (auto simp: keeps_labels_def)

lemma keeps_labels_mono: "keeps_labels H a b \<Longrightarrow> H' \<subseteq># H \<Longrightarrow> keeps_labels H' a b"
  by (auto simp: keeps_labels_def dest: mset_subset_eqD)

lemma keeps_held_labels: "keeps_held H a b \<Longrightarrow> keeps_labels H a b"
  by (auto simp: keeps_labels_def keeps_held_def same_content_def)

lemma describes_labels:
  assumes "keeps_labels H bm bm'" and "set t \<subseteq> set_mset H" and "describes xxh ad bm s t v"
  shows "describes xxh ad bm' s t v"
proof -
  have "t ! i \<in># H" if "i < length t" for i using assms(2) nth_mem [OF that] by auto
  then show ?thesis using assms(1,3) by (auto simp: describes_def keeps_labels_def)
qed

section \<open>Marking\<close>

lemma mark_list_frame:
  defines "f \<equiv> \<lambda>b. b\<lparr>kv_computed := True\<rparr>"
  shows "pool_ok bm H \<Longrightarrow> pool_ok (fold (\<lambda>i. upd_block i f) ids bm) H"
    and "keeps_labels H' bm (fold (\<lambda>i. upd_block i f) ids bm)"
proof -
  have "pool_ok (upd_block i f bm) H" if "pool_ok bm H" for i bm
    using that by (rule pool_ok_upd_frame) (simp_all add: f_def)
  then show "pool_ok bm H \<Longrightarrow> pool_ok (fold (\<lambda>i. upd_block i f) ids bm) H"
    by (induction ids arbitrary: bm) simp_all
  have lab: "blk_hash (blocks (upd_block i f bm) ! j) = blk_hash (blocks bm ! j) \<and>
      blk_tokens (blocks (upd_block i f bm) ! j) = blk_tokens (blocks bm ! j)" for i j bm
    by (cases "i < length (blocks bm)"; cases "i = j")
      (auto simp: upd_block_def f_def list_update_beyond)
  have "keeps_labels H' bm (upd_block i f bm)" for i bm
    using lab by (auto simp: keeps_labels_def)
  then show "keeps_labels H' bm (fold (\<lambda>i. upd_block i f) ids bm)"
    by (induction ids arbitrary: bm) (auto intro: keeps_labels_trans)
qed

lemma mark_kv_computed_frame:
  "pool_ok bm H \<Longrightarrow> pool_ok (mark_kv_computed s v bm) H"
  "keeps_labels H' bm (mark_kv_computed s v bm)"
  unfolding mark_kv_computed_def by (rule mark_list_frame(1)) (assumption, rule mark_list_frame(2))

section \<open>Publishing\<close>

lemma commit_filled_block_cases:
  assumes "0 < block_size bm"
  shows "commit_filled_block_tagged xxh s idx ad bm = bm \<or>
    (idx < length (block_table s) \<and> idx < total_len s div block_size bm \<and>
     blk_hash (blocks bm ! (block_table s ! idx)) = None \<and>
     (let h = chain_hash xxh ad (block_size bm) s (Suc idx);
          i = block_table s ! idx;
          bm1 = upd_block i (\<lambda>b. b\<lparr>blk_tokens := block_tokens idx (block_size bm) s, blk_hash := Some h\<rparr>) bm
      in commit_filled_block_tagged xxh s idx ad bm =
           (if hash_to_block bm1 h = None
            then bm1\<lparr>hash_to_block := (hash_to_block bm1)(h \<mapsto> i)\<rparr> else bm1)))"
proof (cases "length (block_table s) \<le> idx \<or>
    length (block_tokens idx (block_size bm) s) \<noteq> block_size bm \<or>
    blk_hash (blocks bm ! (block_table s ! idx)) \<noteq> None")
  case True
  then show ?thesis
    by (auto simp: commit_filled_block_tagged_def Let_def split: option.splits)
next
  case False
  then have "block_size bm \<le> total_len s - idx * block_size bm"
    by (simp add: length_block_tokens min_def split: if_splits)
  then have "Suc idx * block_size bm \<le> total_len s" using assms by simp
  then have full: "idx < total_len s div block_size bm"
    using assms by (metis Suc_le_lessD div_le_mono nonzero_mult_div_cancel_right not_gr0)
  then have "prefix_chain xxh ad (block_size bm) s [0..<idx] 0 =
      Some (chain_hash xxh ad (block_size bm) s idx)"
    by (intro prefix_chain_eq full_block_length) simp
  then show ?thesis using False full by (simp add: commit_filled_block_tagged_def Let_def)
qed

lemma commit_filled_block_ok:
  assumes ok: "pool_ok bm (mset (block_table s) + H)" and bs: "0 < block_size bm"
    and d: "describes xxh ad bm s (block_table s) v" and v: "Suc idx * block_size bm \<le> v"
  defines "bm' \<equiv> commit_filled_block_tagged xxh s idx ad bm"
  shows "pool_ok bm' (mset (block_table s) + H)" and "keeps_labels H bm bm'"
    and "describes xxh ad bm' s (block_table s) v"
    and "length (blocks bm') = length (blocks bm)" 
    and "block_size bm' = block_size bm"
    and "kv_computed (blocks bm' ! j) = kv_computed (blocks bm ! j)"
proof -
  let ?t = "block_table s" and ?bs = "block_size bm"
  have "pool_ok bm' (mset ?t + H) \<and> keeps_labels H bm bm' \<and> describes xxh ad bm' s ?t v \<and>
    length (blocks bm') = length (blocks bm) \<and> block_size bm' = block_size bm \<and>
    kv_computed (blocks bm' ! j) = kv_computed (blocks bm ! j)"
  proof (cases "bm' = bm")
    case True
    then show ?thesis using ok d by simp
  next
    case False
    define h where "h = chain_hash xxh ad ?bs s (Suc idx)"
    define i where "i = ?t ! idx"
    define bm1 where "bm1 = upd_block i (\<lambda>b. b\<lparr>blk_tokens := block_tokens idx ?bs s, blk_hash := Some h\<rparr>) bm"
    have idx: "idx < length ?t" and none: "blk_hash (blocks bm ! i) = None"
      and bm': "bm' = (if hash_to_block bm1 h = None
            then bm1\<lparr>hash_to_block := (hash_to_block bm1)(h \<mapsto> i)\<rparr> else bm1)"
      using commit_filled_block_cases [OF bs, of xxh s idx ad] False
      by (auto simp: bm'_def h_def i_def bm1_def Let_def)
    have mem: "i \<in># mset ?t + H" using idx by (simp add: i_def)
    have i: "i < num_blocks bm" using pool_ok_held [OF ok mem] .
    have once: "count (mset ?t + H) i \<le> 1"
      using pool_okD(9) [OF ok, of i] none by (meson not_le)
    have notH: "i \<notin># H"
    proof
      assume "i \<in># H"
      then obtain H' where "H = add_mset i H'" by (meson multi_member_split)
      moreover obtain T where "mset ?t = add_mset i T"
        using idx by (metis i_def multi_member_split nth_mem set_mset_mset)
      ultimately show False using once by simp
    qed
    have unique: "k = idx" if "k < length ?t" "?t ! k = i" for k
    proof (rule ccontr)
      assume "k \<noteq> idx"
      then have "{k, idx} \<subseteq> {l. l < length ?t \<and> ?t ! l = i}" and "card {k, idx} = 2"
        using that idx by (auto simp: i_def)
      then have "2 \<le> card {l. l < length ?t \<and> ?t ! l = i}"
        by (metis (no_types, lifting) card_mono finite_nat_set_iff_bounded mem_Collect_eq)
      then have "2 \<le> count (mset ?t) i"
        by (simp add: count_mset count_list_eq_length_filter length_filter_conv_card eq_commute)
      then show False using once by simp
    qed
    have blk: "blocks bm' ! j = (if j = i then (blocks bm ! i)\<lparr>blk_tokens := block_tokens idx ?bs s,
        blk_hash := Some h\<rparr> else blocks bm ! j)" if "j < num_blocks bm" for j
      using that pool_okD(1) [OF ok] by (simp add: bm' bm1_def nth_upd_block)
    have same: "num_blocks bm' = num_blocks bm" "block_size bm' = ?bs"
      "length (blocks bm') = length (blocks bm)"
      by (simp_all add: bm' bm1_def)
    have ok1: "pool_ok bm1 (mset ?t + H)"
      unfolding bm1_def using ok none by (intro pool_ok_upd_frame) auto
    have hash1: "blk_hash (blocks bm1 ! i) = Some h"
      using i pool_okD(1) [OF ok] by (simp add: bm1_def nth_upd_block)
    have "pool_ok bm' (mset ?t + H)"
    proof (cases "hash_to_block bm1 h = None")
      case True
      have "i < num_blocks bm1" using i by (simp add: bm1_def)
      with True show ?thesis using pool_ok_map_upd [OF ok1 _ hash1] by (simp add: bm')
    next
      case False
      then show ?thesis using ok1 by (auto simp: bm')
    qed
    moreover have "keeps_labels H bm bm'"
      using notH pool_ok_held [OF ok] by (auto simp: keeps_labels_def blk same)
    moreover have "describes xxh ad bm' s ?t v"
      unfolding describes_def
    proof (intro allI impI)
      fix k g assume k: "k < length ?t" and g: "blk_hash (blocks bm' ! (?t ! k)) = Some g"
      have lt: "?t ! k < num_blocks bm" using pool_ok_held [OF ok] k by simp
      show "Suc k * block_size bm' \<le> v \<and> g = chain_hash xxh ad (block_size bm') s (Suc k) \<and>
          blk_tokens (blocks bm' ! (?t ! k)) = block_tokens k (block_size bm') s"
      proof (cases "?t ! k = i")
        case True
        then show ?thesis using unique [OF k] g v i by (simp add: blk same h_def)
      next
        case False
        then show ?thesis using describesD [OF d k, of g] g lt by (simp add: blk same)
      qed
    qed
    moreover have "kv_computed (blocks bm' ! j) = kv_computed (blocks bm ! j)"
      using bm' by (cases "i = j"; cases "i < length (blocks bm)") (auto simp: bm1_def upd_block_def list_update_beyond)
    ultimately show ?thesis using same by simp
  qed
  then show "pool_ok bm' (mset ?t + H)" and "keeps_labels H bm bm'"
    and "describes xxh ad bm' s ?t v" and "length (blocks bm') = length (blocks bm)"
    and "block_size bm' = block_size bm"
    and "kv_computed (blocks bm' ! j) = kv_computed (blocks bm ! j)"
    by auto
qed

lemma publish_computed_blocks_ok:
  assumes ok: "pool_ok bm (mset (block_table s) + H)" and bs: "0 < block_size bm"
    and d: "describes xxh None bm s (block_table s) v"
  shows "pool_ok (publish_computed_blocks xxh s v bm) (mset (block_table s) + H)"
    and "keeps_labels H bm (publish_computed_blocks xxh s v bm)"
    and "describes xxh None (publish_computed_blocks xxh s v bm) s (block_table s) v"
proof -
  define f where "f = (\<lambda>i bm1. if blk_hash (blocks bm1 ! (block_table s ! i)) = None
                    then commit_filled_block xxh s i bm1 else bm1)"
  define good where "good bm' \<longleftrightarrow> pool_ok bm' (mset (block_table s) + H) \<and> keeps_labels H bm bm' \<and>
    describes xxh None bm' s (block_table s) v \<and> block_size bm' = block_size bm" for bm'
  have step: "good (f i bm')" if "good bm'" "Suc i * block_size bm \<le> v" for i bm'
    using that commit_filled_block_ok [of bm' s H xxh None v i] bs
    by (auto simp: good_def f_def commit_filled_block_def intro: keeps_labels_trans)
  have "good bm' \<Longrightarrow> \<forall>i\<in>set is. Suc i * block_size bm \<le> v \<Longrightarrow> good (fold f is bm')" for "is" bm'
    by (induction "is" arbitrary: bm') (simp_all add: step)
  moreover have "good bm" using ok d by (simp add: good_def)
  moreover have "Suc i * block_size bm \<le> v" if "i < fully_computed_blocks bm s v" for i
  proof -
    have "Suc i \<le> v div block_size bm" using that by (simp add: fully_computed_blocks_def)
    then show ?thesis by (metis div_times_less_eq_dividend le_trans mult_le_mono1)
  qed
  ultimately have "good (publish_computed_blocks xxh s v bm)"
    unfolding publish_computed_blocks_def f_def [symmetric] by auto
  then show "pool_ok (publish_computed_blocks xxh s v bm) (mset (block_table s) + H)"
    and "keeps_labels H bm (publish_computed_blocks xxh s v bm)"
    and "describes xxh None (publish_computed_blocks xxh s v bm) s (block_table s) v"
    by (auto simp: good_def)
qed

section \<open>Growing\<close>

definition grown ::
  "nat multiset \<Rightarrow> sequence \<Rightarrow> block_manager \<Rightarrow> nat list \<Rightarrow> sequence \<Rightarrow> block_manager \<Rightarrow> bool" where
  "grown H s bm new s' bm' \<longleftrightarrow>
     s' = s\<lparr>block_table := block_table s @ new\<rparr> \<and>
     pool_ok bm' (mset new + H) \<and> keeps_held H bm bm' \<and>
     (\<forall>i\<in>set new. blk_hash (blocks bm' ! i) = None)"

lemma grown_refl: "pool_ok bm H \<Longrightarrow> grown H s bm [] s bm"
  by (simp add: grown_def)

lemma push_blocks_grown:
  assumes "push_blocks n s bm = (r, s', bm')" and "pool_ok bm H"
  shows "\<exists>new. grown H s bm new s' bm' \<and> (r = Inr () \<longrightarrow> length new = n) \<and>
    (\<forall>e. r = Inl e \<longrightarrow> free_list bm' = [] \<and> e = NoFreeBlocks \<and> length new < n)"
  using assms
proof (induction n arbitrary: s bm H)
  case 0
  then show ?case by (auto simp: grown_refl intro!: exI [of _ "[] :: nat list"])
next
  case (Suc n)
  obtain q bm1 where pop: "pop_free bm = (q, bm1)" by (cases "pop_free bm")
  show ?case
  proof (cases q)
    case (Inl e)
    then have "bm1 = bm" "free_list bm = []" "e = NoFreeBlocks"
      using pop pop_free_InlD [of bm e bm1] pop_free_Inl_iff [of bm e] by auto
    then show ?thesis
      using Suc.prems pop Inl by (auto simp: grown_refl intro!: exI [of _ "[] :: nat list"])
  next
    case (Inr i)
    note p = pool_ok_pop [OF Suc.prems(2) pop [unfolded Inr]]
      popped_block [OF Suc.prems(2) pop [unfolded Inr]]
    have rec: "push_blocks n (s\<lparr>block_table := block_table s @ [i]\<rparr>) bm1 = (r, s', bm')"
      using Suc.prems(1) pop Inr by simp
    obtain new where new: "grown (add_mset i H) (s\<lparr>block_table := block_table s @ [i]\<rparr>) bm1 new s' bm'"
      "r = Inr () \<longrightarrow> length new = n"
      "\<forall>e. r = Inl e \<longrightarrow> free_list bm' = [] \<and> e = NoFreeBlocks \<and> length new < n"
      using Suc.IH [OF rec p(1)] by blast
    have keep: "keeps_held (add_mset i H) bm1 bm'" using new(1) by (simp add: grown_def)
    have "keeps_held H bm bm'"
      using keeps_held_pop [OF Suc.prems(2) pop [unfolded Inr]] keep by (rule keeps_held_trans) simp
    moreover have "blk_hash (blocks bm' ! i) = None"
      using keep p(4) by (simp add: keeps_held_def same_content_def reset_block_def)
    ultimately have "grown H s bm (i # new) s' bm'"
      using new(1) by (simp add: grown_def)
    then show ?thesis using new(2,3) by (intro exI [of _ "i # new"]) auto
  qed
qed

lemma push_blocks_room: "n \<le> length (free_list bm) \<Longrightarrow> fst (push_blocks n s bm) = Inr ()"
proof (induction n arbitrary: s bm)
  case (Suc n)
  then obtain i rest where f: "free_list bm = i # rest" by (cases "free_list bm") auto
  obtain bm1 where pop: "pop_free bm = (Inr i, bm1)"
    using f by (simp add: pop_free_def)
  then have "free_list bm1 = rest" using pop_free_Inr(1) [OF pop] f by simp
  then show ?case using Suc.IH [of bm1] Suc.prems f pop by simp
qed simp

lemma describes_grown:
  assumes g: "grown H s bm new s' bm'" and sub: "set (block_table s) \<subseteq> set_mset H"
    and d: "describes xxh ad bm s (block_table s) v"
  shows "describes xxh ad bm' s' (block_table s') v"
proof -
  have s': "s' = s\<lparr>block_table := block_table s @ new\<rparr>" using g by (simp add: grown_def)
  have tok: "block_tokens i b s' = block_tokens i b s" for i b
    by (simp add: s' block_tokens_slice seq_tokens_def)
  then have chain: "chain_hash xxh ad b s' n = chain_hash xxh ad b s n" for b n
    by (induction n) simp_all
  have old: "describes xxh ad bm' s (block_table s) v"
    using describes_keep [OF _ sub d] g by (auto simp: grown_def)
  show ?thesis
    unfolding describes_def
  proof (intro allI impI)
    fix i h assume i: "i < length (block_table s')" and h: "blk_hash (blocks bm' ! (block_table s' ! i)) = Some h"
    have "i < length (block_table s)"
    proof (rule ccontr)
      assume "\<not> ?thesis"
      then have "block_table s' ! i \<in> set new" using i by (simp add: s' nth_append)
      then show False using g h by (simp add: grown_def)
    qed
    then show "Suc i * block_size bm' \<le> v \<and> h = chain_hash xxh ad (block_size bm') s' (Suc i) \<and>
        blk_tokens (blocks bm' ! (block_table s' ! i)) = block_tokens i (block_size bm') s'"
      using describesD [OF old, of i h] h
      by (simp add: s' nth_append tok [unfolded s'] chain [unfolded s'])
  qed
qed

text \<open>An \<open>extend_for\<close> that succeeds covers every token; one that fails ran the pool dry.\<close>

lemma extend_for_grown:
  assumes e: "extend_for s bm = (r, s', bm')" and ok: "pool_ok bm H"
  obtains new where "grown H s bm new s' bm'"
    and "r = Inr () \<Longrightarrow> num_blocks_needed (block_size bm) s \<le> length (block_table s')"
    and "\<And>e. r = Inl e \<Longrightarrow> free_list bm' = [] \<and> e = NoFreeBlocks \<and>
        length (block_table s') < num_blocks_needed (block_size bm) s"
proof (cases "num_blocks_needed (block_size bm) s \<le> length (block_table s)")
  case True
  then have "r = Inr ()" "s' = s" "bm' = bm" using e by (simp_all add: extend_for_def)
  then show ?thesis using that [of "[]"] grown_refl [OF ok] True by simp
next
  case False
  let ?n = "num_blocks_needed (block_size bm) s - length (block_table s)"
  have push: "push_blocks ?n s bm = (r, s', bm')"
    using e False by (simp add: extend_for_def Let_def)
  obtain new where new: "grown H s bm new s' bm'" "r = Inr () \<longrightarrow> length new = ?n"
    "\<forall>e. r = Inl e \<longrightarrow> free_list bm' = [] \<and> e = NoFreeBlocks \<and> length new < ?n"
    using push_blocks_grown [OF push ok] by blast
  have len: "length (block_table s') = length (block_table s) + length new"
    using new(1) by (simp add: grown_def)
  show ?thesis
  proof (rule that [OF new(1)])
    show "num_blocks_needed (block_size bm) s \<le> length (block_table s')" if "r = Inr ()"
      using new(2) that len by linarith
    show "free_list bm' = [] \<and> e = NoFreeBlocks \<and>
        length (block_table s') < num_blocks_needed (block_size bm) s" if "r = Inl e" for e
      using new(3) that len False by (metis add_less_cancel_left le_add_diff_inverse nat_le_linear)
  qed
qed

lemma extend_for_slots_grown:
  assumes e: "extend_for_slots s extra bm = (r, s', bm')" and ok: "pool_ok bm H"
    and bs: "0 < block_size bm"
  obtains new where "grown H s bm new s' bm'"
    and "r = Inr () \<Longrightarrow> total_len s + extra \<le> length (block_table s') * block_size bm"
    and "\<And>e. r = Inl e \<Longrightarrow> new = [] \<and> s' = s \<and> bm' = bm"
proof -
  define needed where "needed = (if total_len s + extra = 0 then 0
    else div_ceil (total_len s + extra) (block_size bm))"
  have nd: "needed \<le> n \<longleftrightarrow> total_len s + extra \<le> n * block_size bm" for n
    using bs by (auto simp: needed_def div_ceil_le_iff)
  have eq: "extend_for_slots s extra bm =
      (if needed \<le> length (block_table s) then (Inr (), s, bm)
       else if length (free_list bm) < needed - length (block_table s)
       then (Inl (NeedSlotBlocks (needed - length (block_table s)) extra (length (free_list bm))), s, bm)
       else push_blocks (needed - length (block_table s)) s bm)"
    unfolding extend_for_slots_def Let_def needed_def by (rule refl)
  consider (enough) "needed \<le> length (block_table s)"
    | (dry) "length (block_table s) < needed" "length (free_list bm) < needed - length (block_table s)"
    | (room) "length (block_table s) < needed" "needed - length (block_table s) \<le> length (free_list bm)"
    by linarith
  then show ?thesis
  proof cases
    case enough
    then have "r = Inr ()" "s' = s" "bm' = bm"
      using e by (simp_all add: eq)
    then show ?thesis using that [of "[]"] grown_refl [OF ok] enough nd by simp
  next
    case dry
    then have "s' = s" "bm' = bm" "\<exists>e. r = Inl e"
      using e by (auto simp: eq)
    then show ?thesis using that [of "[]"] grown_refl [OF ok] by auto
  next
    case room
    then have push: "push_blocks (needed - length (block_table s)) s bm = (r, s', bm')"
      using e by (simp add: eq)
    have r: "r = Inr ()" using push_blocks_room [of _ bm s] room(2) push by (metis fst_conv)
    obtain new where new: "grown H s bm new s' bm'" "length new = needed - length (block_table s)"
      using push_blocks_grown [OF push ok] r by blast
    have "needed \<le> length (block_table s')" using room(1) new by (simp add: grown_def)
    then show ?thesis using that [OF new(1)] r nd by simp
  qed
qed

section \<open>Copy on write\<close>

text \<open>
  \<open>fork_tail_for_write\<close> leaves the sequence with a tail that nobody else references: either it
  already was the only holder, or it gets a fresh copy of the tokens and gives its reference up.
\<close>

lemma fork_tail_exclusive:
  assumes ok: "pool_ok bm (mset (block_table s) + H)" and ne: "block_table s \<noteq> []"
    and f: "fork_tail_for_write s bm = (Inr c, s', bm')"
  shows "pool_ok bm' (mset (block_table s') + H)"
    and "ref_count (blocks bm' ! last (block_table s')) = 1"
    and "keeps_labels H bm bm'"
    and "blk_tokens (blocks bm' ! last (block_table s')) = blk_tokens (blocks bm ! last (block_table s))"
    and "butlast (block_table s') = butlast (block_table s)"
proof -
  let ?t = "block_table s"
  define tail where "tail = last ?t"
  define H1 where "H1 = mset (butlast ?t) + H"
  have t: "?t = butlast ?t @ [tail]" using ne by (simp add: tail_def)
  have H1: "mset ?t + H = add_mset tail H1" by (subst t) (simp add: H1_def)
  have tl: "tail < num_blocks bm" using pool_ok_held [OF ok, of tail] H1 by simp
  have rc: "ref_count (blocks bm ! tail) = Suc (count H1 tail)"
    using pool_okD(3) [OF ok tl] H1 by simp
  have "pool_ok bm' (mset (block_table s') + H) \<and> ref_count (blocks bm' ! last (block_table s')) = 1 \<and>
    keeps_labels H bm bm' \<and>
    blk_tokens (blocks bm' ! last (block_table s')) = blk_tokens (blocks bm ! tail) \<and>
    butlast (block_table s') = butlast ?t"
  proof (cases "ref_count (blocks bm ! tail) \<le> 1")
    case True
    then have "s' = s" "bm' = bm" using f ne by (simp_all add: fork_tail_for_write_def tail_def Let_def)
    then show ?thesis using ok True rc by (simp add: tail_def)
  next
    case False
    obtain new bm1 where pop: "pop_free bm = (Inr new, bm1)"
      using f ne False by (auto simp: fork_tail_for_write_def tail_def Let_def split: prod.splits sum.splits)
    define src where "src = blk_tokens (blocks bm1 ! tail)"
    define bm2 where "bm2 = upd_block new (\<lambda>b. b\<lparr>blk_hash := None, blk_tokens := src\<rparr>) bm1"
    note p = pool_ok_pop [OF ok pop] popped_block [OF ok pop]
    note q = pop_free_Inr [OF pop]
    have nt: "new \<noteq> tail" using p(3) H1 by auto
    have new: "new < length (blocks bm1)" using p(2) q(4) pool_okD(1) [OF ok] by simp
    have eq: "upd_block new (\<lambda>b. b\<lparr>ref_count := 1, blk_hash := None, blk_tokens := src\<rparr>) bm1 = bm2"
    proof -
      have "ref_count (blocks bm1 ! new) = 1" using p(4) by (simp add: reset_block_def)
      then have "(blocks bm1 ! new)\<lparr>ref_count := 1, blk_hash := None, blk_tokens := src\<rparr> =
          (blocks bm1 ! new)\<lparr>blk_hash := None, blk_tokens := src\<rparr>"
        by (intro block.equality) simp_all
      then show ?thesis by (simp add: bm2_def upd_block_def)
    qed
    have tail2: "blocks bm2 ! tail = blocks bm ! tail"
      using nt tl pool_okD(1) [OF ok] q(4,5) by (simp add: bm2_def nth_upd_block)
    have bm': "bm' = release_one tail bm2"
      using f ne False pop eq tail2
      by (simp add: fork_tail_for_write_def tail_def Let_def src_def release_one_def)
    have s': "s' = s\<lparr>block_table := ?t[length ?t - 1 := new]\<rparr>"
      using f ne False pop by (simp add: fork_tail_for_write_def tail_def Let_def)
    then have t': "block_table s' = butlast ?t @ [new]"
      using ne by (simp add: butlast_conv_take upd_conv_take_nth_drop)
    have ok2: "pool_ok bm2 (add_mset tail (add_mset new H1))"
      using p(1) p(4) unfolding H1 bm2_def add_mset_commute [of tail new]
      by (intro pool_ok_upd_frame) (auto simp: reset_block_def)
    have "pool_ok bm' (add_mset new H1)" unfolding bm' by (rule pool_ok_release_one [OF ok2])
    moreover have "mset (block_table s') + H = add_mset new H1" by (simp add: t' H1_def)
    moreover have nth: "blocks bm' ! j = (if j = tail then (blocks bm2 ! j)\<lparr>ref_count := ref_count (blocks bm2 ! j) - 1\<rparr>
        else blocks bm2 ! j)" if "j < num_blocks bm" for j
      using that pool_okD(1) [OF ok2] q(2) by (simp add: bm' nth_release_one bm2_def)
    moreover have "ref_count (blocks bm' ! new) = 1" "blk_tokens (blocks bm' ! new) = src"
      using nth [OF p(2)] nt new p(4) by (simp_all add: bm2_def nth_upd_block reset_block_def)
    moreover have "src = blk_tokens (blocks bm ! tail)"
      using nt tl pool_okD(1) [OF ok] q(5) by (simp add: src_def)
    moreover have "keeps_labels H bm bm'"
    proof -
      have "blk_hash (blocks bm' ! j) = blk_hash (blocks bm ! j) \<and>
          blk_tokens (blocks bm' ! j) = blk_tokens (blocks bm ! j)" if "j \<in># H" for j
      proof -
        have j: "j < num_blocks bm" using pool_ok_held [OF ok, of j] that by simp
        have "j \<noteq> new" using p(3) that by auto
        then have "blocks bm2 ! j = blocks bm ! j"
          using j pool_okD(1) [OF ok] q(4,5) by (simp add: bm2_def nth_upd_block)
        then show ?thesis using nth [OF j] tail2 by auto
      qed
      then show ?thesis by (simp add: keeps_labels_def bm' bm2_def q(2,3))
    qed
    ultimately show ?thesis by (simp add: t')
  qed
  then show "pool_ok bm' (mset (block_table s') + H)"
    and "ref_count (blocks bm' ! last (block_table s')) = 1"
    and "keeps_labels H bm bm'"
    and "blk_tokens (blocks bm' ! last (block_table s')) = blk_tokens (blocks bm ! last ?t)"
    and "butlast (block_table s') = butlast ?t"
    by (auto simp: tail_def)
qed

section \<open>Appending a token\<close>

lemma block_tokens_prefix:
  assumes "Suc i * b \<le> length (seq_tokens s)" and "seq_tokens s' = seq_tokens s @ ts"
  shows "block_tokens i b s' = block_tokens i b s"
  using assms by (simp add: block_tokens_slice)

lemma chain_hash_prefix:
  assumes "n * b \<le> length (seq_tokens s)" and "seq_tokens s' = seq_tokens s @ ts"
  shows "chain_hash xxh ad b s' n = chain_hash xxh ad b s n"
  using assms
proof (induction n)
  case (Suc n)
  then have "block_tokens n b s' = block_tokens n b s" by (intro block_tokens_prefix)
  with Suc show ?case by simp
qed simp

lemma describes_append:
  assumes d: "describes xxh ad bm s t v" and v: "v \<le> total_len s" "v \<le> v'"
    and s': "seq_tokens s' = seq_tokens s @ ts"
  shows "describes xxh ad bm s' t v'"
  unfolding describes_def
proof (intro allI impI)
  fix i h assume i: "i < length t" and h: "blk_hash (blocks bm ! (t ! i)) = Some h"
  note e = describesD [OF d i h]
  have le: "Suc i * block_size bm \<le> length (seq_tokens s)" using e(1) v(1) by simp
  show "Suc i * block_size bm \<le> v' \<and> h = chain_hash xxh ad (block_size bm) s' (Suc i) \<and>
      blk_tokens (blocks bm ! (t ! i)) = block_tokens i (block_size bm) s'"
    using e v(2) chain_hash_prefix [OF le s'] block_tokens_prefix [OF le s'] by simp
qed

lemma describes_same:
  "describes xxh ad bm s t v \<Longrightarrow> seq_prompt s' = seq_prompt s \<Longrightarrow> seq_output s' = seq_output s \<Longrightarrow>
   v \<le> v' \<Longrightarrow> v \<le> total_len s \<Longrightarrow> describes xxh ad bm s' t v'"
  by (rule describes_append [where ts = "[]"]) (simp_all add: seq_tokens_def)

end
