(* ===== verification/Pool_Properties.thy ===== *)
theory Pool_Properties
  imports Block_Ops
begin

text \<open>
  The properties of the block pool, each stated over the definitions of \<open>Block_Manager\<close> and
  followed by a witness at a concrete pool. \<open>H\<close> is always the multiset of block ids held by
  sequences other than the one the operation works on.
\<close>

section \<open>A concrete pool for the witnesses\<close>

definition toy_hash :: hasher where
  "toy_hash bs seed = fold (\<lambda>b h. 31 * h + ucast b + 1) bs (seed + 7)"

definition toy_pool :: block_manager where
  "toy_pool =
     \<lparr> block_size = 2, num_blocks = 4, blocks = map new_block [0, 1, 2, 3], free_list = [0, 1, 2, 3],
       hash_to_block = Map.empty \<rparr>"

definition toy_seq :: sequence where
  "toy_seq = new_sequence 1 [5, 6, 7, 8, 9] 3"

definition toy_alloc :: "(engine_error + allocation) \<times> block_manager" where
  "toy_alloc = allocate_with_prefix_tagged toy_hash None toy_seq toy_pool"

lemma toy_pool_new: "toy_pool = new_block_manager 4 2"
proof -
  have "[0..<4] = [0, 1, 2, 3 :: nat]" by (simp add: upt_rec)
  then show ?thesis by (simp add: toy_pool_def new_block_manager_def)
qed

lemma toy_pool_ok: "pool_ok toy_pool {#}"
  unfolding toy_pool_new by (rule pool_ok_init) simp

lemma toy_alloc_result: "fst toy_alloc = Inr \<lparr>alloc_table = [0, 1, 2], cached_tokens = 0\<rparr>"
  unfolding toy_alloc_def by code_simp


section \<open>Allocation\<close>

text \<open>
  C9. A successful allocation accounts for every reference it hands out, rewrites no block that
  another sequence holds, hands out exactly the blocks the sequence needs, and each block that
  carries a hash carries the chained hash of this sequence's own prefix and this sequence's tokens.
\<close>

theorem allocation_describes_sequence:
  assumes "pool_ok bm H" and "0 < block_size bm"
    and "allocate_with_prefix_tagged xxh ad s bm = (Inr a, bm')"
  shows "pool_ok bm' (mset (alloc_table a) + H) \<and> keeps_held H bm bm' \<and>
    length (alloc_table a) = num_blocks_needed (block_size bm) s \<and>
    describes xxh ad bm' s (alloc_table a) (total_len s)"
  using allocate_Inr(1-4) [OF assms] by blast

lemma toy_alloc_pair:
  "allocate_with_prefix_tagged toy_hash None toy_seq toy_pool =
     (Inr \<lparr>alloc_table = [0, 1, 2], cached_tokens = 0\<rparr>, snd toy_alloc)"
  using toy_alloc_result by (simp add: toy_alloc_def prod_eq_iff)

lemma toy_block_size: "0 < block_size toy_pool"
  by (simp add: toy_pool_def)

theorem allocation_describes_sequence_witness:
  "pool_ok (snd toy_alloc) {#0, 1, 2#} \<and>
   describes toy_hash None (snd toy_alloc) toy_seq [0, 1, 2] (total_len toy_seq)"
  using allocation_describes_sequence [OF toy_pool_ok toy_block_size toy_alloc_pair] by simp

text \<open>
  A refused allocation leaves the pool as it was for everybody: the reference counts, the
  contents of the held blocks and the number of free blocks.
\<close>

theorem refused_allocation_gives_back:
  assumes "pool_ok bm H" and "allocate_with_prefix_tagged xxh ad s bm = (Inl e, bm')"
  shows "pool_ok bm' H \<and> keeps_held H bm bm' \<and> num_free bm' = num_free bm"
proof -
  have r: "pool_ok bm' H" "keeps_held H bm bm'" using allocate_Inl [OF assms] by simp_all
  then show ?thesis
    using block_pool.same_held_same_free [OF assms(1) r(1)] by (simp add: keeps_held_def)
qed

definition toy_long :: sequence where
  "toy_long = new_sequence 2 [1, 2, 3, 4, 5, 6, 7, 8, 9] 3"

lemma toy_refused:
  "allocate_with_prefix_tagged toy_hash None toy_long toy_pool =
     (Inl (NeedFreshBlocks 5 4), snd (allocate_with_prefix_tagged toy_hash None toy_long toy_pool))"
proof -
  have "fst (allocate_with_prefix_tagged toy_hash None toy_long toy_pool) = Inl (NeedFreshBlocks 5 4)"
    by code_simp
  then show ?thesis by (simp add: prod_eq_iff)
qed

theorem refused_allocation_gives_back_witness:
  "num_free (snd (allocate_with_prefix_tagged toy_hash None toy_long toy_pool)) = 4"
  using refused_allocation_gives_back [OF toy_pool_ok toy_refused] by (simp add: num_free_def toy_pool_def)

text \<open>
  The free-block check of the allocator is enough: when the free list is as long as the plan
  requires and no two blocks of the plan collide, the second loop never runs out of blocks. The
  collision hypothesis is needed because an equal hash with other tokens would displace an entry
  that the first loop counted as shareable.
\<close>

theorem allocation_check_suffices:
  assumes "pool_ok bm H" and "block_table s = []"
    and "plan_collision_free (alloc_plan xxh ad (block_size bm) s)"
    and "plan_need bm (alloc_plan xxh ad (block_size bm) s) \<le> num_free bm"
  shows "\<exists>a bm'. allocate_with_prefix_tagged xxh ad s bm = (Inr a, bm')"
  using allocate_succeeds [OF assms] .

theorem allocation_check_suffices_witness:
  "\<exists>a bm'. allocate_with_prefix_tagged toy_hash None toy_seq toy_pool = (Inr a, bm')"
proof (rule allocation_check_suffices [OF toy_pool_ok])
  have p: "alloc_plan toy_hash None (block_size toy_pool) toy_seq =
      [(Some (chain_hash toy_hash None 2 toy_seq 1), [5, 6]), (Some (chain_hash toy_hash None 2 toy_seq 2), [7, 8]),
       (None, [9])]"
    by code_simp
  have ne: "chain_hash toy_hash None 2 toy_seq 1 \<noteq> chain_hash toy_hash None 2 toy_seq 2"
    by code_simp
  show "block_table toy_seq = []" by (simp add: toy_seq_def new_sequence_def)
  show "plan_collision_free (alloc_plan toy_hash None (block_size toy_pool) toy_seq)"
    using ne unfolding p plan_collision_free_def by auto
  have "plan_need toy_pool (alloc_plan toy_hash None (block_size toy_pool) toy_seq) \<le> 3"
    using plan_need_le_length [of toy_pool "alloc_plan toy_hash None (block_size toy_pool) toy_seq"]
    by (simp add: p)
  then show "plan_need toy_pool (alloc_plan toy_hash None (block_size toy_pool) toy_seq) \<le> num_free toy_pool"
    by (simp add: num_free_def toy_pool_def)
qed

text \<open>
  C10. The tokens reported as cached are a run of whole blocks from token 0, every one of which is
  marked computed, and at least one token is always left to compute.
\<close>

theorem cached_tokens_are_computed:
  assumes "pool_ok bm H" and "0 < block_size bm" and "0 < total_len s"
    and "allocate_with_prefix_tagged xxh ad s bm = (Inr a, bm')"
  shows "block_size bm dvd cached_tokens a \<and> cached_tokens a < total_len s \<and>
    (\<forall>i < cached_tokens a div block_size bm. kv_computed (blocks bm' ! (alloc_table a ! i)))"
proof -
  obtain n where "cached_tokens a = n * block_size bm"
    and "\<forall>i<n. kv_computed (blocks bm' ! (alloc_table a ! i))"
    using allocate_Inr(6) [OF assms(1,2,4)] by (elim exE conjE) (rule that)
  then show ?thesis
    using allocate_Inr(7) [OF assms(1,2,4,3)] assms(2) by (simp add: MIN_RECOMPUTED_PREFILL_TOKENS_def)
qed

text \<open>The pool after a first sequence computed its prompt, and a second one with the same prefix.\<close>

definition toy_first :: sequence where
  "toy_first = toy_seq\<lparr>block_table := [0, 1, 2]\<rparr>"

definition toy_computed :: block_manager where
  "toy_computed = mark_kv_computed toy_first 5 (snd toy_alloc)"

definition toy_second :: sequence where
  "toy_second = new_sequence 2 [5, 6, 7, 8] 3"

definition toy_share :: "(engine_error + allocation) \<times> block_manager" where
  "toy_share = allocate_with_prefix_tagged toy_hash None toy_second toy_computed"

lemma toy_share_pair:
  "allocate_with_prefix_tagged toy_hash None toy_second toy_computed =
     (Inr \<lparr>alloc_table = [0, 1], cached_tokens = 2\<rparr>, snd toy_share)"
proof -
  have "fst toy_share = Inr \<lparr>alloc_table = [0, 1], cached_tokens = 2\<rparr>"
    unfolding toy_share_def toy_computed_def toy_alloc_def by code_simp
  then show ?thesis by (simp add: toy_share_def prod_eq_iff)
qed

lemma toy_computed_ok: "pool_ok toy_computed {#0, 1, 2#}" and toy_computed_size: "block_size toy_computed = 2"
proof -
  have "pool_ok (snd toy_alloc) {#0, 1, 2#} \<and> block_size (snd toy_alloc) = 2"
    using allocate_Inr(1,2) [OF toy_pool_ok toy_block_size toy_alloc_pair]
    by (simp add: keeps_held_def toy_pool_def)
  then show "pool_ok toy_computed {#0, 1, 2#}" and "block_size toy_computed = 2"
    using mark_kv_computed_frame(1) mark_kv_computed_frame(2) [of "{#}" "snd toy_alloc" toy_first 5]
    by (auto simp: toy_computed_def keeps_labels_def)
qed

theorem cached_tokens_are_computed_witness:
  "2 dvd (2 :: nat) \<and> (2 :: nat) < 4 \<and> kv_computed (blocks (snd toy_share) ! 0)"
  using cached_tokens_are_computed [OF toy_computed_ok _ _ toy_share_pair]
  by (simp add: toy_computed_size toy_second_def total_len_def new_sequence_def)

section \<open>Sharing\<close>






definition toy_sharer :: sequence where
  "toy_sharer = toy_second\<lparr>block_table := [0, 1]\<rparr>"



section \<open>Writing\<close>

text \<open>
  After \<open>fork_tail_for_write\<close> the sequence is the only holder of its last block: either it was
  already, or it received a fresh copy with the same tokens and gave its reference up. All other
  references, labels and table entries stay.
\<close>

theorem fork_tail_is_exclusive:
  assumes "pool_ok bm (mset (block_table s) + H)" and "block_table s \<noteq> []"
    and "fork_tail_for_write s bm = (Inr c, s', bm')"
  shows "pool_ok bm' (mset (block_table s') + H) \<and>
    ref_count_of bm' (last (block_table s')) = 1 \<and>
    blk_tokens (blocks bm' ! last (block_table s')) = blk_tokens (blocks bm ! last (block_table s)) \<and>
    butlast (block_table s') = butlast (block_table s) \<and> keeps_labels H bm bm'"
  using fork_tail_exclusive [OF assms] by (simp add: ref_count_of_def)

lemma toy_fork: "fork_tail_for_write toy_sharer (snd toy_share) =
    (Inr (Some \<lparr>logical_idx = 1, src_block = 1, dst_block = 3\<rparr>),
     toy_sharer\<lparr>block_table := [0, 3]\<rparr>, snd (snd (fork_tail_for_write toy_sharer (snd toy_share))))"
proof -
  have "fst (fork_tail_for_write toy_sharer (snd toy_share)) = Inr (Some \<lparr>logical_idx = 1, src_block = 1, dst_block = 3\<rparr>)"
    and "fst (snd (fork_tail_for_write toy_sharer (snd toy_share))) = toy_sharer\<lparr>block_table := [0, 3]\<rparr>"
    unfolding toy_share_def toy_computed_def toy_alloc_def by code_simp+
  then show ?thesis by (simp add: prod_eq_iff)
qed

lemma toy_share_ok: "pool_ok (snd toy_share) (mset (block_table toy_sharer) + {#0, 1, 2#})"
  using allocate_Inr(1) [OF toy_computed_ok _ toy_share_pair] by (simp add: toy_computed_size toy_sharer_def)

theorem fork_tail_is_exclusive_witness:
  "ref_count_of (snd (snd (fork_tail_for_write toy_sharer (snd toy_share)))) 3 = 1"
  using fork_tail_is_exclusive [OF toy_share_ok _ toy_fork] by (simp add: toy_sharer_def)

text \<open>
  \<open>extend_for_slots\<close> is all or nothing: a refusal leaves the sequence and the pool untouched, and
  a success gives the sequence room for all the extra tokens while every other holder keeps its
  blocks and their contents.
\<close>

theorem extend_for_slots_all_or_nothing:
  assumes "pool_ok bm (mset (block_table s) + H)" and "0 < block_size bm"
    and "extend_for_slots s extra bm = (r, s', bm')"
  shows "case r of
      Inl e \<Rightarrow> s' = s \<and> bm' = bm
    | Inr u \<Rightarrow> total_len s + extra \<le> length (block_table s') * block_size bm \<and>
              pool_ok bm' (mset (block_table s') + H) \<and> keeps_held (mset (block_table s) + H) bm bm' \<and>
              take (length (block_table s)) (block_table s') = block_table s"
proof -
  obtain new where g: "grown (mset (block_table s) + H) s bm new s' bm'"
    and r: "r = Inr () \<Longrightarrow> total_len s + extra \<le> length (block_table s') * block_size bm"
    and l: "\<And>e. r = Inl e \<Longrightarrow> new = [] \<and> s' = s \<and> bm' = bm"
    using extend_for_slots_grown [OF assms(3,1,2)] by metis
  show ?thesis using g r l by (cases r) (auto simp: grown_def ac_simps)
qed

theorem extend_for_slots_all_or_nothing_witness:
  "extend_for_slots toy_sharer 5 (snd toy_share) =
     (fst (extend_for_slots toy_sharer 5 (snd toy_share)), toy_sharer, snd toy_share)"
proof -
  have f: "fst (extend_for_slots toy_sharer 5 (snd toy_share)) = Inl (NeedSlotBlocks 3 5 1)"
    unfolding toy_share_def toy_computed_def toy_alloc_def by code_simp
  have bs: "0 < block_size (snd toy_share)"
    using allocate_Inr(2) [OF toy_computed_ok _ toy_share_pair] by (simp add: keeps_held_def toy_computed_size)
  obtain s' bm' where "extend_for_slots toy_sharer 5 (snd toy_share) = (Inl (NeedSlotBlocks 3 5 1), s', bm')"
    using f by (metis prod.exhaust_sel)
  with extend_for_slots_all_or_nothing [OF toy_share_ok bs this] show ?thesis by simp
qed

section \<open>Returning\<close>

text \<open>
  Blocks are conserved: the free blocks and the distinct blocks held by sequences are always
  the whole pool, and when the last sequence is deallocated every block is free again, however its
  blocks were shared. A second deallocation of the same sequence is then a no-op.
\<close>

theorem deallocation_returns_everything:
  assumes "pool_ok bm (mset (block_table s) + H)"
  shows "num_free (deallocate s bm) + card (set_mset H) = num_blocks bm \<and>
    (H = {#} \<longrightarrow> deallocate s (deallocate s bm) = deallocate s bm)"
proof
  have ok: "pool_ok (deallocate s bm) H" using assms by (rule pool_ok_deallocate)
  show "num_free (deallocate s bm) + card (set_mset H) = num_blocks bm"
    using block_pool.conserved [OF ok] by (simp add: deallocate_def)
  show "H = {#} \<longrightarrow> deallocate s (deallocate s bm) = deallocate s bm"
  proof
    assume "H = {#}"
    then have none: "ref_count (blocks (deallocate s bm) ! i) = 0" if "i \<in> set (block_table s)" for i
      using pool_okD(3) [OF ok, of i] pool_ok_held [OF assms, of i] that by (simp add: deallocate_def)
    have "fold release_one is (deallocate s bm) = deallocate s bm" if "set is \<subseteq> set (block_table s)" for "is"
      using that by (induction "is") (simp_all add: release_one_unreferenced none)
    then show "deallocate s (deallocate s bm) = deallocate s bm"
      by (subst deallocate_def) simp
  qed
qed

theorem deallocation_returns_everything_witness:
  "num_free (deallocate (toy_sharer\<lparr>block_table := [0, 1, 2]\<rparr>) (snd toy_alloc)) = 4"
proof -
  have "pool_ok (snd toy_alloc) (mset (block_table (toy_sharer\<lparr>block_table := [0, 1, 2]\<rparr>)) + {#})"
    and "num_blocks (snd toy_alloc) = 4"
    using allocate_Inr(1,2) [OF toy_pool_ok toy_block_size toy_alloc_pair]
    by (simp_all add: keeps_held_def toy_pool_def)
  with deallocation_returns_everything [OF this(1)] show ?thesis by simp
qed

text \<open>
  Publishing computed blocks is sound: it only labels blocks below the computed position, with
  the chained hash of the sequence's own tokens, so the table still describes the sequence, and it
  changes no label of a block that another sequence holds.
\<close>

theorem publishing_is_sound:
  assumes "pool_ok bm (mset (block_table s) + H)" and "0 < block_size bm"
    and "describes xxh None bm s (block_table s) valid"
  shows "pool_ok (publish_computed_blocks xxh s valid bm) (mset (block_table s) + H) \<and>
    describes xxh None (publish_computed_blocks xxh s valid bm) s (block_table s) valid \<and>
    keeps_labels H bm (publish_computed_blocks xxh s valid bm)"
  using publish_computed_blocks_ok [OF assms] by blast

theorem publishing_is_sound_witness:
  "describes toy_hash None (publish_computed_blocks toy_hash toy_first 5 (snd toy_alloc)) toy_first [0, 1, 2] 5"
proof -
  have ok: "pool_ok (snd toy_alloc) (mset (block_table toy_first) + {#})" and bs: "0 < block_size (snd toy_alloc)"
    using allocate_Inr(1,2) [OF toy_pool_ok toy_block_size toy_alloc_pair]
    by (simp_all add: keeps_held_def toy_pool_def toy_first_def)
  have "describes toy_hash None (snd toy_alloc) toy_first (block_table toy_first) 5"
    using describes_same [OF allocate_Inr(4) [OF toy_pool_ok toy_block_size toy_alloc_pair], of toy_first]
    by (simp add: toy_first_def toy_seq_def total_len_def new_sequence_def)
  from publishing_is_sound [OF ok bs this] show ?thesis by (simp add: toy_first_def)
qed

end
