(* ===== verification/Scheduler.thy ===== *)
theory Scheduler
  imports Block_Manager
begin

text \<open>
  \<open>rust/crates/nv-engine/src/scheduler.rs\<close>: continuous batching. Requests wait in \<open>waiting\<close>,
  run in \<open>running\<close> and end in \<open>finished\<close>. \<open>step\<close> builds one batch, \<open>complete_step\<close> and
  \<open>complete_verify_step\<close> apply the model's tokens to it. When the block pool runs dry the youngest
  running sequence is preempted: its blocks go back and it waits again, to be recomputed.

  The hash function \<open>xxh\<close> is the parameter of the block manager; \<open>cm\<close> is the value of
  \<open>prefill_chunk_min()\<close>, which the program reads once from its environment. A fallible method
  returns its result and the scheduler as it stands when the method returns.
\<close>

section \<open>Data\<close>

datatype batch_kind = PrefillBatch | DecodeBatch | MixedBatch | VerifyBatch

record seq_item =
  item_seq_id :: u64
  num_scheduled_tokens :: nat
  is_prefill :: bool
  is_final_prefill_chunk :: bool

definition produces_token :: "seq_item \<Rightarrow> bool" where
  "produces_token it = (\<not> is_prefill it \<or> is_final_prefill_chunk it)"

record scheduled_batch =
  batch_kind_of :: batch_kind
  batch_seq_ids :: "u64 list"
  batch_items :: "seq_item list"

record step_failure =
  failed_seq_id :: u64
  failure_error :: engine_error

record verify_outcome =
  accepted_count :: nat
  bonus_token :: token
  accepted_drafts :: "token list"

record scheduler_config =
  max_batch_size :: nat
  max_batched_tokens :: nat
  cfg_block_size :: nat
  cfg_num_blocks :: nat

record scheduler =
  config :: scheduler_config
  pool :: block_manager
  waiting :: "sequence list"
  running :: "sequence list"
  finished :: "sequence list"
  last_batch :: "scheduled_batch option"
  num_running_with_drafts :: nat
  prefix_cache_reuse :: bool
  every_eos :: "u64 \<rightharpoonup> token list"

section \<open>The prefill chunk floor\<close>

text \<open>\<open>str::parse::<usize>\<close>: an optional plus sign, then decimal digits, no overflow.\<close>

definition parse_usize :: "string \<Rightarrow> nat option" where
  "parse_usize str =
     (let ds = (case str of c # r \<Rightarrow> if c = CHR ''+'' then r else str | [] \<Rightarrow> []);
          n = foldl (\<lambda>a c. 10 * a + (of_char c - 48)) 0 ds
      in if ds \<noteq> [] \<and> list_all (\<lambda>c. 48 \<le> (of_char c :: nat) \<and> (of_char c :: nat) \<le> 57) ds \<and> n < 2 ^ 64
         then Some n else None)"

definition prefill_chunk_min :: "string option \<Rightarrow> nat" where
  "prefill_chunk_min env =
     (case env of
        Some v \<Rightarrow> if v = ''1'' then 256 else (case parse_usize v of Some n \<Rightarrow> n | None \<Rightarrow> 0)
      | None \<Rightarrow> 0)"

definition floored_take :: "nat \<Rightarrow> nat \<Rightarrow> nat \<Rightarrow> nat" where
  "floored_take remaining budget floor =
     (let tk = min remaining budget in
      if floor \<le> 1 \<or> tk = remaining \<or> tk < floor then tk
      else if floor \<le> remaining - tk then tk
      else let pulled = remaining - floor in
           if floor \<le> pulled then pulled else tk)"

section \<open>Queueing\<close>

definition new_scheduler :: "scheduler_config \<Rightarrow> scheduler" where
  "new_scheduler cfg =
     \<lparr> config = cfg, pool = new_block_manager (cfg_num_blocks cfg) (cfg_block_size cfg),
       waiting = [], running = [], finished = [], last_batch = None,
       num_running_with_drafts = 0, prefix_cache_reuse = True, every_eos = Map.empty \<rparr>"

definition enqueue :: "sequence \<Rightarrow> scheduler \<Rightarrow> scheduler" where
  "enqueue s sch = sch\<lparr>waiting := waiting sch @ [s]\<rparr>"

definition enqueue_with_eos_ids :: "sequence \<Rightarrow> token list \<Rightarrow> scheduler \<Rightarrow> scheduler" where
  "enqueue_with_eos_ids s ids sch =
     enqueue s (sch\<lparr>every_eos := (every_eos sch)(seq_id s \<mapsto> ids)\<rparr>)"

definition stop_reason :: "(u64 \<rightharpoonup> token list) \<Rightarrow> sequence \<Rightarrow> finish_reason option" where
  "stop_reason eos s =
     (if seq_output s \<noteq> [] \<and>
         (case eos (seq_id s) of Some ids \<Rightarrow> last (seq_output s) \<in> set ids | None \<Rightarrow> False)
      then Some Eos else check_stop s)"

text \<open>
  The draft counter is a \<open>usize\<close> that the code decrements without a check; the invariant of
  \<open>Scheduler_Inv\<close> shows it is positive there.
\<close>

definition bump_drafts :: "scheduler \<Rightarrow> scheduler" where
  "bump_drafts sch = sch\<lparr>num_running_with_drafts := num_running_with_drafts sch + 1\<rparr>"

definition drop_drafts :: "sequence \<Rightarrow> scheduler \<Rightarrow> scheduler" where
  "drop_drafts s sch =
     (if has_drafts s then sch\<lparr>num_running_with_drafts := num_running_with_drafts sch - 1\<rparr> else sch)"

definition note_drafts_set :: "bool \<Rightarrow> bool \<Rightarrow> scheduler \<Rightarrow> scheduler" where
  "note_drafts_set had has sch =
     (if has \<and> \<not> had then bump_drafts sch
      else if had \<and> \<not> has then sch\<lparr>num_running_with_drafts := num_running_with_drafts sch - 1\<rparr>
      else sch)"

definition has_id :: "u64 \<Rightarrow> sequence \<Rightarrow> bool" where
  "has_id i s = (seq_id s = i)"

definition set_drafts :: "u64 \<Rightarrow> token list \<Rightarrow> scheduler \<Rightarrow> (engine_error + unit) \<times> scheduler" where
  "set_drafts i d sch =
     (case position (has_id i) (running sch) of
        None \<Rightarrow> (Inl (NotRunning i), sch)
      | Some k \<Rightarrow>
          let s = running sch ! k; s1 = put_drafts d s in
          (Inr (), note_drafts_set (has_drafts s) (has_drafts s1)
                     (sch\<lparr>running := (running sch)[k := s1]\<rparr>)))"

definition has_work :: "scheduler \<Rightarrow> bool" where
  "has_work sch = (waiting sch \<noteq> [] \<or> running sch \<noteq> [])"

definition abort :: "u64 \<Rightarrow> scheduler \<Rightarrow> scheduler" where
  "abort i sch =
     (case position (has_id i) (waiting sch) of
        Some k \<Rightarrow> sch\<lparr>waiting := remove_at k (waiting sch),
                      finished := finished sch @ [abort_seq (waiting sch ! k)]\<rparr>
      | None \<Rightarrow>
          (case position (has_id i) (running sch) of
             None \<Rightarrow> sch
           | Some k \<Rightarrow>
               let s = running sch ! k;
                   s1 = (if has_drafts s then clear_drafts s else s);
                   sch1 = drop_drafts s (sch\<lparr>running := remove_at k (running sch)\<rparr>)
               in sch1\<lparr>pool := deallocate s1 (pool sch1), finished := finished sch1 @ [abort_seq s1]\<rparr>))"

section \<open>Building a batch\<close>

definition in_state :: "sequence_state \<Rightarrow> sequence \<Rightarrow> bool" where
  "in_state st s = (seq_state s = st)"

definition has_verify_ready_drafts :: "scheduler \<Rightarrow> bool" where
  "has_verify_ready_drafts sch =
     (0 < num_running_with_drafts sch \<and>
      list_ex (\<lambda>s. \<not> is_finished s \<and> has_drafts s \<and> in_state Decode s) (running sch))"

text \<open>The first pass: one decode token for each running sequence without drafts.\<close>

fun decode_pass :: "nat \<Rightarrow> sequence list \<Rightarrow> seq_item list \<Rightarrow> nat \<Rightarrow> seq_item list \<times> nat" where
  "decode_pass mb [] items budget = (items, budget)"
| "decode_pass mb (s # ss) items budget =
     (if budget = 0 \<or> mb \<le> length items then (items, budget)
      else if is_finished s \<or> has_drafts s \<or> \<not> in_state Decode s then decode_pass mb ss items budget
      else decode_pass mb ss
             (items @ [\<lparr>item_seq_id = seq_id s, num_scheduled_tokens = 1, is_prefill = False,
                        is_final_prefill_chunk = False\<rparr>]) (budget - 1))"

definition prefill_item :: "sequence \<Rightarrow> nat \<Rightarrow> seq_item" where
  "prefill_item s tk =
     \<lparr> item_seq_id = seq_id s, num_scheduled_tokens = tk, is_prefill = True,
       is_final_prefill_chunk = (tk = remaining_uncomputed s) \<rparr>"

text \<open>The second pass: the next chunk of each sequence already in prefill.\<close>

fun prefill_pass ::
  "nat \<Rightarrow> nat \<Rightarrow> sequence list \<Rightarrow> seq_item list \<Rightarrow> nat \<Rightarrow> seq_item list \<times> nat" where
  "prefill_pass cm mb [] items budget = (items, budget)"
| "prefill_pass cm mb (s # ss) items budget =
     (if budget = 0 \<or> mb \<le> length items then (items, budget)
      else if is_finished s \<or> \<not> in_state Prefill s then prefill_pass cm mb ss items budget
      else let remaining = remaining_uncomputed s in
           if remaining = 0 then prefill_pass cm mb ss items budget
           else let tk = floored_take remaining budget cm in
                if tk = 0 then prefill_pass cm mb ss items budget
                else prefill_pass cm mb ss (items @ [prefill_item s tk]) (budget - tk))"

text \<open>
  The third pass admits from the head of the waiting queue, which is the list argument. It stops
  at the first sequence the pool cannot hold, which stays at the head.
\<close>

fun admit_pass ::
  "hasher \<Rightarrow> nat \<Rightarrow> sequence list \<Rightarrow> seq_item list \<Rightarrow> nat \<Rightarrow> scheduler \<Rightarrow>
   (engine_error + seq_item list) \<times> scheduler" where
  "admit_pass xxh cm [] items budget sch = (Inr items, sch\<lparr>waiting := []\<rparr>)"
| "admit_pass xxh cm (s # ws) items budget sch =
     (if budget = 0 \<or> max_batch_size (config sch) \<le> length items
      then (Inr items, sch\<lparr>waiting := s # ws\<rparr>)
      else if total_len s = 0
      then admit_pass xxh cm ws items budget (sch\<lparr>finished := finished sch @ [abort_seq s]\<rparr>)
      else (case allocate_with_prefix xxh s (pool sch) of
              (Inl e, bm) \<Rightarrow> (Inr items, sch\<lparr>pool := bm, waiting := s # ws\<rparr>)
            | (Inr a, bm) \<Rightarrow>
                (case transition_to_prefill_with_cache
                        (if prefix_cache_reuse sch then cached_tokens a else 0)
                        (s\<lparr>block_table := alloc_table a\<rparr>) of
                   (Inl e, s1) \<Rightarrow> (Inl e, sch\<lparr>pool := bm, waiting := ws\<rparr>)
                 | (Inr u, s1) \<Rightarrow>
                     let tk = floored_take (remaining_uncomputed s1) budget cm;
                         sch1 = sch\<lparr>pool := bm, running := running sch @ [s1]\<rparr>
                     in if tk = 0 then (Inr items, sch1\<lparr>waiting := ws\<rparr>)
                        else admit_pass xxh cm ws (items @ [prefill_item s1 tk]) (budget - tk) sch1)))"

definition kind_for_items :: "seq_item list \<Rightarrow> batch_kind" where
  "kind_for_items items =
     (case (list_ex is_prefill items, list_ex (\<lambda>it. \<not> is_prefill it) items) of
        (True, True) \<Rightarrow> MixedBatch
      | (True, False) \<Rightarrow> PrefillBatch
      | _ \<Rightarrow> DecodeBatch)"

definition build_mixed_batch ::
  "hasher \<Rightarrow> nat \<Rightarrow> scheduler \<Rightarrow> (engine_error + scheduled_batch) \<times> scheduler" where
  "build_mixed_batch xxh cm sch =
     (let mb = max_batch_size (config sch);
          (items1, budget1) = decode_pass mb (running sch) [] (max_batched_tokens (config sch));
          (items2, budget2) = prefill_pass cm mb (running sch) items1 budget1
      in case admit_pass xxh cm (waiting sch) items2 budget2 sch of
           (Inl e, sch1) \<Rightarrow> (Inl e, sch1)
         | (Inr items, sch1) \<Rightarrow>
             (Inr \<lparr> batch_kind_of = kind_for_items items, batch_seq_ids = map item_seq_id items,
                    batch_items = items \<rparr>, sch1))"

text \<open>
  One candidate of the verify batch. \<open>running.remove(idx)\<close> followed by \<open>insert(idx, seq)\<close> puts
  the sequence back where it was.
\<close>

definition verify_candidate :: "u64 \<Rightarrow> scheduler \<Rightarrow> bool \<times> scheduler" where
  "verify_candidate i sch =
     (case position (has_id i) (running sch) of
        None \<Rightarrow> (False, sch)
      | Some k \<Rightarrow>
          let s = running sch ! k; rest = remove_at k (running sch) in
          (case extend_for_slots s (1 + draft_len s) (pool sch) of
             (Inr u, s1, bm) \<Rightarrow>
               (True, sch\<lparr>pool := bm, running := insert_at k s1 rest\<rparr>)
           | (Inl e, s1, bm) \<Rightarrow>
               let sch1 = drop_drafts s1 (sch\<lparr>pool := bm, running := rest\<rparr>);
                   s2 = clear_drafts s1;
                   s3 = s2\<lparr>block_table := [], seq_state := Waiting\<rparr>
               in (False, sch1\<lparr>pool := deallocate s2 (pool sch1), waiting := s3 # waiting sch1\<rparr>)))"

fun verify_pass :: "u64 list \<Rightarrow> u64 list \<Rightarrow> scheduler \<Rightarrow> u64 list \<times> scheduler" where
  "verify_pass [] acc sch = (acc, sch)"
| "verify_pass (i # is) acc sch =
     (if max_batch_size (config sch) \<le> length acc then (acc, sch)
      else (case verify_candidate i sch of
              (ok, sch1) \<Rightarrow> verify_pass is (if ok then acc @ [i] else acc) sch1))"

definition build_verify_batch :: "scheduler \<Rightarrow> scheduled_batch \<times> scheduler" where
  "build_verify_batch sch =
     (let candidates = map seq_id (filter (\<lambda>s. \<not> is_finished s \<and> in_state Decode s) (running sch));
          (ids, sch1) = verify_pass candidates [] sch
      in (\<lparr>batch_kind_of = VerifyBatch, batch_seq_ids = ids, batch_items = []\<rparr>, sch1))"

definition step :: "hasher \<Rightarrow> nat \<Rightarrow> scheduler \<Rightarrow> (engine_error + scheduled_batch) \<times> scheduler" where
  "step xxh cm sch =
     (if has_verify_ready_drafts sch
      then let (b, sch1) = build_verify_batch sch in (Inr b, sch1\<lparr>last_batch := Some b\<rparr>)
      else (case build_mixed_batch xxh cm sch of
              (Inl e, sch1) \<Rightarrow> (Inl e, sch1)
            | (Inr b, sch1) \<Rightarrow> (Inr b, sch1\<lparr>last_batch := Some b\<rparr>)))"

section \<open>Preemption\<close>

definition preempt :: "sequence \<Rightarrow> scheduler \<Rightarrow> scheduler" where
  "preempt s sch =
     (let sch1 = drop_drafts s sch;
          s1 = (if has_drafts s then clear_drafts s else s);
          s2 = reset_for_recompute (s1\<lparr>block_table := []\<rparr>)
      in sch1\<lparr>pool := deallocate s1 (pool sch1), waiting := s2 # waiting sch1\<rparr>)"

lemma preempt_running [simp]: "running (preempt s sch) = running sch"
  by (simp add: preempt_def drop_drafts_def Let_def)

text \<open>
  The loop of \<open>extend_blocks_or_preempt\<close>: the sequence in hand was taken from position \<open>idx\<close> of
  \<open>running\<close>; each round preempts the last running sequence, so the loop ends.
\<close>

function extend_loop ::
  "nat \<Rightarrow> sequence \<Rightarrow> scheduler \<Rightarrow> step_failure option \<times> scheduler" where
  "extend_loop idx s sch =
     (case extend_for s (pool sch) of
        (Inr u, s1, bm) \<Rightarrow>
          (None, sch\<lparr>pool := bm,
                     running := insert_at (min idx (length (running sch))) s1 (running sch)\<rparr>)
      | (Inl e, s1, bm) \<Rightarrow>
          let sch1 = sch\<lparr>pool := bm\<rparr> in
          if cfg_num_blocks (config sch1) < num_blocks_needed (cfg_block_size (config sch1)) s1
          then let sch2 = drop_drafts s1 (sch1\<lparr>pool := deallocate s1 bm\<rparr>);
                   s2 = (if has_drafts s1 then clear_drafts s1 else s1)
               in (Some \<lparr>failed_seq_id = seq_id s2, failure_error = e\<rparr>,
                   sch2\<lparr>finished := finished sch2 @ [abort_seq s2]\<rparr>)
          else if idx < length (running sch1)
          then extend_loop idx s1
                 (preempt (last (running sch1)) (sch1\<lparr>running := butlast (running sch1)\<rparr>))
          else (None, preempt s1 sch1))"
  by pat_completeness auto
termination
  by (relation "measure (\<lambda>(idx, s, sch). length (running sch))") auto

declare extend_loop.simps [simp del]

definition extend_blocks_or_preempt :: "u64 \<Rightarrow> scheduler \<Rightarrow> step_failure option \<times> scheduler" where
  "extend_blocks_or_preempt i sch =
     (case position (has_id i) (running sch) of
        None \<Rightarrow> (None, sch)
      | Some k \<Rightarrow> extend_loop k (running sch ! k) (sch\<lparr>running := remove_at k (running sch)\<rparr>))"

fun extend_all :: "u64 list \<Rightarrow> step_failure list \<Rightarrow> scheduler \<Rightarrow> step_failure list \<times> scheduler" where
  "extend_all [] fs sch = (fs, sch)"
| "extend_all (i # is) fs sch =
     (case extend_blocks_or_preempt i sch of
        (None, sch1) \<Rightarrow> extend_all is fs sch1
      | (Some f, sch1) \<Rightarrow> extend_all is (fs @ [f]) sch1)"

section \<open>Completing a mixed batch\<close>

text \<open>The transition and the append of \<open>apply_scheduled_item\<close>, which share one error path.\<close>

definition take_token :: "bool \<Rightarrow> token \<Rightarrow> sequence \<Rightarrow> (engine_error + unit) \<times> sequence" where
  "take_token final t s =
     (let (o1, s1) = (if final then transition_to_decode s else (Inr (), s))
      in case o1 of Inl e \<Rightarrow> (Inl e, s1) | Inr u \<Rightarrow> append_token t s1)"

text \<open>
  \<open>apply_scheduled_item\<close>. \<open>Inr True\<close>: the sequence goes on and needs room for its next token;
  \<open>Inr False\<close>: it does not (a prefill chunk that is not the last, or the sequence stopped).
\<close>

definition apply_scheduled_item ::
  "hasher \<Rightarrow> seq_item \<Rightarrow> token option \<Rightarrow> scheduler \<Rightarrow> (engine_error + bool) \<times> scheduler" where
  "apply_scheduled_item xxh it tok sch =
     (case position (has_id (item_seq_id it)) (running sch) of
        None \<Rightarrow> (Inl (NotRunning (item_seq_id it)), sch)
      | Some k \<Rightarrow>
          let s0 = running sch ! k;
              rest = remove_at k (running sch);
              s = (if is_prefill it then record_computed (num_scheduled_tokens it) s0 else s0)
          in case tok of
               None \<Rightarrow> (Inr False, sch\<lparr>running := insert_at k s rest\<rparr>)
             | Some t \<Rightarrow>
                 (case take_token (is_final_prefill_chunk it) t s of
                    (Inl e, s2) \<Rightarrow>
                      (Inl e, sch\<lparr>running := rest, pool := deallocate s2 (pool sch),
                                  finished := finished sch @ [abort_seq s2]\<rparr>)
                  | (Inr u, s2) \<Rightarrow>
                      let s3 = record_computed 1 s2;
                          valid = total_len s3 - 1;
                          bm1 = mark_kv_computed s3 valid (pool sch);
                          bm2 = (if prefix_cache_reuse sch
                                 then publish_computed_blocks xxh s3 valid bm1 else bm1)
                      in case stop_reason (every_eos sch) s3 of
                           Some r \<Rightarrow>
                             (Inr False, sch\<lparr>running := rest, pool := deallocate s3 bm2,
                                             finished := finished sch @ [finish r s3]\<rparr>)
                         | None \<Rightarrow>
                             (Inr True, sch\<lparr>pool := bm2, running := insert_at k s3 rest\<rparr>)))"

text \<open>
  The loop over the items. The caller has checked that there are as many tokens as items that
  produce one, so \<open>tokens.next().unwrap()\<close> does not fail; the last equation keeps the function
  total.
\<close>

fun apply_items ::
  "hasher \<Rightarrow> seq_item list \<Rightarrow> token list \<Rightarrow> step_failure list \<Rightarrow> u64 list \<Rightarrow> scheduler \<Rightarrow>
   step_failure list \<times> u64 list \<times> scheduler" where
  "apply_items xxh [] toks fs need sch = (fs, need, sch)"
| "apply_items xxh (it # its) toks fs need sch =
     (let (tok, toks1) = (if produces_token it
                          then (case toks of t # ts \<Rightarrow> (Some t, ts) | [] \<Rightarrow> (None, []))
                          else (None, toks))
      in case apply_scheduled_item xxh it tok sch of
           (Inr True, sch1) \<Rightarrow> apply_items xxh its toks1 fs (need @ [item_seq_id it]) sch1
         | (Inr False, sch1) \<Rightarrow> apply_items xxh its toks1 fs need sch1
         | (Inl e, sch1) \<Rightarrow>
             apply_items xxh its toks1
               (fs @ [\<lparr>failed_seq_id = item_seq_id it, failure_error = e\<rparr>]) need sch1)"

definition complete_step ::
  "hasher \<Rightarrow> token list \<Rightarrow> scheduler \<Rightarrow> (engine_error + step_failure list) \<times> scheduler" where
  "complete_step xxh sampled sch =
     (case last_batch sch of
        None \<Rightarrow> (Inl NoPriorStep, sch)
      | Some b \<Rightarrow>
          let sch0 = sch\<lparr>last_batch := None\<rparr> in
          if batch_kind_of b = VerifyBatch then (Inl WrongBatchKind, sch0)
          else let expected = length (filter produces_token (batch_items b)) in
               if expected \<noteq> length sampled then (Inl (CountMismatch (length sampled) expected), sch0)
               else let (fs, need, sch1) = apply_items xxh (batch_items b) sampled [] [] sch0;
                        (fs1, sch2) = extend_all need fs sch1
                    in (Inr fs1, sch2))"

section \<open>Completing a verify batch\<close>

text \<open>
  The append loop: it ends at the first token that cannot be appended or that stops the sequence.
\<close>

fun append_verified ::
  "(u64 \<rightharpoonup> token list) \<Rightarrow> token list \<Rightarrow> sequence \<Rightarrow> (engine_error + unit) \<times> bool \<times> sequence" where
  "append_verified eos [] s = (Inr (), False, s)"
| "append_verified eos (t # ts) s =
     (case append_token t s of
        (Inl e, s1) \<Rightarrow> (Inl e, False, s1)
      | (Inr u, s1) \<Rightarrow>
          (case stop_reason eos s1 of
             Some r \<Rightarrow> (Inr (), True, finish r s1)
           | None \<Rightarrow> append_verified eos ts s1))"

definition apply_verify_outcome ::
  "u64 \<Rightarrow> verify_outcome \<Rightarrow> scheduler \<Rightarrow> (engine_error + unit) \<times> scheduler" where
  "apply_verify_outcome i out sch =
     (case position (has_id i) (running sch) of
        None \<Rightarrow> (Inl (NotRunning i), sch)
      | Some k \<Rightarrow>
          let s = running sch ! k;
              rest = remove_at k (running sch);
              sch1 = drop_drafts s (sch\<lparr>running := rest\<rparr>);
              s1 = clear_drafts (s\<lparr>accepted_token_count := accepted_count out\<rparr>);
              (r, done, s2) = append_verified (every_eos sch1) (accepted_drafts out @ [bonus_token out]) s1;
              (r2, s3, bm) = (case r of
                                Inr u \<Rightarrow> if done then (r, s2, pool sch1) else extend_for s2 (pool sch1)
                              | Inl e \<Rightarrow> (r, s2, pool sch1))
          in case r2 of
               Inl e \<Rightarrow> (Inl e, sch1\<lparr>pool := deallocate s3 bm, finished := finished sch1 @ [abort_seq s3]\<rparr>)
             | Inr u \<Rightarrow>
                 if done
                 then (Inr (), sch1\<lparr>pool := deallocate s3 bm, finished := finished sch1 @ [s3]\<rparr>)
                 else (Inr (), sch1\<lparr>pool := bm, running := insert_at k s3 rest\<rparr>))"

fun apply_outcomes ::
  "(u64 \<times> verify_outcome) list \<Rightarrow> step_failure list \<Rightarrow> scheduler \<Rightarrow> step_failure list \<times> scheduler" where
  "apply_outcomes [] fs sch = (fs, sch)"
| "apply_outcomes ((i, out) # os) fs sch =
     (case apply_verify_outcome i out sch of
        (Inl e, sch1) \<Rightarrow> apply_outcomes os (fs @ [\<lparr>failed_seq_id = i, failure_error = e\<rparr>]) sch1
      | (Inr u, sch1) \<Rightarrow> apply_outcomes os fs sch1)"

definition complete_verify_step ::
  "verify_outcome list \<Rightarrow> scheduler \<Rightarrow> (engine_error + step_failure list) \<times> scheduler" where
  "complete_verify_step outs sch =
     (case last_batch sch of
        None \<Rightarrow> (Inl NoPriorStep, sch)
      | Some b \<Rightarrow>
          let sch0 = sch\<lparr>last_batch := None\<rparr> in
          if batch_kind_of b \<noteq> VerifyBatch then (Inl WrongBatchKind, sch0)
          else if length (batch_seq_ids b) \<noteq> length outs
          then (Inl (CountMismatch (length outs) (length (batch_seq_ids b))), sch0)
          else let (fs, sch1) = apply_outcomes (zip (batch_seq_ids b) outs) [] sch0 in (Inr fs, sch1))"

section \<open>Looking up and draining\<close>

definition running_seq :: "u64 \<Rightarrow> scheduler \<Rightarrow> sequence option" where
  "running_seq i sch = find (has_id i) (running sch)"

definition drain_finished :: "scheduler \<Rightarrow> sequence list \<times> scheduler" where
  "drain_finished sch =
     (finished sch,
      sch\<lparr>finished := [], every_eos := (every_eos sch) |` (- set (map seq_id (finished sch)))\<rparr>)"

end
