(* ===== verification/Scheduler_Inv.thy ===== *)
theory Scheduler_Inv
  imports Scheduler Block_Ops
begin

text \<open>
  The invariant of the scheduler and its preservation. It speaks of the running sequences as a
  multiset, since \<open>remove\<close> and \<open>insert\<close> only move them, and allows some sequences to be in hand:
  the methods take a sequence out of \<open>running\<close>, work on it and put it back.
\<close>

section \<open>Live sequences\<close>

definition held :: "sequence multiset \<Rightarrow> nat multiset" where
  "held M = sum_mset (image_mset (\<lambda>s. mset (block_table s)) M)"

lemma held_simps [simp]:
  "held {#} = {#}" "held (add_mset s M) = mset (block_table s) + held M" "held (M + N) = held M + held N"
  by (simp_all add: held_def)

lemma table_held: "s \<in># M \<Longrightarrow> mset (block_table s) \<subseteq># held M"
  by (metis held_simps(2) mset_subset_eq_add_left multi_member_split)

text \<open>
  The position up to which the blocks of a running sequence may carry a hash: in decode, the last
  token has no KV yet.
\<close>

definition settled :: "sequence \<Rightarrow> nat" where
  "settled s = (if seq_state s = Decode then total_len s - 1 else total_len s)"

definition seq_live :: "hasher \<Rightarrow> block_manager \<Rightarrow> sequence \<Rightarrow> bool" where
  "seq_live xxh bm s \<longleftrightarrow>
     (seq_state s = Prefill \<or> seq_state s = Decode \<and> seq_output s \<noteq> []) \<and>
     describes xxh None bm s (block_table s) (settled s)"

definition covered :: "scheduler_config \<Rightarrow> sequence \<Rightarrow> bool" where
  "covered cfg s \<longleftrightarrow> total_len s \<le> length (block_table s) * cfg_block_size cfg"

definition geometry_ok :: "scheduler_config \<Rightarrow> block_manager \<Rightarrow> bool" where
  "geometry_ok cfg bm \<longleftrightarrow>
     0 < cfg_block_size cfg \<and> block_size bm = cfg_block_size cfg \<and> num_blocks bm = cfg_num_blocks cfg"

text \<open>
  The pool \<open>bm\<close> serves the running sequences \<open>M\<close> while \<open>t\<close> lists the blocks in hand; \<open>P\<close> holds
  the ids of the sequences that still wait for room for their newest token.
\<close>

definition carrying ::
  "hasher \<Rightarrow> u64 set \<Rightarrow> scheduler_config \<Rightarrow> block_manager \<Rightarrow> nat list \<Rightarrow> sequence multiset \<Rightarrow> bool" where
  "carrying xxh P cfg bm t M \<longleftrightarrow>
     geometry_ok cfg bm \<and> pool_ok bm (mset t + held M) \<and>
     (\<forall>s\<in>#M. seq_live xxh bm s \<and> (seq_id s \<notin> P \<longrightarrow> covered cfg s))"

lemma carrying_add:
  "carrying xxh P cfg bm t (add_mset s M) \<longleftrightarrow>
     carrying xxh P cfg bm (block_table s @ t) M \<and> seq_live xxh bm s \<and>
     (seq_id s \<notin> P \<longrightarrow> covered cfg s)"
  by (auto simp: carrying_def ac_simps)

lemma carrying_mono: "carrying xxh P cfg bm t M \<Longrightarrow> P \<subseteq> Q \<Longrightarrow> carrying xxh Q cfg bm t M"
  by (auto simp: carrying_def)

lemma carrying_perm: "carrying xxh P cfg bm t M \<Longrightarrow> mset t = mset t' \<Longrightarrow> carrying xxh P cfg bm t' M"
  by (simp add: carrying_def)

lemma seq_live_labels:
  assumes "keeps_labels H bm bm'" and "set (block_table s) \<subseteq> set_mset H" and "seq_live xxh bm s"
  shows "seq_live xxh bm' s"
  using assms describes_labels by (auto simp: seq_live_def)

lemma carrying_labels:
  assumes c: "carrying xxh P cfg bm t M" and ok: "pool_ok bm' (mset t' + held M)"
    and keep: "keeps_labels (held M) bm bm'"
  shows "carrying xxh P cfg bm' t' M"
proof -
  have "seq_live xxh bm' s" if "s \<in># M" for s
  proof (rule seq_live_labels [OF keep])
    show "set (block_table s) \<subseteq> set_mset (held M)"
      using table_held [OF that] by (metis set_mset_mono set_mset_mset)
    show "seq_live xxh bm s" using c that by (simp add: carrying_def)
  qed
  moreover have "geometry_ok cfg bm'"
    using c keep by (simp add: carrying_def geometry_ok_def keeps_labels_def)
  ultimately show ?thesis using c ok by (simp add: carrying_def)
qed

lemma carrying_deallocate:
  assumes c: "carrying xxh P cfg bm (block_table s @ t) M"
  shows "carrying xxh P cfg (deallocate s bm) t M"
proof (rule carrying_labels [OF c])
  have ok: "pool_ok bm (mset (block_table s) + (mset t + held M))"
    using c by (simp add: carrying_def ac_simps)
  then show "pool_ok (deallocate s bm) (mset t + held M)" by (rule pool_ok_deallocate)
  have "keeps_held (held M) bm (deallocate s bm)"
    unfolding deallocate_def using ok by (rule keeps_held_release) simp
  then show "keeps_labels (held M) bm (deallocate s bm)" by (rule keeps_held_labels)
qed

lemma carrying_grown:
  assumes c: "carrying xxh P cfg bm (block_table s @ t) M"
    and g: "grown (mset (block_table s) + (mset t + held M)) s bm new s' bm'"
  shows "carrying xxh P cfg bm' (block_table s' @ t) M"
proof (rule carrying_labels [OF c])
  show "pool_ok bm' (mset (block_table s' @ t) + held M)"
    using g by (simp add: grown_def ac_simps)
  have "keeps_labels (mset (block_table s) + (mset t + held M)) bm bm'"
    using g by (auto simp: grown_def intro: keeps_held_labels)
  then show "keeps_labels (held M) bm bm'" by (rule keeps_labels_mono) simp
qed

lemma carrying_pool: "carrying xxh P cfg bm (block_table s @ t) M \<Longrightarrow>
    pool_ok bm (mset (block_table s) + (mset t + held M))"
  by (simp add: carrying_def ac_simps)

lemma seq_live_grown:
  assumes g: "grown (mset (block_table s) + H) s bm new s' bm'" and l: "seq_live xxh bm s"
  shows "seq_live xxh bm' s'"
proof -
  have "describes xxh None bm' s' (block_table s') (settled s)"
    using describes_grown [OF g] l by (simp add: seq_live_def)
  moreover have "seq_state s' = seq_state s" "seq_output s' = seq_output s" "settled s' = settled s"
    using g by (simp_all add: grown_def settled_def total_len_def)
  ultimately show ?thesis using l by (simp add: seq_live_def)
qed

lemma settled_le: "settled s \<le> total_len s"
  by (simp add: settled_def)

section \<open>The invariant\<close>

definition waiting_ok :: "sequence \<Rightarrow> bool" where
  "waiting_ok s \<longleftrightarrow> seq_state s = Waiting \<and> block_table s = [] \<and> \<not> has_drafts s"

definition distinct_ids :: "sequence multiset \<Rightarrow> bool" where
  "distinct_ids M \<longleftrightarrow> (\<forall>i. count (image_mset seq_id M) i \<le> 1)"

definition drafted :: "sequence multiset \<Rightarrow> nat" where
  "drafted M = size (filter_mset has_drafts M)"

definition sched_inv :: "hasher \<Rightarrow> u64 set \<Rightarrow> sequence list \<Rightarrow> scheduler \<Rightarrow> bool" where
  "sched_inv xxh P hand sch \<longleftrightarrow>
     carrying xxh P (config sch) (pool sch) (concat (map block_table hand)) (mset (running sch)) \<and>
     (\<forall>s\<in>set (waiting sch). waiting_ok s) \<and>
     distinct_ids (mset hand + mset (running sch) + mset (waiting sch)) \<and>
     drafted (mset hand + mset (running sch)) \<le> num_running_with_drafts sch"

lemma distinct_ids_mono:
  assumes "distinct_ids M" and "image_mset seq_id N \<subseteq># image_mset seq_id M"
  shows "distinct_ids N"
  unfolding distinct_ids_def
proof
  fix i
  have "count (image_mset seq_id N) i \<le> count (image_mset seq_id M) i"
    using assms(2) by (simp add: mset_subset_eq_count)
  also have "\<dots> \<le> 1" using assms(1) by (simp add: distinct_ids_def)
  finally show "count (image_mset seq_id N) i \<le> 1" .
qed

lemma distinct_ids_notin:
  assumes "distinct_ids (add_mset s M)" and "u \<in># M"
  shows "seq_id u \<noteq> seq_id s"
proof
  assume eq: "seq_id u = seq_id s"
  obtain N where "M = add_mset u N" using assms(2) by (meson multi_member_split)
  then have "count (image_mset seq_id (add_mset s M)) (seq_id s) \<ge> 2" using eq by simp
  moreover have "count (image_mset seq_id (add_mset s M)) (seq_id s) \<le> 1"
    using assms(1) unfolding distinct_ids_def by (rule allE)
  ultimately show False by linarith
qed

lemma drafted_simps [simp]:
  "drafted {#} = 0"
  "drafted (add_mset s M) = (if has_drafts s then 1 else 0) + drafted M"
  "drafted (M + N) = drafted M + drafted N"
  by (simp_all add: drafted_def)

lemma sched_invD:
  assumes "sched_inv xxh P hand sch"
  shows "carrying xxh P (config sch) (pool sch) (concat (map block_table hand)) (mset (running sch))"
    and "s \<in> set (waiting sch) \<Longrightarrow> waiting_ok s"
    and "distinct_ids (mset hand + mset (running sch) + mset (waiting sch))"
    and "drafted (mset hand + mset (running sch)) \<le> num_running_with_drafts sch"
  using assms by (auto simp: sched_inv_def)

lemma sched_invI [inv_intros]:
  assumes "carrying xxh P (config sch) (pool sch) (concat (map block_table hand)) (mset (running sch))"
    and "\<And>s. s \<in> set (waiting sch) \<Longrightarrow> waiting_ok s"
    and "distinct_ids (mset hand + mset (running sch) + mset (waiting sch))"
    and "drafted (mset hand + mset (running sch)) \<le> num_running_with_drafts sch"
  shows "sched_inv xxh P hand sch"
  using assms by (auto simp: sched_inv_def)

lemma sched_inv_mono: "sched_inv xxh P hand sch \<Longrightarrow> P \<subseteq> Q \<Longrightarrow> sched_inv xxh Q hand sch"
  by (auto simp: sched_inv_def intro: carrying_mono)

lemma sched_inv_running:
  assumes "sched_inv xxh P hand sch" and "s \<in> set (running sch)"
  shows "seq_live xxh (pool sch) s" and "seq_id s \<notin> P \<Longrightarrow> covered (config sch) s"
  using sched_invD(1) [OF assms(1)] assms(2) by (auto simp: carrying_def)

lemma sched_inv_frame:
  "sched_inv xxh P hand sch \<Longrightarrow>
   config sch' = config sch \<Longrightarrow> pool sch' = pool sch \<Longrightarrow> running sch' = running sch \<Longrightarrow>
   waiting sch' = waiting sch \<Longrightarrow> num_running_with_drafts sch' = num_running_with_drafts sch \<Longrightarrow>
   sched_inv xxh P hand sch'"
  by (simp add: sched_inv_def)

text \<open>Taking a running sequence in hand, and putting it back.\<close>

lemma sched_inv_take:
  assumes inv: "sched_inv xxh P hand sch" and k: "k < length (running sch)"
  defines "s \<equiv> running sch ! k"
  shows "sched_inv xxh P (s # hand) (sch\<lparr>running := remove_at k (running sch)\<rparr>)"
    and "seq_live xxh (pool sch) s" and "seq_id s \<notin> P \<Longrightarrow> covered (config sch) s"
proof -
  note d = sched_invD [OF inv]
  have m: "mset (running sch) = add_mset s (mset (remove_at k (running sch)))"
    using mset_remove_at [OF k] by (simp add: s_def)
  show "sched_inv xxh P (s # hand) (sch\<lparr>running := remove_at k (running sch)\<rparr>)"
  proof (rule sched_invI)
    show "carrying xxh P (config (sch\<lparr>running := remove_at k (running sch)\<rparr>))
        (pool (sch\<lparr>running := remove_at k (running sch)\<rparr>)) (concat (map block_table (s # hand)))
        (mset (running (sch\<lparr>running := remove_at k (running sch)\<rparr>)))"
      using d(1) by (simp add: m carrying_add)
  qed (use d(2-4) m in auto)
  show "seq_live xxh (pool sch) s" and "seq_id s \<notin> P \<Longrightarrow> covered (config sch) s"
    using sched_inv_running [OF inv, of s] k by (simp_all add: s_def)
qed

lemma sched_inv_put:
  assumes inv: "sched_inv xxh P (s # hand) sch" and l: "seq_live xxh (pool sch) s"
    and c: "seq_id s \<notin> P \<Longrightarrow> covered (config sch) s"
    and m: "mset r = add_mset s (mset (running sch))"
  shows "sched_inv xxh P hand (sch\<lparr>running := r\<rparr>)"
proof (rule sched_invI)
  note d = sched_invD [OF inv]
  show "carrying xxh P (config (sch\<lparr>running := r\<rparr>)) (pool (sch\<lparr>running := r\<rparr>))
      (concat (map block_table hand)) (mset (running (sch\<lparr>running := r\<rparr>)))"
    using d(1) l c by (simp add: m carrying_add)
qed (use sched_invD(2-4) [OF inv] m in auto)

text \<open>The sequence in hand may change, as long as it keeps its blocks.\<close>

lemma sched_inv_swap:
  assumes inv: "sched_inv xxh P (s # hand) sch"
    and "block_table s' = block_table s" and "seq_id s' = seq_id s" and "has_drafts s' \<Longrightarrow> has_drafts s"
  shows "sched_inv xxh P (s' # hand) sch"
proof (rule sched_invI)
  show "drafted (mset (s' # hand) + mset (running sch)) \<le> num_running_with_drafts sch"
    using sched_invD(4) [OF inv] assms(4) by (auto split: if_splits)
qed (use sched_invD(1-3) [OF inv] assms(2,3) in \<open>auto intro: distinct_ids_mono\<close>)

text \<open>Its blocks go back and it leaves for \<open>finished\<close>.\<close>

lemma sched_inv_drop:
  assumes inv: "sched_inv xxh P (s # hand) sch"
  shows "sched_inv xxh P hand (sch\<lparr>pool := deallocate s (pool sch), finished := f\<rparr>)"
proof (rule sched_invI)
  let ?sch = "sch\<lparr>pool := deallocate s (pool sch), finished := f\<rparr>"
  note d = sched_invD [OF inv]
  show "carrying xxh P (config ?sch) (pool ?sch) (concat (map block_table hand)) (mset (running ?sch))"
    using carrying_deallocate [of xxh P _ "pool sch" s] d(1) by simp
  show "distinct_ids (mset hand + mset (running ?sch) + mset (waiting ?sch))"
    using d(3) by (rule distinct_ids_mono) simp
  show "drafted (mset hand + mset (running ?sch)) \<le> num_running_with_drafts ?sch"
    using d(4) by (auto split: if_splits)
qed (use sched_invD(2) [OF inv] in simp)

lemma drop_drafts_fields [simp]:
  "config (drop_drafts s sch) = config sch" "pool (drop_drafts s sch) = pool sch"
  "running (drop_drafts s sch) = running sch" "waiting (drop_drafts s sch) = waiting sch"
  "finished (drop_drafts s sch) = finished sch" "every_eos (drop_drafts s sch) = every_eos sch"
  "last_batch (drop_drafts s sch) = last_batch sch"
  "prefix_cache_reuse (drop_drafts s sch) = prefix_cache_reuse sch"
  by (simp_all add: drop_drafts_def)

lemma clear_drafts_fields [simp]:
  "block_table (clear_drafts s) = block_table s" "seq_id (clear_drafts s) = seq_id s"
  "\<not> has_drafts (clear_drafts s)" "seq_state (clear_drafts s) = seq_state s"
  "seq_prompt (clear_drafts s) = seq_prompt s" "seq_output (clear_drafts s) = seq_output s"
  by (simp_all add: clear_drafts_def has_drafts_def)

text \<open>The draft counter is positive whenever a sequence with drafts leaves.\<close>

lemma drafts_positive:
  "sched_inv xxh P (s # hand) sch \<Longrightarrow> has_drafts s \<Longrightarrow> 0 < num_running_with_drafts sch"
  using sched_invD(4) [of xxh P "s # hand" sch] by simp

lemma sched_inv_clear:
  assumes inv: "sched_inv xxh P (s # hand) sch"
    and s': "block_table s' = block_table s" "seq_id s' = seq_id s" "\<not> has_drafts s'"
  shows "sched_inv xxh P (s' # hand) (drop_drafts s sch)"
proof (rule sched_invI)
  show "drafted (mset (s' # hand) + mset (running (drop_drafts s sch)))
      \<le> num_running_with_drafts (drop_drafts s sch)"
    using sched_invD(4) [OF inv] s'(3) by (auto simp: drop_drafts_def)
qed (use sched_invD(1-3) [OF inv] s' in \<open>auto intro: distinct_ids_mono\<close>)

text \<open>It goes back to the waiting queue.\<close>

lemma sched_inv_requeue:
  assumes inv: "sched_inv xxh P (s # hand) sch" and w: "waiting_ok s'" and i: "seq_id s' = seq_id s"
  shows "sched_inv xxh P hand (sch\<lparr>pool := deallocate s (pool sch), waiting := s' # waiting sch\<rparr>)"
proof (rule sched_invI)
  let ?sch = "sch\<lparr>pool := deallocate s (pool sch), waiting := s' # waiting sch\<rparr>"
  note d = sched_invD [OF inv]
  show "carrying xxh P (config ?sch) (pool ?sch) (concat (map block_table hand)) (mset (running ?sch))"
    using carrying_deallocate [of xxh P _ "pool sch" s] d(1) by simp
  show "distinct_ids (mset hand + mset (running ?sch) + mset (waiting ?sch))"
    using d(3) by (rule distinct_ids_mono) (simp add: i)
  show "drafted (mset hand + mset (running ?sch)) \<le> num_running_with_drafts ?sch"
    using d(4) by (auto split: if_splits)
qed (use sched_invD(2) [OF inv] w in auto)

lemma sched_inv_preempt:
  assumes inv: "sched_inv xxh P (s # hand) sch"
  shows "sched_inv xxh P hand (preempt s sch)"
proof -
  define s1 where "s1 = (if has_drafts s then clear_drafts s else s)"
  have s1: "block_table s1 = block_table s" "seq_id s1 = seq_id s" "\<not> has_drafts s1"
    by (simp_all add: s1_def)
  have "sched_inv xxh P (s1 # hand) (drop_drafts s sch)"
    by (rule sched_inv_clear [OF inv s1])
  moreover have "waiting_ok (reset_for_recompute (s1\<lparr>block_table := []\<rparr>))"
    using s1(3) by (simp add: waiting_ok_def reset_for_recompute_def has_drafts_def)
  moreover have "preempt s sch = (drop_drafts s sch)\<lparr>pool := deallocate s1 (pool sch),
      waiting := reset_for_recompute (s1\<lparr>block_table := []\<rparr>) # waiting sch\<rparr>"
    by (simp add: preempt_def Let_def s1_def)
  ultimately show ?thesis
    using sched_inv_requeue [of xxh P s1 hand "drop_drafts s sch"] s1(2)
    by (simp add: reset_for_recompute_def)
qed

text \<open>It grows.\<close>

lemma sched_inv_grown:
  assumes inv: "sched_inv xxh P (s # hand) sch"
    and g: "grown (mset (block_table s) + (mset (concat (map block_table hand)) + held (mset (running sch))))
              s (pool sch) new s' bm'"
  shows "sched_inv xxh P (s' # hand) (sch\<lparr>pool := bm'\<rparr>)"
proof -
  note d = sched_invD [OF inv]
  have s': "seq_id s' = seq_id s" "draft_tokens s' = draft_tokens s"
    using g by (simp_all add: grown_def)
  show ?thesis
  proof (rule sched_invI)
    show "carrying xxh P (config (sch\<lparr>pool := bm'\<rparr>)) (pool (sch\<lparr>pool := bm'\<rparr>))
        (concat (map block_table (s' # hand))) (mset (running (sch\<lparr>pool := bm'\<rparr>)))"
      using carrying_grown [OF _ g] d(1) by simp
  qed (use d(2-4) s' in \<open>auto simp: has_drafts_def intro: distinct_ids_mono\<close>)
qed

lemma sched_inv_pool:
  "sched_inv xxh P (s # hand) sch \<Longrightarrow> pool_ok (pool sch)
     (mset (block_table s) + (mset (concat (map block_table hand)) + held (mset (running sch))))"
  by (rule carrying_pool [where xxh = xxh and P = P and cfg = "config sch"]) (drule sched_invD(1), simp)

lemma sched_inv_geometry:
  assumes "sched_inv xxh P hand sch"
  shows "0 < cfg_block_size (config sch)" and "block_size (pool sch) = cfg_block_size (config sch)"
    and "num_blocks (pool sch) = cfg_num_blocks (config sch)"
  using sched_invD(1) [OF assms] by (auto simp: carrying_def geometry_ok_def)

end
