(* ===== verification/Scheduler_Ops.thy ===== *)
theory Scheduler_Ops
  imports Scheduler_Inv
begin

text \<open>
  Every method of the scheduler keeps the invariant: queueing, building either kind of batch,
  completing it, preemption and draining.
\<close>

section \<open>Queueing\<close>

definition fresh_id :: "u64 \<Rightarrow> scheduler \<Rightarrow> bool" where
  "fresh_id i sch \<longleftrightarrow> i \<notin> seq_id ` (set (waiting sch) \<union> set (running sch))"

lemma sched_inv_init:
  assumes "cfg_num_blocks cfg < 2 ^ 32" and "0 < cfg_block_size cfg"
  shows "sched_inv xxh {} [] (new_scheduler cfg)"
  using pool_ok_init [OF assms(1), of "cfg_block_size cfg"] assms
  by (auto simp: sched_inv_def new_scheduler_def carrying_def geometry_ok_def held_def
      distinct_ids_def new_block_manager_def)

lemma enqueue_inv:
  assumes inv: "sched_inv xxh P [] sch" and w: "waiting_ok s" and f: "fresh_id (seq_id s) sch"
  shows "sched_inv xxh P [] (enqueue s sch)"
proof (rule sched_invI)
  note d = sched_invD [OF inv]
  let ?M = "mset (running sch) + mset (waiting sch)"
  have "count (image_mset seq_id ?M) (seq_id s) = 0"
    using f by (auto simp: fresh_id_def count_eq_zero_iff)
  then show "distinct_ids (mset [] + mset (running (enqueue s sch)) + mset (waiting (enqueue s sch)))"
    using d(3) by (auto simp: distinct_ids_def enqueue_def)
qed (use sched_invD [OF inv] w in \<open>auto simp: enqueue_def\<close>)

lemma seq_live_same:
  assumes "seq_prompt s' = seq_prompt s" "seq_output s' = seq_output s" "seq_state s' = seq_state s"
    and "block_table s' = block_table s" and "seq_live xxh bm s"
  shows "seq_live xxh bm s'"
proof -
  have v: "settled s' = settled s" using assms(1-3) by (simp add: settled_def total_len_def)
  have "describes xxh None bm s' (block_table s') (settled s')"
    using assms(1,2,4,5) settled_le [of s] by (auto simp: v seq_live_def intro: describes_same)
  then show ?thesis using assms by (simp add: seq_live_def)
qed

lemma covered_same:
  "seq_prompt s' = seq_prompt s \<Longrightarrow> seq_output s' = seq_output s \<Longrightarrow> block_table s' = block_table s \<Longrightarrow>
   covered cfg s' \<longleftrightarrow> covered cfg s"
  by (simp add: covered_def total_len_def)

lemma mset_update_remove:
  "k < length xs \<Longrightarrow> mset (xs[k := x]) = add_mset x (mset (remove_at k xs))"
  by (metis insert_remove_at mset_insert_at)

lemma put_drafts_fields [simp]:
  "seq_prompt (put_drafts d s) = seq_prompt s" "seq_output (put_drafts d s) = seq_output s"
  "seq_state (put_drafts d s) = seq_state s" "block_table (put_drafts d s) = block_table s"
  "seq_id (put_drafts d s) = seq_id s"
  by (simp_all add: put_drafts_def)

lemma set_drafts_inv:
  assumes inv: "sched_inv xxh P [] sch" and r: "set_drafts i d sch = (r, sch')"
  shows "sched_inv xxh P [] sch'"
proof (cases "position (has_id i) (running sch)")
  case None
  then show ?thesis using inv r by (simp add: set_drafts_def)
next
  case (Some k)
  define s where "s = running sch ! k"
  define rest where "rest = mset (remove_at k (running sch))"
  have k: "k < length (running sch)" using Some by (rule position_less)
  have m: "mset (running sch) = add_mset s rest" "mset ((running sch)[k := put_drafts d s]) = add_mset (put_drafts d s) rest"
    using mset_remove_at [OF k] mset_update_remove [OF k] by (simp_all add: s_def rest_def)
  have sch': "sch' = note_drafts_set (has_drafts s) (has_drafts (put_drafts d s))
      (sch\<lparr>running := (running sch)[k := put_drafts d s]\<rparr>)"
    using r Some by (simp add: set_drafts_def Let_def s_def)
  have f: "config sch' = config sch" "pool sch' = pool sch" "waiting sch' = waiting sch"
    "running sch' = (running sch)[k := put_drafts d s]"
    by (simp_all add: sch' note_drafts_set_def bump_drafts_def)
  note inv' = sched_invD [OF inv]
  have live: "seq_live xxh (pool sch) s" "seq_id s \<notin> P \<Longrightarrow> covered (config sch) s"
    using sched_inv_running [OF inv, of s] k by (simp_all add: s_def)
  show ?thesis
  proof (rule sched_invI)
    have "seq_live xxh (pool sch) (put_drafts d s)" by (rule seq_live_same [OF _ _ _ _ live(1)]) simp_all
    moreover have "covered (config sch) (put_drafts d s) = covered (config sch) s"
      by (rule covered_same) simp_all
    ultimately show "carrying xxh P (config sch') (pool sch') (concat (map block_table [])) (mset (running sch'))"
      using inv'(1) live(2) unfolding f m by (simp add: carrying_add)
    show "distinct_ids (mset [] + mset (running sch') + mset (waiting sch'))"
      using inv'(3) unfolding f m by (rule distinct_ids_mono) simp
    show "drafted (mset [] + mset (running sch')) \<le> num_running_with_drafts sch'"
      using inv'(4) unfolding f m by (auto simp: sch' note_drafts_set_def bump_drafts_def)
  qed (use inv'(2) f in auto)
qed

lemma abort_inv:
  assumes inv: "sched_inv xxh P [] sch"
  shows "sched_inv xxh P [] (abort i sch)"
proof (cases "position (has_id i) (waiting sch)")
  case (Some k)
  then have k: "k < length (waiting sch)" by (rule position_less)
  note d = sched_invD [OF inv]
  show ?thesis
  proof (rule sched_invI)
    show "distinct_ids (mset [] + mset (running (abort i sch)) + mset (waiting (abort i sch)))"
      using d(3) by (rule distinct_ids_mono)
        (simp add: abort_def Some mset_remove_at [OF k])
    show "waiting_ok s" if "s \<in> set (waiting (abort i sch))" for s
      using d(2) that set_remove_at_subset [of k "waiting sch"] by (auto simp: abort_def Some)
  qed (use d in \<open>auto simp: abort_def Some\<close>)
next
  case wait: None
  show ?thesis
  proof (cases "position (has_id i) (running sch)")
    case None
    then show ?thesis using inv wait by (simp add: abort_def)
  next
    case (Some k)
    then have k: "k < length (running sch)" by (rule position_less)
    define s where "s = running sch ! k"
    define s1 where "s1 = (if has_drafts s then clear_drafts s else s)"
    have "sched_inv xxh P [s] (sch\<lparr>running := remove_at k (running sch)\<rparr>)"
      unfolding s_def by (rule sched_inv_take(1) [OF inv k])
    then have "sched_inv xxh P [s1] (drop_drafts s (sch\<lparr>running := remove_at k (running sch)\<rparr>))"
      by (rule sched_inv_clear) (simp_all add: s1_def)
    from sched_inv_drop [OF this] show ?thesis
      by (simp add: abort_def wait Some Let_def s_def [symmetric] s1_def [symmetric])
  qed
qed

section \<open>Admission\<close>

lemma allocate_live:
  assumes w: "waiting_ok s" and g: "0 < block_size bm" "block_size bm = cfg_block_size cfg"
    and ok: "pool_ok bm H"
    and a: "allocate_with_prefix xxh s bm = (Inr a, bm')" and n: "0 < total_len s"
    and t: "transition_to_prefill_with_cache c (s\<lparr>block_table := alloc_table a\<rparr>) = (r, s1)"
  shows "r = Inr ()" and "pool_ok bm' (mset (block_table s1) + H)" and "keeps_held H bm bm'"
    and "seq_live xxh bm' s1" and "covered cfg s1" and "seq_id s1 = seq_id s" and "\<not> has_drafts s1"
    and "seq_state s1 = Prefill" and "seq_tokens s1 = seq_tokens s"
    and "num_computed_tokens s1 = min c (total_len s - 1)"
proof -
  have a': "allocate_with_prefix_tagged xxh None s bm = (Inr a, bm')"
    using a by (simp add: allocate_with_prefix_def)
  note al = allocate_Inr [OF ok g(1) a']
  have st: "seq_state s = Waiting" using w by (simp add: waiting_ok_def)
  have s1: "s1 = s\<lparr>block_table := alloc_table a, seq_state := Prefill,
      num_computed_tokens := min c (total_len s - 1)\<rparr>" and r: "r = Inr ()"
    using t st by (auto simp: transition_to_prefill_with_cache_def MIN_RECOMPUTED_PREFILL_TOKENS_def total_len_def)
  show "r = Inr ()" by (fact r)
  show "pool_ok bm' (mset (block_table s1) + H)" using al(1) by (simp add: s1)
  show "keeps_held H bm bm'" by (fact al(2))
  have "describes xxh None bm' s1 (alloc_table a) (total_len s)"
    using al(4) by (rule describes_same) (simp_all add: s1)
  then show "seq_live xxh bm' s1" by (simp add: seq_live_def s1 settled_def total_len_def)
  have "total_len s \<le> num_blocks_needed (block_size bm) s * block_size bm"
    using g(1) div_ceil_bounds(1) by (simp add: num_blocks_needed_div_ceil)
  then show "covered cfg s1" using al(3) g(2) by (simp add: covered_def s1 total_len_def)
  show "\<not> has_drafts s1" using w by (simp add: waiting_ok_def has_drafts_def s1)
qed (use t w in \<open>auto simp: transition_to_prefill_with_cache_def waiting_ok_def seq_tokens_def total_len_def
        MIN_RECOMPUTED_PREFILL_TOKENS_def\<close>)

lemma admit_one_inv:
  assumes inv: "sched_inv xxh P [] (sch\<lparr>waiting := s # ws\<rparr>)" and n: "0 < total_len s"
    and a: "allocate_with_prefix xxh s (pool sch) = (Inr a, bm)"
    and t: "transition_to_prefill_with_cache c (s\<lparr>block_table := alloc_table a\<rparr>) = (r, s1)"
  shows "r = Inr ()" and "sched_inv xxh P [] (sch\<lparr>pool := bm, running := running sch @ [s1], waiting := ws\<rparr>)"
proof -
  note d = sched_invD [OF inv] and geo = sched_inv_geometry [OF inv]
  have w: "waiting_ok s" using d(2) by simp
  have c: "carrying xxh P (config sch) (pool sch) [] (mset (running sch))" using d(1) by simp
  have ok: "pool_ok (pool sch) (held (mset (running sch)))" using c by (simp add: carrying_def)
  have g: "0 < block_size (pool sch)" "block_size (pool sch) = cfg_block_size (config sch)"
    using geo by simp_all
  note al = allocate_live [OF w g ok a n t]
  show "r = Inr ()" by (rule al(1))
  show "sched_inv xxh P [] (sch\<lparr>pool := bm, running := running sch @ [s1], waiting := ws\<rparr>)" (is "sched_inv _ _ _ ?sch")
  proof (rule sched_invI)
    have "carrying xxh P (config sch) bm (block_table s1) (mset (running sch))"
      using c al(2) keeps_held_labels [OF al(3)] by (rule carrying_labels)
    then show "carrying xxh P (config ?sch) (pool ?sch) (concat (map block_table [])) (mset (running ?sch))"
      using al(4,5) by (simp add: carrying_add)
    show "distinct_ids (mset [] + mset (running ?sch) + mset (waiting ?sch))"
      using d(3) by (rule distinct_ids_mono) (simp add: al(6))
    show "drafted (mset [] + mset (running ?sch)) \<le> num_running_with_drafts ?sch"
      using d(4) al(7) by simp
  qed (use d(2) in auto)
qed

lemma admit_pass_inv:
  assumes "admit_pass xxh cm ws items budget sch = (r, sch')"
    and "sched_inv xxh P [] (sch\<lparr>waiting := ws\<rparr>)"
  shows "sched_inv xxh P [] sch' \<and> (\<exists>its. r = Inr its)"
  using assms
proof (induction xxh cm ws items budget sch rule: admit_pass.induct)
  case (1 xxh cm items budget sch)
  then show ?case by auto
next
  case (2 xxh cm s ws items budget sch)
  let ?full = "budget = 0 \<or> max_batch_size (config sch) \<le> length items"
  consider (full) "?full" | (empty) "\<not> ?full" "total_len s = 0" | (go) "\<not> ?full" "0 < total_len s"
    by (meson not_gr0)
  then show ?case
  proof cases
    case full
    then show ?thesis using 2(3,4) by auto
  next
    case empty
    have "sched_inv xxh P [] (sch\<lparr>waiting := ws\<rparr>)"
    proof (rule sched_invI)
      show "distinct_ids (mset [] + mset (running (sch\<lparr>waiting := ws\<rparr>)) + mset (waiting (sch\<lparr>waiting := ws\<rparr>)))"
        using sched_invD(3) [OF 2(4)] by (rule distinct_ids_mono) simp
    qed (use sched_invD [OF 2(4)] in auto)
    then have "sched_inv xxh P [] ((sch\<lparr>finished := finished sch @ [abort_seq s]\<rparr>)\<lparr>waiting := ws\<rparr>)"
      by (rule sched_inv_frame) simp_all
    then show ?thesis using 2(1) [OF empty] 2(3) empty by simp
  next
    case go
    obtain q bm where al: "allocate_with_prefix xxh s (pool sch) = (q, bm)" by fastforce
    show ?thesis
    proof (cases q)
      case (Inl e)
      note d = sched_invD [OF 2(4)]
      have r: "r = Inr items" "sch' = sch\<lparr>pool := bm, waiting := s # ws\<rparr>"
        using 2(3) go al Inl by simp_all
      have c: "carrying xxh P (config sch) (pool sch) [] (mset (running sch))" using d(1) by simp
      then have "pool_ok bm (held (mset (running sch))) \<and> keeps_held (held (mset (running sch))) (pool sch) bm"
        using al Inl by (intro allocate_Inl) (simp_all add: carrying_def allocate_with_prefix_def)
      then have "carrying xxh P (config sch) bm [] (mset (running sch))"
        by (intro carrying_labels [OF c]) (simp_all add: keeps_held_labels)
      then have "sched_inv xxh P [] (sch\<lparr>pool := bm, waiting := s # ws\<rparr>)"
        using d by (auto simp: sched_inv_def)
      then show ?thesis using r by simp
    next
      case (Inr a)
      obtain p s1 where t: "transition_to_prefill_with_cache
          (if prefix_cache_reuse sch then cached_tokens a else 0) (s\<lparr>block_table := alloc_table a\<rparr>) = (p, s1)"
        by fastforce
      note one = admit_one_inv [OF 2(4) go(2) al [unfolded Inr] t]
      let ?tk = "floored_take (remaining_uncomputed s1) budget cm"
      let ?sch1 = "sch\<lparr>pool := bm, running := running sch @ [s1]\<rparr>"
      show ?thesis
      proof (cases "?tk = 0")
        case True
        then show ?thesis using 2(3) go al Inr t one by auto
      next
        case False
        have "sched_inv xxh P [] (?sch1\<lparr>waiting := ws\<rparr>)" using one(2) by simp
        moreover have "admit_pass xxh cm ws (items @ [prefill_item s1 ?tk]) (budget - ?tk) ?sch1 = (r, sch')"
          using 2(3) go al Inr t one(1) False by (simp add: Let_def)
        ultimately show ?thesis
          using 2(2) [of q bm a p s1 "()" ?tk ?sch1] go al Inr t one(1) False by simp
      qed
    qed
  qed
qed


lemma build_mixed_batch_inv:
  assumes b: "build_mixed_batch xxh cm sch = (r, sch')" and inv: "sched_inv xxh P [] sch"
  shows "sched_inv xxh P [] sch' \<and> (\<exists>b. r = Inr b)"
proof -
  obtain items1 b1 where 1: "decode_pass (max_batch_size (config sch)) (running sch) []
      (max_batched_tokens (config sch)) = (items1, b1)" by fastforce
  obtain items2 b2 where 2: "prefill_pass cm (max_batch_size (config sch)) (running sch) items1 b1 = (items2, b2)"
    by fastforce
  obtain q sch1 where 3: "admit_pass xxh cm (waiting sch) items2 b2 sch = (q, sch1)" by fastforce
  have "sched_inv xxh P [] sch1 \<and> (\<exists>its. q = Inr its)"
    using admit_pass_inv [OF 3] inv by simp
  then show ?thesis using b 1 2 3 by (auto simp: build_mixed_batch_def)
qed

section \<open>The verify batch\<close>

lemma verify_candidate_inv:
  assumes v: "verify_candidate i sch = (ok, sch')" and inv: "sched_inv xxh P [] sch"
  shows "sched_inv xxh P [] sch'"
proof (cases "position (has_id i) (running sch)")
  case None
  then show ?thesis using v inv by (simp add: verify_candidate_def)
next
  case pos: (Some k)
  have k: "k < length (running sch)" using pos by (rule position_less)
  define s where "s = running sch ! k"
  define rest where "rest = remove_at k (running sch)"
  obtain q s1 bm where e: "extend_for_slots s (1 + draft_len s) (pool sch) = (q, s1, bm)"
    by (metis surj_pair)
  note take = sched_inv_take [OF inv k, folded s_def rest_def]
  note pool = sched_inv_pool [OF take(1)]
  have bs: "0 < block_size (pool sch)" using sched_inv_geometry [OF inv] by simp
  have pok: "pool_ok (pool sch) (mset (block_table s) + (mset (concat (map block_table [])) + held (mset rest)))"
    using pool by simp
  obtain new where g: "grown (mset (block_table s) + (mset (concat (map block_table [])) + held (mset rest)))
      s (pool sch) new s1 bm"
    by (rule extend_for_slots_grown [OF e pok bs])
  have s1: "s1 = s\<lparr>block_table := block_table s @ new\<rparr>" using g by (simp add: grown_def)
  have hand: "sched_inv xxh P [s1] (sch\<lparr>pool := bm, running := rest\<rparr>)"
    by (rule sched_inv_frame [OF sched_inv_grown [OF take(1)]]) (use g in simp_all)
  show ?thesis
  proof (cases q)
    case (Inr u)
    have "seq_live xxh bm s1" using seq_live_grown [OF g take(2)] .
    moreover have "covered (config sch) s1" if "seq_id s1 \<notin> P"
      using take(3) that by (auto simp: s1 covered_def total_len_def add_mult_distrib intro: trans_le_add1)
    ultimately have "sched_inv xxh P [] ((sch\<lparr>pool := bm, running := rest\<rparr>)\<lparr>running := insert_at k s1 rest\<rparr>)"
      by (intro sched_inv_put [OF hand]) (simp_all add: mset_insert_at)
    then show ?thesis
      using v pos e Inr by (simp add: verify_candidate_def Let_def s_def [symmetric] rest_def [symmetric])
  next
    case (Inl x)
    define sch1 where "sch1 = drop_drafts s1 (sch\<lparr>pool := bm, running := rest\<rparr>)"
    have "sched_inv xxh P [clear_drafts s1] sch1"
      unfolding sch1_def by (rule sched_inv_clear [OF hand]) simp_all
    then have "sched_inv xxh P [] (sch1\<lparr>pool := deallocate (clear_drafts s1) (pool sch1),
        waiting := (clear_drafts s1)\<lparr>block_table := [], seq_state := Waiting\<rparr> # waiting sch1\<rparr>)"
      by (rule sched_inv_requeue) (simp_all add: waiting_ok_def has_drafts_def clear_drafts_def)
    moreover have "pool sch1 = bm" "waiting sch1 = waiting sch" by (simp_all add: sch1_def)
    ultimately show ?thesis
      using v pos e Inl
      by (simp add: verify_candidate_def Let_def s_def [symmetric] rest_def [symmetric] sch1_def [symmetric])
  qed
qed

lemma verify_pass_inv:
  "verify_pass is acc sch = (ids, sch') \<Longrightarrow> sched_inv xxh P [] sch \<Longrightarrow> sched_inv xxh P [] sch'"
  by (induction "is" arbitrary: acc sch)
    (auto split: if_splits prod.splits dest: verify_candidate_inv)

lemma step_inv:
  assumes s: "step xxh cm sch = (r, sch')" and inv: "sched_inv xxh P [] sch"
  shows "sched_inv xxh P [] sch' \<and> (\<exists>b. r = Inr b)"
proof (cases "has_verify_ready_drafts sch")
  case True
  obtain b sch1 where b: "build_verify_batch sch = (b, sch1)" by fastforce
  then have "sched_inv xxh P [] sch1"
    using inv by (auto simp: build_verify_batch_def Let_def split: prod.splits intro: verify_pass_inv)
  then have "sched_inv xxh P [] (sch1\<lparr>last_batch := Some b\<rparr>)" by (rule sched_inv_frame) simp_all
  then show ?thesis using s True b by (auto simp: step_def)
next
  case False
  obtain q sch1 where b: "build_mixed_batch xxh cm sch = (q, sch1)" by fastforce
  obtain b' where inv1: "sched_inv xxh P [] sch1" and q: "q = Inr b'"
    using build_mixed_batch_inv [OF b inv] by blast
  have "sched_inv xxh P [] (sch1\<lparr>last_batch := Some b'\<rparr>)"
    by (rule sched_inv_frame [OF inv1]) simp_all
  then show ?thesis using s False b q by (auto simp: step_def)
qed


section \<open>Preemption\<close>

lemma sched_inv_extend:
  assumes inv: "sched_inv xxh P (s # hand) sch" and e: "extend_for s (pool sch) = (r, s1, bm)"
  shows "sched_inv xxh P (s1 # hand) (sch\<lparr>pool := bm\<rparr>)"
    and "seq_live xxh (pool sch) s \<Longrightarrow> seq_live xxh bm s1"
    and "r = Inr () \<Longrightarrow> covered (config sch) s1"
    and "seq_id s1 = seq_id s" and "total_len s1 = total_len s" and "draft_tokens s1 = draft_tokens s"
    and "r \<noteq> Inr () \<Longrightarrow> free_list bm = [] \<and> length (block_table s1) < num_blocks_needed (cfg_block_size (config sch)) s1"
proof -
  let ?H = "mset (block_table s) + (mset (concat (map block_table hand)) + held (mset (running sch)))"
  note geo = sched_inv_geometry [OF inv]
  obtain new where g: "grown ?H s (pool sch) new s1 bm"
    and ok: "r = Inr () \<Longrightarrow> num_blocks_needed (block_size (pool sch)) s \<le> length (block_table s1)"
    and bad: "\<And>e. r = Inl e \<Longrightarrow> free_list bm = [] \<and> e = NoFreeBlocks \<and>
        length (block_table s1) < num_blocks_needed (block_size (pool sch)) s"
    using extend_for_grown [OF e sched_inv_pool [OF inv]] by metis
  show "sched_inv xxh P (s1 # hand) (sch\<lparr>pool := bm\<rparr>)" by (rule sched_inv_grown [OF inv g])
  show "seq_live xxh (pool sch) s \<Longrightarrow> seq_live xxh bm s1" by (rule seq_live_grown [OF g])
  show i: "seq_id s1 = seq_id s" "draft_tokens s1 = draft_tokens s" and n: "total_len s1 = total_len s"
    using g by (simp_all add: grown_def total_len_def)
  show "covered (config sch) s1" if "r = Inr ()"
    using ok [OF that] geo n by (simp add: num_blocks_needed_div_ceil div_ceil_le_iff covered_def)
  show "free_list bm = [] \<and> length (block_table s1) < num_blocks_needed (cfg_block_size (config sch)) s1"
    if "r \<noteq> Inr ()"
    using bad that geo(2) n by (cases r) (auto simp: num_blocks_needed_def)
qed

lemma seq_live_deallocate:
  assumes ok: "pool_ok bm (mset (block_table v) + H)" and sub: "set (block_table u) \<subseteq> set_mset H"
    and l: "seq_live xxh bm u"
  shows "seq_live xxh (deallocate v bm) u"
proof (rule seq_live_labels [OF _ sub l])
  show "keeps_labels H bm (deallocate v bm)"
    unfolding deallocate_def using ok by (intro keeps_held_labels keeps_held_release [OF _ mset_subset_eq_add_right])
qed

lemma preempt_fields [simp]:
  "pool (preempt s sch) = deallocate s (pool sch)" "config (preempt s sch) = config sch"
  "finished (preempt s sch) = finished sch" "every_eos (preempt s sch) = every_eos sch"
  "last_batch (preempt s sch) = last_batch sch"
  "prefix_cache_reuse (preempt s sch) = prefix_cache_reuse sch"
  by (simp_all add: preempt_def Let_def deallocate_def)

lemma seq_live_preempt:
  assumes inv: "sched_inv xxh P (v # u # hand) sch" and l: "seq_live xxh (pool sch) u"
  shows "seq_live xxh (pool (preempt v sch)) u"
  using seq_live_deallocate [OF sched_inv_pool [OF inv] _ l] by auto

lemma sched_inv_take_last:
  assumes inv: "sched_inv xxh P (s # hand) sch" and ne: "running sch \<noteq> []"
  shows "sched_inv xxh P (last (running sch) # s # hand) (sch\<lparr>running := butlast (running sch)\<rparr>)"
proof -
  have "remove_at (length (running sch) - 1) (running sch) = butlast (running sch)"
    using ne by (simp add: remove_at_def butlast_conv_take)
  then show ?thesis
    using sched_inv_take(1) [OF inv, of "length (running sch) - 1"] ne by (simp add: last_conv_nth)
qed

lemma extend_loop_inv:
  assumes "extend_loop idx s sch = (r, sch')" and "sched_inv xxh P [s] sch"
    and "seq_live xxh (pool sch) s"
  shows "sched_inv xxh P [] sch'"
  using assms
proof (induction idx s sch rule: extend_loop.induct)
  case (1 idx s sch)
  obtain q s1 bm where e: "extend_for s (pool sch) = (q, s1, bm)" by (metis surj_pair)
  note x = sched_inv_extend [OF 1(3) e]
  show ?case
  proof (cases q)
    case (Inr u)
    have "sched_inv xxh P [] ((sch\<lparr>pool := bm\<rparr>)
        \<lparr>running := insert_at (min idx (length (running sch))) s1 (running sch)\<rparr>)"
      using x Inr 1(4) by (intro sched_inv_put [OF x(1)]) (simp_all add: mset_insert_at)
    then show ?thesis using 1(2) e Inr by (simp add: extend_loop.simps [of idx s sch])
  next
    case (Inl y)
    let ?sch1 = "sch\<lparr>pool := bm\<rparr>"
    consider (huge) "cfg_num_blocks (config sch) < num_blocks_needed (cfg_block_size (config sch)) s1"
      | (victim) "\<not> cfg_num_blocks (config sch) < num_blocks_needed (cfg_block_size (config sch)) s1"
        "idx < length (running sch)"
      | (self) "\<not> cfg_num_blocks (config sch) < num_blocks_needed (cfg_block_size (config sch)) s1"
        "\<not> idx < length (running sch)"
      by blast
    then show ?thesis
    proof cases
      case huge
      define s2 where "s2 = (if has_drafts s1 then clear_drafts s1 else s1)"
      have "sched_inv xxh P [s2] (drop_drafts s1 ?sch1)"
        by (rule sched_inv_clear [OF x(1)]) (simp_all add: s2_def)
      from sched_inv_drop [OF this, of "finished sch @ [abort_seq s2]"]
      have "sched_inv xxh P [] sch'"
        by (rule sched_inv_frame)
          (use 1(2) e Inl huge in \<open>auto simp: extend_loop.simps [of idx s sch] Let_def s2_def deallocate_def
              drop_drafts_def\<close>)
      then show ?thesis .
    next
      case victim
      have ne: "running ?sch1 \<noteq> []" using victim(2) by auto
      let ?sch2 = "preempt (last (running ?sch1)) (?sch1\<lparr>running := butlast (running ?sch1)\<rparr>)"
      have inv2: "sched_inv xxh P [s1] ?sch2"
        by (rule sched_inv_preempt [OF sched_inv_take_last [OF x(1) ne]])
      have "seq_live xxh (pool ?sch2) s1"
      proof (rule seq_live_preempt)
        show "sched_inv xxh P [last (running ?sch1), s1] (?sch1\<lparr>running := butlast (running ?sch1)\<rparr>)"
          by (rule sched_inv_take_last [OF x(1) ne])
        show "seq_live xxh (pool (?sch1\<lparr>running := butlast (running ?sch1)\<rparr>)) s1" using x(2) 1(4) by simp
      qed
      moreover have "extend_loop idx s1 ?sch2 = (r, sch')"
        using 1(2) e Inl victim by (simp add: extend_loop.simps [of idx s sch] Let_def)
      ultimately show ?thesis
        using 1(1) [OF e [symmetric] Inl refl refl] victim inv2 by simp
    next
      case self
      have "sched_inv xxh P [] (preempt s1 ?sch1)" by (rule sched_inv_preempt [OF x(1)])
      then show ?thesis using 1(2) e Inl self by (simp add: extend_loop.simps [of idx s sch])
    qed
  qed
qed


lemma sched_inv_settle:
  assumes inv: "sched_inv xxh P (s # hand) sch"
  shows "sched_inv xxh (P - {seq_id s}) (s # hand) sch"
proof (rule sched_invI)
  note d = sched_invD [OF inv]
  have "seq_id u \<noteq> seq_id s" if "u \<in># mset (running sch)" for u
  proof (rule distinct_ids_notin)
    show "distinct_ids (add_mset s (mset (running sch)))"
      using d(3) by (rule distinct_ids_mono) simp
  qed (rule that)
  then show "carrying xxh (P - {seq_id s}) (config sch) (pool sch) (concat (map block_table (s # hand)))
      (mset (running sch))"
    using d(1) by (auto simp: carrying_def)
qed (use sched_invD [OF inv] in auto)

lemma extend_blocks_or_preempt_inv:
  assumes inv: "sched_inv xxh P [] sch" and e: "extend_blocks_or_preempt i sch = (r, sch')"
  shows "sched_inv xxh (P - {i}) [] sch'"
proof (cases "position (has_id i) (running sch)")
  case None
  have "seq_id s \<noteq> i" if "s \<in> set (running sch)" for s
    using None that by (auto simp: position_None_iff has_id_def)
  then have "sched_inv xxh (P - {i}) [] sch"
    using inv by (auto simp: sched_inv_def carrying_def)
  then show ?thesis using e None by (simp add: extend_blocks_or_preempt_def)
next
  case (Some k)
  note take = sched_inv_take [OF inv position_less [OF Some]]
  have i: "seq_id (running sch ! k) = i" using position_holds [OF Some] by (simp add: has_id_def)
  show ?thesis
  proof (rule extend_loop_inv)
    show "extend_loop k (running sch ! k) (sch\<lparr>running := remove_at k (running sch)\<rparr>) = (r, sch')"
      using e Some by (simp add: extend_blocks_or_preempt_def)
    show "sched_inv xxh (P - {i}) [running sch ! k] (sch\<lparr>running := remove_at k (running sch)\<rparr>)"
      using sched_inv_settle [OF take(1)] i by simp
    show "seq_live xxh (pool (sch\<lparr>running := remove_at k (running sch)\<rparr>)) (running sch ! k)"
      using take(2) by simp
  qed
qed

lemma extend_all_inv:
  "extend_all is fs sch = (fs', sch') \<Longrightarrow> sched_inv xxh P [] sch \<Longrightarrow> sched_inv xxh (P - set is) [] sch'"
proof (induction "is" arbitrary: fs sch P)
  case (Cons i "is")
  obtain f sch1 where e: "extend_blocks_or_preempt i sch = (f, sch1)" by fastforce
  have "sched_inv xxh (P - {i}) [] sch1" by (rule extend_blocks_or_preempt_inv [OF Cons.prems(2) e])
  moreover have "\<exists>fs2. extend_all is fs2 sch1 = (fs', sch')"
    using Cons.prems(1) e by (auto split: option.splits)
  ultimately have "sched_inv xxh (P - {i} - set is) [] sch'" using Cons.IH by blast
  moreover have "P - {i} - set is = P - set (i # is)" by auto
  ultimately show ?case by simp
qed simp


section \<open>Completing a mixed batch\<close>

text \<open>A decoding sequence that appended tokens is live again, with its last token unsettled.\<close>

lemma seq_live_append:
  assumes l: "seq_live xxh bm s" and s': "seq_prompt s' = seq_prompt s" "seq_output s' = seq_output s @ ts"
    "block_table s' = block_table s" "seq_state s' = Decode"
    and v: "settled s \<le> settled s'" "ts \<noteq> [] \<or> seq_state s = Decode"
  shows "seq_live xxh bm s'"
proof -
  have "describes xxh None bm s (block_table s) (settled s)" using l by (simp add: seq_live_def)
  then have "describes xxh None bm s' (block_table s) (settled s')"
    using settled_le v(1)
  proof (rule describes_append)
    show "seq_tokens s' = seq_tokens s @ ts" using s'(1,2) by (simp add: seq_tokens_def)
  qed
  moreover have "seq_output s' \<noteq> []" using l s'(2) v(2) by (auto simp: seq_live_def)
  ultimately show ?thesis using s'(3,4) by (simp add: seq_live_def)
qed

lemma mark_publish_inv:
  assumes inv: "sched_inv xxh P (s # hand) sch" and l: "seq_live xxh (pool sch) s" and v: "settled s = v"
  defines "bm1 \<equiv> mark_kv_computed s v (pool sch)"
  defines "bm2 \<equiv> (if prefix_cache_reuse sch then publish_computed_blocks xxh s v bm1 else bm1)"
  shows "sched_inv xxh P (s # hand) (sch\<lparr>pool := bm2\<rparr>)" and "seq_live xxh bm2 s"
proof -
  define H where "H = mset (concat (map block_table hand)) + held (mset (running sch))"
  note geo = sched_inv_geometry [OF inv]
  have ok: "pool_ok (pool sch) (mset (block_table s) + H)" unfolding H_def by (rule sched_inv_pool [OF inv])
  have keep1: "keeps_labels H' (pool sch) bm1" for H' unfolding bm1_def by (rule mark_kv_computed_frame)
  have ok1: "pool_ok bm1 (mset (block_table s) + H)" unfolding bm1_def using ok by (rule mark_kv_computed_frame)
  have d1: "describes xxh None bm1 s (block_table s) v"
    using keep1 [of "mset (block_table s)"] l v by (auto simp: seq_live_def intro: describes_labels)
  have bs1: "0 < block_size bm1" using keep1 [of "{#}"] geo by (simp add: keeps_labels_def)
  note pub = publish_computed_blocks_ok [OF ok1 bs1 d1]
  have ok2: "pool_ok bm2 (mset (block_table s) + H)" using ok1 pub(1) by (simp add: bm2_def)
  have keep2: "keeps_labels H bm1 bm2" using pub(2) by (simp add: bm2_def)
  have d2: "describes xxh None bm2 s (block_table s) v" using d1 pub(3) by (simp add: bm2_def)
  show "seq_live xxh bm2 s" using l d2 v by (simp add: seq_live_def)
  have keep: "keeps_labels H (pool sch) bm2" using keep1 keep2 by (rule keeps_labels_trans)
  show "sched_inv xxh P (s # hand) (sch\<lparr>pool := bm2\<rparr>)"
  proof (rule sched_invI)
    have "carrying xxh P (config sch) bm2 (concat (map block_table (s # hand))) (mset (running sch))"
    proof (rule carrying_labels)
      show "carrying xxh P (config sch) (pool sch) (concat (map block_table (s # hand))) (mset (running sch))"
        by (rule sched_invD(1) [OF inv])
      show "pool_ok bm2 (mset (concat (map block_table (s # hand))) + held (mset (running sch)))"
        using ok2 by (simp add: H_def ac_simps)
      show "keeps_labels (held (mset (running sch))) (pool sch) bm2"
        by (rule keeps_labels_mono [OF keep]) (simp add: H_def)
    qed
    then show "carrying xxh P (config (sch\<lparr>pool := bm2\<rparr>)) (pool (sch\<lparr>pool := bm2\<rparr>))
        (concat (map block_table (s # hand))) (mset (running (sch\<lparr>pool := bm2\<rparr>)))" by simp
  qed (use sched_invD(2-4) [OF inv] in auto)
qed

lemma append_token_cases:
  "append_token t s = (r, s') \<Longrightarrow>
   (r = Inr () \<and> seq_state s = Decode \<and> s' = s\<lparr>seq_output := seq_output s @ [t]\<rparr>) \<or>
   (r = Inl (AppendOutsideDecode (seq_state s)) \<and> seq_state s \<noteq> Decode \<and> s' = s)"
  by (auto simp: append_token_def split: sequence_state.splits)

lemma transition_to_decode_cases:
  "transition_to_decode s = (r, s') \<Longrightarrow>
   (r = Inr () \<and> (seq_state s = Prefill \<or> seq_state s = Decode) \<and> s' = s\<lparr>seq_state := Decode\<rparr>) \<or>
   (r = Inl (BadTransition Decode (seq_state s)) \<and> seq_state s \<notin> {Prefill, Decode} \<and> s' = s)"
  by (auto simp: transition_to_decode_def split: sequence_state.splits)

lemma take_token_cases:
  assumes "take_token final t s = (r, s')"
  shows "(r = Inr () \<and> (seq_state s = Decode \<or> final \<and> seq_state s = Prefill) \<and>
           s' = s\<lparr>seq_state := Decode, seq_output := seq_output s @ [t]\<rparr>) \<or>
         ((\<exists>e. r = Inl e) \<and> s' = s)"
  using assms
  by (cases "seq_state s"; cases final)
    (auto simp: take_token_def transition_to_decode_def append_token_def intro!: sequence.equality)


lemma record_computed_fields [simp]:
  "block_table (record_computed n s) = block_table s" "seq_id (record_computed n s) = seq_id s"
  "draft_tokens (record_computed n s) = draft_tokens s" "seq_state (record_computed n s) = seq_state s"
  "seq_prompt (record_computed n s) = seq_prompt s" "seq_output (record_computed n s) = seq_output s"
  "total_len (record_computed n s) = total_len s" "has_drafts (record_computed n s) = has_drafts s"
  by (simp_all add: record_computed_def total_len_def has_drafts_def)

lemma apply_scheduled_item_inv:
  assumes a: "apply_scheduled_item xxh it tok sch = (r, sch')" and inv: "sched_inv xxh P [] sch"
  shows "sched_inv xxh (if r = Inr True then insert (item_seq_id it) P else P) [] sch'"
proof (cases "position (has_id (item_seq_id it)) (running sch)")
  case None
  then show ?thesis using a inv by (auto simp: apply_scheduled_item_def)
next
  case (Some k)
  define s0 where "s0 = running sch ! k"
  define rest where "rest = remove_at k (running sch)"
  define s where "s = (if is_prefill it then record_computed (num_scheduled_tokens it) s0 else s0)"
  have f: "block_table s = block_table s0" "seq_id s = seq_id s0" "has_drafts s = has_drafts s0"
    "seq_state s = seq_state s0" "seq_prompt s = seq_prompt s0" "seq_output s = seq_output s0"
    by (simp_all add: s_def)
  note take = sched_inv_take [OF inv position_less [OF Some], folded s0_def rest_def]
  have i: "seq_id s0 = item_seq_id it" using position_holds [OF Some] by (simp add: s0_def has_id_def)
  have hand: "sched_inv xxh P [s] (sch\<lparr>running := rest\<rparr>)"
    by (rule sched_inv_swap [OF take(1)]) (simp_all add: f)
  have live: "seq_live xxh (pool sch) s" by (rule seq_live_same [OF _ _ _ _ take(2)]) (simp_all add: f)
  show ?thesis
  proof (cases tok)
    case None
    then have "sch' = sch\<lparr>running := insert_at k s rest\<rparr>" and r: "r = Inr False"
      using a Some
      by (simp_all add: apply_scheduled_item_def Let_def s_def [symmetric] s0_def [symmetric] rest_def [symmetric])
    moreover have "sched_inv xxh P [] ((sch\<lparr>running := rest\<rparr>)\<lparr>running := insert_at k s rest\<rparr>)"
      using take(3) live covered_same [of s s0] f
      by (intro sched_inv_put [OF hand]) (simp_all add: mset_insert_at)
    ultimately show ?thesis by simp
  next
    case tok: (Some t)
    obtain q s2 where tt: "take_token (is_final_prefill_chunk it) t s = (q, s2)" by fastforce
    show ?thesis
    proof (cases q)
      case (Inl e)
      have s2: "s2 = s" using take_token_cases [OF tt] Inl by auto
      have "sch' = (sch\<lparr>running := rest\<rparr>)\<lparr>pool := deallocate s (pool sch), finished := finished sch @ [abort_seq s]\<rparr>"
        and r: "r = Inl e"
        using a Some tok tt Inl s2
        by (simp_all add: apply_scheduled_item_def Let_def s_def [symmetric] s0_def [symmetric] rest_def [symmetric])
      moreover have "sched_inv xxh P [] ((sch\<lparr>running := rest\<rparr>)\<lparr>pool := deallocate s (pool (sch\<lparr>running := rest\<rparr>)),
          finished := finished sch @ [abort_seq s]\<rparr>)"
        by (rule sched_inv_drop [OF hand])
      ultimately show ?thesis by simp
    next
      case (Inr u)
      have st: "seq_state s = Decode \<or> seq_state s = Prefill"
        and s2: "s2 = s\<lparr>seq_state := Decode, seq_output := seq_output s @ [t]\<rparr>"
        using take_token_cases [OF tt] Inr by auto
      define s3 where "s3 = record_computed 1 s2"
      define v where "v = total_len s3 - 1"
      define bm1 where "bm1 = mark_kv_computed s3 v (pool sch)"
      define bm2 where "bm2 = (if prefix_cache_reuse sch then publish_computed_blocks xxh s3 v bm1 else bm1)"
      have f3: "block_table s3 = block_table s" "seq_id s3 = seq_id s" "has_drafts s3 = has_drafts s"
        "seq_state s3 = Decode" "seq_prompt s3 = seq_prompt s" "seq_output s3 = seq_output s @ [t]"
        by (simp_all add: s3_def s2 has_drafts_def)
      have v: "settled s3 = v" by (simp add: settled_def f3 v_def)
      have hand3: "sched_inv xxh P [s3] (sch\<lparr>running := rest\<rparr>)"
        by (rule sched_inv_swap [OF hand]) (simp_all add: f3)
      have live3: "seq_live xxh (pool sch) s3"
        by (rule seq_live_append [OF live f3(5,6,1,4)]) (simp_all add: settled_def f3 total_len_def)
      have pub: "sched_inv xxh P [s3] ((sch\<lparr>running := rest\<rparr>)\<lparr>pool := bm2\<rparr>)" "seq_live xxh bm2 s3"
        using mark_publish_inv [OF hand3 _ v] live3
        by (cases "prefix_cache_reuse sch"; simp add: bm1_def bm2_def)+
      have app: "apply_scheduled_item xxh it tok sch =
          (case stop_reason (every_eos sch) s3 of
             Some r \<Rightarrow> (Inr False, sch\<lparr>running := rest, pool := deallocate s3 bm2,
                           finished := finished sch @ [finish r s3]\<rparr>)
           | None \<Rightarrow> (Inr True, sch\<lparr>pool := bm2, running := insert_at k s3 rest\<rparr>))"
        using Some tok tt Inr unfolding bm2_def bm1_def v_def s3_def
        by (simp add: apply_scheduled_item_def Let_def s_def [symmetric] s0_def [symmetric] rest_def [symmetric]
              del: One_nat_def)
      show ?thesis
      proof (cases "stop_reason (every_eos sch) s3")
        case None
        have "sched_inv xxh (insert (item_seq_id it) P) [s3] ((sch\<lparr>running := rest\<rparr>)\<lparr>pool := bm2\<rparr>)"
          by (rule sched_inv_mono [OF pub(1)]) auto
        then have "sched_inv xxh (insert (item_seq_id it) P) []
            (((sch\<lparr>running := rest\<rparr>)\<lparr>pool := bm2\<rparr>)\<lparr>running := insert_at k s3 rest\<rparr>)"
          by (rule sched_inv_put) (use pub(2) i in \<open>simp_all add: f f3 mset_insert_at\<close>)
        from sched_inv_frame [OF this, of sch'] show ?thesis using a app None by auto
      next
        case (Some x)
        from sched_inv_frame [OF sched_inv_drop [OF pub(1), of "finished sch @ [finish x s3]"], of sch']
        show ?thesis using a app Some by auto
      qed
    qed
  qed
qed

lemma apply_items_inv:
  "apply_items xxh its toks fs need sch = (fs', need', sch') \<Longrightarrow>
   sched_inv xxh (set need) [] sch \<Longrightarrow> sched_inv xxh (set need') [] sch'"
proof (induction its arbitrary: toks fs need sch)
  case (Cons it its)
  obtain tok toks1 where t: "(if produces_token it
      then (case toks of t # ts \<Rightarrow> (Some t, ts) | [] \<Rightarrow> (None, [])) else (None, toks)) = (tok, toks1)"
    by fastforce
  obtain q sch1 where a: "apply_scheduled_item xxh it tok sch = (q, sch1)" by fastforce
  note one = apply_scheduled_item_inv [OF a Cons.prems(2)]
  have "\<exists>fs1 need1. apply_items xxh its toks1 fs1 need1 sch1 = (fs', need', sch') \<and>
      set need1 = (if q = Inr True then insert (item_seq_id it) (set need) else set need)"
  proof (cases "q = Inr True")
    case True
    then show ?thesis using Cons.prems(1) t a
      by (intro exI [of _ fs] exI [of _ "need @ [item_seq_id it]"]) (auto simp: Let_def split: if_splits)
  next
    case False
    then show ?thesis using Cons.prems(1) t a
      by (cases q) (auto simp: Let_def split: if_splits)
  qed
  then show ?case using Cons.IH one by metis
qed simp

lemma complete_step_inv:
  assumes c: "complete_step xxh sampled sch = (r, sch')" and inv: "sched_inv xxh {} [] sch"
  shows "sched_inv xxh {} [] sch'"
proof -
  have inv0: "sched_inv xxh {} [] (sch\<lparr>last_batch := None\<rparr>)"
    by (rule sched_inv_frame [OF inv]) simp_all
  show ?thesis
  proof (cases "\<exists>b. last_batch sch = Some b \<and> batch_kind_of b \<noteq> VerifyBatch \<and>
      length (filter produces_token (batch_items b)) = length sampled")
    case True
    then obtain b where b: "last_batch sch = Some b" "batch_kind_of b \<noteq> VerifyBatch"
      "length (filter produces_token (batch_items b)) = length sampled" by blast
    obtain fs need sch1 where ap: "apply_items xxh (batch_items b) sampled [] [] (sch\<lparr>last_batch := None\<rparr>) = (fs, need, sch1)"
      by (metis surj_pair)
    obtain fs2 sch2 where ex: "extend_all need fs sch1 = (fs2, sch2)" by fastforce
    have "sched_inv xxh (set need) [] sch1" using apply_items_inv [OF ap] inv0 by simp
    then have "sched_inv xxh {} [] sch2" using extend_all_inv [OF ex] by fastforce
    then show ?thesis using c b ap ex by (simp add: complete_step_def Let_def)
  next
    case False
    then show ?thesis using c inv inv0 by (auto simp: complete_step_def Let_def split: option.splits if_splits)
  qed
qed


section \<open>Completing a verify batch\<close>

lemma append_verified_props:
  "append_verified eos ts s = (r, d, s') \<Longrightarrow>
   block_table s' = block_table s \<and> seq_id s' = seq_id s \<and> draft_tokens s' = draft_tokens s \<and>
   seq_prompt s' = seq_prompt s \<and>
   (\<exists>us. seq_output s' = seq_output s @ us \<and> length us \<le> length ts) \<and>
   (r = Inr () \<and> \<not> d \<and> ts \<noteq> [] \<longrightarrow> seq_state s = Decode \<and> seq_state s' = Decode)"
proof (induction ts arbitrary: s)
  case (Cons t ts)
  obtain q s1 where a: "append_token t s = (q, s1)" by fastforce
  show ?case
  proof (cases q)
    case (Inl e)
    then show ?thesis using Cons.prems a append_token_cases [OF a] by auto
  next
    case (Inr u)
    then have st: "seq_state s = Decode" and s1: "s1 = s\<lparr>seq_output := seq_output s @ [t]\<rparr>"
      using append_token_cases [OF a] by auto
    show ?thesis
    proof (cases "stop_reason eos s1")
      case (Some x)
      then show ?thesis using Cons.prems a Inr s1 by (auto simp: finish_def)
    next
      case None
      then have rec: "append_verified eos ts s1 = (r, d, s')" using Cons.prems a Inr by simp
      then have "ts = [] \<Longrightarrow> s' = s1" by simp
      with Cons.IH [OF rec] st s1 show ?thesis by (cases "ts = []") auto
    qed
  qed
qed simp

lemma append_verified_live:
  assumes a: "append_verified eos ts s = (Inr (), False, s')" and ne: "ts \<noteq> []" and l: "seq_live xxh bm s"
  shows "seq_live xxh bm s'"
proof -
  note p = append_verified_props [OF a]
  obtain us where us: "seq_output s' = seq_output s @ us" using p by blast
  have st: "seq_state s = Decode" "seq_state s' = Decode" using p ne by simp_all
  show ?thesis
    by (rule seq_live_append [OF l _ us _ st(2)])
      (use p us st in \<open>auto simp: settled_def total_len_def\<close>)
qed

lemma apply_verify_outcome_inv:
  assumes a: "apply_verify_outcome i out sch = (r, sch')" and inv: "sched_inv xxh P [] sch"
  shows "sched_inv xxh P [] sch'"
proof (cases "position (has_id i) (running sch)")
  case None
  then show ?thesis using a inv by (simp add: apply_verify_outcome_def)
next
  case (Some k)
  define s where "s = running sch ! k"
  define rest where "rest = remove_at k (running sch)"
  define sch1 where "sch1 = drop_drafts s (sch\<lparr>running := rest\<rparr>)"
  define s1 where "s1 = clear_drafts (s\<lparr>accepted_token_count := accepted_count out\<rparr>)"
  have f1: "running sch1 = rest" "pool sch1 = pool sch" "config sch1 = config sch"
    by (simp_all add: sch1_def)
  note take = sched_inv_take [OF inv position_less [OF Some], folded s_def rest_def]
  have hand1: "sched_inv xxh P [s1] sch1"
    unfolding sch1_def by (rule sched_inv_clear [OF take(1)]) (simp_all add: s1_def)
  have live1: "seq_live xxh (pool sch1) s1"
    by (rule seq_live_same [OF _ _ _ _ take(2), folded f1(2)]) (simp_all add: s1_def)
  obtain q d s2 where ap: "append_verified (every_eos sch1) (accepted_drafts out @ [bonus_token out]) s1 = (q, d, s2)"
    by (metis surj_pair)
  note p = append_verified_props [OF ap]
  have hand2: "sched_inv xxh P [s2] sch1"
    by (rule sched_inv_swap [OF hand1]) (use p in \<open>simp_all add: has_drafts_def\<close>)
  obtain q2 s3 bm where ex: "(case q of Inr u \<Rightarrow> if d then (q, s2, pool sch1) else extend_for s2 (pool sch1)
      | Inl e \<Rightarrow> (q, s2, pool sch1)) = (q2, s3, bm)" by (metis surj_pair)
  have app: "apply_verify_outcome i out sch =
     (case q2 of
        Inl e \<Rightarrow> (Inl e, sch1\<lparr>pool := deallocate s3 bm, finished := finished sch1 @ [abort_seq s3]\<rparr>)
      | Inr u \<Rightarrow>
          if d then (Inr (), sch1\<lparr>pool := deallocate s3 bm, finished := finished sch1 @ [s3]\<rparr>)
          else (Inr (), sch1\<lparr>pool := bm, running := insert_at k s3 rest\<rparr>))"
    unfolding apply_verify_outcome_def Some option.case Let_def s_def [symmetric] rest_def [symmetric]
      sch1_def [symmetric] s1_def [symmetric] ap prod.case ex by (rule refl)
  have hand3: "sched_inv xxh P [s3] (sch1\<lparr>pool := bm\<rparr>) \<and>
      (q2 = Inr () \<and> \<not> d \<longrightarrow> seq_live xxh bm s3 \<and> covered (config sch) s3)"
  proof (cases "q = Inr () \<and> \<not> d")
    case True
    then have e: "extend_for s2 (pool sch1) = (q2, s3, bm)" using ex by simp
    note x = sched_inv_extend [OF hand2 e]
    have "seq_live xxh (pool sch1) s2" using append_verified_live [of _ _ s1 s2] ap live1 True by simp
    then show ?thesis using x(1-3) f1(3) by simp
  next
    case False
    then have e: "q2 = q" "s3 = s2" "bm = pool sch1" using ex by (auto split: sum.splits)
    have "sched_inv xxh P [s3] (sch1\<lparr>pool := bm\<rparr>)"
      by (rule sched_inv_frame [OF hand2 [folded e(2)]]) (simp_all add: e)
    then show ?thesis using False e by auto
  qed
  show ?thesis
  proof (cases "q2 = Inr () \<and> \<not> d")
    case True
    have "sched_inv xxh P [] ((sch1\<lparr>pool := bm\<rparr>)\<lparr>running := insert_at k s3 rest\<rparr>)"
      using True hand3 by (intro sched_inv_put [where s = s3]) (simp_all add: mset_insert_at f1)
    then show ?thesis using app a True by simp
  next
    case False
    then have "\<exists>f. sch' = sch1\<lparr>pool := deallocate s3 bm, finished := f\<rparr>"
      using app a by (cases q2) (auto split: if_splits)
    then obtain f where sch': "sch' = sch1\<lparr>pool := deallocate s3 bm, finished := f\<rparr>" ..
    show ?thesis
      using sched_inv_drop [OF conjunct1 [OF hand3], of f] by (simp add: sch')
  qed
qed

lemma apply_outcomes_inv:
  "apply_outcomes os fs sch = (fs', sch') \<Longrightarrow> sched_inv xxh P [] sch \<Longrightarrow> sched_inv xxh P [] sch'"
  by (induction os fs sch rule: apply_outcomes.induct)
    (auto split: prod.splits sum.splits dest: apply_verify_outcome_inv)

lemma complete_verify_step_inv:
  assumes c: "complete_verify_step outs sch = (r, sch')" and inv: "sched_inv xxh {} [] sch"
  shows "sched_inv xxh {} [] sch'"
proof -
  have inv0: "sched_inv xxh {} [] (sch\<lparr>last_batch := None\<rparr>)"
    by (rule sched_inv_frame [OF inv]) simp_all
  then show ?thesis using c inv
    by (auto simp: complete_verify_step_def Let_def intro: apply_outcomes_inv
        split: option.splits if_splits prod.splits)
qed

lemma drain_finished_inv: "sched_inv xxh P [] sch \<Longrightarrow> sched_inv xxh P [] (snd (drain_finished sch))"
  by (erule sched_inv_frame) (simp_all add: drain_finished_def)

end
