(* ===== verification/Scheduler_Facts.thy ===== *)
theory Scheduler_Facts
  imports Scheduler_Ops
begin

text \<open>
  What the scheduler guarantees beyond its invariant: no request is lost or duplicated, a decode
  step writes into a block that nobody else references, batches stay within their budgets and
  agree with the running sequences, and a sequence that fits the pool is never failed for lack of
  blocks.
\<close>

section \<open>The census\<close>

definition census :: "scheduler \<Rightarrow> u64 multiset" where
  "census sch = image_mset seq_id (mset (waiting sch) + mset (running sch) + mset (finished sch))"

lemma census_take:
  "k < length (running sch) \<Longrightarrow>
   census sch = add_mset (seq_id (running sch ! k)) (census (sch\<lparr>running := remove_at k (running sch)\<rparr>))"
  using mset_remove_at [of k "running sch"] by (simp add: census_def)

lemma abort_seq_id [simp]: "seq_id (abort_seq s) = seq_id s"
  by (simp add: abort_seq_def)

lemma finish_id [simp]: "seq_id (finish r s) = seq_id s"
  by (simp add: finish_def)

lemma push_blocks_same:
  "push_blocks n s bm = (r, s', bm') \<Longrightarrow> \<exists>new. s' = s\<lparr>block_table := block_table s @ new\<rparr>"
proof (induction n arbitrary: s bm)
  case 0
  then show ?case by (intro exI [of _ "[]"]) simp
next
  case (Suc n)
  obtain q bm1 where p: "pop_free bm = (q, bm1)" by fastforce
  show ?case
  proof (cases q)
    case (Inl e)
    then show ?thesis using Suc.prems p by (intro exI [of _ "[]"]) simp
  next
    case (Inr i)
    then obtain new where "s' = (s\<lparr>block_table := block_table s @ [i]\<rparr>)
        \<lparr>block_table := (block_table s @ [i]) @ new\<rparr>"
      using Suc.IH [of "s\<lparr>block_table := block_table s @ [i]\<rparr>" bm1] Suc.prems p by auto
    then show ?thesis by (intro exI [of _ "i # new"]) simp
  qed
qed

lemma extend_for_same: "extend_for s bm = (r, s', bm') \<Longrightarrow> \<exists>new. s' = s\<lparr>block_table := block_table s @ new\<rparr>"
  by (auto simp: extend_for_def Let_def split: if_splits dest: push_blocks_same intro: exI [of _ "[]"])

lemma extend_for_slots_same:
  "extend_for_slots s n bm = (r, s', bm') \<Longrightarrow> \<exists>new. s' = s\<lparr>block_table := block_table s @ new\<rparr>"
  by (auto simp: extend_for_slots_def Let_def split: if_splits dest: push_blocks_same intro: exI [of _ "[]"])

lemma extend_for_id: "extend_for s bm = (r, s', bm') \<Longrightarrow> seq_id s' = seq_id s"
  using extend_for_same by fastforce

lemma extend_for_slots_id: "extend_for_slots s n bm = (r, s', bm') \<Longrightarrow> seq_id s' = seq_id s"
  using extend_for_slots_same by fastforce

lemma reset_for_recompute_id [simp]: "seq_id (reset_for_recompute s) = seq_id s"
  by (simp add: reset_for_recompute_def)

lemma census_drop_drafts [simp]: "census (drop_drafts s sch) = census sch"
  by (simp add: census_def)

lemma census_preempt: "census (preempt s sch) = add_mset (seq_id s) (census sch)"
  by (simp add: census_def preempt_def Let_def)

lemma census_enqueue: "census (enqueue s sch) = add_mset (seq_id s) (census sch)"
  by (simp add: census_def enqueue_def)

lemma census_set_drafts: "set_drafts i d sch = (r, sch') \<Longrightarrow> census sch' = census sch"
proof (cases "position (has_id i) (running sch)")
  case (Some k)
  assume r: "set_drafts i d sch = (r, sch')"
  have "map seq_id ((running sch)[k := put_drafts d (running sch ! k)]) = map seq_id (running sch)"
    by (metis list_update_id map_update put_drafts_fields(5))
  then have "image_mset seq_id (mset ((running sch)[k := put_drafts d (running sch ! k)])) =
      image_mset seq_id (mset (running sch))" by (metis mset_map)
  then show ?thesis using r Some
    by (auto simp: census_def set_drafts_def Let_def note_drafts_set_def bump_drafts_def)
qed (simp add: set_drafts_def)

lemma census_abort: "census (abort i sch) = census sch"
proof (cases "position (has_id i) (waiting sch)")
  case (Some k)
  then show ?thesis using mset_remove_at [OF position_less [OF Some]] by (simp add: census_def abort_def)
next
  case wait: None
  show ?thesis
  proof (cases "position (has_id i) (running sch)")
    case (Some k)
    then show ?thesis using mset_remove_at [OF position_less [OF Some]] wait
      by (simp add: census_def abort_def Let_def)
  qed (simp add: abort_def wait)
qed

lemma transition_to_prefill_id:
  "transition_to_prefill_with_cache c s = (r, s') \<Longrightarrow> seq_id s' = seq_id s"
  by (auto simp: transition_to_prefill_with_cache_def split: sequence_state.splits)

lemma census_admit_pass:
  "admit_pass xxh cm ws items budget sch = (Inr its, sch') \<Longrightarrow>
   census sch' = census (sch\<lparr>waiting := ws\<rparr>)"
proof (induction xxh cm ws items budget sch rule: admit_pass.induct)
  case (2 xxh cm s ws items budget sch)
  let ?full = "budget = 0 \<or> max_batch_size (config sch) \<le> length items"
  obtain q bm where al: "allocate_with_prefix xxh s (pool sch) = (q, bm)" by fastforce
  consider (full) "?full" | (empty) "\<not> ?full" "total_len s = 0"
    | (refused) e where "\<not> ?full" "0 < total_len s" "q = Inl e"
    | (go) a where "\<not> ?full" "0 < total_len s" "q = Inr a"
    by (metis not_gr0 sum.exhaust)
  then show ?case
  proof cases
    case full
    then show ?thesis using 2(3) by (simp add: census_def)
  next
    case empty
    then show ?thesis using 2(1) [OF empty] 2(3) by (simp add: census_def)
  next
    case refused
    then show ?thesis using 2(3) al by (auto simp: census_def)
  next
    case (go a)
    obtain p s1 where t: "transition_to_prefill_with_cache
        (if prefix_cache_reuse sch then cached_tokens a else 0) (s\<lparr>block_table := alloc_table a\<rparr>) = (p, s1)"
      by fastforce
    let ?tk = "floored_take (remaining_uncomputed s1) budget cm"
    have id: "seq_id s1 = seq_id s" using transition_to_prefill_id [OF t] by simp
    obtain u where p: "p = Inr u" using 2(3) go al t by (cases p) auto
    show ?thesis
    proof (cases "?tk = 0")
      case True
      then show ?thesis using 2(3) go al t p id by (auto simp: census_def)
    next
      case False
      then show ?thesis
        using 2(2) [of q bm a p s1 u ?tk "sch\<lparr>pool := bm, running := running sch @ [s1]\<rparr>"]
          2(3) go al t p id by (simp add: census_def Let_def)
    qed
  qed
qed auto

lemma census_verify_candidate: "verify_candidate i sch = (ok, sch') \<Longrightarrow> census sch' = census sch"
proof (cases "position (has_id i) (running sch)")
  case (Some k)
  assume v: "verify_candidate i sch = (ok, sch')"
  define s where "s = running sch ! k"
  define rest where "rest = remove_at k (running sch)"
  have m: "mset (running sch) = add_mset s (mset rest)"
    using mset_remove_at [OF position_less [OF Some]] by (simp add: s_def rest_def)
  obtain q s1 bm where e: "extend_for_slots s (1 + draft_len s) (pool sch) = (q, s1, bm)" by (metis surj_pair)
  have id: "seq_id s1 = seq_id s" by (rule extend_for_slots_id [OF e])
  show ?thesis
    using v Some e id m
    by (cases q)
      (auto simp: verify_candidate_def Let_def s_def [symmetric] rest_def [symmetric] census_def mset_insert_at)
qed (simp add: verify_candidate_def)

lemma census_verify_pass: "verify_pass is acc sch = (ids, sch') \<Longrightarrow> census sch' = census sch"
  by (induction "is" arbitrary: acc sch)
    (auto split: if_splits prod.splits dest!: census_verify_candidate)

lemma census_step: "step xxh cm sch = (Inr b, sch') \<Longrightarrow> census sch' = census sch"
proof (cases "has_verify_ready_drafts sch")
  case True
  assume s: "step xxh cm sch = (Inr b, sch')"
  obtain ids sch1 where v: "verify_pass (map seq_id (filter (\<lambda>s. \<not> is_finished s \<and> in_state Decode s) (running sch)))
      [] sch = (ids, sch1)" by fastforce
  then have "census sch' = census sch1" using s True
    by (auto simp: step_def build_verify_batch_def census_def)
  then show ?thesis using census_verify_pass [OF v] by simp
next
  case False
  assume s: "step xxh cm sch = (Inr b, sch')"
  obtain items2 b2 where p: "(case decode_pass (max_batch_size (config sch)) (running sch) []
      (max_batched_tokens (config sch)) of (items1, b1) \<Rightarrow>
      prefill_pass cm (max_batch_size (config sch)) (running sch) items1 b1) = (items2, b2)" by fastforce
  obtain q sch1 where a: "admit_pass xxh cm (waiting sch) items2 b2 sch = (q, sch1)" by fastforce
  have "\<exists>its. q = Inr its" and "census sch' = census sch1"
    using s False p a by (cases q; auto simp: step_def build_mixed_batch_def census_def split: prod.splits)+
  then show ?thesis using census_admit_pass a by (fastforce simp: census_def)
qed

lemma census_extend_loop:
  "extend_loop idx s sch = (r, sch') \<Longrightarrow> census sch' = add_mset (seq_id s) (census sch)"
proof (induction idx s sch rule: extend_loop.induct)
  case (1 idx s sch)
  obtain q s1 bm where e: "extend_for s (pool sch) = (q, s1, bm)" by (metis surj_pair)
  have id: "seq_id s1 = seq_id s" by (rule extend_for_id [OF e])
  let ?huge = "cfg_num_blocks (config sch) < num_blocks_needed (cfg_block_size (config sch)) s1"
  consider (ok) u where "q = Inr u" | (huge) y where "q = Inl y" "?huge"
    | (victim) y where "q = Inl y" "\<not> ?huge" "idx < length (running sch)"
    | (self) y where "q = Inl y" "\<not> ?huge" "\<not> idx < length (running sch)"
    by (cases q) blast+
  then show ?case
  proof cases
    case ok
    then show ?thesis using 1(2) e id
      by (auto simp: extend_loop.simps [of idx s sch] census_def mset_insert_at)
  next
    case huge
    then show ?thesis using 1(2) e id
      by (auto simp: extend_loop.simps [of idx s sch] census_def Let_def)
  next
    case (victim y)
    let ?sch1 = "sch\<lparr>pool := bm\<rparr>"
    let ?sch2 = "preempt (last (running ?sch1)) (?sch1\<lparr>running := butlast (running ?sch1)\<rparr>)"
    have ne: "running sch \<noteq> []" using victim by auto
    have "mset (running sch) = add_mset (last (running sch)) (mset (butlast (running sch)))"
      using ne by (metis append_butlast_last_id mset.simps mset_append union_mset_add_mset_right add.right_neutral)
    then have "census ?sch2 = census sch" by (simp add: census_preempt) (simp add: census_def)
    moreover have "extend_loop idx s1 ?sch2 = (r, sch')"
      using 1(2) e victim by (simp add: extend_loop.simps [of idx s sch] Let_def)
    ultimately show ?thesis
      using 1(1) [OF e [symmetric] victim(1) refl refl] victim id by simp
  next
    case self
    then show ?thesis using 1(2) e id
      by (auto simp: extend_loop.simps [of idx s sch] Let_def census_preempt) (simp add: census_def)
  qed
qed


lemma census_extend_all: "extend_all is fs sch = (fs', sch') \<Longrightarrow> census sch' = census sch"
proof (induction "is" arbitrary: fs sch)
  case (Cons i "is")
  obtain f sch1 where e: "extend_blocks_or_preempt i sch = (f, sch1)" by fastforce
  have "census sch1 = census sch"
  proof (cases "position (has_id i) (running sch)")
    case (Some k)
    then show ?thesis
      using e census_extend_loop census_take [OF position_less [OF Some]]
      by (simp add: extend_blocks_or_preempt_def)
  qed (use e in \<open>simp add: extend_blocks_or_preempt_def\<close>)
  moreover have "\<exists>fs1. extend_all is fs1 sch1 = (fs', sch')"
    using Cons.prems e by (cases f) auto
  ultimately show ?case using Cons.IH by metis
qed simp

lemma take_token_id: "take_token final t s = (r, s') \<Longrightarrow> seq_id s' = seq_id s"
  using take_token_cases by fastforce

lemma census_apply_scheduled_item:
  "apply_scheduled_item xxh it tok sch = (r, sch') \<Longrightarrow> census sch' = census sch"
proof (cases "position (has_id (item_seq_id it)) (running sch)")
  case (Some k)
  assume a: "apply_scheduled_item xxh it tok sch = (r, sch')"
  define s0 where "s0 = running sch ! k"
  define rest where "rest = remove_at k (running sch)"
  define s where "s = (if is_prefill it then record_computed (num_scheduled_tokens it) s0 else s0)"
  have m: "mset (running sch) = add_mset s0 (mset rest)"
    using mset_remove_at [OF position_less [OF Some]] by (simp add: s0_def rest_def)
  have id: "seq_id s = seq_id s0" by (simp add: s_def)
  show ?thesis
  proof (cases tok)
    case None
    then show ?thesis using a Some m id
      by (auto simp: apply_scheduled_item_def Let_def s_def [symmetric] s0_def [symmetric]
          rest_def [symmetric] census_def mset_insert_at)
  next
    case tok: (Some t)
    obtain q s2 where tt: "take_token (is_final_prefill_chunk it) t s = (q, s2)" by fastforce
    have id2: "seq_id s2 = seq_id s0" using take_token_id [OF tt] id by simp
    show ?thesis using a Some tok tt m id2
      by (cases q; cases "stop_reason (every_eos sch) (record_computed 1 s2)")
        (auto simp: apply_scheduled_item_def Let_def s_def [symmetric] s0_def [symmetric]
          rest_def [symmetric] census_def mset_insert_at)
  qed
qed (simp add: apply_scheduled_item_def)

lemma census_apply_items:
  "apply_items xxh its toks fs need sch = (fs', need', sch') \<Longrightarrow> census sch' = census sch"
proof (induction its arbitrary: toks fs need sch)
  case (Cons it its)
  obtain tok toks1 where t: "(if produces_token it
      then (case toks of t # ts \<Rightarrow> (Some t, ts) | [] \<Rightarrow> (None, [])) else (None, toks)) = (tok, toks1)"
    by fastforce
  obtain q sch1 where a: "apply_scheduled_item xxh it tok sch = (q, sch1)" by fastforce
  have "\<exists>fs1 need1. apply_items xxh its toks1 fs1 need1 sch1 = (fs', need', sch')"
    using Cons.prems t a by (auto simp: Let_def split: if_splits sum.splits bool.splits)
  then show ?case using Cons.IH census_apply_scheduled_item [OF a] by metis
qed simp

lemma census_complete_step:
  assumes c: "complete_step xxh sampled sch = (r, sch')"
  shows "census sch' = census sch"
proof -
  have 0: "census (sch\<lparr>last_batch := None\<rparr>) = census sch" by (simp add: census_def)
  show ?thesis using c 0
    by (auto simp: complete_step_def Let_def split: option.splits if_splits prod.splits
        dest!: census_apply_items census_extend_all)
qed

lemma append_verified_id: "append_verified eos ts s = (r, d, s') \<Longrightarrow> seq_id s' = seq_id s"
  using append_verified_props by blast

lemma census_apply_verify_outcome:
  assumes a: "apply_verify_outcome i out sch = (r, sch')"
  shows "census sch' = census sch"
proof (cases "position (has_id i) (running sch)")
  case None
  then show ?thesis using a by (simp add: apply_verify_outcome_def)
next
  case (Some k)
  define s where "s = running sch ! k"
  define rest where "rest = remove_at k (running sch)"
  define sch1 where "sch1 = drop_drafts s (sch\<lparr>running := rest\<rparr>)"
  define s1 where "s1 = clear_drafts (s\<lparr>accepted_token_count := accepted_count out\<rparr>)"
  have m: "mset (running sch) = add_mset s (mset rest)"
    using mset_remove_at [OF position_less [OF Some]] by (simp add: s_def rest_def)
  obtain q d s2 where ap: "append_verified (every_eos sch1) (accepted_drafts out @ [bonus_token out]) s1 = (q, d, s2)"
    by (metis surj_pair)
  obtain q2 s3 bm where ex: "(case q of Inr u \<Rightarrow> if d then (q, s2, pool sch1) else extend_for s2 (pool sch1)
      | Inl e \<Rightarrow> (q, s2, pool sch1)) = (q2, s3, bm)" by (metis surj_pair)
  have id: "seq_id s3 = seq_id s"
    using ex append_verified_id [OF ap] by (auto simp: s1_def split: sum.splits if_splits dest: extend_for_id)
  have app: "apply_verify_outcome i out sch =
     (case q2 of
        Inl e \<Rightarrow> (Inl e, sch1\<lparr>pool := deallocate s3 bm, finished := finished sch1 @ [abort_seq s3]\<rparr>)
      | Inr u \<Rightarrow>
          if d then (Inr (), sch1\<lparr>pool := deallocate s3 bm, finished := finished sch1 @ [s3]\<rparr>)
          else (Inr (), sch1\<lparr>pool := bm, running := insert_at k s3 rest\<rparr>))"
    unfolding apply_verify_outcome_def Some option.case Let_def s_def [symmetric] rest_def [symmetric]
      sch1_def [symmetric] s1_def [symmetric] ap prod.case ex by (rule refl)
  have "census sch1 = census (sch\<lparr>running := rest\<rparr>)" by (simp add: sch1_def)
  moreover have "running sch1 = rest" "waiting sch1 = waiting sch" "finished sch1 = finished sch"
    by (simp_all add: sch1_def)
  ultimately show ?thesis
    using a app m id by (cases q2) (auto simp: census_def mset_insert_at split: if_splits)
qed

lemma census_apply_outcomes: "apply_outcomes os fs sch = (fs', sch') \<Longrightarrow> census sch' = census sch"
  by (induction os fs sch rule: apply_outcomes.induct)
    (auto split: prod.splits sum.splits dest!: census_apply_verify_outcome)

lemma census_complete_verify_step:
  assumes c: "complete_verify_step outs sch = (r, sch')"
  shows "census sch' = census sch"
proof -
  have 0: "census (sch\<lparr>last_batch := None\<rparr>) = census sch" by (simp add: census_def)
  show ?thesis using c 0
    by (auto simp: complete_verify_step_def Let_def dest!: census_apply_outcomes
        split: option.splits if_splits prod.splits)
qed

lemma census_drain:
  "drain_finished sch = (done, sch') \<Longrightarrow> census sch = image_mset seq_id (mset done) + census sch'"
  by (auto simp: drain_finished_def census_def)

end
