(* ===== verification/Scheduler_Batch.thy ===== *)
theory Scheduler_Batch
  imports Scheduler_Facts "HOL-Library.Sublist"
begin

text \<open>
  What a batch is made of, and what completing it does: the block a decode step writes into, the
  budgets of a batch, the sequences its items name, and why completing a batch that \<open>step\<close> issued
  fails only for sequences that were aborted in between.
\<close>

section \<open>The block a decode step writes\<close>

lemma held_count_ge:
  assumes "s \<in># M" and "k < length (block_table s)"
  shows "0 < count (held M) (block_table s ! k)"
  using table_held [OF assms(1)] assms(2) by (metis count_greater_zero_iff mset_subset_eqD nth_mem_mset)

lemma decode_block_alone:
  assumes inv: "sched_inv xxh {} [] sch" and s: "s \<in> set (running sch)" and d: "seq_state s = Decode"
  defines "k \<equiv> (total_len s - 1) div cfg_block_size (config sch)"
  shows "k < length (block_table s)"
    and "blk_hash (blocks (pool sch) ! (block_table s ! k)) = None"
    and "ref_count (blocks (pool sch) ! (block_table s ! k)) = 1"
    and "count (held (mset (running sch))) (block_table s ! k) = 1"
proof -
  let ?b = "cfg_block_size (config sch)" and ?i = "block_table s ! k"
  note geo = sched_inv_geometry [OF inv]
  have live: "seq_live xxh (pool sch) s" and cov: "covered (config sch) s"
    using sched_inv_running [OF inv s] by simp_all
  have n: "0 < total_len s" using live d by (auto simp: seq_live_def total_len_def)
  show k: "k < length (block_table s)"
    using cov n geo(1) unfolding k_def covered_def by (simp add: div_less_iff_less_mult)
  show none: "blk_hash (blocks (pool sch) ! ?i) = None"
  proof (rule ccontr)
    assume "\<not> ?thesis"
    then obtain h where "blk_hash (blocks (pool sch) ! ?i) = Some h" by auto
    then have "Suc k * ?b \<le> settled s"
      using live k geo(2) describesD(1) [of xxh None "pool sch" s "block_table s" "settled s" k h]
      by (simp add: seq_live_def)
    then have "Suc k * ?b \<le> total_len s - 1" by (simp add: settled_def d)
    then have "Suc k \<le> k" using geo(1) unfolding k_def by (simp add: less_eq_div_iff_mult_less_eq)
    then show False by simp
  qed
  have ok: "pool_ok (pool sch) (held (mset (running sch)))"
    using sched_invD(1) [OF inv] by (simp add: carrying_def)
  have pos: "0 < count (held (mset (running sch))) ?i" using held_count_ge [OF _ k] s by simp
  moreover have "count (held (mset (running sch))) ?i \<le> 1"
    using pool_okD(9) [OF ok] none by (metis not_le)
  ultimately show one: "count (held (mset (running sch))) ?i = 1" by linarith
  have "?i < num_blocks (pool sch)" using pool_ok_held [OF ok] pos by simp
  then show "ref_count (blocks (pool sch) ! ?i) = 1" using pool_okD(3) [OF ok] one by simp
qed

lemma block_of_one_sequence:
  assumes one: "count (held (mset ss)) i = 1" and s: "k < length ss" "i \<in> set (block_table (ss ! k))"
    and u: "j < length ss" "i \<in> set (block_table (ss ! j))"
  shows "j = k"
proof (rule ccontr)
  assume ne: "j \<noteq> k"
  define rest where "rest = remove_at k ss"
  have m: "mset ss = add_mset (ss ! k) (mset rest)" using mset_remove_at [OF s(1)] by (simp add: rest_def)
  have "ss ! j \<in> set rest"
  proof (cases "j < k")
    case True
    then have "take k ss ! j = ss ! j" "j < length (take k ss)" using s(1) by auto
    then show ?thesis unfolding rest_def remove_at_def by (metis UnCI nth_mem set_append)
  next
    case False
    then have "drop (Suc k) ss ! (j - Suc k) = ss ! j" "j - Suc k < length (drop (Suc k) ss)"
      using ne u(1) by auto
    then show ?thesis unfolding rest_def remove_at_def by (metis UnCI nth_mem set_append)
  qed
  then have "mset (block_table (ss ! j)) \<subseteq># held (mset rest)" by (intro table_held) simp
  then have "i \<in># held (mset rest)" using u(2) by (metis mset_subset_eqD set_mset_mset)
  then have "1 \<le> count (held (mset rest)) i" by (simp add: Suc_le_eq)
  moreover have "1 \<le> count (mset (block_table (ss ! k))) i" using s(2) by (simp add: Suc_le_eq)
  moreover have "count (held (mset ss)) i = count (mset (block_table (ss ! k))) i + count (held (mset rest)) i"
    unfolding m by simp
  ultimately show False using one by linarith
qed

section \<open>The size of a chunk\<close>

lemma floored_take_le: "floored_take r b f \<le> r" "floored_take r b f \<le> b"
  by (auto simp: floored_take_def Let_def min_def)

lemma floored_take_pos: "0 < r \<Longrightarrow> 0 < b \<Longrightarrow> 0 < floored_take r b f"
  by (auto simp: floored_take_def Let_def min_def)

text \<open>
  With room for it, a prompt of at least twice the floor is cut so that neither the chunk nor the
  rest falls below the floor.
\<close>

lemma floored_take_floor:
  "f \<le> b \<Longrightarrow> 2 * f \<le> r \<Longrightarrow> floored_take r b f = r \<or>
    f \<le> floored_take r b f \<and> f \<le> r - floored_take r b f"
  by (cases "f \<le> 1") (auto simp: floored_take_def Let_def min_def)

section \<open>What a mixed batch holds\<close>

definition decode_item :: "sequence \<Rightarrow> seq_item" where
  "decode_item s = \<lparr>item_seq_id = seq_id s, num_scheduled_tokens = 1, is_prefill = False,
                     is_final_prefill_chunk = False\<rparr>"

definition pair_item :: "sequence \<times> nat \<Rightarrow> seq_item" where
  "pair_item p = prefill_item (fst p) (snd p)"

definition good_chunk :: "sequence \<times> nat \<Rightarrow> bool" where
  "good_chunk p \<longleftrightarrow> 0 < snd p \<and> snd p \<le> remaining_uncomputed (fst p)"

definition tokens_of :: "seq_item list \<Rightarrow> nat" where
  "tokens_of its = sum_by num_scheduled_tokens its"

lemma tokens_of_simps [simp]:
  "tokens_of [] = 0" "tokens_of (xs @ ys) = tokens_of xs + tokens_of ys"
  "tokens_of [it] = num_scheduled_tokens it"
  by (simp_all add: tokens_of_def)

lemma item_fields [simp]:
  "num_scheduled_tokens (decode_item s) = 1" "item_seq_id (decode_item s) = seq_id s"
  "num_scheduled_tokens (prefill_item s n) = n" "item_seq_id (prefill_item s n) = seq_id s"
  "num_scheduled_tokens (pair_item p) = snd p" "item_seq_id (pair_item p) = seq_id (fst p)"
  "is_prefill (decode_item s) = False" "is_final_prefill_chunk (decode_item s) = False"
  "is_prefill (pair_item p) = True"
  "is_final_prefill_chunk (pair_item p) = (snd p = remaining_uncomputed (fst p))"
  by (simp_all add: decode_item_def prefill_item_def pair_item_def)

lemma decode_pass_spec:
  "decode_pass mb ss items budget = (items', budget') \<Longrightarrow>
   \<exists>ds. items' = items @ map decode_item ds \<and> subseq ds (filter (in_state Decode) ss) \<and>
     (\<forall>d\<in>set ds. \<not> has_drafts d) \<and>
     tokens_of items' + budget' = tokens_of items + budget \<and>
     (length items \<le> mb \<longrightarrow> length items' \<le> mb)"
proof (induction ss arbitrary: items budget)
  case Nil
  then show ?case by (intro exI [of _ "[]"]) simp
next
  case (Cons s ss)
  let ?stop = "budget = 0 \<or> mb \<le> length items"
  let ?skip = "is_finished s \<or> has_drafts s \<or> \<not> in_state Decode s"
  consider (stop) ?stop | (skip) "\<not> ?stop" ?skip | (push) "\<not> ?stop" "\<not> ?skip" by blast
  then show ?case
  proof cases
    case stop
    then show ?thesis using Cons.prems by (intro exI [of _ "[]"]) auto
  next
    case skip
    then have "decode_pass mb ss items budget = (items', budget')" using Cons.prems by auto
    from Cons.IH [OF this] show ?thesis by (auto intro: subseq_Cons')
  next
    case push
    then have "decode_pass mb ss (items @ [decode_item s]) (budget - 1) = (items', budget')"
      using Cons.prems by (simp add: decode_item_def)
    from Cons.IH [OF this] obtain ds where ds: "items' = (items @ [decode_item s]) @ map decode_item ds"
      "subseq ds (filter (in_state Decode) ss)" "\<forall>d\<in>set ds. \<not> has_drafts d"
      "tokens_of items' + budget' = tokens_of (items @ [decode_item s]) + (budget - 1)"
      "length (items @ [decode_item s]) \<le> mb \<longrightarrow> length items' \<le> mb"
      by blast
    then show ?thesis using push by (intro exI [of _ "s # ds"]) auto
  qed
qed

lemma prefill_pass_spec:
  "prefill_pass cm mb ss items budget = (items', budget') \<Longrightarrow>
   \<exists>ps. items' = items @ map pair_item ps \<and> subseq (map fst ps) (filter (in_state Prefill) ss) \<and>
     (\<forall>p\<in>set ps. good_chunk p) \<and>
     tokens_of items' + budget' = tokens_of items + budget \<and>
     (length items \<le> mb \<longrightarrow> length items' \<le> mb)"
proof (induction ss arbitrary: items budget)
  case Nil
  then show ?case by (intro exI [of _ "[]"]) simp
next
  case (Cons s ss)
  define tk where "tk = floored_take (remaining_uncomputed s) budget cm"
  let ?stop = "budget = 0 \<or> mb \<le> length items"
  let ?skip = "is_finished s \<or> \<not> in_state Prefill s \<or> remaining_uncomputed s = 0 \<or> tk = 0"
  consider (stop) ?stop | (skip) "\<not> ?stop" ?skip | (push) "\<not> ?stop" "\<not> ?skip" by blast
  then show ?case
  proof cases
    case stop
    then show ?thesis using Cons.prems by (intro exI [of _ "[]"]) auto
  next
    case skip
    then have "prefill_pass cm mb ss items budget = (items', budget')"
      using Cons.prems by (auto simp: Let_def tk_def split: if_splits)
    from Cons.IH [OF this] show ?thesis by (auto intro: subseq_Cons')
  next
    case push
    then have "prefill_pass cm mb ss (items @ [pair_item (s, tk)]) (budget - tk) = (items', budget')"
      using Cons.prems by (simp add: pair_item_def Let_def tk_def)
    from Cons.IH [OF this] obtain ps where ps: "items' = (items @ [pair_item (s, tk)]) @ map pair_item ps"
      "subseq (map fst ps) (filter (in_state Prefill) ss)" "\<forall>p\<in>set ps. good_chunk p"
      "tokens_of items' + budget' = tokens_of (items @ [pair_item (s, tk)]) + (budget - tk)"
      "length (items @ [pair_item (s, tk)]) \<le> mb \<longrightarrow> length items' \<le> mb"
      by blast
    have le: "tk \<le> budget" "tk \<le> remaining_uncomputed s" by (simp_all add: tk_def floored_take_le)
    then show ?thesis using push ps by (intro exI [of _ "(s, tk) # ps"]) (auto simp: good_chunk_def)
  qed
qed


text \<open>
  Admission appends the admitted sequences to \<open>running\<close>, each with its first chunk: prefix caching
  always leaves at least one token to compute, so no admitted sequence is left without an item.
\<close>

lemma admit_pass_spec:
  assumes "admit_pass xxh cm ws items budget sch = (Inr items', sch')"
    and "sched_inv xxh P [] (sch\<lparr>waiting := ws\<rparr>)"
  shows "\<exists>ps. items' = items @ map pair_item ps \<and> running sch' = running sch @ map fst ps \<and>
     (\<forall>p\<in>set ps. good_chunk p \<and> seq_state (fst p) = Prefill) \<and>
     tokens_of items' \<le> tokens_of items + budget \<and>
     (length items \<le> max_batch_size (config sch) \<longrightarrow> length items' \<le> max_batch_size (config sch))"
  using assms
proof (induction xxh cm ws items budget sch rule: admit_pass.induct)
  case (1 xxh cm items budget sch)
  then show ?case by (intro exI [of _ "[]"]) auto
next
  case (2 xxh cm s ws items budget sch)
  let ?full = "budget = 0 \<or> max_batch_size (config sch) \<le> length items"
  obtain q bm where al: "allocate_with_prefix xxh s (pool sch) = (q, bm)" by fastforce
  consider (full) "?full" | (empty) "\<not> ?full" "total_len s = 0"
    | (refused) e where "\<not> ?full" "0 < total_len s" "q = Inl e"
    | (go) a where "\<not> ?full" "0 < total_len s" "q = Inr a"
    by (metis not_gr0 sum.exhaust)
  then show ?case
  proof cases
    case full
    then show ?thesis using 2(3) by (intro exI [of _ "[]"]) auto
  next
    case empty
    have "sched_inv xxh P [] (sch\<lparr>waiting := ws\<rparr>)"
    proof (rule sched_invI)
      show "distinct_ids (mset [] + mset (running (sch\<lparr>waiting := ws\<rparr>)) + mset (waiting (sch\<lparr>waiting := ws\<rparr>)))"
        using sched_invD(3) [OF 2(4)] by (rule distinct_ids_mono) simp
    qed (use sched_invD [OF 2(4)] in auto)
    then have "sched_inv xxh P [] ((sch\<lparr>finished := finished sch @ [abort_seq s]\<rparr>)\<lparr>waiting := ws\<rparr>)"
      by (rule sched_inv_frame) simp_all
    then show ?thesis using 2(1) [OF empty] 2(3) empty by simp
  next
    case refused
    then show ?thesis using 2(3) al by (intro exI [of _ "[]"]) auto
  next
    case (go a)
    let ?c = "if prefix_cache_reuse sch then cached_tokens a else 0"
    obtain p s1 where t: "transition_to_prefill_with_cache ?c (s\<lparr>block_table := alloc_table a\<rparr>) = (p, s1)"
      by fastforce
    note one = admit_one_inv [OF 2(4) go(2) al [unfolded go] t]
    have w: "waiting_ok s" using sched_invD(2) [OF 2(4)] by simp
    have c: "carrying xxh P (config sch) (pool sch) [] (mset (running sch))" using sched_invD(1) [OF 2(4)] by simp
    have geo: "0 < block_size (pool sch)" "block_size (pool sch) = cfg_block_size (config sch)"
      using sched_inv_geometry [OF 2(4)] by simp_all
    have ok: "pool_ok (pool sch) (held (mset (running sch)))" using c by (simp add: carrying_def)
    note al' = allocate_live [OF w geo ok al [unfolded go] go(2) t]
    have n1: "total_len s1 = total_len s" using al'(9) by (metis length_seq_tokens)
    have rem: "0 < remaining_uncomputed s1" using al'(10) go(2) n1 by (simp add: remaining_uncomputed_def)
    define tk where "tk = floored_take (remaining_uncomputed s1) budget cm"
    have tk: "0 < tk" "tk \<le> budget" "tk \<le> remaining_uncomputed s1"
      using rem go(1) by (auto simp: tk_def floored_take_pos floored_take_le)
    let ?sch1 = "sch\<lparr>pool := bm, running := running sch @ [s1]\<rparr>"
    have rec: "admit_pass xxh cm ws (items @ [prefill_item s1 tk]) (budget - tk) ?sch1 = (Inr items', sch')"
      using 2(3) go al t one(1) tk(1) by (simp add: Let_def tk_def)
    have inv1: "sched_inv xxh P [] (?sch1\<lparr>waiting := ws\<rparr>)" using one(2) by simp
    obtain ps where ps: "items' = (items @ [prefill_item s1 tk]) @ map pair_item ps"
      "running sch' = running ?sch1 @ map fst ps"
      "\<forall>p\<in>set ps. good_chunk p \<and> seq_state (fst p) = Prefill"
      "tokens_of items' \<le> tokens_of (items @ [prefill_item s1 tk]) + (budget - tk)"
      "length (items @ [prefill_item s1 tk]) \<le> max_batch_size (config ?sch1) \<longrightarrow>
       length items' \<le> max_batch_size (config ?sch1)"
      using 2(2) [OF go(1) _ al [symmetric] go(3) t [symmetric] one(1) tk_def refl, of] go(2) tk(1) rec inv1
      by auto
    have "good_chunk (s1, tk)" using tk by (simp add: good_chunk_def)
    then show ?thesis using ps tk(2) go(1) al'(8)
      by (intro exI [of _ "(s1, tk) # ps"]) (auto simp: pair_item_def)
  qed
qed


section \<open>Who a batch names\<close>

lemma subseq_mset: "subseq xs ys \<Longrightarrow> mset xs \<subseteq># mset ys"
proof (induction rule: list_emb.induct)
  case (list_emb_Cons xs ys y)
  then show ?case by (simp add: subset_mset.order_trans)
qed simp_all

lemma distinct_ids_mset: "distinct_ids (mset xs) \<longleftrightarrow> distinct (map seq_id xs)"
proof
  assume "distinct_ids (mset xs)"
  then have le: "count (mset (map seq_id xs)) a \<le> 1" for a by (simp add: distinct_ids_def)
  have "count (mset (map seq_id xs)) a = (if a \<in> set (map seq_id xs) then 1 else 0)" for a
  proof (cases "a \<in> set (map seq_id xs)")
    case True
    then have "0 < count (mset (map seq_id xs)) a" by (metis count_greater_zero_iff set_mset_mset)
    then have "count (mset (map seq_id xs)) a = 1" using le [of a] by linarith
    with True show ?thesis by simp
  next
    case False
    then show ?thesis by (metis count_eq_zero_iff set_mset_mset)
  qed
  then show "distinct (map seq_id xs)" unfolding distinct_count_atmost_1 by blast
next
  assume d: "distinct (map seq_id xs)"
  show "distinct_ids (mset xs)"
    unfolding distinct_ids_def
  proof
    fix i
    have "count (mset (map seq_id xs)) i = (if i \<in> set (map seq_id xs) then 1 else 0)"
      using d unfolding distinct_count_atmost_1 by blast
    then show "count (image_mset seq_id (mset xs)) i \<le> 1" by simp
  qed
qed

lemma same_id_same:
  assumes "distinct_ids (mset ss)" and "s \<in> set ss" and "u \<in> set ss" and "seq_id s = seq_id u"
  shows "s = u"
  using assms by (simp add: distinct_ids_mset distinct_map inj_on_def)

definition item_fits :: "seq_item \<Rightarrow> sequence \<Rightarrow> bool" where
  "item_fits it s \<longleftrightarrow>
     (if is_prefill it
      then seq_state s = Prefill \<and> 0 < num_scheduled_tokens it \<and>
           num_scheduled_tokens it \<le> remaining_uncomputed s \<and>
           (is_final_prefill_chunk it \<longleftrightarrow> num_scheduled_tokens it = remaining_uncomputed s)
      else seq_state s = Decode \<and> num_scheduled_tokens it = 1 \<and> \<not> is_final_prefill_chunk it)"

text \<open>Each item names at most one running sequence, which is in the state the item is for.\<close>

definition coherent :: "seq_item list \<Rightarrow> scheduler \<Rightarrow> bool" where
  "coherent items sch \<longleftrightarrow>
     distinct (map item_seq_id items) \<and>
     (\<forall>it\<in>set items. \<forall>s\<in>set (running sch). seq_id s = item_seq_id it \<longrightarrow> item_fits it s)"

definition all_running :: "seq_item list \<Rightarrow> scheduler \<Rightarrow> bool" where
  "all_running items sch \<longleftrightarrow> (\<forall>it\<in>set items. \<exists>s\<in>set (running sch). seq_id s = item_seq_id it)"

lemma mixed_batch_spec:
  assumes inv: "sched_inv xxh P [] sch" and b: "build_mixed_batch xxh cm sch = (Inr b, sch')"
  shows "batch_seq_ids b = map item_seq_id (batch_items b)"
    and "batch_kind_of b \<noteq> VerifyBatch"
    and "tokens_of (batch_items b) \<le> max_batched_tokens (config sch)"
    and "length (batch_items b) \<le> max_batch_size (config sch)"
    and "coherent (batch_items b) sch'" and "all_running (batch_items b) sch'"
proof -
  let ?mb = "max_batch_size (config sch)"
  obtain items1 b1 where 1: "decode_pass ?mb (running sch) [] (max_batched_tokens (config sch)) = (items1, b1)"
    by fastforce
  obtain items2 b2 where 2: "prefill_pass cm ?mb (running sch) items1 b1 = (items2, b2)" by fastforce
  obtain q sch1 where 3: "admit_pass xxh cm (waiting sch) items2 b2 sch = (q, sch1)" by fastforce
  obtain items where q: "q = Inr items" and sch1: "sch1 = sch'"
    and b': "b = \<lparr>batch_kind_of = kind_for_items items, batch_seq_ids = map item_seq_id items, batch_items = items\<rparr>"
    using b 1 2 3 by (cases q) (auto simp: build_mixed_batch_def)
  obtain ds where ds: "items1 = map decode_item ds" "subseq ds (filter (in_state Decode) (running sch))"
    "tokens_of items1 + b1 = max_batched_tokens (config sch)" "length items1 \<le> ?mb"
    using decode_pass_spec [OF 1] by auto
  obtain ps where ps: "items2 = items1 @ map pair_item ps"
    "subseq (map fst ps) (filter (in_state Prefill) (running sch))" "\<forall>p\<in>set ps. good_chunk p"
    "tokens_of items2 + b2 = tokens_of items1 + b1" "length items2 \<le> ?mb"
    using prefill_pass_spec [OF 2] ds(4) by auto
  have adm: "admit_pass xxh cm (waiting sch) items2 b2 sch = (Inr items, sch')" using 3 q sch1 by simp
  have inv': "sched_inv xxh P [] (sch\<lparr>waiting := waiting sch\<rparr>)" using inv by simp
  obtain qs where qs: "items = items2 @ map pair_item qs" "running sch' = running sch @ map fst qs"
    "\<forall>p\<in>set qs. good_chunk p \<and> seq_state (fst p) = Prefill" "tokens_of items \<le> tokens_of items2 + b2"
    "length items \<le> ?mb"
    using admit_pass_spec [OF adm inv'] ps(5) by auto
  show "batch_seq_ids b = map item_seq_id (batch_items b)" by (simp add: b')
  show "batch_kind_of b \<noteq> VerifyBatch" by (simp add: b' kind_for_items_def split: bool.split)
  show "tokens_of (batch_items b) \<le> max_batched_tokens (config sch)"
    using qs(4) ps(4) ds(3) by (simp add: b')
  show "length (batch_items b) \<le> ?mb" using qs(5) by (simp add: b')
  have inv1: "sched_inv xxh P [] sch'" using admit_pass_inv [OF adm inv'] by simp
  let ?named = "ds @ map fst ps @ map fst qs"
  have ids: "map item_seq_id items = map seq_id ?named"
    by (simp add: qs(1) ps(1) ds(1) comp_def)
  have set_ds: "set ds \<subseteq> {s \<in> set (running sch). seq_state s = Decode}"
    using set_mset_mono [OF subseq_mset [OF ds(2)]] by (auto simp: in_state_def)
  have set_ps: "set (map fst ps) \<subseteq> {s \<in> set (running sch). seq_state s = Prefill}"
    using set_mset_mono [OF subseq_mset [OF ps(2)]] by (auto simp: in_state_def)
  have dist: "distinct_ids (mset (running sch'))"
    using sched_invD(3) [OF inv1] by (rule distinct_ids_mono) simp
  have sub: "mset ?named \<subseteq># mset (running sch')"
  proof -
    have "mset ds + mset (map fst ps) \<subseteq># filter_mset (in_state Decode) (mset (running sch)) +
        filter_mset (in_state Prefill) (mset (running sch))"
      using subseq_mset [OF ds(2)] subseq_mset [OF ps(2)] by (simp add: subset_mset.add_mono)
    also have "\<dots> \<subseteq># mset (running sch)"
      by (rule mset_subset_eqI) (auto simp: in_state_def)
    finally have "mset ds + mset (map fst ps) + mset (map fst qs) \<subseteq># mset (running sch) + mset (map fst qs)"
      by (rule subset_mset.add_right_mono)
    then show ?thesis by (simp add: qs(2) ac_simps)
  qed
  have "distinct_ids (mset ?named)"
    by (rule distinct_ids_mono [OF dist image_mset_subseteq_mono [OF sub]])
  then have "distinct (map seq_id ?named)" unfolding distinct_ids_mset .
  then have "distinct (map item_seq_id (batch_items b))" unfolding b' scheduled_batch.simps ids .
  moreover have src: "\<exists>s\<in>set (running sch'). seq_id s = item_seq_id it \<and> item_fits it s"
    if "it \<in> set items" for it
  proof -
    have "it \<in> decode_item ` set ds \<or> it \<in> pair_item ` (set ps \<union> set qs)"
      using that by (auto simp: qs(1) ps(1) ds(1))
    then show ?thesis
    proof
      assume "it \<in> decode_item ` set ds"
      then obtain s where "s \<in> set ds" "it = decode_item s" by auto
      then show ?thesis using set_ds by (intro bexI [of _ s]) (auto simp: item_fits_def qs(2))
    next
      assume "it \<in> pair_item ` (set ps \<union> set qs)"
      then obtain p where p: "p \<in> set ps \<or> p \<in> set qs" "it = pair_item p" by auto
      then have "good_chunk p" "seq_state (fst p) = Prefill" "fst p \<in> set (running sch')"
        using ps(3) qs(3) set_ps by (auto simp: qs(2))
      then show ?thesis using p(2) by (intro bexI [of _ "fst p"]) (auto simp: item_fits_def good_chunk_def)
    qed
  qed
  ultimately show "coherent (batch_items b) sch'"
    using same_id_same [OF dist] unfolding coherent_def b' scheduled_batch.simps by metis
  show "all_running (batch_items b) sch'" using src by (auto simp: all_running_def b')
qed

end
