(* ===== verification/Scheduler_Contract.thy ===== *)
theory Scheduler_Contract
  imports Scheduler_Batch
begin

text \<open>
  Contracts for facts about single requests. \<open>Q\<close> is a fact about waiting and running sequences that
  only depends on the request and its output, \<open>R\<close> is what then holds of finished sequences. The
  locale \<open>request_frame\<close> carries both through the methods that append no token; its extension
  \<open>request_contract\<close> adds that \<open>Q\<close> survives a token which does not stop the sequence and carries
  both through every method of the scheduler. Each interpretation gives a theorem about all requests.
\<close>

definition same_request :: "sequence \<Rightarrow> sequence \<Rightarrow> bool" where
  "same_request s s' \<longleftrightarrow>
     seq_id s' = seq_id s \<and> seq_prompt s' = seq_prompt s \<and> seq_output s' = seq_output s \<and>
     max_new_tokens s' = max_new_tokens s \<and> eos_token_id s' = eos_token_id s"

definition grows_by :: "token \<Rightarrow> sequence \<Rightarrow> sequence \<Rightarrow> bool" where
  "grows_by t s s' \<longleftrightarrow>
     seq_id s' = seq_id s \<and> seq_prompt s' = seq_prompt s \<and> seq_output s' = seq_output s @ [t] \<and>
     max_new_tokens s' = max_new_tokens s \<and> eos_token_id s' = eos_token_id s"

lemma same_request_simps [simp]:
  "same_request s s"
  "same_request s (clear_drafts s)" "same_request s (put_drafts d s)"
  "same_request s (record_computed n s)" "same_request s (reset_for_recompute s)"
  "same_request s (s\<lparr>block_table := t\<rparr>)" "same_request s (s\<lparr>accepted_token_count := n\<rparr>)"
  "same_request s (s\<lparr>seq_state := st\<rparr>)"
  by (simp_all add: same_request_def clear_drafts_def put_drafts_def record_computed_def
      reset_for_recompute_def)

lemma same_request_trans: "same_request a b \<Longrightarrow> same_request b c \<Longrightarrow> same_request a c"
  by (simp add: same_request_def)

lemma grows_same: "same_request a b \<Longrightarrow> grows_by t b c \<Longrightarrow> grows_by t a c"
  "grows_by t a b \<Longrightarrow> same_request b c \<Longrightarrow> grows_by t a c"
  by (simp_all add: same_request_def grows_by_def)

lemma extend_for_request: "extend_for s bm = (r, s', bm') \<Longrightarrow> same_request s s'"
  using extend_for_same by fastforce

lemma extend_for_slots_request: "extend_for_slots s n bm = (r, s', bm') \<Longrightarrow> same_request s s'"
  using extend_for_slots_same by fastforce

lemma note_drafts_set_fields [simp]:
  "waiting (note_drafts_set a b sch) = waiting sch" "running (note_drafts_set a b sch) = running sch"
  "finished (note_drafts_set a b sch) = finished sch"
  by (simp_all add: note_drafts_set_def bump_drafts_def)

lemma append_verified_done: "append_verified eos ts s = (r, True, s') \<Longrightarrow> r = Inr ()"
  by (induction ts arbitrary: s) (auto split: prod.splits sum.splits option.splits)

locale request_frame =
  fixes Q R :: "sequence \<Rightarrow> bool"
  assumes Q_frame: "Q s \<Longrightarrow> same_request s s' \<Longrightarrow> Q s'"
    and R_abort: "Q s \<Longrightarrow> R (abort_seq s)"
begin

definition all_ok :: "scheduler \<Rightarrow> bool" where
  "all_ok sch \<longleftrightarrow> (\<forall>s\<in>set (waiting sch) \<union> set (running sch). Q s) \<and> (\<forall>s\<in>set (finished sch). R s)"

lemma all_okI:
  "(\<And>s. s \<in> set (waiting sch) \<Longrightarrow> Q s) \<Longrightarrow> (\<And>s. s \<in> set (running sch) \<Longrightarrow> Q s) \<Longrightarrow>
   (\<And>s. s \<in> set (finished sch) \<Longrightarrow> R s) \<Longrightarrow> all_ok sch"
  by (auto simp: all_ok_def)

lemma all_okD:
  "all_ok sch \<Longrightarrow> s \<in> set (waiting sch) \<Longrightarrow> Q s"
  "all_ok sch \<Longrightarrow> s \<in> set (running sch) \<Longrightarrow> Q s"
  "all_ok sch \<Longrightarrow> s \<in> set (finished sch) \<Longrightarrow> R s"
  by (auto simp: all_ok_def)

lemma all_ok_new: "all_ok (new_scheduler cfg)"
  by (simp add: all_ok_def new_scheduler_def)

lemma all_ok_enqueue: "all_ok sch \<Longrightarrow> Q s \<Longrightarrow> all_ok (enqueue s sch)"
  by (auto simp: all_ok_def enqueue_def)

lemma all_ok_drain: "all_ok sch \<Longrightarrow> all_ok (snd (drain_finished sch))"
  by (auto simp: all_ok_def drain_finished_def)

lemma all_ok_frame:
  "all_ok sch \<Longrightarrow> set (waiting sch') \<subseteq> set (waiting sch) \<Longrightarrow> set (running sch') \<subseteq> set (running sch) \<Longrightarrow>
   set (finished sch') \<subseteq> set (finished sch) \<Longrightarrow> all_ok sch'"
  by (auto simp: all_ok_def)

lemma all_ok_at: "all_ok sch \<Longrightarrow> k < length (running sch) \<Longrightarrow> Q (running sch ! k)"
  using all_okD(2) by simp

lemma Q_rest: "all_ok sch \<Longrightarrow> s \<in> set (remove_at k (running sch)) \<Longrightarrow> Q s"
  using all_okD(2) set_remove_at_subset by fast

lemma all_ok_set_drafts:
  assumes ok: "all_ok sch" and r: "set_drafts i d sch = (r, sch')"
  shows "all_ok sch'"
proof (cases "position (has_id i) (running sch)")
  case (Some k)
  have "Q (put_drafts d (running sch ! k))"
    by (rule Q_frame [OF all_ok_at [OF ok position_less [OF Some]]]) simp
  then have "\<forall>s\<in>set ((running sch)[k := put_drafts d (running sch ! k)]). Q s"
    using all_okD(2) [OF ok] set_update_subset_insert by fast
  then show ?thesis using r Some ok
    by (auto simp: set_drafts_def Let_def all_ok_def)
qed (use ok r in \<open>simp add: set_drafts_def\<close>)

lemma all_ok_abort:
  assumes ok: "all_ok sch"
  shows "all_ok (abort i sch)"
proof (cases "position (has_id i) (waiting sch)")
  case (Some k)
  have "Q (waiting sch ! k)" using all_okD(1) [OF ok] position_less [OF Some] by simp
  then show ?thesis
    using ok R_abort set_remove_at_subset [of k "waiting sch"] by (auto simp: abort_def Some all_ok_def)
next
  case wait: None
  show ?thesis
  proof (cases "position (has_id i) (running sch)")
    case (Some k)
    have q: "Q (running sch ! k)" by (rule all_ok_at [OF ok position_less [OF Some]])
    then have "Q (clear_drafts (running sch ! k))" by (rule Q_frame) simp
    with q show ?thesis
      using ok R_abort set_remove_at_subset [of k "running sch"]
      by (auto simp: abort_def wait Some Let_def all_ok_def)
  qed (use ok wait in \<open>simp add: abort_def\<close>)
qed

lemma transition_request:
  "transition_to_prefill_with_cache c s = (r, s') \<Longrightarrow> same_request s s'"
  by (auto simp: transition_to_prefill_with_cache_def same_request_def split: sequence_state.splits)

lemma all_ok_admit_pass:
  "admit_pass xxh cm ws items budget sch = (r, sch') \<Longrightarrow> all_ok (sch\<lparr>waiting := ws\<rparr>) \<Longrightarrow> all_ok sch'"
proof (induction xxh cm ws items budget sch rule: admit_pass.induct)
  case (1 xxh cm items budget sch)
  then show ?case by simp
next
  case (2 xxh cm s ws items budget sch)
  let ?full = "budget = 0 \<or> max_batch_size (config sch) \<le> length items"
  have q: "Q s" using all_okD(1) [OF 2(4)] by simp
  obtain p bm where al: "allocate_with_prefix xxh s (pool sch) = (p, bm)" by fastforce
  consider (full) "?full" | (empty) "\<not> ?full" "total_len s = 0"
    | (refused) e where "\<not> ?full" "0 < total_len s" "p = Inl e"
    | (go) a where "\<not> ?full" "0 < total_len s" "p = Inr a"
    by (metis not_gr0 sum.exhaust)
  then show ?case
  proof cases
    case full
    then show ?thesis using 2(3,4) by auto
  next
    case empty
    have "all_ok ((sch\<lparr>finished := finished sch @ [abort_seq s]\<rparr>)\<lparr>waiting := ws\<rparr>)"
      using 2(4) R_abort [OF q] by (auto simp: all_ok_def)
    then show ?thesis using 2(1) [OF empty] 2(3) empty by simp
  next
    case refused
    then show ?thesis using 2(3,4) al by (auto simp: all_ok_def)
  next
    case (go a)
    obtain o1 s1 where t: "transition_to_prefill_with_cache
        (if prefix_cache_reuse sch then cached_tokens a else 0) (s\<lparr>block_table := alloc_table a\<rparr>) = (o1, s1)"
      by fastforce
    let ?sch1 = "sch\<lparr>pool := bm, running := running sch @ [s1]\<rparr>"
    let ?tk = "floored_take (remaining_uncomputed s1) budget cm"
    have "Q s1"
      by (rule Q_frame [OF q same_request_trans [OF same_request_simps(6) transition_request [OF t]]])
    then have ok1: "all_ok (?sch1\<lparr>waiting := ws\<rparr>)" using 2(4) by (auto simp: all_ok_def)
    show ?thesis
    proof (cases o1)
      case (Inl e)
      then show ?thesis using 2(3,4) go al t by (auto simp: all_ok_def)
    next
      case (Inr u)
      show ?thesis
      proof (cases "?tk = 0")
        case True
        then show ?thesis using 2(3) go al t Inr ok1 by auto
      next
        case False
        then show ?thesis
          using 2(2) [of p bm a o1 s1 u ?tk ?sch1] 2(3) go al t Inr ok1 by (simp add: Let_def)
      qed
    qed
  qed
qed

lemma all_ok_verify_candidate:
  assumes v: "verify_candidate i sch = (b, sch')" and ok: "all_ok sch"
  shows "all_ok sch'"
proof (cases "position (has_id i) (running sch)")
  case None
  then show ?thesis using v ok by (simp add: verify_candidate_def)
next
  case (Some k)
  define s where "s = running sch ! k"
  obtain r s1 bm where e: "extend_for_slots s (1 + draft_len s) (pool sch) = (r, s1, bm)" by (metis surj_pair)
  have q1: "Q s1"
    using Q_frame [OF all_ok_at [OF ok position_less [OF Some]] extend_for_slots_request [OF e [unfolded s_def]]] .
  then have q2: "Q ((clear_drafts s1)\<lparr>block_table := [], seq_state := Waiting\<rparr>)"
    by (rule Q_frame) (simp add: same_request_def clear_drafts_def)
  note rest = Q_rest [OF ok, of _ k]
  show ?thesis
  proof (cases r)
    case (Inl x)
    then have "waiting sch' = (clear_drafts s1)\<lparr>block_table := [], seq_state := Waiting\<rparr> # waiting sch"
      "running sch' = remove_at k (running sch)" "finished sch' = finished sch"
      using v Some e by (auto simp: verify_candidate_def Let_def s_def)
    then show ?thesis using ok q2 rest by (auto simp: all_ok_def)
  next
    case (Inr u)
    then have "waiting sch' = waiting sch" "running sch' = insert_at k s1 (remove_at k (running sch))"
      "finished sch' = finished sch"
      using v Some e by (auto simp: verify_candidate_def Let_def s_def)
    then show ?thesis using ok q1 rest by (auto simp: all_ok_def set_insert_at)
  qed
qed

lemma all_ok_verify_pass: "verify_pass is acc sch = (ids, sch') \<Longrightarrow> all_ok sch \<Longrightarrow> all_ok sch'"
  by (induction "is" arbitrary: acc sch)
    (auto split: if_splits prod.splits dest: all_ok_verify_candidate)

lemma all_ok_step:
  assumes s: "step xxh cm sch = (r, sch')" and ok: "all_ok sch"
  shows "all_ok sch'"
proof (cases "has_verify_ready_drafts sch")
  case True
  obtain ids sch1 where v: "verify_pass (map seq_id (filter (\<lambda>s. \<not> is_finished s \<and> in_state Decode s) (running sch)))
      [] sch = (ids, sch1)" by fastforce
  have "all_ok sch1" by (rule all_ok_verify_pass [OF v ok])
  then show ?thesis using s True v by (auto simp: step_def build_verify_batch_def all_ok_def)
next
  case False
  obtain items2 b2 where p: "(case decode_pass (max_batch_size (config sch)) (running sch) []
      (max_batched_tokens (config sch)) of (items1, b1) \<Rightarrow>
      prefill_pass cm (max_batch_size (config sch)) (running sch) items1 b1) = (items2, b2)" by fastforce
  obtain q sch1 where a: "admit_pass xxh cm (waiting sch) items2 b2 sch = (q, sch1)" by fastforce
  have "all_ok sch1" using all_ok_admit_pass [OF a] ok by simp
  then show ?thesis
    using s False p a by (cases q) (auto simp: step_def build_mixed_batch_def all_ok_def split: prod.splits)
qed

lemma preempt_request:
  "\<exists>s'. waiting (preempt s sch) = s' # waiting sch \<and> same_request s s'"
  by (simp add: preempt_def Let_def same_request_def reset_for_recompute_def clear_drafts_def)

lemma all_ok_preempt: "all_ok sch \<Longrightarrow> Q s \<Longrightarrow> all_ok (preempt s sch)"
  using preempt_request [of s sch] Q_frame by (auto simp: all_ok_def)

lemma all_ok_extend_loop:
  "extend_loop idx s sch = (r, sch') \<Longrightarrow> all_ok sch \<Longrightarrow> Q s \<Longrightarrow> all_ok sch'"
proof (induction idx s sch rule: extend_loop.induct)
  case (1 idx s sch)
  obtain q s1 bm where e: "extend_for s (pool sch) = (q, s1, bm)" by (metis surj_pair)
  have q1: "Q s1" by (rule Q_frame [OF 1(4) extend_for_request [OF e]])
  have q2: "Q (clear_drafts s1)" using q1 by (rule Q_frame) simp
  let ?huge = "cfg_num_blocks (config sch) < num_blocks_needed (cfg_block_size (config sch)) s1"
  let ?sch1 = "sch\<lparr>pool := bm\<rparr>"
  have ok1: "all_ok ?sch1" by (rule all_ok_frame [OF 1(3)]) simp_all
  consider (ok) u where "q = Inr u" | (huge) y where "q = Inl y" "?huge"
    | (victim) y where "q = Inl y" "\<not> ?huge" "idx < length (running sch)"
    | (self) y where "q = Inl y" "\<not> ?huge" "\<not> idx < length (running sch)"
    by (cases q) blast+
  then show ?case
  proof cases
    case ok
    then show ?thesis using 1(2,3) e q1
      by (auto simp: extend_loop.simps [of idx s sch] all_ok_def set_insert_at)
  next
    case huge
    then show ?thesis using 1(2,3) e R_abort [OF q1] R_abort [OF q2]
      by (auto simp: extend_loop.simps [of idx s sch] all_ok_def Let_def)
  next
    case (victim y)
    have ne: "running ?sch1 \<noteq> []" using victim by auto
    let ?sch2 = "preempt (last (running ?sch1)) (?sch1\<lparr>running := butlast (running ?sch1)\<rparr>)"
    have "all_ok (?sch1\<lparr>running := butlast (running ?sch1)\<rparr>)"
      by (rule all_ok_frame [OF ok1]) (auto dest: in_set_butlastD)
    moreover have "Q (last (running ?sch1))" using all_okD(2) [OF ok1] ne by simp
    ultimately have "all_ok ?sch2" by (rule all_ok_preempt)
    moreover have "extend_loop idx s1 ?sch2 = (r, sch')"
      using 1(2) e victim by (simp add: extend_loop.simps [of idx s sch] Let_def)
    ultimately show ?thesis
      using 1(1) [OF e [symmetric] victim(1) refl refl] victim q1 by simp
  next
    case self
    then show ?thesis using 1(2) e all_ok_preempt [OF ok1 q1]
      by (auto simp: extend_loop.simps [of idx s sch] Let_def)
  qed
qed

lemma all_ok_extend_all: "extend_all is fs sch = (fs', sch') \<Longrightarrow> all_ok sch \<Longrightarrow> all_ok sch'"
proof (induction "is" arbitrary: fs sch)
  case (Cons i "is")
  obtain f sch1 where e: "extend_blocks_or_preempt i sch = (f, sch1)" by fastforce
  have "all_ok sch1"
  proof (cases "position (has_id i) (running sch)")
    case None
    then show ?thesis using e Cons.prems(2) by (simp add: extend_blocks_or_preempt_def)
  next
    case (Some k)
    show ?thesis
    proof (rule all_ok_extend_loop)
      show "extend_loop k (running sch ! k) (sch\<lparr>running := remove_at k (running sch)\<rparr>) = (f, sch1)"
        using e Some by (simp add: extend_blocks_or_preempt_def)
      show "all_ok (sch\<lparr>running := remove_at k (running sch)\<rparr>)"
        by (rule all_ok_frame [OF Cons.prems(2)]) (simp_all add: set_remove_at_subset)
      show "Q (running sch ! k)" by (rule all_ok_at [OF Cons.prems(2) position_less [OF Some]])
    qed
  qed
  moreover have "\<exists>fs1. extend_all is fs1 sch1 = (fs', sch')" using Cons.prems e by (cases f) auto
  ultimately show ?case using Cons.IH by blast
qed simp

end

lemma take_token_grows: "take_token final t s = (Inr u, s') \<Longrightarrow> grows_by t s s'"
  using take_token_cases [of final t s] by (fastforce simp: grows_by_def)

lemma take_token_error: "take_token final t s = (Inl e, s') \<Longrightarrow> s' = s"
  using take_token_cases [of final t s] by fastforce

text \<open>Facts that also survive the tokens: the methods that append them keep the contract.\<close>

locale request_contract = request_frame +
  assumes Q_append: "Q s \<Longrightarrow> grows_by t s s' \<Longrightarrow> stop_reason eos s' = None \<Longrightarrow> Q s'"
    and R_finish: "Q s \<Longrightarrow> grows_by t s s' \<Longrightarrow> stop_reason eos s' = Some r \<Longrightarrow> R (finish r s')"
begin

lemma all_ok_apply_scheduled_item:
  assumes a: "apply_scheduled_item xxh it tok sch = (r, sch')" and ok: "all_ok sch"
  shows "all_ok sch'"
proof (cases "position (has_id (item_seq_id it)) (running sch)")
  case None
  then show ?thesis using a ok by (auto simp: apply_scheduled_item_def)
next
  case (Some k)
  define s0 where "s0 = running sch ! k"
  define rest where "rest = remove_at k (running sch)"
  define s where "s = (if is_prefill it then record_computed (num_scheduled_tokens it) s0 else s0)"
  have q: "Q s"
    by (rule Q_frame [OF all_ok_at [OF ok position_less [OF Some]]]) (simp add: s_def s0_def)
  have rest: "Q u" if "u \<in> set rest" for u using Q_rest [OF ok] that unfolding rest_def .
  show ?thesis
  proof (cases tok)
    case None
    then have "sch' = sch\<lparr>running := insert_at k s rest\<rparr>"
      using a Some
      by (simp add: apply_scheduled_item_def Let_def s_def [symmetric] s0_def [symmetric] rest_def [symmetric])
    then show ?thesis using ok q rest by (auto simp: all_ok_def set_insert_at)
  next
    case tok: (Some t)
    obtain o2 s2 where tt: "take_token (is_final_prefill_chunk it) t s = (o2, s2)" by fastforce
    show ?thesis
    proof (cases o2)
      case (Inl e)
      then have "sch' = sch\<lparr>running := rest, pool := deallocate s (pool sch), finished := finished sch @ [abort_seq s]\<rparr>"
        using a Some tok tt take_token_error [OF tt [unfolded Inl]]
        by (simp add: apply_scheduled_item_def Let_def s_def [symmetric] s0_def [symmetric] rest_def [symmetric])
      then show ?thesis using ok R_abort [OF q] rest by (auto simp: all_ok_def)
    next
      case (Inr u)
      define s3 where "s3 = record_computed (Suc 0) s2"
      have g: "grows_by t s s3"
        using grows_same(2) [OF take_token_grows [OF tt [unfolded Inr]] same_request_simps(4)] by (simp add: s3_def)
      show ?thesis
      proof (cases "stop_reason (every_eos sch) s3")
        case None
        then have "running sch' = insert_at k s3 rest" "waiting sch' = waiting sch" "finished sch' = finished sch"
          using a Some tok tt Inr
          by (auto simp: apply_scheduled_item_def Let_def s_def [symmetric] s0_def [symmetric] rest_def [symmetric]
              s3_def)
        then show ?thesis using ok Q_append [OF q g None] rest by (auto simp: all_ok_def set_insert_at)
      next
        case (Some x)
        then have "running sch' = rest" "waiting sch' = waiting sch" "finished sch' = finished sch @ [finish x s3]"
          using a \<open>position (has_id (item_seq_id it)) (running sch) = Some k\<close> tok tt Inr
          by (auto simp: apply_scheduled_item_def Let_def s_def [symmetric] s0_def [symmetric] rest_def [symmetric]
              s3_def)
        then show ?thesis using ok R_finish [OF q g Some] rest by (auto simp: all_ok_def)
      qed
    qed
  qed
qed

lemma all_ok_apply_items:
  "apply_items xxh its toks fs need sch = (fs', need', sch') \<Longrightarrow> all_ok sch \<Longrightarrow> all_ok sch'"
proof (induction its arbitrary: toks fs need sch)
  case (Cons it its)
  obtain tok toks1 where t: "(if produces_token it
      then (case toks of t # ts \<Rightarrow> (Some t, ts) | [] \<Rightarrow> (None, [])) else (None, toks)) = (tok, toks1)"
    by fastforce
  obtain q sch1 where a: "apply_scheduled_item xxh it tok sch = (q, sch1)" by fastforce
  have "\<exists>fs1 need1. apply_items xxh its toks1 fs1 need1 sch1 = (fs', need', sch')"
    using Cons.prems(1) t a by (auto simp: Let_def split: if_splits sum.splits bool.splits)
  then show ?case using Cons.IH all_ok_apply_scheduled_item [OF a Cons.prems(2)] by blast
qed simp

lemma all_ok_complete_step:
  assumes c: "complete_step xxh sampled sch = (r, sch')" and ok: "all_ok sch"
  shows "all_ok sch'"
proof -
  have 0: "all_ok (sch\<lparr>last_batch := None\<rparr>)" by (rule all_ok_frame [OF ok]) simp_all
  show ?thesis using c 0 ok
    by (auto simp: complete_step_def Let_def split: option.splits if_splits prod.splits
        dest!: all_ok_apply_items all_ok_extend_all)
qed

lemma append_token_grows: "append_token t s = (Inr u, s') \<Longrightarrow> grows_by t s s'"
  using append_token_cases [of t s] by (fastforce simp: grows_by_def)

lemma append_verified_ok:
  "append_verified eos ts s = (r, d, s') \<Longrightarrow> Q s \<Longrightarrow> if d then R s' else Q s'"
proof (induction ts arbitrary: s)
  case (Cons t ts)
  obtain q s1 where a: "append_token t s = (q, s1)" by fastforce
  show ?case
  proof (cases q)
    case (Inl e)
    then have "s' = s" "\<not> d" using Cons.prems(1) a append_token_cases [OF a] by auto
    then show ?thesis using Cons.prems(2) by simp
  next
    case (Inr u)
    note g = append_token_grows [OF a [unfolded Inr]]
    show ?thesis
    proof (cases "stop_reason eos s1")
      case (Some x)
      then have "s' = finish x s1" "d" using Cons.prems(1) a Inr by auto
      then show ?thesis using R_finish [OF Cons.prems(2) g Some] by simp
    next
      case None
      then have "append_verified eos ts s1 = (r, d, s')" using Cons.prems(1) a Inr by simp
      then show ?thesis by (rule Cons.IH) (rule Q_append [OF Cons.prems(2) g None])
    qed
  qed
qed simp

lemma all_ok_apply_verify_outcome:
  assumes a: "apply_verify_outcome i out sch = (r, sch')" and ok: "all_ok sch"
  shows "all_ok sch'"
proof (cases "position (has_id i) (running sch)")
  case None
  then show ?thesis using a ok by (simp add: apply_verify_outcome_def)
next
  case (Some k)
  define s where "s = running sch ! k"
  define rest where "rest = remove_at k (running sch)"
  define sch1 where "sch1 = drop_drafts s (sch\<lparr>running := rest\<rparr>)"
  define s1 where "s1 = clear_drafts (s\<lparr>accepted_token_count := accepted_count out\<rparr>)"
  obtain q d s2 where ap: "append_verified (every_eos sch1) (accepted_drafts out @ [bonus_token out]) s1 = (q, d, s2)"
    by (metis surj_pair)
  obtain q2 s3 bm where ex: "(case q of Inr u \<Rightarrow> if d then (q, s2, pool sch1) else extend_for s2 (pool sch1)
      | Inl e \<Rightarrow> (q, s2, pool sch1)) = (q2, s3, bm)" by (metis surj_pair)
  have app: "apply_verify_outcome i out sch =
     (case q2 of
        Inl e \<Rightarrow> (Inl e, sch1\<lparr>pool := deallocate s3 bm, finished := finished sch1 @ [abort_seq s3]\<rparr>)
      | Inr u \<Rightarrow>
          if d then (Inr (), sch1\<lparr>pool := deallocate s3 bm, finished := finished sch1 @ [s3]\<rparr>)
          else (Inr (), sch1\<lparr>pool := bm, running := insert_at k s3 rest\<rparr>))"
    unfolding apply_verify_outcome_def Some option.case Let_def s_def [symmetric] rest_def [symmetric]
      sch1_def [symmetric] s1_def [symmetric] ap prod.case ex by (rule refl)
  have f: "waiting sch1 = waiting sch" "finished sch1 = finished sch" by (simp_all add: sch1_def)
  have rest: "Q u" if "u \<in> set rest" for u using Q_rest [OF ok] that unfolding rest_def .
  have "Q s1"
    by (rule Q_frame [OF all_ok_at [OF ok position_less [OF Some]]])
      (simp add: s1_def s_def same_request_def clear_drafts_def)
  note two = append_verified_ok [OF ap this]
  have fin: "d \<Longrightarrow> R s3 \<and> q2 = Inr ()"
  proof -
    assume d: "d"
    then have "q = Inr ()" using append_verified_done ap by simp
    then show ?thesis using two ex d by simp
  qed
  have three: "Q s3" if "\<not> d"
  proof (cases q)
    case (Inl e)
    then show ?thesis using two ex that by simp
  next
    case (Inr u)
    then have "extend_for s2 (pool sch1) = (q2, s3, bm)" using ex that by simp
    then show ?thesis using two that Q_frame extend_for_request by auto
  qed
  show ?thesis
  proof (cases d)
    case True
    then show ?thesis using a app fin ok rest by (auto simp: all_ok_def f sch1_def)
  next
    case False
    then show ?thesis using a app three R_abort ok rest
      by (cases q2) (auto simp: all_ok_def f sch1_def set_insert_at)
  qed
qed

lemma all_ok_apply_outcomes: "apply_outcomes os fs sch = (fs', sch') \<Longrightarrow> all_ok sch \<Longrightarrow> all_ok sch'"
  by (induction os fs sch rule: apply_outcomes.induct)
    (auto split: prod.splits sum.splits dest: all_ok_apply_verify_outcome)

lemma all_ok_complete_verify_step:
  assumes c: "complete_verify_step outs sch = (r, sch')" and ok: "all_ok sch"
  shows "all_ok sch'"
proof -
  have 0: "all_ok (sch\<lparr>last_batch := None\<rparr>)" by (rule all_ok_frame [OF ok]) simp_all
  show ?thesis using c 0 ok
    by (auto simp: complete_verify_step_def Let_def dest!: all_ok_apply_outcomes
        split: option.splits if_splits prod.splits)
qed

end

end
