(* ===== verification/Scheduler_Service.thy ===== *)
theory Scheduler_Service
  imports Scheduler_Contract
begin

text \<open>
  What a request gets from the scheduler: a bounded, properly stopped answer, and no failure for
  lack of blocks when it fits the pool. Both are interpretations of \<open>request_contract\<close>.
\<close>

section \<open>Answers\<close>

text \<open>A request that still runs has not produced its end-of-sequence token nor used its budget.\<close>

definition unstopped :: "sequence \<Rightarrow> bool" where
  "unstopped s \<longleftrightarrow>
     (\<forall>e. eos_token_id s = Some e \<longrightarrow> e \<notin> set (seq_output s)) \<and>
     (seq_output s = [] \<or> length (seq_output s) < max_new_tokens s)"

text \<open>
  A finished one was aborted before it stopped, or stopped exactly at its last token: never past
  the budget (one token is always produced), and for the budget only if the last token is not the
  end-of-sequence token.
\<close>

definition stopped_well :: "sequence \<Rightarrow> bool" where
  "stopped_well s \<longleftrightarrow>
     (seq_state s = Aborted \<and> seq_finish s = Some AbortedReason \<and> unstopped s) \<or>
     (seq_state s = Finished \<and> seq_output s \<noteq> [] \<and>
      (\<forall>e. eos_token_id s = Some e \<longrightarrow> e \<notin> set (butlast (seq_output s))) \<and>
      length (seq_output s) \<le> max 1 (max_new_tokens s) \<and>
      (seq_finish s = Some Eos \<or>
       seq_finish s = Some MaxTokens \<and> length (seq_output s) = max 1 (max_new_tokens s) \<and>
         eos_token_id s \<noteq> Some (last (seq_output s))))"

lemma stop_reason_None:
  "stop_reason eos s = None \<Longrightarrow> seq_output s \<noteq> [] \<Longrightarrow>
   eos_token_id s \<noteq> Some (last (seq_output s)) \<and> length (seq_output s) < max_new_tokens s"
  by (auto simp: stop_reason_def check_stop_def split: if_splits option.splits)

lemma stop_reason_Some:
  "stop_reason eos s = Some r \<Longrightarrow> seq_output s \<noteq> [] \<Longrightarrow>
   r = Eos \<or> r = MaxTokens \<and> eos_token_id s \<noteq> Some (last (seq_output s)) \<and>
     max_new_tokens s \<le> length (seq_output s)"
  by (auto simp: stop_reason_def check_stop_def split: if_splits option.splits)

interpretation answers: request_contract unstopped stopped_well
proof
  fix s s' assume "unstopped s" and "same_request s s'"
  then show "unstopped s'" by (simp add: unstopped_def same_request_def)
next
  fix s s' t eos assume "unstopped s" and g: "grows_by t s s'" and "stop_reason eos s' = None"
  moreover have "seq_output s' \<noteq> []" using g by (simp add: grows_by_def)
  ultimately show "unstopped s'" using stop_reason_None [of eos s']
    by (auto simp: unstopped_def grows_by_def)
next
  fix s assume "unstopped s"
  then show "stopped_well (abort_seq s)" by (simp add: stopped_well_def unstopped_def abort_seq_def)
next
  fix s s' t eos r assume u: "unstopped s" and g: "grows_by t s s'" and r: "stop_reason eos s' = Some r"
  have "seq_output s' \<noteq> []" using g by (simp add: grows_by_def)
  then have "r = Eos \<or> r = MaxTokens \<and> eos_token_id s' \<noteq> Some (last (seq_output s')) \<and>
      max_new_tokens s' \<le> length (seq_output s')"
    using stop_reason_Some [OF r] by simp
  moreover have "length (seq_output s') \<le> max 1 (max_new_tokens s')"
    using u g by (auto simp: unstopped_def grows_by_def)
  ultimately show "stopped_well (finish r s')"
    using u g by (auto simp: stopped_well_def unstopped_def grows_by_def finish_def max_def)
qed

section \<open>Capacity\<close>

text \<open>A request fits the pool when its prompt and its whole budget do.\<close>

definition roomy :: "scheduler_config \<Rightarrow> sequence \<Rightarrow> bool" where
  "roomy cfg s \<longleftrightarrow>
     length (seq_prompt s) + max_new_tokens s \<le> cfg_num_blocks cfg * cfg_block_size cfg \<and>
     (seq_output s = [] \<or> length (seq_output s) < max_new_tokens s)"

interpretation capacity: request_contract "roomy cfg" "\<lambda>s. True" for cfg
proof
  fix s s' assume "roomy cfg s" and "same_request s s'"
  then show "roomy cfg s'" by (simp add: roomy_def same_request_def)
next
  fix s s' t eos assume "roomy cfg s" and g: "grows_by t s s'" and "stop_reason eos s' = None"
  moreover have "seq_output s' \<noteq> []" using g by (simp add: grows_by_def)
  ultimately show "roomy cfg s'" using stop_reason_None [of eos s']
    by (auto simp: roomy_def grows_by_def)
qed simp_all

lemma roomy_fits: "roomy cfg s \<Longrightarrow> total_len s \<le> cfg_num_blocks cfg * cfg_block_size cfg"
  by (auto simp: roomy_def total_len_def)

lemma extend_loop_no_failure:
  "extend_loop idx s sch = (r, sch') \<Longrightarrow>
   total_len s \<le> cfg_num_blocks (config sch) * cfg_block_size (config sch) \<Longrightarrow>
   0 < cfg_block_size (config sch) \<Longrightarrow> r = None \<and> config sch' = config sch"
proof (induction idx s sch rule: extend_loop.induct)
  case (1 idx s sch)
  obtain q s1 bm where e: "extend_for s (pool sch) = (q, s1, bm)" by (metis surj_pair)
  have n: "total_len s1 = total_len s"
    using extend_for_request [OF e] by (simp add: same_request_def total_len_def)
  then have small: "\<not> cfg_num_blocks (config sch) < num_blocks_needed (cfg_block_size (config sch)) s1"
    using 1(3,4) by (simp add: num_blocks_needed_div_ceil not_less div_ceil_le_iff)
  consider (ok) u where "q = Inr u" | (victim) y where "q = Inl y" "idx < length (running sch)"
    | (self) y where "q = Inl y" "\<not> idx < length (running sch)"
    by (cases q) blast+
  then show ?case
  proof cases
    case ok
    then show ?thesis using 1(2) e by (auto simp: extend_loop.simps [of idx s sch])
  next
    case (victim y)
    let ?sch1 = "sch\<lparr>pool := bm\<rparr>"
    let ?sch2 = "preempt (last (running ?sch1)) (?sch1\<lparr>running := butlast (running ?sch1)\<rparr>)"
    have "extend_loop idx s1 ?sch2 = (r, sch')"
      using 1(2) e victim small by (simp add: extend_loop.simps [of idx s sch] Let_def)
    then show ?thesis
      using 1(1) [OF e [symmetric] victim(1) refl refl] victim small n 1(3,4) by simp
  next
    case self
    then show ?thesis using 1(2) e small by (auto simp: extend_loop.simps [of idx s sch] Let_def)
  qed
qed

lemma extend_all_no_failure:
  "extend_all is fs sch = (fs', sch') \<Longrightarrow> capacity.all_ok (config sch) sch \<Longrightarrow>
   0 < cfg_block_size (config sch) \<Longrightarrow> fs' = fs"
proof (induction "is" arbitrary: fs sch)
  case (Cons i "is")
  obtain f sch1 where e: "extend_blocks_or_preempt i sch = (f, sch1)" by fastforce
  have one: "f = None \<and> config sch1 = config sch \<and> capacity.all_ok (config sch) sch1"
  proof (cases "position (has_id i) (running sch)")
    case None
    then show ?thesis using e Cons.prems(2) by (simp add: extend_blocks_or_preempt_def)
  next
    case (Some k)
    let ?sch0 = "sch\<lparr>running := remove_at k (running sch)\<rparr>"
    have l: "extend_loop k (running sch ! k) ?sch0 = (f, sch1)"
      using e Some by (simp add: extend_blocks_or_preempt_def)
    have q: "roomy (config sch) (running sch ! k)"
      by (rule capacity.all_ok_at [OF Cons.prems(2) position_less [OF Some]])
    have "capacity.all_ok (config sch) ?sch0"
      by (rule capacity.all_ok_frame [OF Cons.prems(2)]) (simp_all add: set_remove_at_subset)
    then have "capacity.all_ok (config sch) sch1"
      by (rule capacity.all_ok_extend_loop [OF l _ q])
    moreover have "f = None \<and> config sch1 = config ?sch0"
      by (rule extend_loop_no_failure [OF l]) (use roomy_fits [OF q] Cons.prems(3) in simp_all)
    ultimately show ?thesis by simp
  qed
  then have "extend_all is fs sch1 = (fs', sch')" using Cons.prems(1) e by simp
  then show ?case using Cons.IH one Cons.prems(3) by simp
qed simp

section \<open>Completing the batch that was issued\<close>

lemma apply_item_coherent:
  assumes a: "apply_scheduled_item xxh it tok sch = (r, sch')"
    and c: "coherent (it # its) sch" and ar: "all_running (it # its) sch"
    and tok: "tok \<noteq> None \<Longrightarrow> produces_token it"
  shows "(\<exists>b. r = Inr b) \<and> coherent its sch' \<and> all_running its sch' \<and> config sch' = config sch"
proof -
  obtain k where pos: "position (has_id (item_seq_id it)) (running sch) = Some k"
    using ar by (cases "position (has_id (item_seq_id it)) (running sch)")
      (auto simp: all_running_def position_None_iff has_id_def)
  define s0 where "s0 = running sch ! k"
  define rest where "rest = remove_at k (running sch)"
  define s where "s = (if is_prefill it then record_computed (num_scheduled_tokens it) s0 else s0)"
  have id: "seq_id s0 = item_seq_id it" using position_holds [OF pos] by (simp add: s0_def has_id_def)
  have m: "mset (running sch) = add_mset s0 (mset rest)"
    using mset_remove_at [OF position_less [OF pos]] by (simp add: s0_def rest_def)
  then have mem: "set (running sch) = insert s0 (set rest)" by (metis set_mset_add_mset_insert set_mset_mset)
  have fits: "item_fits it s0" using c mem id by (simp add: coherent_def)
  have stay: "coherent its sch1 \<and> all_running its sch1"
    if run: "set rest \<subseteq> set (running sch1)" "\<And>u. u \<in> set (running sch1) \<Longrightarrow> u \<in> set rest \<or> seq_id u = item_seq_id it"
    for sch1
  proof
    have d: "item_seq_id it \<notin> item_seq_id ` set its" using c by (auto simp: coherent_def)
    show "coherent its sch1"
      unfolding coherent_def
    proof (intro conjI ballI impI)
      show "distinct (map item_seq_id its)" using c by (simp add: coherent_def)
      fix it' u assume it': "it' \<in> set its" and u: "u \<in> set (running sch1)" "seq_id u = item_seq_id it'"
      then have "seq_id u \<noteq> item_seq_id it" using d by (metis image_eqI)
      then have "u \<in> set rest" using run(2) [OF u(1)] by simp
      then show "item_fits it' u" using c it' u(2) mem by (simp add: coherent_def)
    qed
    show "all_running its sch1"
      unfolding all_running_def
    proof
      fix it' assume it': "it' \<in> set its"
      then obtain u where u: "u \<in> set (running sch)" "seq_id u = item_seq_id it'"
        using ar by (auto simp: all_running_def)
      moreover have "seq_id u \<noteq> item_seq_id it" using d it' u(2) by (metis image_eqI)
      ultimately have "u \<in> set rest" using mem id by auto
      then show "\<exists>u\<in>set (running sch1). seq_id u = item_seq_id it'" using run(1) u(2) by auto
    qed
  qed
  show ?thesis
  proof (cases tok)
    case None
    then have "r = Inr False" "sch' = sch\<lparr>running := insert_at k s rest\<rparr>"
      using a pos
      by (simp_all add: apply_scheduled_item_def Let_def s_def [symmetric] s0_def [symmetric] rest_def [symmetric])
    then show ?thesis using id by (auto intro!: stay simp: set_insert_at s_def)
  next
    case tok': (Some t)
    have st: "seq_state s = Decode \<or> is_final_prefill_chunk it \<and> seq_state s = Prefill"
      using fits tok tok' by (auto simp: item_fits_def produces_token_def s_def split: if_splits)
    obtain o2 s2 where tt: "take_token (is_final_prefill_chunk it) t s = (o2, s2)" by fastforce
    have o2: "o2 = Inr ()"
      using tt st by (auto simp: take_token_def transition_to_decode_def append_token_def split: if_splits)
    have id2: "seq_id s2 = item_seq_id it" using take_token_id [OF tt] id by (simp add: s_def)
    define s3 where "s3 = record_computed (Suc 0) s2"
    have "(\<exists>b. r = Inr b) \<and> config sch' = config sch \<and> (running sch' = rest \<or> running sch' = insert_at k s3 rest)"
      using a pos tok' tt o2
      by (cases "stop_reason (every_eos sch) s3")
        (auto simp: apply_scheduled_item_def Let_def s_def [symmetric] s0_def [symmetric] rest_def [symmetric] s3_def)
    then show ?thesis using id2 by (auto intro!: stay simp: set_insert_at s3_def)
  qed
qed

lemma apply_items_coherent:
  "apply_items xxh its toks fs need sch = (fs', need', sch') \<Longrightarrow> coherent its sch \<Longrightarrow> all_running its sch \<Longrightarrow>
   fs' = fs \<and> config sch' = config sch"
proof (induction its arbitrary: toks need sch)
  case (Cons it its)
  obtain tok toks1 where t: "(if produces_token it
      then (case toks of t # ts \<Rightarrow> (Some t, ts) | [] \<Rightarrow> (None, [])) else (None, toks)) = (tok, toks1)"
    by fastforce
  obtain q sch1 where a: "apply_scheduled_item xxh it tok sch = (q, sch1)" by fastforce
  have "tok \<noteq> None \<Longrightarrow> produces_token it" using t by (auto split: if_splits)
  note one = apply_item_coherent [OF a Cons.prems(2,3) this]
  then obtain b where q: "q = Inr b" by blast
  have "\<exists>need1. apply_items xxh its toks1 fs need1 sch1 = (fs', need', sch')"
    using Cons.prems(1) t a q by (cases b) (auto simp: Let_def split: if_splits)
  then show ?case using Cons.IH one by auto
qed simp

lemma complete_step_no_failure:
  assumes inv: "sched_inv xxh {} [] sch" and b: "last_batch sch = Some b" "batch_kind_of b \<noteq> VerifyBatch"
    and c: "coherent (batch_items b) sch" "all_running (batch_items b) sch"
    and room: "capacity.all_ok (config sch) sch"
    and n: "length sampled = length (filter produces_token (batch_items b))"
  shows "fst (complete_step xxh sampled sch) = Inr []"
proof -
  let ?sch0 = "sch\<lparr>last_batch := None\<rparr>"
  obtain fs need sch1 where ap: "apply_items xxh (batch_items b) sampled [] [] ?sch0 = (fs, need, sch1)"
    by (metis surj_pair)
  obtain fs2 sch2 where ex: "extend_all need fs sch1 = (fs2, sch2)" by fastforce
  have "coherent (batch_items b) ?sch0" "all_running (batch_items b) ?sch0"
    using c by (simp_all add: coherent_def all_running_def)
  then have 1: "fs = []" "config sch1 = config sch" using apply_items_coherent [OF ap] by simp_all
  have "capacity.all_ok (config sch) ?sch0" by (rule capacity.all_ok_frame [OF room]) simp_all
  then have "capacity.all_ok (config sch1) sch1"
    using capacity.all_ok_apply_items [OF ap] by (simp add: 1(2))
  then have "fs2 = fs"
    using extend_all_no_failure [OF ex] sched_inv_geometry(1) [OF inv] 1(2) by simp
  then show ?thesis using b n ap ex 1(1) by (simp add: complete_step_def Let_def)
qed

lemma admit_pass_config:
  "admit_pass xxh cm ws items budget sch = (r, sch') \<Longrightarrow> config sch' = config sch"
proof (induction ws arbitrary: items budget sch)
  case (Cons s ws)
  show ?case
    using Cons.prems by (auto simp: Let_def split: if_splits prod.splits sum.splits dest!: Cons.IH)
qed auto

lemma mixed_step:
  assumes inv: "sched_inv xxh {} [] sch" and s: "step xxh cm sch = (Inr b, sch')"
    and k: "batch_kind_of b \<noteq> VerifyBatch"
  shows "\<exists>sch1. build_mixed_batch xxh cm sch = (Inr b, sch1) \<and> sch' = sch1\<lparr>last_batch := Some b\<rparr>"
    and "config sch' = config sch"
proof -
  have nv: "\<not> has_verify_ready_drafts sch"
    using s k by (auto simp: step_def build_verify_batch_def split: if_splits prod.splits)
  show m: "\<exists>sch1. build_mixed_batch xxh cm sch = (Inr b, sch1) \<and> sch' = sch1\<lparr>last_batch := Some b\<rparr>"
    using s nv by (auto simp: step_def split: prod.splits sum.splits)
  then show "config sch' = config sch"
    by (auto simp: build_mixed_batch_def Let_def dest: admit_pass_config split: prod.splits sum.splits)
qed

end
