(* ===== verification/Scheduler_Properties.thy ===== *)
theory Scheduler_Properties
  imports Scheduler_Service Pool_Properties
begin

text \<open>
  The scheduler as an event-driven component, and its properties over every sequence of calls.
\<close>

section \<open>The component\<close>

datatype sched_event =
    Enqueue sequence
  | EnqueueEos sequence "token list"
  | SetDrafts u64 "token list"
  | AbortSeq u64
  | Step
  | CompleteStep "token list"
  | CompleteVerify "verify_outcome list"
  | Drain

definition sched_step :: "hasher \<Rightarrow> nat \<Rightarrow> sched_event \<Rightarrow> scheduler \<Rightarrow> scheduler" where
  "sched_step xxh cm e sch =
     (case e of
        Enqueue s \<Rightarrow> enqueue s sch
      | EnqueueEos s ids \<Rightarrow> enqueue_with_eos_ids s ids sch
      | SetDrafts i d \<Rightarrow> snd (set_drafts i d sch)
      | AbortSeq i \<Rightarrow> abort i sch
      | Step \<Rightarrow> snd (step xxh cm sch)
      | CompleteStep ts \<Rightarrow> snd (complete_step xxh ts sch)
      | CompleteVerify outs \<Rightarrow> snd (complete_verify_step outs sch)
      | Drain \<Rightarrow> snd (drain_finished sch))"

text \<open>
  The caller's only obligation: what it enqueues is a fresh request, as \<open>Sequence::new\<close> makes it,
  under an id that is not in use.
\<close>

definition sched_guard :: "sched_event \<Rightarrow> scheduler \<Rightarrow> bool" where
  "sched_guard e sch =
     (case e of
        Enqueue s \<Rightarrow> waiting_ok s \<and> fresh_id (seq_id s) sch
      | EnqueueEos s ids \<Rightarrow> waiting_ok s \<and> fresh_id (seq_id s) sch
      | _ \<Rightarrow> True)"

lemma sched_inv_eos: "sched_inv xxh P [] sch \<Longrightarrow> sched_inv xxh P [] (sch\<lparr>every_eos := m\<rparr>)"
  by (erule sched_inv_frame) simp_all

interpretation sched: component "sched_inv xxh {} []" sched_guard "sched_step xxh cm" for xxh cm
proof
  fix sch e assume inv: "sched_inv xxh {} [] sch" and g: "sched_guard e sch"
  show "sched_inv xxh {} [] (sched_step xxh cm e sch)"
  proof (cases e)
    case (Enqueue s)
    then show ?thesis using enqueue_inv [OF inv] g by (simp add: sched_step_def sched_guard_def)
  next
    case (EnqueueEos s ids)
    then show ?thesis
      using enqueue_inv [OF sched_inv_eos [OF inv], of s "(every_eos sch)(seq_id s \<mapsto> ids)"] g
      by (simp add: sched_step_def sched_guard_def enqueue_with_eos_ids_def fresh_id_def)
  next
    case (SetDrafts i d)
    then show ?thesis using set_drafts_inv [OF inv, of i d] by (simp add: sched_step_def prod_eq_iff)
  next
    case (AbortSeq i)
    then show ?thesis using abort_inv [OF inv] by (simp add: sched_step_def)
  next
    case Step
    then show ?thesis using step_inv [OF _ inv, of cm] by (cases "step xxh cm sch") (simp add: sched_step_def)
  next
    case (CompleteStep ts)
    then show ?thesis using complete_step_inv [OF _ inv, of ts]
      by (cases "complete_step xxh ts sch") (simp add: sched_step_def)
  next
    case (CompleteVerify outs)
    then show ?thesis using complete_verify_step_inv [OF _ inv, of outs]
      by (cases "complete_verify_step outs sch") (simp add: sched_step_def)
  next
    case Drain
    then show ?thesis using drain_finished_inv [OF inv] by (simp add: sched_step_def)
  qed
qed

text \<open>The request contract over one event, and over a run.\<close>

definition enqueues :: "(sequence \<Rightarrow> bool) \<Rightarrow> sched_event \<Rightarrow> scheduler \<Rightarrow> bool" where
  "enqueues Q e sch = (case e of Enqueue s \<Rightarrow> Q s | EnqueueEos s ids \<Rightarrow> Q s | _ \<Rightarrow> True)"

context request_contract
begin

lemma all_ok_event:
  assumes ok: "all_ok sch" and q: "enqueues Q e sch"
  shows "all_ok (sched_step xxh cm e sch)"
proof -
  have eos: "all_ok (sch\<lparr>every_eos := m\<rparr>)" for m by (rule all_ok_frame [OF ok]) simp_all
  show ?thesis
  proof (cases e)
    case (Enqueue s)
    then show ?thesis using all_ok_enqueue [OF ok] q by (simp add: sched_step_def enqueues_def)
  next
    case (EnqueueEos s ids)
    then show ?thesis using all_ok_enqueue [OF eos] q
      by (simp add: sched_step_def enqueues_def enqueue_with_eos_ids_def)
  next
    case (SetDrafts i d)
    then show ?thesis using all_ok_set_drafts [OF ok, of i d] by (simp add: sched_step_def prod_eq_iff)
  next
    case (AbortSeq i)
    then show ?thesis using all_ok_abort [OF ok] by (simp add: sched_step_def)
  next
    case Step
    then show ?thesis using all_ok_step [OF _ ok, of xxh cm] by (cases "step xxh cm sch") (simp add: sched_step_def)
  next
    case (CompleteStep ts)
    then show ?thesis using all_ok_complete_step [OF _ ok, of xxh ts]
      by (cases "complete_step xxh ts sch") (simp add: sched_step_def)
  next
    case (CompleteVerify outs)
    then show ?thesis using all_ok_complete_verify_step [OF _ ok, of outs]
      by (cases "complete_verify_step outs sch") (simp add: sched_step_def)
  next
    case Drain
    then show ?thesis using all_ok_drain [OF ok] by (simp add: sched_step_def)
  qed
qed

lemma all_ok_run:
  "all_ok sch \<Longrightarrow> guarded (enqueues Q) (sched_step xxh cm) es sch \<Longrightarrow>
   all_ok (run (sched_step xxh cm) es sch)"
proof (induction es arbitrary: sch)
  case (Cons e es)
  then show ?case using all_ok_event [of sch e xxh cm] by simp
qed simp

end

section \<open>A concrete scheduler for the witnesses\<close>

definition toy_config :: scheduler_config where
  "toy_config = \<lparr>max_batch_size = 2, max_batched_tokens = 8, cfg_block_size = 2, cfg_num_blocks = 4\<rparr>"

definition toy_scheduler :: scheduler where
  "toy_scheduler =
     \<lparr> config = toy_config, pool = toy_pool, waiting = [], running = [], finished = [],
       last_batch = None, num_running_with_drafts = 0, prefix_cache_reuse = True, every_eos = Map.empty \<rparr>"

definition toy_request :: sequence where
  "toy_request = with_eos (Some 99) (new_sequence 1 [5, 6, 7] 3)"

text \<open>Two requests, prefill of both, one decode step; the second request then ends on its budget.\<close>

definition toy_events :: "sched_event list" where
  "toy_events = [Enqueue toy_request, Enqueue (new_sequence 2 [5, 6] 2), Step, CompleteStep [8, 8],
                 Step, CompleteStep [4, 99]]"

lemma toy_scheduler_new: "toy_scheduler = new_scheduler toy_config"
  by (simp add: toy_scheduler_def new_scheduler_def toy_pool_new toy_config_def)

lemma toy_guarded:
  "guarded sched_guard (sched_step toy_hash 0) toy_events toy_scheduler"
  "guarded (enqueues unstopped) (sched_step toy_hash 0) toy_events toy_scheduler"
  "guarded (enqueues (roomy toy_config)) (sched_step toy_hash 0) toy_events toy_scheduler"
  by (simp_all add: toy_events_def sched_guard_def enqueues_def sched_step_def enqueue_def toy_scheduler_def
      toy_request_def with_eos_def new_sequence_def waiting_ok_def has_drafts_def fresh_id_def
      unstopped_def roomy_def toy_config_def)

definition toy_end :: scheduler where
  "toy_end = run (sched_step toy_hash 0) toy_events toy_scheduler"



lemma toy_config_ok: "cfg_num_blocks toy_config < 2 ^ 32" "0 < cfg_block_size toy_config"
  by (simp_all add: toy_config_def)

lemma toy_end_inv: "sched_inv toy_hash {} [] toy_end"
  unfolding toy_end_def using sched.run_keeps [OF _ toy_guarded(1)] sched_inv_init [OF toy_config_ok]
  by (simp add: toy_scheduler_new)

lemma toy_end_config: "config toy_end = toy_config"
  unfolding toy_end_def toy_events_def toy_config_def by code_simp

section \<open>The invariant\<close>

text \<open>
  C1. Over every sequence of calls that enqueues fresh requests under unused ids, the scheduler
  keeps its invariant: reference counts equal the number of tables a block is in, waiting requests
  hold no blocks, running ones are in prefill or decode with a table that describes their tokens
  and has room for all of them, no id is queued twice, and the draft counter never underflows.
\<close>

theorem scheduler_keeps_invariant:
  assumes "cfg_num_blocks cfg < 2 ^ 32" and "0 < cfg_block_size cfg"
    and "guarded sched_guard (sched_step xxh cm) es (new_scheduler cfg)"
  shows "sched_inv xxh {} [] (run (sched_step xxh cm) es (new_scheduler cfg))"
  using sched.run_keeps [OF sched_inv_init [OF assms(1,2)] assms(3)] .

theorem scheduler_keeps_invariant_witness:
  "sched_inv toy_hash {} [] (run (sched_step toy_hash 0) toy_events toy_scheduler)"
  using scheduler_keeps_invariant [OF toy_config_ok] toy_guarded(1) by (simp add: toy_scheduler_new)

text \<open>
  C2. Copy on write is never needed in decode: the block that the next decode step writes, the one
  of the last token, is in the sequence's table, unlabelled, referenced once, and in no other
  running sequence's table.
\<close>

theorem decode_writes_private_block:
  assumes "sched_inv xxh {} [] sch" and "k < length (running sch)"
    and "seq_state (running sch ! k) = Decode"
  shows "let s = running sch ! k;
             b = (total_len s - 1) div cfg_block_size (config sch)
         in b < length (block_table s) \<and>
            ref_count_of (pool sch) (block_table s ! b) = 1 \<and>
            blk_hash (blocks (pool sch) ! (block_table s ! b)) = None \<and>
            (\<forall>j < length (running sch). j \<noteq> k \<longrightarrow> block_table s ! b \<notin> set (block_table (running sch ! j)))"
proof -
  let ?s = "running sch ! k"
  let ?b = "(total_len ?s - 1) div cfg_block_size (config sch)"
  have mem: "?s \<in> set (running sch)" using assms(2) by simp
  note a = decode_block_alone [OF assms(1) mem assms(3)]
  have "block_table ?s ! ?b \<notin> set (block_table (running sch ! j))"
    if "j < length (running sch)" "j \<noteq> k" for j
    using block_of_one_sequence [OF a(4) assms(2) _ that(1)] a(1) that(2) by auto
  then show ?thesis using a by (simp add: ref_count_of_def Let_def)
qed

theorem decode_writes_private_block_witness:
  "ref_count_of (pool toy_end) 3 = 1 \<and> blk_hash (blocks (pool toy_end) ! 3) = None"
proof -
  have l: "0 < length (running toy_end)" and d: "seq_state (running toy_end ! 0) = Decode"
    and v: "total_len (running toy_end ! 0) = 5" "block_table (running toy_end ! 0) = [0, 1, 3]"
    unfolding toy_end_def toy_events_def by code_simp+
  show ?thesis using decode_writes_private_block [OF toy_end_inv l d]
    by (simp add: v Let_def toy_end_config toy_config_def)
qed

text \<open>
  C5. No request is lost or duplicated: every call keeps the multiset of ids over the waiting,
  running and finished queues, except that enqueueing adds one id and draining removes those it
  returns.
\<close>

theorem requests_are_conserved:
  assumes "sched_inv xxh {} [] sch"
  shows "(case e of
            Enqueue s \<Rightarrow> census (sched_step xxh cm e sch) = add_mset (seq_id s) (census sch)
          | EnqueueEos s ids \<Rightarrow> census (sched_step xxh cm e sch) = add_mset (seq_id s) (census sch)
          | Drain \<Rightarrow> census (sched_step xxh cm e sch) + image_mset seq_id (mset (finished sch)) = census sch
          | _ \<Rightarrow> census (sched_step xxh cm e sch) = census sch)"
proof (cases e)
  case (EnqueueEos s ids)
  have "census (sch\<lparr>every_eos := m\<rparr>) = census sch" for m by (simp add: census_def)
  then show ?thesis using EnqueueEos by (simp add: sched_step_def enqueue_with_eos_ids_def census_enqueue)
next
  case (SetDrafts i d)
  then show ?thesis using census_set_drafts [of i d sch] by (simp add: sched_step_def prod_eq_iff)
next
  case Step
  obtain b sch' where "step xxh cm sch = (Inr b, sch')"
    using step_inv [OF _ assms, of cm] by (metis surj_pair)
  then show ?thesis using Step census_step by (simp add: sched_step_def)
next
  case (CompleteStep ts)
  then show ?thesis using census_complete_step by (cases "complete_step xxh ts sch") (simp add: sched_step_def)
next
  case (CompleteVerify outs)
  then show ?thesis using census_complete_verify_step
    by (cases "complete_verify_step outs sch") (simp add: sched_step_def)
next
  case Drain
  then show ?thesis using census_drain [of sch] by (simp add: sched_step_def drain_finished_def ac_simps)
qed (simp_all add: sched_step_def census_enqueue census_abort)

theorem requests_are_conserved_witness:
  "census (sched_step toy_hash 0 Step toy_end) = census toy_end"
  using requests_are_conserved [OF toy_end_inv, where e = Step] by simp



section \<open>Batches\<close>


text \<open>The scheduler with both requests queued, just before its first batch.\<close>

definition toy_start :: scheduler where
  "toy_start = run (sched_step toy_hash 0) [Enqueue toy_request, Enqueue (new_sequence 2 [5, 6] 2)] toy_scheduler"

definition toy_batch :: scheduled_batch where
  "toy_batch =
     \<lparr> batch_kind_of = PrefillBatch, batch_seq_ids = [1, 2],
       batch_items = [\<lparr>item_seq_id = 1, num_scheduled_tokens = 3, is_prefill = True, is_final_prefill_chunk = True\<rparr>,
                      \<lparr>item_seq_id = 2, num_scheduled_tokens = 2, is_prefill = True, is_final_prefill_chunk = True\<rparr>] \<rparr>"

lemma toy_start_inv: "sched_inv toy_hash {} [] toy_start"
  and toy_start_room: "capacity.all_ok toy_config toy_start"
proof -
  have e: "toy_events = [Enqueue toy_request, Enqueue (new_sequence 2 [5, 6] 2)] @
      [Step, CompleteStep [8, 8], Step, CompleteStep [4, 99]]"
    by (simp add: toy_events_def)
  show "sched_inv toy_hash {} [] toy_start"
    unfolding toy_start_def
    by (rule sched.every_prefix_keeps [where es' = "[Step, CompleteStep [8, 8], Step, CompleteStep [4, 99]]"]) (use sched_inv_init [OF toy_config_ok] toy_guarded(1) e in
        \<open>simp_all add: toy_scheduler_new\<close>)
  have "capacity.all_ok toy_config toy_scheduler"
    unfolding toy_scheduler_new by (rule capacity.all_ok_new)
  then show "capacity.all_ok toy_config toy_start"
    unfolding toy_start_def by (rule capacity.all_ok_run) (use toy_guarded(3) in \<open>simp add: e\<close>)
qed

lemma toy_step: "step toy_hash 0 toy_start = (Inr toy_batch, snd (step toy_hash 0 toy_start))"
proof -
  have "fst (step toy_hash 0 toy_start) = Inr toy_batch" unfolding toy_start_def by code_simp
  then show ?thesis by (simp add: prod_eq_iff)
qed

lemma toy_start_config: "config toy_start = toy_config"
  unfolding toy_start_def toy_config_def by code_simp


text \<open>
  C6. A request that fits the pool is never failed: completing the batch that \<open>step\<close> issued, with
  one token per item that produces one, reports no failure. Sequences that do not fit at the moment
  are preempted and recomputed instead.
\<close>

theorem fitting_requests_never_fail:
  assumes "sched_inv xxh {} [] sch" and "capacity.all_ok (config sch) sch"
    and "step xxh cm sch = (Inr b, sch')" and "batch_kind_of b \<noteq> VerifyBatch"
    and "length sampled = length (filter produces_token (batch_items b))"
  shows "fst (complete_step xxh sampled sch') = Inr []"
proof -
  obtain sch1 where m: "build_mixed_batch xxh cm sch = (Inr b, sch1)" and s: "sch' = sch1\<lparr>last_batch := Some b\<rparr>"
    using mixed_step(1) [OF assms(1,3,4)] by blast
  have c: "coherent (batch_items b) sch'" "all_running (batch_items b) sch'"
    using mixed_batch_spec(5,6) [OF assms(1) m] by (simp_all add: s coherent_def all_running_def)
  have inv: "sched_inv xxh {} [] sch'" using step_inv [OF assms(3,1)] by simp
  have "capacity.all_ok (config sch') sch'"
    using capacity.all_ok_step [OF assms(3,2)] mixed_step(2) [OF assms(1,3,4)] by simp
  then show ?thesis using complete_step_no_failure [OF inv _ assms(4) c] assms(5) by (simp add: s)
qed

theorem fitting_requests_never_fail_witness:
  "fst (complete_step toy_hash [8, 8] (snd (step toy_hash 0 toy_start))) = Inr []"
  using fitting_requests_never_fail [OF toy_start_inv _ toy_step, of "[8, 8]"] toy_start_room
  by (simp add: toy_start_config toy_batch_def produces_token_def)

text \<open>
  The extension loop gives the sequence room or preempts it: after \<open>extend_blocks_or_preempt\<close> a
  sequence that fits the pool is not failed, and wherever it runs its table covers all its tokens.
\<close>

theorem extension_covers_or_preempts:
  assumes "sched_inv xxh {i} [] sch" and "capacity.all_ok (config sch) sch"
    and "extend_blocks_or_preempt i sch = (r, sch')"
  shows "r = None \<and> sched_inv xxh {} [] sch'"
proof -
  have "extend_all [i] [] sch = (case r of None \<Rightarrow> [] | Some f \<Rightarrow> [f], sch')"
    using assms(3) by (simp split: option.split)
  from extend_all_no_failure [OF this assms(2) sched_inv_geometry(1) [OF assms(1)]]
  have "r = None" by (simp split: option.splits)
  moreover have "sched_inv xxh ({i} - {i}) [] sch'" by (rule extend_blocks_or_preempt_inv [OF assms(1,3)])
  ultimately show ?thesis by simp
qed

theorem extension_covers_or_preempts_witness:
  "fst (extend_blocks_or_preempt 1 toy_start) = None"
proof -
  have "sched_inv toy_hash {1} [] toy_start" by (rule sched_inv_mono [OF toy_start_inv]) simp
  then show ?thesis
    using extension_covers_or_preempts [of toy_hash 1 toy_start] toy_start_room toy_start_config
    by (metis prod.collapse)
qed

text \<open>
  The prefill chunk floor: a chunk never exceeds the budget or what remains, is positive
  whenever both are, and a remainder of at least twice the floor is cut so that neither the chunk
  nor the rest is below the floor.
\<close>

theorem floored_take_respects_floor:
  "floored_take r b f \<le> min r b \<and> (0 < r \<and> 0 < b \<longrightarrow> 0 < floored_take r b f) \<and>
   (f \<le> b \<and> 2 * f \<le> r \<longrightarrow> floored_take r b f = r \<or>
      f \<le> floored_take r b f \<and> f \<le> r - floored_take r b f)"
  using floored_take_le floored_take_pos floored_take_floor by auto

theorem floored_take_respects_floor_witness:
  "256 \<le> floored_take 700 600 256 \<and> 256 \<le> 700 - floored_take 700 600 256"
  using floored_take_respects_floor [of 700 600 256] by auto


text \<open>
  C7. Progress: when nothing runs, the request at the head of the queue is scheduled by the next
  \<open>step\<close>, provided it fits the pool, the configuration allows a batch at all and its blocks' hashes
  do not collide. So preempted requests come back.
\<close>

theorem idle_scheduler_makes_progress:
  assumes "sched_inv xxh {} [] sch" and "running sch = []" and "waiting sch = s # ws"
    and "0 < total_len s" and "0 < max_batched_tokens (config sch)" and "0 < max_batch_size (config sch)"
    and "num_blocks_needed (cfg_block_size (config sch)) s \<le> cfg_num_blocks (config sch)"
    and "plan_collision_free (alloc_plan xxh None (cfg_block_size (config sch)) s)"
  shows "\<exists>b sch'. step xxh cm sch = (Inr b, sch') \<and> seq_id s \<in> set (batch_seq_ids b)"
proof -
  note geo = sched_inv_geometry [OF assms(1)]
  have w: "waiting_ok s" using sched_invD(2) [OF assms(1), of s] assms(3) by simp
  have ok: "pool_ok (pool sch) {#}" using sched_invD(1) [OF assms(1)] assms(2) by (simp add: carrying_def)
  have free: "num_free (pool sch) = cfg_num_blocks (config sch)"
    using block_pool.conserved [OF ok] geo(3) by simp
  let ?p = "alloc_plan xxh None (cfg_block_size (config sch)) s"
  have "plan_need (pool sch) ?p \<le> num_free (pool sch)"
    using plan_need_le_length [of "pool sch" ?p] assms(7) geo(1) free
    by (simp add: length_alloc_plan num_blocks_needed_div_ceil)
  then obtain a bm where al: "allocate_with_prefix xxh s (pool sch) = (Inr a, bm)"
    using allocate_succeeds [OF ok, of s xxh None] w assms(8) geo(2)
    by (auto simp: waiting_ok_def allocate_with_prefix_def)
  let ?c = "if prefix_cache_reuse sch then cached_tokens a else 0"
  obtain o1 s1 where t: "transition_to_prefill_with_cache ?c (s\<lparr>block_table := alloc_table a\<rparr>) = (o1, s1)"
    by fastforce
  have bs: "0 < block_size (pool sch)" "block_size (pool sch) = cfg_block_size (config sch)" using geo by simp_all
  note live = allocate_live [OF w bs ok al assms(4) t]
  have n1: "total_len s1 = total_len s" using live(9) by (metis length_seq_tokens)
  have rem: "0 < remaining_uncomputed s1" using live(10) assms(4) n1 by (simp add: remaining_uncomputed_def)
  define tk where "tk = floored_take (remaining_uncomputed s1) (max_batched_tokens (config sch)) cm"
  have tk: "tk \<noteq> 0" using floored_take_pos [OF rem assms(5), of cm] by (simp add: tk_def)
  let ?sch1 = "sch\<lparr>pool := bm, running := running sch @ [s1]\<rparr>"
  have sch: "sched_inv xxh {} [] (sch\<lparr>waiting := s # ws\<rparr>)" using assms(1,3) by (simp add: sched_inv_frame)
  obtain q sch' where rest: "admit_pass xxh cm ws [prefill_item s1 tk] (max_batched_tokens (config sch) - tk) ?sch1 = (q, sch')"
    by fastforce
  have inv1: "sched_inv xxh {} [] (?sch1\<lparr>waiting := ws\<rparr>)"
    using admit_one_inv(2) [OF sch assms(4) al t] by simp
  obtain its where q: "q = Inr its" using admit_pass_inv [OF rest inv1] by blast
  have head: "prefill_item s1 tk \<in> set its"
    using admit_pass_spec [OF rest [unfolded q] inv1] by auto
  have "build_mixed_batch xxh cm sch =
      (Inr \<lparr>batch_kind_of = kind_for_items its, batch_seq_ids = map item_seq_id its, batch_items = its\<rparr>, sch')"
    using assms(2-6) al t live(1) tk rest q
    by (simp add: build_mixed_batch_def Let_def tk_def [symmetric])
  moreover have "\<not> has_verify_ready_drafts sch" by (simp add: has_verify_ready_drafts_def assms(2))
  moreover have "seq_id s \<in> item_seq_id ` set its" using imageI [OF head, of item_seq_id] live(6) by simp
  ultimately show ?thesis by (simp add: step_def)
qed

theorem idle_scheduler_makes_progress_witness:
  "\<exists>b sch'. step toy_hash 0 toy_start = (Inr b, sch') \<and> 1 \<in> set (batch_seq_ids b)"
proof -
  have w: "waiting toy_start = [toy_request, new_sequence 2 [5, 6] 2]" and r: "running toy_start = []"
    by (simp_all add: toy_start_def sched_step_def enqueue_def toy_scheduler_def)
  have p: "alloc_plan toy_hash None 2 toy_request = [(Some (chain_hash toy_hash None 2 toy_request 1), [5, 6]), (None, [7])]"
    by code_simp
  have f: "total_len toy_request = 3" "seq_id toy_request = 1" "num_blocks_needed 2 toy_request = 2"
    by (simp_all add: toy_request_def with_eos_def new_sequence_def total_len_def num_blocks_needed_def div_ceil_def)
  show ?thesis
    using idle_scheduler_makes_progress [OF toy_start_inv r w, of 0]
    by (simp add: f toy_start_config toy_config_def p plan_collision_free_def)
qed

end
