(* ===== verification/Realtime_State.thy ===== *)
theory Realtime_State
  imports Prelude
begin

text \<open>
  The state of one realtime voice session (\<open>src/rust/src/realtime/state.rs\<close>): the three phases it
  moves through (session, voice activity, response), the conversation, the sealed audio buffers, the
  consistency check the server runs after every change, and the transitions of the response phase.

  Task handles and the shared cells behind an \<open>Arc\<close> are addresses (\<^typ>\<open>nat\<close>); a float is the word
  of its bits, since the state only carries it; a text is the list of its code points, of which the
  model has those below 256, with the white space \<open>trim\<close> removes among them.
\<close>

section \<open>Times, epochs and identifiers\<close>

type_synonym f32 = "32 word"
type_synonym task = nat
type_synonym address = nat

text \<open>\<open>u64::saturating_add\<close> and \<open>u64::saturating_sub\<close>.\<close>

definition epoch_next :: "u64 \<Rightarrow> u64" where
  "epoch_next e = (if e = - 1 then - 1 else e + 1)"

definition saturating_sub_dur :: "u64 \<Rightarrow> u64 \<Rightarrow> u64" where
  "saturating_sub_dur m d = (if m < d then 0 else m - d)"

definition duration_ms :: "nat \<Rightarrow> nat \<Rightarrow> nat" where
  "duration_ms rate n = n * 1000 div rate"

lemma epoch_next_grows: "e \<noteq> - 1 \<Longrightarrow> e < epoch_next e"
proof -
  assume "e \<noteq> - 1"
  then have "1 + e \<noteq> 0" by (metis add_eq_0_iff)
  then have "unat (1 + e) = Suc (unat e)" by (rule unatSuc)
  then show ?thesis using \<open>e \<noteq> - 1\<close> by (simp add: epoch_next_def word_less_nat_alt add.commute)
qed

section \<open>Phases\<close>

datatype termination_reason =
    ClientClosed | IdleTimeout | TransportError | MaxDuration
  | InternalStateError | VadFailed | SttFailed | ModelLoadFailed

fun reason_str :: "termination_reason \<Rightarrow> string" where
  "reason_str ClientClosed = ''client_closed''"
| "reason_str IdleTimeout = ''idle_timeout''"
| "reason_str TransportError = ''transport_error''"
| "reason_str MaxDuration = ''max_duration''"
| "reason_str InternalStateError = ''internal_state_error''"
| "reason_str VadFailed = ''vad_failed''"
| "reason_str SttFailed = ''stt_failed''"
| "reason_str ModelLoadFailed = ''model_load_failed''"

datatype session_phase = Pending | Active u64 | Terminated termination_reason

fun session_is_active :: "session_phase \<Rightarrow> bool" where
  "session_is_active (Active _) = True"
| "session_is_active _ = False"

text \<open>Speaking carries the item and the time the speech began, Stopped also the time it ended.\<close>

datatype vad_phase = Silent | Speaking string u64 | Stopped string u64 u64

record stt_runner =
  stt_task :: task
  stt_shared :: address

record llm_runner =
  llm_task :: task
  llm_shared :: address
  llm_cap :: u32

text \<open>Identifier, item and epoch of the response; then what the phase adds.\<close>

datatype resp_phase =
    NoResponse
  | Predicted string string u64 f32 "stt_runner option" "llm_runner option"
  | Created string string u64
  | Streaming string string u64 address "u64 option"
  | Drain string string u64 address u64

fun resp_id :: "resp_phase \<Rightarrow> string option" where
  "resp_id NoResponse = None"
| "resp_id (Predicted i _ _ _ _ _) = Some i"
| "resp_id (Created i _ _) = Some i"
| "resp_id (Streaming i _ _ _ _) = Some i"
| "resp_id (Drain i _ _ _ _) = Some i"

fun resp_item_id :: "resp_phase \<Rightarrow> string option" where
  "resp_item_id NoResponse = None"
| "resp_item_id (Predicted _ i _ _ _ _) = Some i"
| "resp_item_id (Created _ i _) = Some i"
| "resp_item_id (Streaming _ i _ _ _) = Some i"
| "resp_item_id (Drain _ i _ _ _) = Some i"

fun resp_is_active :: "resp_phase \<Rightarrow> bool" where
  "resp_is_active NoResponse = False"
| "resp_is_active _ = True"

fun resp_is_predicted :: "resp_phase \<Rightarrow> bool" where
  "resp_is_predicted (Predicted _ _ _ _ _ _) = True"
| "resp_is_predicted _ = False"

fun resp_epoch :: "resp_phase \<Rightarrow> u64 option" where
  "resp_epoch NoResponse = None"
| "resp_epoch (Predicted _ _ e _ _ _) = Some e"
| "resp_epoch (Created _ _ e) = Some e"
| "resp_epoch (Streaming _ _ e _ _) = Some e"
| "resp_epoch (Drain _ _ e _ _) = Some e"

fun resp_played_ms :: "resp_phase \<Rightarrow> address option" where
  "resp_played_ms (Streaming _ _ _ c _) = Some c"
| "resp_played_ms (Drain _ _ _ c _) = Some c"
| "resp_played_ms _ = None"

fun phase_kind :: "resp_phase \<Rightarrow> string" where
  "phase_kind NoResponse = ''None''"
| "phase_kind (Predicted _ _ _ _ _ _) = ''Predicted''"
| "phase_kind (Created _ _ _) = ''Created''"
| "phase_kind (Streaming _ _ _ _ _) = ''Streaming''"
| "phase_kind (Drain _ _ _ _ _) = ''Drain''"

section \<open>Audio buffers\<close>

record open_buffer =
  ob_id :: string
  ob_audio :: "f32 list"
  ob_start_ms :: "u64 option"

record sealed_buffer =
  sb_item_id :: string
  sb_audio :: "f32 list"
  sb_start_ms :: u64
  sb_end_ms :: u64

definition open_buffer_new :: "string \<Rightarrow> open_buffer" where
  "open_buffer_new i = \<lparr>ob_id = i, ob_audio = [], ob_start_ms = None\<rparr>"

definition open_buffer_append :: "f32 list \<Rightarrow> open_buffer \<Rightarrow> open_buffer" where
  "open_buffer_append samples b = b\<lparr>ob_audio := ob_audio b @ samples\<rparr>"

definition seal :: "u64 \<Rightarrow> open_buffer \<Rightarrow> sealed_buffer" where
  "seal e b = \<lparr>sb_item_id = ob_id b, sb_audio = ob_audio b,
     sb_start_ms = (case ob_start_ms b of Some m \<Rightarrow> m | None \<Rightarrow> 0), sb_end_ms = e\<rparr>"

definition SEALED_BUFFER_RETENTION_COUNT :: nat where
  "SEALED_BUFFER_RETENTION_COUNT = 4"

section \<open>The conversation\<close>

datatype item_role = User | Assistant | System

fun role_str :: "item_role \<Rightarrow> string" where
  "role_str User = ''user''"
| "role_str Assistant = ''assistant''"
| "role_str System = ''system''"

definition role_parse :: "string \<Rightarrow> item_role option" where
  "role_parse s =
     (if s = ''user'' then Some User
      else if s = ''assistant'' then Some Assistant
      else if s = ''system'' then Some System
      else None)"

lemma role_parse_str: "role_parse s = Some r \<longleftrightarrow> role_str r = s"
  by (cases r) (auto simp: role_parse_def)

datatype item_status = InProgress | Completed | Incomplete

fun status_str :: "item_status \<Rightarrow> string" where
  "status_str InProgress = ''in_progress''"
| "status_str Completed = ''completed''"
| "status_str Incomplete = ''incomplete''"

datatype item_content =
    UserAudio "string option" "u64 option"
  | AssistantAudio string u64
  | Text string

record conversation_item =
  item_id :: string
  item_role :: item_role
  item_status :: item_status
  item_content :: item_content
  client_speakable :: bool

definition new_user_audio :: "string \<Rightarrow> conversation_item" where
  "new_user_audio i = \<lparr>item_id = i, item_role = User, item_status = InProgress,
     item_content = UserAudio None None, client_speakable = False\<rparr>"

definition new_assistant_audio :: "string \<Rightarrow> string \<Rightarrow> u64 \<Rightarrow> conversation_item" where
  "new_assistant_audio i t ms = \<lparr>item_id = i, item_role = Assistant, item_status = Completed,
     item_content = AssistantAudio t ms, client_speakable = False\<rparr>"

definition new_text :: "string \<Rightarrow> item_role \<Rightarrow> item_status \<Rightarrow> string \<Rightarrow> conversation_item" where
  "new_text i r st t = \<lparr>item_id = i, item_role = r, item_status = st,
     item_content = Text t, client_speakable = False\<rparr>"

definition item_transcript :: "conversation_item \<Rightarrow> string option" where
  "item_transcript it =
     (case item_content it of UserAudio t _ \<Rightarrow> t | AssistantAudio t _ \<Rightarrow> Some t | Text t \<Rightarrow> Some t)"

text \<open>The white space below code point 256; \<open>trim\<close> leaves nothing exactly of a text made of it.\<close>

definition is_whitespace :: "char \<Rightarrow> bool" where
  "is_whitespace c \<longleftrightarrow>
     (let n = of_char c :: nat in 9 \<le> n \<and> n \<le> 13 \<or> n = 32 \<or> n = 133 \<or> n = 160)"

definition trim :: "string \<Rightarrow> string" where
  "trim s = rev (dropWhile is_whitespace (rev (dropWhile is_whitespace s)))"

lemma dropWhile_rev_nil: "dropWhile P (rev xs) = [] \<longleftrightarrow> (\<forall>x\<in>set xs. P x)"
  by (simp add: dropWhile_eq_Nil_conv)

lemma trim_empty_iff: "trim s = [] \<longleftrightarrow> (\<forall>c\<in>set s. is_whitespace c)"
proof
  assume "trim s = []"
  then have "\<forall>c\<in>set (dropWhile is_whitespace s). is_whitespace c"
    by (simp add: trim_def dropWhile_rev_nil)
  moreover have "set s = set (takeWhile is_whitespace s) \<union> set (dropWhile is_whitespace s)"
    by (metis set_append takeWhile_dropWhile_id)
  ultimately show "\<forall>c\<in>set s. is_whitespace c"
    by (auto dest: set_takeWhileD)
qed (auto simp: trim_def dropWhile_rev_nil dest: set_dropWhileD)

section \<open>The session state\<close>

record response_runtime =
  rr_handle :: task
  rr_transcript :: address
  rr_wire_opened :: address

record pending_bargein =
  pb_item_id :: string
  pb_start_ms :: u64

record session_state =
  session :: session_phase
  vad :: vad_phase
  resp :: resp_phase
  instructions :: "string option"
  pc :: "address option"
  event_sink :: "address option"
  current_response :: "response_runtime option"
  last_epoch :: u64
  timeout_task :: "task option"
  commit_timer :: "task option"
  bargein_task :: "task option"
  pending_bargein :: "pending_bargein option"
  conversation :: "conversation_item list"
  current_speech_item :: "string option"
  sealed_buffers :: "sealed_buffer list"

definition session_default :: session_state where
  "session_default = \<lparr>session = Pending, vad = Silent, resp = NoResponse, instructions = None,
     pc = None, event_sink = None, current_response = None, last_epoch = 0, timeout_task = None,
     commit_timer = None, bargein_task = None, pending_bargein = None, conversation = [],
     current_speech_item = None, sealed_buffers = []\<rparr>"

text \<open>Storing replaces the buffer of the same item and drops the oldest ones beyond the limit.\<close>

function keep_newest :: "nat \<Rightarrow> 'a list \<Rightarrow> 'a list" where
  "keep_newest n xs = (if n < length xs then keep_newest n (tl xs) else xs)"
  by pat_completeness auto
termination by (relation "measure (\<lambda>(n, xs). length xs)") auto

declare keep_newest.simps [simp del]

lemma keep_newest_drop: "keep_newest n xs = drop (length xs - n) xs"
proof (induction n xs rule: keep_newest.induct)
  case (1 n xs)
  show ?case
  proof (cases "n < length xs")
    case True
    then have "keep_newest n xs = drop (length (tl xs) - n) (tl xs)"
      using 1 by (subst keep_newest.simps) simp
    also have "\<dots> = drop (length xs - n) xs"
      using True by (cases xs) (auto simp: Suc_diff_le less_Suc_eq_le)
    finally show ?thesis .
  qed (subst keep_newest.simps, simp)
qed

definition store_sealed_buffer :: "sealed_buffer \<Rightarrow> session_state \<Rightarrow> session_state" where
  "store_sealed_buffer b st = st\<lparr>sealed_buffers :=
     keep_newest SEALED_BUFFER_RETENTION_COUNT
       (filter (\<lambda>c. sb_item_id c \<noteq> sb_item_id b) (sealed_buffers st) @ [b])\<rparr>"

definition drop_sealed_buffer :: "string \<Rightarrow> session_state \<Rightarrow> bool \<times> session_state" where
  "drop_sealed_buffer i st =
     (let kept = filter (\<lambda>c. sb_item_id c \<noteq> i) (sealed_buffers st) in
      (length (sealed_buffers st) \<noteq> length kept, st\<lparr>sealed_buffers := kept\<rparr>))"

definition find_sealed_buffer :: "string \<Rightarrow> session_state \<Rightarrow> sealed_buffer option" where
  "find_sealed_buffer i st = find (\<lambda>c. sb_item_id c = i) (sealed_buffers st)"

section \<open>What a response is made from\<close>

datatype response_source =
    Speak nat string
  | SpeakUnavailable string
  | Generate string

definition select_response_source ::
  "conversation_item list \<Rightarrow> bool \<Rightarrow> string option \<Rightarrow> response_source" where
  "select_response_source conv response_has_input speak_item_id =
     (case speak_item_id of
        Some want \<Rightarrow>
          if response_has_input
          then SpeakUnavailable ''response.speak_item_id cannot be combined with response.input''
          else (case position (\<lambda>i. item_id i = want) conv of
            None \<Rightarrow> SpeakUnavailable ''response.speak_item_id names no item in this conversation''
          | Some index \<Rightarrow>
              (let item = conv ! index;
                   txt = (case item_transcript item of Some t \<Rightarrow> t | None \<Rightarrow> []) in
               if item_role item \<noteq> Assistant
               then SpeakUnavailable ''response.speak_item_id must name an assistant message''
               else if \<not> client_speakable item
               then SpeakUnavailable
                 ''that item was not created by this client, or has already been spoken''
               else if trim txt = []
               then SpeakUnavailable ''response.speak_item_id names an item with no text to speak''
               else Speak index txt))
      | None \<Rightarrow>
          Generate (case find (\<lambda>i. item_role i = User) (rev conv) of
            None \<Rightarrow> []
          | Some i \<Rightarrow> (case item_transcript i of Some t \<Rightarrow> t | None \<Rightarrow> [])))"

text \<open>The item a cancelled response had been speaking keeps only what was heard.\<close>

definition truncate_item :: "u64 \<Rightarrow> string \<Rightarrow> conversation_item \<Rightarrow> conversation_item" where
  "truncate_item played t it =
     (case item_content it of
        AssistantAudio _ ms \<Rightarrow>
          it\<lparr>item_status := Incomplete, item_content := AssistantAudio t (min ms played)\<rparr>
      | _ \<Rightarrow> it\<lparr>item_status := Incomplete, item_content := AssistantAudio t played\<rparr>)"

definition apply_truncate_to_conversation ::
  "string \<Rightarrow> u64 \<Rightarrow> string \<Rightarrow> conversation_item list \<Rightarrow> conversation_item list" where
  "apply_truncate_to_conversation i played t conv =
     (case position (\<lambda>it. item_id it = i) conv of
        Some k \<Rightarrow> conv[k := truncate_item played t (conv ! k)]
      | None \<Rightarrow> conv @ [(new_assistant_audio i t played)\<lparr>item_status := Incomplete\<rparr>])"

section \<open>The consistency check\<close>

datatype violation =
    SpeakingWithActiveResponse
  | StoppedWithoutEnd
  | DrainWithoutPlannedMs
  | EpochRegression u64 u64
  | SealedBufferAppend
  | ResponseRuntimeMismatch
  | IllegalRespTransition string string
  | EmptyResponseId
  | RotationBeforeCommit string
  | ConvHasVoiced string

text \<open>A response on the wire: created, streaming or draining, but not merely predicted.\<close>

fun resp_on_wire :: "resp_phase \<Rightarrow> bool" where
  "resp_on_wire (Created _ _ _) = True"
| "resp_on_wire (Streaming _ _ _ _ _) = True"
| "resp_on_wire (Drain _ _ _ _ _) = True"
| "resp_on_wire _ = False"

fun is_speaking :: "vad_phase \<Rightarrow> bool" where
  "is_speaking (Speaking _ _) = True"
| "is_speaking _ = False"

definition check_invariants ::
  "session_phase \<Rightarrow> vad_phase \<Rightarrow> resp_phase \<Rightarrow> violation + unit" where
  "check_invariants se v r =
     (case se of Terminated _ \<Rightarrow> Inr ()
      | _ \<Rightarrow>
        if is_speaking v \<and> resp_on_wire r then Inl SpeakingWithActiveResponse
        else (case v of
            Stopped _ a e \<Rightarrow> if e < a then Inl StoppedWithoutEnd else Inr ()
          | _ \<Rightarrow> Inr ()))"

definition runtime_mismatch :: "resp_phase \<Rightarrow> response_runtime option \<Rightarrow> bool" where
  "runtime_mismatch r rt \<longleftrightarrow> r = NoResponse \<and> rt \<noteq> None \<or> resp_on_wire r \<and> rt = None"

definition being_voiced :: "string \<Rightarrow> conversation_item \<Rightarrow> bool" where
  "being_voiced i it \<longleftrightarrow> item_id it = i \<and> item_role it = User \<and> item_status it = InProgress"

definition check_state :: "session_state \<Rightarrow> violation + unit" where
  "check_state st =
     (case check_invariants (session st) (vad st) (resp st) of
        Inl v \<Rightarrow> Inl v
      | Inr _ \<Rightarrow>
        if runtime_mismatch (resp st) (current_response st) then Inl ResponseRuntimeMismatch
        else if resp_on_wire (resp st) \<and>
            (case resp_id (resp st) of Some i \<Rightarrow> i = [] | None \<Rightarrow> True) then Inl EmptyResponseId
        else (case vad st of
            Stopped i _ _ \<Rightarrow>
              if find_sealed_buffer i st \<noteq> None then Inl (RotationBeforeCommit i) else Inr ()
          | Speaking i _ \<Rightarrow>
              if list_ex (being_voiced i) (conversation st) then Inl (ConvHasVoiced i) else Inr ()
          | Silent \<Rightarrow> Inr ()))"

section \<open>Events to the client\<close>

text \<open>\<open>ResponseGate::open\<close>: nothing is said of a response that is only predicted.\<close>

definition gate_open :: "resp_phase \<Rightarrow> unit option" where
  "gate_open r = (if resp_is_predicted r then None else Some ())"

datatype topic = SessionTopic | ItemTopic | BufferTopic | ResponseTopic | ErrorTopic | OtherTopic

definition starts_with :: "string \<Rightarrow> string \<Rightarrow> bool" where
  "starts_with s p \<longleftrightarrow> take (length p) s = p"

definition classify :: "string \<Rightarrow> topic" where
  "classify ty =
     (if starts_with ty ''response.'' then ResponseTopic
      else if starts_with ty ''session.'' \<or> starts_with ty ''rate_limits.'' then SessionTopic
      else if starts_with ty ''conversation.item.'' then ItemTopic
      else if starts_with ty ''input_audio_buffer.'' \<or> starts_with ty ''output_audio_buffer.''
      then BufferTopic
      else if ty = ''error'' then ErrorTopic
      else OtherTopic)"

section \<open>Transitions of the response phase\<close>

text \<open>Each returns its result and the state it leaves, also when the final check fails.\<close>

definition checked :: "'a \<Rightarrow> session_state \<Rightarrow> (violation + 'a) \<times> session_state" where
  "checked x st = (case check_state st of Inl v \<Rightarrow> (Inl v, st) | Inr _ \<Rightarrow> (Inr x, st))"

definition resp_admit :: "session_state \<Rightarrow> violation + unit" where
  "resp_admit st =
     (if resp st \<noteq> NoResponse \<or> current_response st \<noteq> None
      then Inl (IllegalRespTransition (phase_kind (resp st)) ''Created'')
      else if is_speaking (vad st) then Inl SpeakingWithActiveResponse
      else Inr ())"

definition resp_create_from_none ::
  "string \<Rightarrow> string \<Rightarrow> response_runtime \<Rightarrow> session_state \<Rightarrow> (violation + u64) \<times> session_state" where
  "resp_create_from_none i it rt st =
     (case resp_admit st of
        Inl v \<Rightarrow> (Inl v, st)
      | Inr _ \<Rightarrow>
          (let epoch = epoch_next (last_epoch st) in
           checked epoch (st\<lparr>last_epoch := epoch, resp := Created i it epoch, current_response := Some rt\<rparr>)))"

definition resp_start_predicted_with_llm ::
  "string \<Rightarrow> string \<Rightarrow> f32 \<Rightarrow> stt_runner option \<Rightarrow> llm_runner option \<Rightarrow> session_state \<Rightarrow>
   (violation + u64) \<times> session_state" where
  "resp_start_predicted_with_llm i it score runner llm st =
     (if resp st \<noteq> NoResponse
      then (Inl (IllegalRespTransition (phase_kind (resp st)) ''Predicted''), st)
      else if is_speaking (vad st) then (Inl SpeakingWithActiveResponse, st)
      else (let epoch = epoch_next (last_epoch st) in
        checked epoch (st\<lparr>last_epoch := epoch, resp := Predicted i it epoch score runner llm\<rparr>)))"

definition resp_start_predicted ::
  "string \<Rightarrow> string \<Rightarrow> f32 \<Rightarrow> stt_runner option \<Rightarrow> session_state \<Rightarrow> (violation + u64) \<times> session_state" where
  "resp_start_predicted i it score runner = resp_start_predicted_with_llm i it score runner None"

definition resp_promote_predicted_to_created ::
  "response_runtime \<Rightarrow> session_state \<Rightarrow>
   (violation + string \<times> string \<times> u64 \<times> stt_runner option \<times> llm_runner option) \<times> session_state" where
  "resp_promote_predicted_to_created rt st =
     (case resp st of
        Predicted i it e _ runner llm \<Rightarrow>
          checked (i, it, e, runner, llm) (st\<lparr>resp := Created i it e, current_response := Some rt\<rparr>)
      | other \<Rightarrow> (Inl (IllegalRespTransition (phase_kind other) ''Created (from Predicted)''), st))"

definition resp_advance_to_streaming ::
  "address \<Rightarrow> session_state \<Rightarrow> (violation + unit) \<times> session_state" where
  "resp_advance_to_streaming played st =
     (case resp st of
        Created i it e \<Rightarrow> checked () (st\<lparr>resp := Streaming i it e played None\<rparr>)
      | other \<Rightarrow> (Inl (IllegalRespTransition (phase_kind other) ''Streaming''), st))"

definition resp_drain :: "u64 \<Rightarrow> session_state \<Rightarrow> (violation + unit) \<times> session_state" where
  "resp_drain planned st =
     (case resp st of
        Streaming i it e played _ \<Rightarrow> checked () (st\<lparr>resp := Drain i it e played planned\<rparr>)
      | other \<Rightarrow> (Inl (IllegalRespTransition (phase_kind other) ''Drain''), st))"

definition resp_retire_to_none ::
  "session_state \<Rightarrow> (violation + response_runtime option) \<times> session_state" where
  "resp_retire_to_none st =
     checked (current_response st) (st\<lparr>resp := NoResponse, current_response := None\<rparr>)"

definition resp_retire_predicted_full ::
  "session_state \<Rightarrow> (violation + stt_runner option \<times> llm_runner option) \<times> session_state" where
  "resp_retire_predicted_full st =
     (case resp st of
        Predicted _ _ _ _ runner llm \<Rightarrow> checked (runner, llm) (st\<lparr>resp := NoResponse\<rparr>)
      | other \<Rightarrow> (Inl (IllegalRespTransition (phase_kind other) ''None (from Predicted)''), st))"

definition resp_retire_predicted ::
  "session_state \<Rightarrow> (violation + stt_runner option) \<times> session_state" where
  "resp_retire_predicted st =
     (case resp_retire_predicted_full st of (r, st') \<Rightarrow> (map_sum id fst r, st'))"

end
