(* ===== verification/Realtime_Session.thy ===== *)
theory Realtime_Session
  imports Realtime_State
begin

text \<open>
  The operations of a realtime session on its shared state (\<open>src/rust/src/realtime/session.rs\<close>,
  \<open>pipeline.rs\<close>, \<open>eou_eager.rs\<close>). The state sits behind one mutex and many tasks work on it
  concurrently; each definition here is one critical section, from \<open>lock\<close> to the release of the guard.
  The sections of one handler can be separated by sections of other tasks, so a session is any sequence
  of the events at the end of this theory. A section that ends with \<open>check_or_react\<close> runs
  \<^const>\<open>check_state\<close> and ends the session on a violation.
\<close>

section \<open>Connection and life time\<close>

definition attach_peer_connection :: "address \<Rightarrow> session_state \<Rightarrow> session_state" where
  "attach_peer_connection p st = st\<lparr>pc := Some p\<rparr>"

definition attach_sink :: "address \<Rightarrow> session_state \<Rightarrow> session_state" where
  "attach_sink k st = st\<lparr>event_sink := Some k\<rparr>"

definition activate :: "u64 \<Rightarrow> session_state \<Rightarrow> session_state" where
  "activate now_ms st = (if session st = Pending then st\<lparr>session := Active now_ms\<rparr> else st)"

definition terminate_with :: "termination_reason \<Rightarrow> session_state \<Rightarrow> session_state" where
  "terminate_with reason st =
     (case session st of Terminated _ \<Rightarrow> st | _ \<Rightarrow> st\<lparr>session := Terminated reason\<rparr>)"

text \<open>These return the task that has to be aborted.\<close>

definition set_timeout_task :: "task \<Rightarrow> session_state \<Rightarrow> task option \<times> session_state" where
  "set_timeout_task h st = (timeout_task st, st\<lparr>timeout_task := Some h\<rparr>)"

definition abort_timeout_task :: "session_state \<Rightarrow> task option \<times> session_state" where
  "abort_timeout_task st = (timeout_task st, st\<lparr>timeout_task := None\<rparr>)"

text \<open>\<open>compute_remaining_timeout_ms\<close>: both subtractions and the product saturate.\<close>

definition remaining_timeout_ms :: "u64 \<Rightarrow> u64 \<Rightarrow> u64 \<Rightarrow> u64" where
  "remaining_timeout_ms new_secs created_at_ms now_ms =
     (let elapsed_ms = saturating_sub_dur now_ms created_at_ms;
          total_ms = (if unat new_secs * 1000 < 2 ^ 64 then new_secs * 1000 else - 1) in
      saturating_sub_dur total_ms elapsed_ms)"

definition set_instructions :: "string option \<Rightarrow> session_state \<Rightarrow> session_state" where
  "set_instructions i st = st\<lparr>instructions := i\<rparr>"

section \<open>Voice activity\<close>

text \<open>What a client's commit of the input buffer does.\<close>

datatype commit_action = RejectEmpty | Force

fun commit_action_of :: "vad_phase \<Rightarrow> commit_action" where
  "commit_action_of Silent = RejectEmpty"
| "commit_action_of (Speaking _ _) = Force"
| "commit_action_of (Stopped _ _ _) = Force"

definition set_current_speech_item :: "string option \<Rightarrow> session_state \<Rightarrow> session_state" where
  "set_current_speech_item i st = st\<lparr>current_speech_item := i\<rparr>"

definition reconcile_turn_detection_none ::
  "u64 \<Rightarrow> session_state \<Rightarrow> task option \<times> session_state" where
  "reconcile_turn_detection_none now_ms st =
     (let st1 = (case vad st of
          Speaking i a \<Rightarrow> st\<lparr>vad := Stopped i a (max now_ms a)\<rparr> | _ \<Rightarrow> st) in
      (commit_timer st1, st1\<lparr>commit_timer := None\<rparr>))"

definition clear_input_audio_buffer :: "session_state \<Rightarrow> task option \<times> session_state" where
  "clear_input_audio_buffer st =
     (let st1 = (if vad st \<noteq> Silent then st\<lparr>vad := Silent\<rparr> else st) in
      (commit_timer st1, st1\<lparr>commit_timer := None\<rparr>))"

text \<open>The last section of \<open>commit_bargein\<close>, and the two sections of a \<open>SpeechCommitted\<close> event.\<close>

definition start_speaking :: "string \<Rightarrow> u64 \<Rightarrow> session_state \<Rightarrow> session_state" where
  "start_speaking i a st = st\<lparr>vad := Speaking i a\<rparr>"

definition stop_speaking :: "string \<Rightarrow> u64 \<Rightarrow> session_state \<Rightarrow> session_state" where
  "stop_speaking i e st =
     (let a = (case vad st of Speaking _ a \<Rightarrow> a | Stopped _ a _ \<Rightarrow> a | Silent \<Rightarrow> 0) in
      st\<lparr>vad := Stopped i a e\<rparr>)"

definition reject_short_speech :: "session_state \<Rightarrow> session_state" where
  "reject_short_speech st = (case vad st of Stopped _ _ _ \<Rightarrow> st\<lparr>vad := Silent\<rparr> | _ \<Rightarrow> st)"

text \<open>A barge-in that waits for its delay.\<close>

definition set_pending_bargein ::
  "pending_bargein \<Rightarrow> task \<Rightarrow> session_state \<Rightarrow> task option \<times> session_state" where
  "set_pending_bargein p h st =
     (bargein_task st, st\<lparr>bargein_task := Some h, pending_bargein := Some p\<rparr>)"

definition take_pending_bargein_if ::
  "string \<Rightarrow> session_state \<Rightarrow> pending_bargein option \<times> session_state" where
  "take_pending_bargein_if i st =
     (case pending_bargein st of
        Some p \<Rightarrow>
          if pb_item_id p = i then (Some p, st\<lparr>pending_bargein := None, bargein_task := None\<rparr>)
          else (None, st)
      | None \<Rightarrow> (None, st))"

definition clear_pending_bargein_for_suppression ::
  "string \<Rightarrow> session_state \<Rightarrow> bool \<times> session_state" where
  "clear_pending_bargein_for_suppression i st =
     (case pending_bargein st of
        Some p \<Rightarrow>
          if pb_item_id p = i then (True, st\<lparr>pending_bargein := None, bargein_task := None\<rparr>)
          else (False, st)
      | None \<Rightarrow> (False, st))"

definition install_commit_timer :: "task \<Rightarrow> session_state \<Rightarrow> task option \<times> session_state" where
  "install_commit_timer h st = (commit_timer st, st\<lparr>commit_timer := Some h\<rparr>)"

definition cancel_commit_timer :: "session_state \<Rightarrow> bool \<times> session_state" where
  "cancel_commit_timer st = (commit_timer st \<noteq> None, st\<lparr>commit_timer := None\<rparr>)"

definition clear_commit_timer :: "session_state \<Rightarrow> session_state" where
  "clear_commit_timer st = st\<lparr>commit_timer := None\<rparr>"

section \<open>Conversation items\<close>

text \<open>\<open>iter_mut().find(|i| i.id == id)\<close> with an update of what was found.\<close>

definition update_item ::
  "string \<Rightarrow> (conversation_item \<Rightarrow> conversation_item) \<Rightarrow> session_state \<Rightarrow> session_state" where
  "update_item i f st =
     (case position (\<lambda>it. item_id it = i) (conversation st) of
        Some k \<Rightarrow> st\<lparr>conversation := (conversation st)[k := f (conversation st ! k)]\<rparr>
      | None \<Rightarrow> st)"

definition client_item :: "string \<Rightarrow> item_role \<Rightarrow> string \<Rightarrow> conversation_item" where
  "client_item i r t =
     (let item = new_text i r Completed t in
      item\<lparr>client_speakable := (r = Assistant \<and>
        trim (case item_transcript item of Some t' \<Rightarrow> t' | None \<Rightarrow> []) \<noteq> [])\<rparr>)"

definition item_create :: "string \<Rightarrow> item_role \<Rightarrow> string \<Rightarrow> session_state \<Rightarrow> session_state" where
  "item_create i r t st = st\<lparr>conversation := conversation st @ [client_item i r t]\<rparr>"

definition item_delete :: "string \<Rightarrow> session_state \<Rightarrow> bool \<times> session_state" where
  "item_delete i st =
     (case position (\<lambda>it. item_id it = i) (conversation st) of
        Some k \<Rightarrow> (True, st\<lparr>conversation := remove_at k (conversation st)\<rparr>)
      | None \<Rightarrow> (False, st))"

datatype truncate_error = NotFound | NotAssistantAudio

definition item_truncate ::
  "string \<Rightarrow> u64 \<Rightarrow> session_state \<Rightarrow> (truncate_error + u64 \<times> string) \<times> session_state" where
  "item_truncate i requested st =
     (case position (\<lambda>it. item_id it = i) (conversation st) of
        None \<Rightarrow> (Inl NotFound, st)
      | Some k \<Rightarrow>
          (let item = conversation st ! k in
           case item_content item of
             AssistantAudio t ms \<Rightarrow>
               if item_role item = Assistant
               then (let clamped = min requested ms in
                 (Inr (clamped, t),
                  st\<lparr>conversation := (conversation st)
                     [k := item\<lparr>item_content := AssistantAudio t clamped\<rparr>]\<rparr>))
               else (Inl NotAssistantAudio, st)
           | _ \<Rightarrow> (Inl NotAssistantAudio, st)))"

definition complete_item :: "string \<Rightarrow> conversation_item \<Rightarrow> conversation_item" where
  "complete_item t it =
     (case item_content it of
        UserAudio _ e \<Rightarrow> it\<lparr>item_status := Completed, item_content := UserAudio (Some t) e\<rparr>
      | _ \<Rightarrow> it\<lparr>item_status := Completed\<rparr>)"

definition complete_user_item_transcript :: "string \<Rightarrow> string \<Rightarrow> session_state \<Rightarrow> session_state" where
  "complete_user_item_transcript i t = update_item i (complete_item t)"

definition mark_user_item_incomplete :: "string \<Rightarrow> session_state \<Rightarrow> session_state" where
  "mark_user_item_incomplete i = update_item i (\<lambda>it. it\<lparr>item_status := Incomplete\<rparr>)"

text \<open>What the language model and the end-of-utterance classifier read of the conversation.\<close>

definition spoken_lines :: "conversation_item list \<Rightarrow> (item_role \<times> string) list" where
  "spoken_lines items = concat (map (\<lambda>it. case item_transcript it of
       None \<Rightarrow> [] | Some t \<Rightarrow> if t = [] then [] else [(item_role it, t)]) items)"

definition build_chat_messages :: "string option \<Rightarrow> session_state \<Rightarrow> (string \<times> string) list" where
  "build_chat_messages instr st =
     (case instr of Some s \<Rightarrow> if s = [] then [] else [(''system'', s)] | None \<Rightarrow> [])
       @ map (\<lambda>(r, t). (role_str r, t)) (spoken_lines (conversation st))"

fun join_lines :: "string list \<Rightarrow> string" where
  "join_lines [] = []"
| "join_lines [l] = l"
| "join_lines (l # ls) = l @ CHR 0x0A # join_lines ls"

definition build_eou_context :: "nat \<Rightarrow> session_state \<Rightarrow> string" where
  "build_eou_context k st =
     (let start = length (conversation st) - k in
      join_lines (map (\<lambda>(r, t). role_str r @ '': '' @ t) (spoken_lines (drop start (conversation st)))))"

section \<open>Responses\<close>

text \<open>\<open>spawn_response_lane\<close>; the created phase is left even when the check of
  \<open>resp_create_from_none\<close> fails, since its result is ignored.\<close>

definition spawn_response_lane ::
  "string \<Rightarrow> string \<Rightarrow> response_runtime \<Rightarrow> session_state \<Rightarrow> (violation + unit) \<times> session_state" where
  "spawn_response_lane i it rt st =
     (case resp_admit st of
        Inl v \<Rightarrow> (Inl v, st)
      | Inr _ \<Rightarrow> (Inr (), snd (resp_create_from_none i it rt st)))"

text \<open>Code, message and parameter of a refused \<open>response.create\<close>.\<close>

type_synonym refusal = "string \<times> string \<times> string option"

definition ALREADY_ACTIVE :: refusal where
  "ALREADY_ACTIVE = (''response_already_active'', ''a response is already active'', None)"

definition start_requested_response ::
  "string \<Rightarrow> string \<Rightarrow> response_runtime \<Rightarrow> bool \<Rightarrow> string option \<Rightarrow> session_state \<Rightarrow>
   (refusal + unit) \<times> session_state" where
  "start_requested_response fresh_resp fresh_item rt response_has_input speak_item_id st =
     (let admitted = resp_admit st in
      case admitted of
        Inl (IllegalRespTransition _ _) \<Rightarrow> (Inl ALREADY_ACTIVE, st)
      | _ \<Rightarrow>
        (case select_response_source (conversation st) response_has_input speak_item_id of
           SpeakUnavailable reason \<Rightarrow>
             (Inl (''invalid_request_error'', reason, Some ''response.speak_item_id''), st)
         | source \<Rightarrow>
           (case admitted of
              Inl _ \<Rightarrow> (Inl (''invalid_request_error'',
                ''cannot create a response while input speech is active'', None), st)
            | Inr _ \<Rightarrow>
              (case source of
                 Generate prompt \<Rightarrow>
                   if prompt = []
                   then (Inl (''invalid_request_error'',
                     ''no user message in conversation to respond to'', None), st)
                   else (case spawn_response_lane fresh_resp fresh_item rt st of
                       (Inl _, st') \<Rightarrow> (Inl ALREADY_ACTIVE, st') | (Inr _, st') \<Rightarrow> (Inr (), st'))
               | Speak index txt \<Rightarrow>
                   (let item = conversation st ! index;
                        st1 = st\<lparr>conversation := (conversation st)
                          [index := item\<lparr>client_speakable := False\<rparr>]\<rparr> in
                    case spawn_response_lane fresh_resp (item_id item) rt st1 of
                      (Inl _, st') \<Rightarrow> (Inl ALREADY_ACTIVE, st') | (Inr _, st') \<Rightarrow> (Inr (), st'))
               | SpeakUnavailable _ \<Rightarrow> (Inl ALREADY_ACTIVE, st)))))"

text \<open>\<open>emit\<close> and \<open>emit_event\<close>: the sink an event of this type goes to, if it goes anywhere.\<close>

definition emit_sink :: "string \<Rightarrow> session_state \<Rightarrow> address option" where
  "emit_sink ty st =
     (if classify ty = ResponseTopic \<and> resp_is_predicted (resp st) then None else event_sink st)"

definition announce_response :: "string \<Rightarrow> session_state \<Rightarrow> bool" where
  "announce_response i st \<longleftrightarrow> resp_id (resp st) = Some i"

definition mark_streaming :: "string \<Rightarrow> address \<Rightarrow> session_state \<Rightarrow> session_state" where
  "mark_streaming i played st =
     (case resp st of
        Created rid _ _ \<Rightarrow> if rid = i then snd (resp_advance_to_streaming played st) else st
      | _ \<Rightarrow> st)"

definition close_response ::
  "string \<Rightarrow> conversation_item option \<Rightarrow> session_state \<Rightarrow> bool \<times> session_state" where
  "close_response i item st =
     (if resp_id (resp st) \<noteq> Some i then (False, st)
      else (let st1 = snd (resp_retire_to_none st) in
        (True, st1\<lparr>conversation := conversation st1 @ (case item of Some it \<Rightarrow> [it] | None \<Rightarrow> [])\<rparr>)))"

definition clear_response_if_matches :: "string \<Rightarrow> session_state \<Rightarrow> session_state" where
  "clear_response_if_matches i st =
     (if resp_id (resp st) = Some i then snd (resp_retire_to_none st)
      else if resp st = NoResponse \<and> current_response st \<noteq> None then st\<lparr>current_response := None\<rparr>
      else st)"

text \<open>Cancelling takes the runtime and retires the response in one section; \<open>played\<close> reads the shared
  cell. The snapshot is completed afterwards from the runtime that was taken.\<close>

definition cancel_current_response ::
  "(address \<Rightarrow> u64) \<Rightarrow> session_state \<Rightarrow>
   (response_runtime option \<times> string option \<times> string option \<times> u64) \<times> session_state" where
  "cancel_current_response played st =
     ((current_response st, resp_id (resp st), resp_item_id (resp st),
       case resp_played_ms (resp st) of Some c \<Rightarrow> played c | None \<Rightarrow> 0),
      st\<lparr>current_response := None, resp := NoResponse\<rparr>)"

record cancelled_snapshot =
  cs_response_id :: string
  cs_item_id :: string
  cs_played_ms :: u64
  cs_transcript :: string
  cs_wire_opened :: bool

definition snapshot_of ::
  "(address \<Rightarrow> string) \<Rightarrow> (address \<Rightarrow> bool) \<Rightarrow>
   response_runtime option \<times> string option \<times> string option \<times> u64 \<Rightarrow> cancelled_snapshot option" where
  "snapshot_of txt opened = (\<lambda>(rt, i, it, ms).
     case (rt, i, it) of
       (Some r, Some rid, Some iid) \<Rightarrow>
         Some \<lparr>cs_response_id = rid, cs_item_id = iid, cs_played_ms = ms,
           cs_transcript = txt (rr_transcript r), cs_wire_opened = opened (rr_wire_opened r)\<rparr>
     | _ \<Rightarrow> None)"

definition apply_truncate_to_assistant_item :: "cancelled_snapshot \<Rightarrow> session_state \<Rightarrow> session_state" where
  "apply_truncate_to_assistant_item snap st = st\<lparr>conversation :=
     apply_truncate_to_conversation (cs_item_id snap) (cs_played_ms snap) (cs_transcript snap)
       (conversation st)\<rparr>"

definition rollback_predicted_if_any ::
  "session_state \<Rightarrow> (stt_runner option \<times> llm_runner option) \<times> session_state" where
  "rollback_predicted_if_any st =
     (if \<not> resp_is_predicted (resp st) then ((None, None), st)
      else (case resp_retire_predicted_full st of
          (Inr runners, st') \<Rightarrow> (runners, st') | (Inl _, st') \<Rightarrow> ((None, None), st')))"

definition eager_dispatch ::
  "string \<Rightarrow> string \<Rightarrow> f32 \<Rightarrow> stt_runner \<Rightarrow> llm_runner option \<Rightarrow> session_state \<Rightarrow> bool \<times> session_state" where
  "eager_dispatch i it score runner llm st =
     (if resp st = NoResponse
      then (case resp_start_predicted_with_llm i it score (Some runner) llm st of
          (Inr _, st') \<Rightarrow> (True, st') | (Inl _, st') \<Rightarrow> (False, st'))
      else (False, st))"

section \<open>The end of a turn\<close>

text \<open>The sections of \<open>commit_after_eou\<close>: record the user's item and leave the stopped phase; later
  start a response if the session does not hold one.\<close>

definition commit_user_turn ::
  "string \<Rightarrow> session_state \<Rightarrow> (stt_runner option \<times> llm_runner option \<times> string option) \<times> session_state" where
  "commit_user_turn i st =
     (let st1 = (if list_ex (\<lambda>it. item_id it = i) (conversation st) then st
                 else st\<lparr>conversation := conversation st @ [new_user_audio i]\<rparr>);
          st2 = reject_short_speech st1;
          wire = (if resp_is_predicted (resp st2) then resp_id (resp st2) else None);
          q = rollback_predicted_if_any st2 in
      ((fst (fst q), snd (fst q), wire), snd q))"

definition promoted_turn_wire_id :: "bool \<Rightarrow> string option \<Rightarrow> string \<Rightarrow> string" where
  "promoted_turn_wire_id promoted predicted fresh =
     (case (promoted, predicted) of (True, Some i) \<Rightarrow> i | _ \<Rightarrow> fresh)"

definition respond_to_turn ::
  "bool \<Rightarrow> string \<Rightarrow> string \<Rightarrow> response_runtime \<Rightarrow> session_state \<Rightarrow> bool \<times> session_state" where
  "respond_to_turn wants_response i it rt st =
     (if wants_response \<and> resp_admit st = Inr ()
      then (True, snd (spawn_response_lane i it rt st)) else (False, st))"

end
