(* ===== verification/Realtime_Inv.thy ===== *)
theory Realtime_Inv
  imports Realtime_Session
begin

text \<open>
  The critical sections of a realtime session as the events of one state machine, the invariant of that
  machine, and the proof that each event keeps it under the guard the event has to meet.
\<close>

section \<open>Events\<close>

datatype rt_event =
    AttachPeer address
  | AttachSink address
  | Activate u64
  | Terminate termination_reason
  | SetTimeout task
  | AbortTimeout
  | SetInstructions "string option"
  | SetSpeechItem "string option"
  | ReconcileNone u64
  | ClearInput
  | StartSpeaking string u64
  | StopSpeaking string u64
  | RejectShort
  | SetBargein pending_bargein task
  | TakeBargein string
  | SuppressBargein string
  | InstallTimer task
  | CancelTimer
  | ClearTimer
  | ItemCreate string item_role string
  | ItemDelete string
  | ItemTruncate string u64
  | CompleteItem string string
  | MarkIncomplete string
  | RequestResponse string string response_runtime bool "string option"
  | MarkStreaming string address
  | DrainResponse u64
  | PromotePredicted response_runtime
  | CloseResponse string "conversation_item option"
  | ClearResponse string
  | CancelResponse "address \<Rightarrow> u64"
  | TruncateSpoken cancelled_snapshot
  | Rollback
  | EagerDispatch string string f32 stt_runner "llm_runner option"
  | CommitTurn string
  | RespondToTurn bool string string response_runtime
  | StoreSealed sealed_buffer
  | DropSealed string

fun rt_step :: "rt_event \<Rightarrow> session_state \<Rightarrow> session_state" where
  "rt_step (AttachPeer p) st = attach_peer_connection p st"
| "rt_step (AttachSink k) st = attach_sink k st"
| "rt_step (Activate now_ms) st = activate now_ms st"
| "rt_step (Terminate r) st = terminate_with r st"
| "rt_step (SetTimeout h) st = snd (set_timeout_task h st)"
| "rt_step AbortTimeout st = snd (abort_timeout_task st)"
| "rt_step (SetInstructions i) st = set_instructions i st"
| "rt_step (SetSpeechItem i) st = set_current_speech_item i st"
| "rt_step (ReconcileNone now_ms) st = snd (reconcile_turn_detection_none now_ms st)"
| "rt_step ClearInput st = snd (clear_input_audio_buffer st)"
| "rt_step (StartSpeaking i a) st = start_speaking i a st"
| "rt_step (StopSpeaking i e) st = stop_speaking i e st"
| "rt_step RejectShort st = reject_short_speech st"
| "rt_step (SetBargein p h) st = snd (set_pending_bargein p h st)"
| "rt_step (TakeBargein i) st = snd (take_pending_bargein_if i st)"
| "rt_step (SuppressBargein i) st = snd (clear_pending_bargein_for_suppression i st)"
| "rt_step (InstallTimer h) st = snd (install_commit_timer h st)"
| "rt_step CancelTimer st = snd (cancel_commit_timer st)"
| "rt_step ClearTimer st = clear_commit_timer st"
| "rt_step (ItemCreate i r t) st = item_create i r t st"
| "rt_step (ItemDelete i) st = snd (item_delete i st)"
| "rt_step (ItemTruncate i ms) st = snd (item_truncate i ms st)"
| "rt_step (CompleteItem i t) st = complete_user_item_transcript i t st"
| "rt_step (MarkIncomplete i) st = mark_user_item_incomplete i st"
| "rt_step (RequestResponse i it rt inp speak) st = snd (start_requested_response i it rt inp speak st)"
| "rt_step (MarkStreaming i c) st = mark_streaming i c st"
| "rt_step (DrainResponse ms) st = snd (resp_drain ms st)"
| "rt_step (PromotePredicted rt) st = snd (resp_promote_predicted_to_created rt st)"
| "rt_step (CloseResponse i it) st = snd (close_response i it st)"
| "rt_step (ClearResponse i) st = clear_response_if_matches i st"
| "rt_step (CancelResponse played) st = snd (cancel_current_response played st)"
| "rt_step (TruncateSpoken snap) st = apply_truncate_to_assistant_item snap st"
| "rt_step Rollback st = snd (rollback_predicted_if_any st)"
| "rt_step (EagerDispatch i it score runner llm) st = snd (eager_dispatch i it score runner llm st)"
| "rt_step (CommitTurn i) st = snd (commit_user_turn i st)"
| "rt_step (RespondToTurn w i it rt) st = snd (respond_to_turn w i it rt st)"
| "rt_step (StoreSealed b) st = store_sealed_buffer b st"
| "rt_step (DropSealed i) st = snd (drop_sealed_buffer i st)"

section \<open>The consistency check as a predicate\<close>

fun terminated :: "session_phase \<Rightarrow> bool" where
  "terminated (Terminated _) = True"
| "terminated _ = False"

fun stops_in_order :: "vad_phase \<Rightarrow> bool" where
  "stops_in_order (Stopped _ a e) = (a \<le> e)"
| "stops_in_order _ = True"

fun vad_item :: "vad_phase \<Rightarrow> string option" where
  "vad_item Silent = None"
| "vad_item (Speaking i _) = Some i"
| "vad_item (Stopped i _ _) = Some i"

definition vad_fresh :: "session_state \<Rightarrow> bool" where
  "vad_fresh st \<longleftrightarrow>
     (case vad st of
        Silent \<Rightarrow> True
      | Speaking i _ \<Rightarrow> \<not> list_ex (being_voiced i) (conversation st)
      | Stopped i _ _ \<Rightarrow> i \<notin> sb_item_id ` set (sealed_buffers st))"

definition wire_ok :: "session_state \<Rightarrow> bool" where
  "wire_ok st \<longleftrightarrow>
     (terminated (session st) \<or> \<not> (is_speaking (vad st) \<and> resp_on_wire (resp st)) \<and> stops_in_order (vad st)) \<and>
     \<not> runtime_mismatch (resp st) (current_response st) \<and>
     (resp_on_wire (resp st) \<longrightarrow> resp_id (resp st) \<noteq> Some [])"

lemma find_sealed_None: "find_sealed_buffer i st = None \<longleftrightarrow> i \<notin> sb_item_id ` set (sealed_buffers st)"
  by (auto simp: find_sealed_buffer_def find_None_iff)

lemma resp_on_wire_id: "resp_on_wire r \<Longrightarrow> \<exists>i. resp_id r = Some i"
  by (cases r) auto

lemma check_invariants_iff:
  "check_invariants se v r = Inr () \<longleftrightarrow>
     terminated se \<or> \<not> (is_speaking v \<and> resp_on_wire r) \<and> stops_in_order v"
  by (cases se; cases v) (auto simp: check_invariants_def)

lemma check_invariants_unit: "check_invariants se v r = Inr u \<longleftrightarrow> check_invariants se v r = Inr ()"
  by (cases u) simp

lemma check_state_iff: "check_state st = Inr () \<longleftrightarrow> wire_ok st \<and> vad_fresh st"
proof (cases "check_invariants (session st) (vad st) (resp st)")
  case (Inl v)
  then have "\<not> wire_ok st" using check_invariants_iff [of "session st" "vad st" "resp st"]
    by (auto simp: wire_ok_def)
  then show ?thesis using Inl by (simp add: check_state_def)
next
  case (Inr u)
  then have "terminated (session st) \<or> \<not> (is_speaking (vad st) \<and> resp_on_wire (resp st)) \<and> stops_in_order (vad st)"
    using check_invariants_iff [of "session st" "vad st" "resp st"] by (cases u) simp
  then show ?thesis using Inr resp_on_wire_id [of "resp st"]
    by (cases "vad st")
      (auto simp: check_state_def wire_ok_def vad_fresh_def find_sealed_None split: option.splits)
qed

lemma snd_checked [simp]: "snd (checked x st) = st"
  by (simp add: checked_def split: sum.splits)

section \<open>The invariant\<close>

definition sealed_ok :: "sealed_buffer list \<Rightarrow> bool" where
  "sealed_ok bs \<longleftrightarrow> length bs \<le> SEALED_BUFFER_RETENTION_COUNT \<and> distinct (map sb_item_id bs)"

definition epoch_ok :: "session_state \<Rightarrow> bool" where
  "epoch_ok st \<longleftrightarrow> resp_epoch (resp st) \<in> {None, Some (last_epoch st)} \<and>
     (resp_is_predicted (resp st) \<longrightarrow> current_response st = None)"

definition rt_inv :: "session_state \<Rightarrow> bool" where
  "rt_inv st \<longleftrightarrow> check_state st = Inr () \<and> sealed_ok (sealed_buffers st) \<and> epoch_ok st"

text \<open>What an event needs of the state it meets: voice activity may not begin to speak while a response
  is on the wire, an item that is spoken or stopped is not an older one, time does not run backwards
  within an utterance, and identifiers are not empty.\<close>

fun rt_guard :: "rt_event \<Rightarrow> session_state \<Rightarrow> bool" where
  "rt_guard (StartSpeaking i a) st =
     (\<not> resp_on_wire (resp st) \<and> \<not> list_ex (being_voiced i) (conversation st))"
| "rt_guard (StopSpeaking i e) st =
     ((case vad st of Speaking _ a \<Rightarrow> a \<le> e | Stopped _ a _ \<Rightarrow> a \<le> e | Silent \<Rightarrow> True) \<and>
      i \<notin> sb_item_id ` set (sealed_buffers st))"
| "rt_guard (ReconcileNone _) st =
     (case vad st of Speaking i _ \<Rightarrow> i \<notin> sb_item_id ` set (sealed_buffers st) | _ \<Rightarrow> True)"
| "rt_guard (CommitTurn i) st = (\<not> is_speaking (vad st) \<or> vad_item (vad st) \<noteq> Some i)"
| "rt_guard (StoreSealed b) st = (is_speaking (vad st) \<or> vad_item (vad st) \<noteq> Some (sb_item_id b))"
| "rt_guard (CloseResponse i it) st = (case it of None \<Rightarrow> True | Some x \<Rightarrow> item_role x \<noteq> User)"
| "rt_guard (RequestResponse i it rt inp speak) st = (i \<noteq> [])"
| "rt_guard (RespondToTurn w i it rt) st = (i \<noteq> [])"
| "rt_guard (PromotePredicted rt) st = (resp_id (resp st) \<noteq> Some [] \<and> \<not> is_speaking (vad st))"
| "rt_guard _ st = True"

text \<open>The parts of the invariant only depend on a few fields.\<close>

definition rt_core :: "session_state \<Rightarrow> bool" where
  "rt_core st \<longleftrightarrow> wire_ok st \<and> epoch_ok st"

lemma rt_inv_iff: "rt_inv st \<longleftrightarrow> rt_core st \<and> vad_fresh st \<and> sealed_ok (sealed_buffers st)"
  by (auto simp: rt_inv_def rt_core_def check_state_iff)

lemmas rt_core_defs = rt_core_def wire_ok_def epoch_ok_def runtime_mismatch_def

lemma rt_core_frame:
  "rt_core st \<Longrightarrow> session st' = session st \<Longrightarrow> vad st' = vad st \<Longrightarrow> resp st' = resp st \<Longrightarrow>
   current_response st' = current_response st \<Longrightarrow> last_epoch st' = last_epoch st \<Longrightarrow> rt_core st'"
  by (simp add: rt_core_defs)

lemma vad_fresh_frame:
  "vad_fresh st \<Longrightarrow> vad st' = vad st \<Longrightarrow> set (conversation st') \<subseteq> set (conversation st) \<union> N \<Longrightarrow>
   \<forall>i. \<forall>x\<in>N. vad_item (vad st) = Some i \<longrightarrow> is_speaking (vad st) \<longrightarrow> \<not> being_voiced i x \<Longrightarrow>
   set (sealed_buffers st') \<subseteq> set (sealed_buffers st) \<Longrightarrow> vad_fresh st'"
  by (fastforce simp: vad_fresh_def list_ex_iff split: vad_phase.splits)

text \<open>A change of the response phase, and a change of the conversation.\<close>

lemma rt_inv_resp:
  assumes "rt_inv st" "session st' = session st" "vad st' = vad st" "conversation st' = conversation st"
    "sealed_buffers st' = sealed_buffers st" and "rt_core st'"
  shows "rt_inv st'"
  using assms by (auto simp: rt_inv_iff vad_fresh_def split: vad_phase.splits)

lemma rt_inv_conversation:
  assumes "rt_inv st" and "set conv \<subseteq> set (conversation st) \<union> N"
    and "\<And>x i. x \<in> N \<Longrightarrow> vad_item (vad st) = Some i \<Longrightarrow> is_speaking (vad st) \<Longrightarrow> \<not> being_voiced i x"
  shows "rt_inv (st\<lparr>conversation := conv\<rparr>)"
  using assms vad_fresh_frame [of st "st\<lparr>conversation := conv\<rparr>" N]
  by (auto simp: rt_inv_iff intro: rt_core_frame)

lemma rt_inv_update:
  assumes "rt_inv st" and "position p (conversation st) = Some k"
    and "\<And>i. vad_item (vad st) = Some i \<Longrightarrow> is_speaking (vad st) \<Longrightarrow>
       being_voiced i (f (conversation st ! k)) \<Longrightarrow> being_voiced i (conversation st ! k)"
  shows "rt_inv (st\<lparr>conversation := (conversation st)[k := f (conversation st ! k)]\<rparr>)"
proof (rule rt_inv_conversation [OF assms(1), of _ "{f (conversation st ! k)}"])
  show "set ((conversation st)[k := f (conversation st ! k)]) \<subseteq> set (conversation st) \<union> {f (conversation st ! k)}"
    using set_update_subset_insert by fastforce
next
  fix x i
  assume x: "x \<in> {f (conversation st ! k)}" and v: "vad_item (vad st) = Some i" "is_speaking (vad st)"
  have "\<not> being_voiced i (conversation st ! k)"
    using assms(1) v nth_mem [OF position_less [OF assms(2)]]
    by (cases "vad st") (auto simp: rt_inv_iff vad_fresh_def list_ex_iff)
  then show "\<not> being_voiced i x" using x v assms(3) by auto
qed

lemma rt_inv_update_item:
  assumes "rt_inv st"
    and "\<And>i x. being_voiced i (f x) \<Longrightarrow> being_voiced i x"
  shows "rt_inv (update_item j f st)"
  using assms rt_inv_update [of st "\<lambda>it. item_id it = j"]
  by (auto simp: update_item_def split: option.splits)

lemma rt_inv_admit:
  assumes "rt_inv st" and "resp_admit st = Inr ()" and "i \<noteq> []"
  shows "rt_inv (snd (resp_create_from_none i it rt st))"
  by (rule rt_inv_resp [OF assms(1)])
    (use assms in \<open>auto simp: resp_create_from_none_def Let_def resp_admit_def rt_inv_iff rt_core_defs
      split: if_splits\<close>)

lemma rt_inv_spawn:
  assumes "rt_inv st" and "i \<noteq> []"
  shows "rt_inv (snd (spawn_response_lane i it rt st))"
  using assms rt_inv_admit by (auto simp: spawn_response_lane_def split: sum.splits)

lemma rt_inv_retire: "rt_inv st \<Longrightarrow> rt_inv (snd (resp_retire_to_none st))"
  by (rule rt_inv_resp [of st]) (auto simp: resp_retire_to_none_def rt_inv_iff rt_core_defs)


lemma rt_inv_clear: "rt_inv st \<Longrightarrow> rt_inv (st\<lparr>current_response := None, resp := NoResponse\<rparr>)"
  by (rule rt_inv_resp [of st]) (auto simp: rt_inv_iff rt_core_defs)

lemma rt_inv_rollback: "rt_inv st \<Longrightarrow> rt_inv (snd (rollback_predicted_if_any st))"
proof (cases "resp st")
  case (Predicted i it e sc runner llm)
  assume inv: "rt_inv st"
  have "snd (rollback_predicted_if_any st) = st\<lparr>resp := NoResponse\<rparr>"
    using Predicted
    by (simp add: rollback_predicted_if_any_def resp_retire_predicted_full_def checked_def
        split: sum.splits prod.splits)
  then show ?thesis
    using rt_inv_resp [OF inv, of "st\<lparr>resp := NoResponse\<rparr>"] inv Predicted
    by (simp add: rt_inv_iff rt_core_defs)
qed (simp_all add: rollback_predicted_if_any_def)

lemma rt_inv_advance:
  assumes "rt_inv st" and "resp st = Created i it e"
  shows "rt_inv (st\<lparr>resp := Streaming i it e c None\<rparr>)"
  by (rule rt_inv_resp [OF assms(1)]) (use assms in \<open>simp_all add: rt_inv_iff rt_core_defs\<close>)

lemma rt_inv_to_drain:
  assumes "rt_inv st" and "resp st = Streaming i it e c p"
  shows "rt_inv (st\<lparr>resp := Drain i it e c ms\<rparr>)"
  by (rule rt_inv_resp [OF assms(1)]) (use assms in \<open>simp_all add: rt_inv_iff rt_core_defs\<close>)

lemma rt_inv_promote:
  assumes "rt_inv st" and "resp st = Predicted i it e sc runner llm" and "i \<noteq> []"
    and "\<not> is_speaking (vad st)"
  shows "rt_inv (st\<lparr>resp := Created i it e, current_response := Some rt\<rparr>)"
  by (rule rt_inv_resp [OF assms(1)]) (use assms in \<open>auto simp: rt_inv_iff rt_core_defs\<close>)

lemma eager_dispatch_state:
  "snd (eager_dispatch i it score runner llm st) =
     (if resp st = NoResponse \<and> \<not> is_speaking (vad st)
      then st\<lparr>last_epoch := epoch_next (last_epoch st),
        resp := Predicted i it (epoch_next (last_epoch st)) score (Some runner) llm\<rparr>
      else st)"
  by (simp add: eager_dispatch_def resp_start_predicted_with_llm_def checked_def Let_def split: sum.splits)

lemma rt_inv_eager: "rt_inv st \<Longrightarrow> rt_inv (snd (eager_dispatch i it score runner llm st))"
proof (cases "resp st = NoResponse \<and> \<not> is_speaking (vad st)")
  case True
  assume inv: "rt_inv st"
  then show ?thesis
    by (rule rt_inv_resp) (use inv True in \<open>auto simp: eager_dispatch_state rt_inv_iff rt_core_defs\<close>)
qed (simp only: eager_dispatch_state if_False)

lemma rt_inv_vad:
  assumes "rt_inv st" and "terminated (session st) \<or> \<not> (is_speaking v \<and> resp_on_wire (resp st)) \<and> stops_in_order v"
    and "vad_fresh (st\<lparr>vad := v\<rparr>)"
  shows "rt_inv (st\<lparr>vad := v\<rparr>)"
  using assms by (auto simp: rt_inv_iff rt_core_defs)

lemma rt_inv_frame:
  assumes "rt_inv st" and "vad st' = vad st" and "session st' = session st" and "resp st' = resp st"
    and "current_response st' = current_response st" and "last_epoch st' = last_epoch st"
    and "conversation st' = conversation st" and "sealed_buffers st' = sealed_buffers st"
  shows "rt_inv st'"
  using assms by (auto simp: rt_inv_iff rt_core_defs vad_fresh_def split: vad_phase.splits)

lemma rt_inv_reject: "rt_inv st \<Longrightarrow> rt_inv (reject_short_speech st)"
  using rt_inv_vad [of st Silent] by (auto simp: reject_short_speech_def vad_fresh_def split: vad_phase.splits)

lemma voiced_facts [simp]:
  "\<not> being_voiced i (client_item j r t)" "being_voiced i (complete_item t x) = False"
  "being_voiced i (x\<lparr>item_status := Incomplete\<rparr>) = False"
  "being_voiced i (truncate_item p t x) = False"
  "being_voiced i ((new_assistant_audio j t p)\<lparr>item_status := Incomplete\<rparr>) = False"
  "being_voiced i (new_user_audio j) \<longleftrightarrow> j = i"
  "being_voiced i (x\<lparr>client_speakable := b\<rparr>) = being_voiced i x"
  "being_voiced i (x\<lparr>item_content := c\<rparr>) = being_voiced i x"
  by (auto simp: being_voiced_def client_item_def new_text_def complete_item_def truncate_item_def
      new_assistant_audio_def new_user_audio_def Let_def split: item_content.splits)

lemma rt_inv_commit_turn:
  assumes "rt_inv st" and "\<not> is_speaking (vad st) \<or> vad_item (vad st) \<noteq> Some i"
  shows "rt_inv (snd (commit_user_turn i st))"
proof -
  have "rt_inv (st\<lparr>conversation := conversation st @ [new_user_audio i]\<rparr>)"
    by (rule rt_inv_conversation [OF assms(1), of _ "{new_user_audio i}"]) (use assms(2) in auto)
  then show ?thesis using assms(1)
    by (auto simp: commit_user_turn_def Let_def intro!: rt_inv_rollback rt_inv_reject)
qed

lemma rt_inv_request:
  assumes "rt_inv st" and "i \<noteq> []"
  shows "rt_inv (snd (start_requested_response i it rt inp speak st))"
proof -
  have "rt_inv (st\<lparr>conversation := (conversation st)[k := (conversation st ! k)\<lparr>client_speakable := False\<rparr>]\<rparr>)"
    if sel: "select_response_source (conversation st) inp speak = Speak k t" for k t
  proof -
    obtain want where "position (\<lambda>i. item_id i = want) (conversation st) = Some k"
      using sel by (auto simp: select_response_source_def Let_def split: option.splits if_splits)
    from rt_inv_update [OF assms(1) this, of "\<lambda>x. x\<lparr>client_speakable := False\<rparr>"] show ?thesis by simp
  qed
  note spoken = this
  have snd_case: "snd (case q of (Inl _, s') \<Rightarrow> (Inl e, s') | (Inr _, s') \<Rightarrow> (Inr (), s')) = snd q"
    for q :: "(violation + unit) \<times> session_state" and e :: refusal
    by (auto split: prod.splits sum.splits)
  show ?thesis
    unfolding start_requested_response_def Let_def
    by (auto split: sum.split violation.split response_source.split simp: snd_case assms
        intro!: rt_inv_spawn spoken)
qed

lemma keep_newest_sealed:
  assumes "sealed_ok bs"
  shows "sealed_ok (keep_newest SEALED_BUFFER_RETENTION_COUNT
     (filter (\<lambda>c. sb_item_id c \<noteq> sb_item_id b) bs @ [b]))" (is "sealed_ok (keep_newest ?n ?new)")
proof -
  have "distinct (map sb_item_id ?new)"
    using assms by (auto simp: sealed_ok_def distinct_map_filter)
  then have "distinct (map sb_item_id (drop (length ?new - ?n) ?new))"
    by (metis distinct_drop drop_map)
  then show ?thesis by (simp add: keep_newest_drop sealed_ok_def)
qed

lemma rt_inv_store:
  assumes "rt_inv st" and "is_speaking (vad st) \<or> vad_item (vad st) \<noteq> Some (sb_item_id b)"
  shows "rt_inv (store_sealed_buffer b st)"
proof -
  have "set (sealed_buffers (store_sealed_buffer b st)) \<subseteq> insert b (set (sealed_buffers st))"
    by (auto simp: store_sealed_buffer_def keep_newest_drop dest!: in_set_dropD)
  then have "vad_fresh (store_sealed_buffer b st)"
    using assms by (cases "vad st") (auto simp: rt_inv_iff vad_fresh_def store_sealed_buffer_def)
  then show ?thesis
    using assms(1) keep_newest_sealed [of "sealed_buffers st" b]
    by (auto simp: rt_inv_iff store_sealed_buffer_def intro: rt_core_frame)
qed

lemma rt_inv_drop:
  assumes "rt_inv st"
  shows "rt_inv (snd (drop_sealed_buffer i st))"
proof -
  have "vad_fresh (snd (drop_sealed_buffer i st))"
    by (rule vad_fresh_frame [of st _ "{}"]) (use assms in \<open>auto simp: rt_inv_iff drop_sealed_buffer_def Let_def\<close>)
  then show ?thesis
    using assms
    by (auto simp: rt_inv_iff drop_sealed_buffer_def Let_def sealed_ok_def distinct_map_filter
        intro: rt_core_frame le_trans [OF length_filter_le])
qed


section \<open>Every event keeps the invariant\<close>

lemmas plain_sections =
  attach_peer_connection_def attach_sink_def set_timeout_task_def abort_timeout_task_def
  set_instructions_def set_current_speech_item_def set_pending_bargein_def install_commit_timer_def
  cancel_commit_timer_def clear_commit_timer_def

lemma rt_inv_session:
  "rt_inv st \<Longrightarrow> terminated (session st) \<longrightarrow> terminated se \<Longrightarrow> rt_inv (st\<lparr>session := se\<rparr>)"
  by (auto simp: rt_inv_iff rt_core_defs vad_fresh_def split: vad_phase.splits)

lemma rt_step_keeps:
  assumes inv: "rt_inv st" and g: "rt_guard e st"
  shows "rt_inv (rt_step e st)"
proof (cases e)
  case (Activate now_ms)
  then show ?thesis using inv by (auto simp: activate_def intro: rt_inv_session)
next
  case (Terminate r)
  then show ?thesis using inv
    by (auto simp: terminate_with_def intro: rt_inv_session split: session_phase.splits)
next
  case (ReconcileNone now_ms)
  have "rt_inv (case vad st of Speaking i a \<Rightarrow> st\<lparr>vad := Stopped i a (max now_ms a)\<rparr> | _ \<Rightarrow> st)"
    using inv g ReconcileNone
    by (auto split: vad_phase.splits intro!: rt_inv_vad simp: vad_fresh_def)
  then show ?thesis using ReconcileNone
    by (auto simp: reconcile_turn_detection_none_def Let_def intro: rt_inv_frame)
next
  case ClearInput
  have "rt_inv (if vad st \<noteq> Silent then st\<lparr>vad := Silent\<rparr> else st)"
    using inv by (auto intro!: rt_inv_vad simp: vad_fresh_def)
  then show ?thesis using ClearInput
    by (auto simp: clear_input_audio_buffer_def Let_def intro: rt_inv_frame)
next
  case (StartSpeaking i a)
  then show ?thesis using inv g
    by (auto simp: start_speaking_def vad_fresh_def intro!: rt_inv_vad)
next
  case (StopSpeaking i e)
  then show ?thesis using inv g
    by (auto simp: stop_speaking_def vad_fresh_def Let_def intro!: rt_inv_vad split: vad_phase.splits)
next
  case (ItemCreate i r t)
  then show ?thesis
    using rt_inv_conversation [OF inv, of _ "{client_item i r t}"] by (simp add: item_create_def)
next
  case (ItemDelete i)
  have "rt_inv (st\<lparr>conversation := remove_at k (conversation st)\<rparr>)" for k
    by (rule rt_inv_conversation [OF inv, of _ "{}"]) (use set_remove_at_subset [of k "conversation st"] in auto)
  then show ?thesis using ItemDelete inv by (auto simp: item_delete_def split: option.splits)
next
  case (ItemTruncate i ms)
  have "rt_inv (st\<lparr>conversation := (conversation st)[k := (conversation st ! k)\<lparr>item_content := c\<rparr>]\<rparr>)"
    if "position p (conversation st) = Some k" for p k c
    using rt_inv_update [OF inv that, of "\<lambda>x. x\<lparr>item_content := c\<rparr>"] by simp
  then show ?thesis using ItemTruncate inv
    by (auto simp: item_truncate_def Let_def split: option.splits item_content.splits)
next
  case (CompleteItem i t)
  then show ?thesis using rt_inv_update_item [OF inv, of "complete_item t" i]
    by (simp add: complete_user_item_transcript_def)
next
  case (MarkIncomplete i)
  then show ?thesis using rt_inv_update_item [OF inv, of "\<lambda>it. it\<lparr>item_status := Incomplete\<rparr>" i]
    by (simp add: mark_user_item_incomplete_def)
next
  case (RequestResponse i it rt inp speak)
  then show ?thesis using rt_inv_request [OF inv] g by simp
next
  case (MarkStreaming i c)
  then show ?thesis using inv rt_inv_advance
    by (cases "resp st") (auto simp: mark_streaming_def resp_advance_to_streaming_def)
next
  case (DrainResponse ms)
  then show ?thesis using inv rt_inv_to_drain
    by (cases "resp st") (auto simp: resp_drain_def)
next
  case (PromotePredicted rt)
  then show ?thesis using inv g rt_inv_promote
    by (cases "resp st") (auto simp: resp_promote_predicted_to_created_def)
next
  case (CloseResponse i it)
  have "rt_inv (st1\<lparr>conversation := conversation st1 @ (case it of Some x \<Rightarrow> [x] | None \<Rightarrow> [])\<rparr>)"
    if "st1 = snd (resp_retire_to_none st)" for st1
    by (rule rt_inv_conversation [of _ _ "set (case it of Some x \<Rightarrow> [x] | None \<Rightarrow> [])"])
      (use that rt_inv_retire [OF inv] g CloseResponse in \<open>auto simp: being_voiced_def split: option.splits\<close>)
  then show ?thesis using CloseResponse inv by (auto simp: close_response_def Let_def)
next
  case (ClearResponse i)
  have "\<not> (resp st = NoResponse \<and> current_response st \<noteq> None)"
    using inv by (auto simp: rt_inv_iff rt_core_defs)
  then show ?thesis using ClearResponse inv rt_inv_retire by (auto simp: clear_response_if_matches_def)
next
  case (CancelResponse played)
  then show ?thesis using rt_inv_clear [OF inv] by (simp add: cancel_current_response_def)
next
  case (TruncateSpoken snap)
  let ?i = "cs_item_id snap" and ?f = "truncate_item (cs_played_ms snap) (cs_transcript snap)"
  show ?thesis
  proof (cases "position (\<lambda>it. item_id it = ?i) (conversation st)")
    case None
    let ?new = "(new_assistant_audio ?i (cs_transcript snap) (cs_played_ms snap))\<lparr>item_status := Incomplete\<rparr>"
    show ?thesis using TruncateSpoken None rt_inv_conversation [OF inv, of _ "{?new}"]
      by (simp add: apply_truncate_to_assistant_item_def apply_truncate_to_conversation_def)
  next
    case (Some k)
    then show ?thesis using TruncateSpoken rt_inv_update [OF inv Some, of ?f]
      by (simp add: apply_truncate_to_assistant_item_def apply_truncate_to_conversation_def)
  qed
next
  case (RespondToTurn w i it rt)
  then show ?thesis using inv g rt_inv_spawn by (simp add: respond_to_turn_def)
next
  case (AttachPeer p)
  then show ?thesis by (simp add: plain_sections rt_inv_frame [OF inv])
next
  case (AttachSink k)
  then show ?thesis by (simp add: plain_sections rt_inv_frame [OF inv])
next
  case (SetTimeout h)
  then show ?thesis by (simp add: plain_sections rt_inv_frame [OF inv])
next
  case AbortTimeout
  then show ?thesis by (simp add: plain_sections rt_inv_frame [OF inv])
next
  case (SetInstructions i)
  then show ?thesis by (simp add: plain_sections rt_inv_frame [OF inv])
next
  case (SetSpeechItem i)
  then show ?thesis by (simp add: plain_sections rt_inv_frame [OF inv])
next
  case (SetBargein p h)
  then show ?thesis by (simp add: plain_sections rt_inv_frame [OF inv])
next
  case (InstallTimer h)
  then show ?thesis by (simp add: plain_sections rt_inv_frame [OF inv])
next
  case CancelTimer
  then show ?thesis by (simp add: plain_sections rt_inv_frame [OF inv])
next
  case ClearTimer
  then show ?thesis by (simp add: plain_sections rt_inv_frame [OF inv])
next
  case (TakeBargein i)
  then show ?thesis
    by (simp add: take_pending_bargein_if_def rt_inv_frame [OF inv] inv split: option.splits)
next
  case (SuppressBargein i)
  then show ?thesis
    by (simp add: clear_pending_bargein_for_suppression_def rt_inv_frame [OF inv] inv split: option.splits)
next
  case RejectShort
  then show ?thesis using g by (simp add: rt_inv_reject [OF inv])
next
  case Rollback
  then show ?thesis using g by (simp add: rt_inv_rollback [OF inv])
next
  case (EagerDispatch i it score runner llm)
  then show ?thesis using g by (simp add: rt_inv_eager [OF inv])
next
  case (CommitTurn i)
  then show ?thesis using g by (simp add: rt_inv_commit_turn [OF inv])
next
  case (StoreSealed b)
  then show ?thesis using g by (simp add: rt_inv_store [OF inv])
next
  case (DropSealed i)
  then show ?thesis using g by (simp add: rt_inv_drop [OF inv])
qed

interpretation rt: component rt_inv rt_guard rt_step
  by unfold_locales (rule rt_step_keeps)

end
