(* ===== verification/Realtime_Properties.thy ===== *)
theory Realtime_Properties
  imports Realtime_Inv
begin

text \<open>
  The properties of a realtime session: it stays consistent, its responses follow their life cycle, a
  client's text is spoken once, a cut-off answer keeps what was heard, and the window in which a
  barge-in can end the session.
\<close>

section \<open>The life cycle of a response\<close>


lemma resp_id_None [simp]: "resp_id r = None \<longleftrightarrow> r = NoResponse" "None = resp_id r \<longleftrightarrow> r = NoResponse"
  by (cases r; simp)+







lemma reject_frame [simp]:
  "resp (reject_short_speech st) = resp st" "last_epoch (reject_short_speech st) = last_epoch st"
  by (simp_all add: reject_short_speech_def split: vad_phase.splits)












section \<open>A concrete session\<close>

definition toy_runtime :: response_runtime where
  "toy_runtime = \<lparr>rr_handle = 7, rr_transcript = 1, rr_wire_opened = 2\<rparr>"

definition toy_session :: session_state where
  "toy_session = session_default\<lparr>session := Active 5,
     conversation := [new_text ''item_u'' User Completed ''hello'',
       client_item ''item_a'' Assistant ''good morning'']\<rparr>"

definition toy_turn :: "rt_event list" where
  "toy_turn =
     [StartSpeaking ''item_1'' 10, StopSpeaking ''item_1'' 20,
      EagerDispatch ''resp_p'' ''item_p'' 0 \<lparr>stt_task = 1, stt_shared = 2\<rparr> None,
      CommitTurn ''item_1'', RespondToTurn True ''resp_1'' ''item_2'' toy_runtime,
      StoreSealed \<lparr>sb_item_id = ''item_1'', sb_audio = [], sb_start_ms = 0, sb_end_ms = 10\<rparr>]"

lemmas rt_eval =
  toy_session_def toy_turn_def session_default_def toy_runtime_def rt_inv_def check_state_def
  check_invariants_def runtime_mismatch_def sealed_ok_def epoch_ok_def client_item_def new_text_def
  item_transcript_def start_speaking_def stop_speaking_def eager_dispatch_state commit_user_turn_def
  new_user_audio_def reject_short_speech_def rollback_predicted_if_any_def
  resp_retire_predicted_full_def checked_def respond_to_turn_def resp_admit_def
  spawn_response_lane_def resp_create_from_none_def epoch_next_def being_voiced_def
  find_sealed_buffer_def Let_def

lemma toy_session_inv: "rt_inv toy_session"
  by (simp add: rt_eval)



section \<open>Properties\<close>





text \<open>
  C13. A client's text is spoken once. When \<open>response.create\<close> with a \<open>speak_item_id\<close> is accepted, the item
  is an assistant message of the conversation with text to speak, the session was silent and held no
  response, the response that is created speaks that very item, and the same request on the conversation
  it leaves is refused because the item has been spoken.
\<close>

theorem client_text_spoken_once:
  assumes ok: "start_requested_response i it rt inp (Some want) st = (Inr (), st')"
  shows "\<exists>k. position (\<lambda>x. item_id x = want) (conversation st) = Some k \<and>
      item_role (conversation st ! k) = Assistant \<and> client_speakable (conversation st ! k) \<and>
      (\<exists>t. item_transcript (conversation st ! k) = Some t \<and> trim t \<noteq> []) \<and>
      resp st = NoResponse \<and> \<not> is_speaking (vad st) \<and>
      resp st' = Created i want (epoch_next (last_epoch st)) \<and> current_response st' = Some rt \<and>
      select_response_source (conversation st') inp (Some want) =
        SpeakUnavailable ''that item was not created by this client, or has already been spoken''"
proof -
  let ?sel = "select_response_source (conversation st) inp (Some want)"
  obtain k t where sel: "?sel = Speak k t"
    using ok by (cases ?sel)
      (auto simp: start_requested_response_def Let_def select_response_source_def
        split: sum.splits violation.splits option.splits if_splits)
  have k: "position (\<lambda>x. item_id x = want) (conversation st) = Some k"
      "item_role (conversation st ! k) = Assistant" "client_speakable (conversation st ! k)" "\<not> inp"
      "\<exists>t. item_transcript (conversation st ! k) = Some t \<and> trim t \<noteq> []"
    using sel by (auto simp: select_response_source_def Let_def trim_def split: option.splits if_splits)
  have adm: "resp_admit st = Inr ()"
    using ok sel by (auto simp: start_requested_response_def Let_def split: sum.splits violation.splits)
  let ?conv = "(conversation st)[k := (conversation st ! k)\<lparr>client_speakable := False\<rparr>]"
  have want: "item_id (conversation st ! k) = want" using position_holds [OF k(1)] .
  have "resp_admit (st\<lparr>conversation := ?conv\<rparr>) = resp_admit st" by (simp add: resp_admit_def)
  then have st': "st' = snd (resp_create_from_none i want rt (st\<lparr>conversation := ?conv\<rparr>))"
    using ok sel adm want
    by (auto simp: start_requested_response_def Let_def spawn_response_lane_def split: prod.splits sum.splits)
  have less: "k < length (conversation st)" using position_less [OF k(1)] .
  have "position (\<lambda>x. item_id x = want) ?conv = Some k"
    using k(1) want less
    by (intro position_update) simp_all
  then have "select_response_source ?conv inp (Some want) =
      SpeakUnavailable ''that item was not created by this client, or has already been spoken''"
    using k less by (simp add: select_response_source_def Let_def)
  then show ?thesis
    using k adm st'
    by (auto simp: resp_create_from_none_def resp_admit_def Let_def split: if_splits)
qed

theorem client_text_spoken_once_witness:
  "select_response_source
     (conversation (snd (start_requested_response ''r'' ''x'' toy_runtime False (Some ''item_a'') toy_session)))
     False (Some ''item_a'') =
   SpeakUnavailable ''that item was not created by this client, or has already been spoken''"
proof -
  define st' where "st' = snd (start_requested_response ''r'' ''x'' toy_runtime False (Some ''item_a'') toy_session)"
  have ws: "\<not> is_whitespace CHR ''g''" by (simp add: is_whitespace_def)
  have "trim ''good morning'' \<noteq> []" using ws by (simp add: trim_empty_iff)
  then have "start_requested_response ''r'' ''x'' toy_runtime False (Some ''item_a'') toy_session = (Inr (), st')"
    by (simp add: st'_def start_requested_response_def select_response_source_def rt_eval)
  from client_text_spoken_once [OF this] show ?thesis by (auto simp: st'_def)
qed

text \<open>
  A cut-off answer keeps exactly what was heard. Truncating the conversation leaves every item with
  another identifier where it was; the item of the answer exists afterwards, is incomplete, carries the
  transcript so far and at most the milliseconds that were played, never more than it had; and truncating
  again with the same figures changes nothing.
\<close>

theorem truncation_keeps_what_was_heard:
  fixes i t :: string and played :: u64 and conv :: "conversation_item list"
  defines "conv' \<equiv> apply_truncate_to_conversation i played t conv"
  shows "filter (\<lambda>x. item_id x \<noteq> i) conv' = filter (\<lambda>x. item_id x \<noteq> i) conv \<and>
    (\<exists>x ms. find (\<lambda>x. item_id x = i) conv' = Some x \<and> item_status x = Incomplete \<and>
       item_content x = AssistantAudio t ms \<and>
       ms = (case find (\<lambda>x. item_id x = i) conv of
           Some y \<Rightarrow> (case item_content y of AssistantAudio _ was \<Rightarrow> min was played | _ \<Rightarrow> played)
         | None \<Rightarrow> played)) \<and>
    apply_truncate_to_conversation i played t conv' = conv'"
proof (cases "position (\<lambda>x. item_id x = i) conv")
  case None
  let ?new = "(new_assistant_audio i t played)\<lparr>item_status := Incomplete\<rparr>"
  have fresh: "item_id x \<noteq> i" if "x \<in> set conv" for x using None that by (simp add: position_None_iff)
  have conv': "conv' = conv @ [?new]" using None by (simp add: conv'_def apply_truncate_to_conversation_def)
  have pos: "position (\<lambda>x. item_id x = i) (conv @ [?new]) = Some (length conv)"
    using fresh by (simp add: position_append_fresh new_assistant_audio_def)
  have "find (\<lambda>x. item_id x = i) conv = None" using fresh by (simp add: find_None_iff)
  moreover have "find (\<lambda>x. item_id x = i) (conv @ [?new]) = Some ?new"
    using position_find [of "conv @ [?new]" "\<lambda>x. item_id x = i"] pos by simp
  moreover have "truncate_item played t ?new = ?new"
    by (simp add: truncate_item_def new_assistant_audio_def)
  ultimately show ?thesis
    using pos by (simp add: conv' apply_truncate_to_conversation_def) (simp add: new_assistant_audio_def)
next
  case (Some k)
  let ?y = "truncate_item played t (conv ! k)"
  note k = position_less [OF Some] position_holds [OF Some]
  have id: "item_id ?y = item_id (conv ! k)"
    by (simp add: truncate_item_def split: item_content.splits)
  have conv': "conv' = conv[k := ?y]" using Some by (simp add: conv'_def apply_truncate_to_conversation_def)
  have pos: "position (\<lambda>x. item_id x = i) (conv[k := ?y]) = Some k"
    using Some k id by (intro position_update) simp_all
  have "find (\<lambda>x. item_id x = i) conv = Some (conv ! k)"
    using position_find [of conv "\<lambda>x. item_id x = i"] Some by simp
  moreover have "find (\<lambda>x. item_id x = i) (conv[k := ?y]) = Some ?y"
    using position_find [of "conv[k := ?y]" "\<lambda>x. item_id x = i"] pos k by simp
  moreover have "truncate_item played t ?y = ?y"
    by (simp add: truncate_item_def split: item_content.splits)
  moreover have "filter (\<lambda>x. item_id x \<noteq> i) (conv[k := ?y]) = filter (\<lambda>x. item_id x \<noteq> i) conv"
    using k id by (intro filter_update_both_out) simp_all
  ultimately show ?thesis
    using pos k
    by (simp add: conv' apply_truncate_to_conversation_def truncate_item_def split: item_content.split)
qed

text \<open>
  The window of a barge-in. A barge-in cancels the current response in one critical section and marks
  the user as speaking in a later one, without looking at the response again. Run back to back the two
  sections leave any session that was consistent in a consistent state. When a \<open>response.create\<close> is
  handled between them, it is admitted, and the second section then violates the rule that nobody speaks
  over a response, which ends the session with an internal state error.
\<close>

theorem bargein_window:
  assumes inv: "rt_inv st" and live: "\<not> terminated (session st)" and quiet: "\<not> is_speaking (vad st)"
    and "\<not> list_ex (being_voiced v) (conversation st)" and "i \<noteq> []"
    and "select_response_source (conversation st) False None = Generate prompt" and "prompt \<noteq> []"
  shows "check_state (run rt_step [CancelResponse played, StartSpeaking v a] st) = Inr () \<and>
    check_state (run rt_step
      [CancelResponse played, RequestResponse i it rt False None, StartSpeaking v a] st) =
      Inl SpeakingWithActiveResponse"
proof -
  let ?st1 = "rt_step (CancelResponse played) st"
  have guards: "guarded rt_guard rt_step [CancelResponse played, StartSpeaking v a] st"
    using assms(4) by (simp add: cancel_current_response_def)
  have "resp_admit ?st1 = Inr ()" using quiet by (simp add: cancel_current_response_def resp_admit_def)
  then have "resp (rt_step (RequestResponse i it rt False None) ?st1) = Created i it (epoch_next (last_epoch st))"
      "session (rt_step (RequestResponse i it rt False None) ?st1) = session st"
    using assms(6,7)
    by (auto simp: start_requested_response_def Let_def spawn_response_lane_def cancel_current_response_def
        resp_create_from_none_def split: prod.splits sum.splits)
  then have "check_state (start_speaking v a (rt_step (RequestResponse i it rt False None) ?st1)) =
      Inl SpeakingWithActiveResponse"
    using live by (cases "session st") (simp_all add: check_state_def check_invariants_def start_speaking_def)
  moreover have "check_state (run rt_step [CancelResponse played, StartSpeaking v a] st) = Inr ()"
    using rt.run_keeps [OF inv guards] by (simp add: rt_inv_def)
  ultimately show ?thesis by simp
qed

theorem bargein_window_witness:
  "check_state (run rt_step
     [CancelResponse (\<lambda>_. 0), RequestResponse ''r'' ''x'' toy_runtime False None, StartSpeaking ''v'' 3]
     toy_session) = Inl SpeakingWithActiveResponse"
  using bargein_window [OF toy_session_inv, of "''v''" "''r''" "''hello''" "\<lambda>_. 0" 3 "''x''" toy_runtime]
  by (simp add: toy_session_def session_default_def client_item_def new_text_def being_voiced_def
      select_response_source_def item_transcript_def Let_def)

end
