(* ===== verification/Json_Automaton.thy ===== *)
theory Json_Automaton
  imports Prelude
begin

text \<open>
  The byte automaton for an arbitrary JSON text (\<open>src/rust/crates/nv-grammar/src/json.rs\<close>): a lexer
  state, a counter, and a stack of open brackets kept as the bits of one 64-bit word. Bytes are written
  as their codes: 34 is the quote, 44 the comma, 58 the colon, 91 and 93 the square brackets, 92 the
  backslash, 123 and 125 the braces. The depth and the counter are bytes in the code; they stay below 65
  and 21 (\<open>json_wf\<close> in the theory Json_Language), so as natural numbers they never differ from it.
\<close>

datatype lex =
    Start | Val | ArrayFirst | ObjectFirst | Key | Colon | After
  | Str bool | Esc bool | Hex bool | Lit nat
  | Minus | Zero | LexInt | Dot | Frac | Exp | ExpSign | ExpInt

definition LITERALS :: "u8 list list" where
  "LITERALS = [[116, 114, 117, 101], [102, 97, 108, 115, 101], [110, 117, 108, 108]]"

definition NESTING_LIMIT :: nat where "NESTING_LIMIT = 64"
definition WHITESPACE_RUN_LIMIT :: nat where "WHITESPACE_RUN_LIMIT = 20"
definition INT_DIGITS_LIMIT :: nat where "INT_DIGITS_LIMIT = 20"
definition FRAC_DIGITS_LIMIT :: nat where "FRAC_DIGITS_LIMIT = 17"
definition EXP_DIGITS_LIMIT :: nat where "EXP_DIGITS_LIMIT = 4"

record json =
  object_only :: bool
  stack :: u64
  depth :: nat
  lex_state :: lex
  lex_n :: nat

datatype outcome = Next json | Done | DoneBeforeThisByte | Reject

definition json_start :: "bool \<Rightarrow> json" where
  "json_start o_only = \<lparr>object_only = o_only, stack = 0, depth = 0, lex_state = Start, lex_n = 0\<rparr>"

definition json_complete :: "json \<Rightarrow> bool" where
  "json_complete j \<longleftrightarrow> depth j = 0 \<and> lex_state j \<in> {Zero, LexInt, Frac, ExpInt}"

definition to_lex :: "lex \<Rightarrow> nat \<Rightarrow> json \<Rightarrow> outcome" where
  "to_lex l k j = Next (j\<lparr>lex_state := l, lex_n := k\<rparr>)"

definition top_is_object :: "json \<Rightarrow> bool" where
  "top_is_object j \<longleftrightarrow> depth j > 0 \<and> bit (stack j) (depth j - 1)"

definition value_done :: "json \<Rightarrow> outcome" where
  "value_done j = (if depth j = 0 then Done else to_lex After 0 j)"

definition open_bracket :: "bool \<Rightarrow> json \<Rightarrow> outcome" where
  "open_bracket obj j =
     (if depth j = NESTING_LIMIT then Reject
      else Next (j\<lparr>stack := (if obj then set_bit (depth j) (stack j) else unset_bit (depth j) (stack j)),
        depth := depth j + 1, lex_state := (if obj then ObjectFirst else ArrayFirst), lex_n := 0\<rparr>))"

definition close_bracket :: "bool \<Rightarrow> json \<Rightarrow> outcome" where
  "close_bracket obj j =
     (if depth j = 0 \<or> top_is_object j \<noteq> obj then Reject
      else value_done (j\<lparr>depth := depth j - 1\<rparr>))"

definition blank :: "u8 \<Rightarrow> json \<Rightarrow> outcome option" where
  "blank b j =
     (if b \<in> {32, 9, 10}
      then Some (if lex_n j < WHITESPACE_RUN_LIMIT then to_lex (lex_state j) (lex_n j + 1) j else Reject)
      else None)"

definition or_else :: "outcome option \<Rightarrow> outcome \<Rightarrow> outcome" where
  "or_else q s = (case q of Some x \<Rightarrow> x | None \<Rightarrow> s)"

definition read_value :: "u8 \<Rightarrow> json \<Rightarrow> outcome" where
  "read_value b j =
     (if b = 123 then open_bracket True j
      else if b = 91 then open_bracket False j
      else if b = 34 then to_lex (Str False) 0 j
      else if b = 45 then to_lex Minus 0 j
      else if b = 48 then to_lex Zero 1 j
      else if 49 \<le> b \<and> b \<le> 57 then to_lex LexInt 1 j
      else if b = 116 then to_lex (Lit 0) 1 j
      else if b = 102 then to_lex (Lit 1) 1 j
      else if b = 110 then to_lex (Lit 2) 1 j
      else Reject)"

definition read_string :: "bool \<Rightarrow> u8 \<Rightarrow> json \<Rightarrow> outcome" where
  "read_string key b j =
     (if lex_n j > 0
      then (if and b 0xC0 = 0x80 then to_lex (lex_state j) (lex_n j - 1) j else Reject)
      else if b = 34 \<and> key then to_lex Colon 0 j
      else if b = 34 then value_done j
      else if b = 92 then to_lex (Esc key) 0 j
      else if b \<le> 0x1F \<or> 0x80 \<le> b \<and> b \<le> 0xC1 \<or> 0xF5 \<le> b then Reject
      else if 0xC2 \<le> b \<and> b \<le> 0xDF then to_lex (lex_state j) 1 j
      else if 0xE0 \<le> b \<and> b \<le> 0xEF then to_lex (lex_state j) 2 j
      else if 0xF0 \<le> b \<and> b \<le> 0xF4 then to_lex (lex_state j) 3 j
      else to_lex (lex_state j) 0 j)"

definition is_digit :: "u8 \<Rightarrow> bool" where
  "is_digit b \<longleftrightarrow> 48 \<le> b \<and> b \<le> 57"

definition is_hexdigit :: "u8 \<Rightarrow> bool" where
  "is_hexdigit b \<longleftrightarrow> 48 \<le> b \<and> b \<le> 57 \<or> 65 \<le> b \<and> b \<le> 70 \<or> 97 \<le> b \<and> b \<le> 102"

text \<open>The case \<open>Lex::After\<close> of \<open>step\<close>, which the end of a number re-enters.\<close>

definition step_after :: "u8 \<Rightarrow> json \<Rightarrow> outcome" where
  "step_after b j = or_else (blank b j)
     (if b = 44 \<and> top_is_object j then to_lex Key 0 j
      else if b = 44 then to_lex Val 0 j
      else if b = 125 \<or> b = 93 then close_bracket (b = 125) j
      else Reject)"

definition number_end :: "u8 \<Rightarrow> json \<Rightarrow> outcome" where
  "number_end b j =
     (if depth j = 0 then DoneBeforeThisByte else step_after b (j\<lparr>lex_state := After, lex_n := 0\<rparr>))"

definition json_step :: "u8 \<Rightarrow> json \<Rightarrow> outcome" where
  "json_step b j =
     (let is_exp = (b = 101 \<or> b = 69) in
      case lex_state j of
        Start \<Rightarrow>
          if object_only j then (if b = 123 then open_bracket True j else Reject) else read_value b j
      | Val \<Rightarrow> or_else (blank b j) (read_value b j)
      | ArrayFirst \<Rightarrow> or_else (blank b j) (if b = 93 then close_bracket False j else read_value b j)
      | ObjectFirst \<Rightarrow> or_else (blank b j)
          (if b = 34 then to_lex (Str True) 0 j
           else if b = 125 then close_bracket True j
           else Reject)
      | Key \<Rightarrow> or_else (blank b j) (if b = 34 then to_lex (Str True) 0 j else Reject)
      | Colon \<Rightarrow> or_else (blank b j) (if b = 58 then to_lex Val 0 j else Reject)
      | After \<Rightarrow> step_after b j
      | Str key \<Rightarrow> read_string key b j
      | Esc key \<Rightarrow>
          if b \<in> {34, 92, 47, 98, 102, 110, 114, 116} then to_lex (Str key) 0 j
          else if b = 117 then to_lex (Hex key) 4 j
          else Reject
      | Hex key \<Rightarrow>
          if is_hexdigit b \<and> lex_n j = 1 then to_lex (Str key) 0 j
          else if is_hexdigit b then to_lex (lex_state j) (lex_n j - 1) j
          else Reject
      | Lit word \<Rightarrow>
          (let w = LITERALS ! word in
           if lex_n j < length w \<and> w ! lex_n j = b
           then (if lex_n j + 1 = length w then value_done j else to_lex (lex_state j) (lex_n j + 1) j)
           else Reject)
      | Minus \<Rightarrow>
          if b = 48 then to_lex Zero 1 j
          else if 49 \<le> b \<and> b \<le> 57 then to_lex LexInt 1 j
          else Reject
      | Zero \<Rightarrow>
          if b = 46 then to_lex Dot 0 j else if is_exp then to_lex Exp 0 j else number_end b j
      | LexInt \<Rightarrow>
          if b = 46 then to_lex Dot 0 j
          else if is_exp then to_lex Exp 0 j
          else if is_digit b \<and> lex_n j < INT_DIGITS_LIMIT then to_lex (lex_state j) (lex_n j + 1) j
          else number_end b j
      | Dot \<Rightarrow> if is_digit b then to_lex Frac 1 j else Reject
      | Frac \<Rightarrow>
          if is_exp then to_lex Exp 0 j
          else if is_digit b \<and> lex_n j < FRAC_DIGITS_LIMIT then to_lex (lex_state j) (lex_n j + 1) j
          else number_end b j
      | Exp \<Rightarrow>
          if b = 43 \<or> b = 45 then to_lex ExpSign 0 j
          else if is_digit b then to_lex ExpInt 1 j
          else Reject
      | ExpSign \<Rightarrow> if is_digit b then to_lex ExpInt 1 j else Reject
      | ExpInt \<Rightarrow>
          if is_digit b \<and> lex_n j < EXP_DIGITS_LIMIT then to_lex (lex_state j) (lex_n j + 1) j
          else number_end b j)"

text \<open>The automaton run over a whole text: accepted when a bracket, string or literal ends the value with
  the last byte, or when the text ends where a number may end.\<close>

fun json_accepts :: "json \<Rightarrow> u8 list \<Rightarrow> bool" where
  "json_accepts j [] = json_complete j"
| "json_accepts j (b # w) =
     (case json_step b j of Next j' \<Rightarrow> json_accepts j' w | Done \<Rightarrow> w = [] | _ \<Rightarrow> False)"

end
