(* ===== verification/Json_Language.thy ===== *)
theory Json_Language
  imports Json_Automaton
begin

text \<open>
  JSON as a language, independent of the automaton: sets of byte texts built by concatenation, with the
  limits the automaton has (runs of at most 20 blanks, 20 integer digits, 17 fraction digits, 4 exponent
  digits, nesting to a given depth). The theory shows that the automaton accepts exactly this language, by
  giving each of its states the language of what may still follow and proving that reading a byte takes
  the derivative of that language.
\<close>

section \<open>Languages and derivatives\<close>

type_synonym lang = "u8 list \<Rightarrow> bool"

definition seq :: "lang \<Rightarrow> lang \<Rightarrow> lang" where
  "seq P Q w \<longleftrightarrow> (\<exists>u v. w = u @ v \<and> P u \<and> Q v)"

definition alt :: "lang \<Rightarrow> lang \<Rightarrow> lang" where
  "alt P Q w \<longleftrightarrow> P w \<or> Q w"

definition none :: lang where
  "none w = False"

definition only :: "u8 list \<Rightarrow> lang" where
  "only x w \<longleftrightarrow> w = x"

definition der :: "u8 \<Rightarrow> lang \<Rightarrow> lang" where
  "der b P w = P (b # w)"

lemma seq_mono [mono]: "(\<And>w. Q w \<longrightarrow> Q' w) \<Longrightarrow> seq P Q w \<longrightarrow> seq P Q' w"
  by (auto simp: seq_def)

lemma seq_Nil [simp]: "seq P Q [] \<longleftrightarrow> P [] \<and> Q []"
  by (simp add: seq_def)

lemma seq_Cons: "seq P Q (b # w) \<longleftrightarrow> P [] \<and> Q (b # w) \<or> seq (der b P) Q w"
  unfolding seq_def der_def by (auto simp: Cons_eq_append_conv)

lemma seq_assoc: "seq (seq P Q) R = seq P (seq Q R)"
  unfolding seq_def by (intro ext) (metis append.assoc)

lemma seq_only_Nil [simp]: "seq (only []) Q = Q"
  by (intro ext) (simp add: seq_def only_def)

lemma seq_none [simp]: "seq none Q = none"
  by (intro ext) (simp add: seq_def none_def)

lemma seq_alt: "seq (alt P Q) R w \<longleftrightarrow> seq P R w \<or> seq Q R w"
  unfolding seq_def alt_def by blast

lemma none_simp [simp]: "none w = False"
  by (simp add: none_def)

lemma only_Nil [simp]: "only x [] \<longleftrightarrow> x = []"
  by (auto simp: only_def)

lemma der_only: "der b (only x) = (case x of [] \<Rightarrow> none | c # y \<Rightarrow> if c = b then only y else none)"
  by (intro ext) (auto simp: der_def only_def split: list.split)

lemma der_alt: "der b (alt P Q) = alt (der b P) (der b Q)"
  by (intro ext) (simp add: der_def alt_def)

lemma der_seq: "\<not> P [] \<Longrightarrow> der b (seq P Q) = seq (der b P) Q"
  by (intro ext) (simp add: der_def [of b "seq P Q"] seq_Cons)

section \<open>The JSON language\<close>

definition blanks :: "nat \<Rightarrow> lang" where
  "blanks k w \<longleftrightarrow> length w \<le> k \<and> set w \<subseteq> {32, 9, 10}"

definition digits :: "nat \<Rightarrow> nat \<Rightarrow> lang" where
  "digits lo hi w \<longleftrightarrow> lo \<le> length w \<and> length w \<le> hi \<and> (\<forall>b\<in>set w. is_digit b)"

definition int_part :: lang where
  "int_part w \<longleftrightarrow> w = [48] \<or> (\<exists>d v. w = d # v \<and> 49 \<le> d \<and> d \<le> 57 \<and> digits 0 19 v)"

definition fraction :: lang where
  "fraction w \<longleftrightarrow> w = [] \<or> (\<exists>v. w = 46 # v \<and> digits 1 17 v)"

definition exp_tail :: lang where
  "exp_tail w \<longleftrightarrow> digits 1 4 w \<or> (\<exists>c v. w = c # v \<and> (c = 43 \<or> c = 45) \<and> digits 1 4 v)"

definition exponent :: lang where
  "exponent w \<longleftrightarrow> w = [] \<or> (\<exists>c v. w = c # v \<and> (c = 101 \<or> c = 69) \<and> exp_tail v)"

definition number :: lang where
  "number = seq (alt (only []) (only [45])) (seq int_part (seq fraction exponent))"

definition follow_bytes :: "nat \<Rightarrow> lang" where
  "follow_bytes k w \<longleftrightarrow> length w = k \<and> (\<forall>b\<in>set w. and b 0xC0 = 0x80)"

definition hex_digits :: "nat \<Rightarrow> lang" where
  "hex_digits k w \<longleftrightarrow> length w = k \<and> (\<forall>b\<in>set w. is_hexdigit b)"

definition escape_tail :: lang where
  "escape_tail w \<longleftrightarrow>
     (\<exists>c. w = [c] \<and> c \<in> {34, 92, 47, 98, 102, 110, 114, 116}) \<or> (\<exists>v. w = 117 # v \<and> hex_digits 4 v)"

text \<open>How many bytes follow a lead byte of UTF-8; plain characters are ASCII without controls, quote and
  backslash.\<close>

definition follow_count :: "u8 \<Rightarrow> nat option" where
  "follow_count b =
     (if 32 \<le> b \<and> b \<le> 127 \<and> b \<noteq> 34 \<and> b \<noteq> 92 then Some 0
      else if 0xC2 \<le> b \<and> b \<le> 0xDF then Some 1
      else if 0xE0 \<le> b \<and> b \<le> 0xEF then Some 2
      else if 0xF0 \<le> b \<and> b \<le> 0xF4 then Some 3
      else None)"

definition string_char :: lang where
  "string_char w \<longleftrightarrow>
     (\<exists>b v k. w = b # v \<and> follow_count b = Some k \<and> follow_bytes k v) \<or> (\<exists>v. w = 92 # v \<and> escape_tail v)"

inductive string_rest :: lang where
  quote: "string_rest [34]"
| char: "string_char c \<Longrightarrow> string_rest w \<Longrightarrow> string_rest (c @ w)"

definition json_string :: lang where
  "json_string w \<longleftrightarrow> (\<exists>v. w = 34 # v \<and> string_rest v)"

definition literal :: lang where
  "literal w \<longleftrightarrow> w \<in> set LITERALS"

definition scalar :: lang where
  "scalar w \<longleftrightarrow> literal w \<or> number w \<or> json_string w"

text \<open>What follows an item inside brackets: the closing bracket, or a comma and another item.\<close>

inductive more :: "u8 \<Rightarrow> lang \<Rightarrow> lang" for c I where
  close: "more c I [c]"
| comma: "seq (blanks 20) (seq I (seq (blanks 20) (more c I))) w \<Longrightarrow> more c I (44 # w)"

definition items :: "u8 \<Rightarrow> lang \<Rightarrow> lang" where
  "items c I = seq (blanks 20) (alt (only [c]) (seq I (seq (blanks 20) (more c I))))"

definition member :: "lang \<Rightarrow> lang" where
  "member V = seq json_string (seq (blanks 20) (seq (only [58]) (seq (blanks 20) V)))"

definition array_text :: "lang \<Rightarrow> lang" where
  "array_text V w \<longleftrightarrow> (\<exists>v. w = 91 # v \<and> items 93 V v)"

definition object_text :: "lang \<Rightarrow> lang" where
  "object_text V w \<longleftrightarrow> (\<exists>v. w = 123 # v \<and> items 125 (member V) v)"

fun json_value :: "nat \<Rightarrow> lang" where
  "json_value 0 w = scalar w"
| "json_value (Suc d) w = (scalar w \<or> array_text (json_value d) w \<or> object_text (json_value d) w)"

section \<open>Derivatives of the JSON language\<close>

named_theorems derivs \<open>empty word and derivatives of the parts of the language\<close>

lemma der_blanks [derivs]:
  "der b (blanks k) = (if b \<in> {32, 9, 10} \<and> 0 < k then blanks (k - 1) else none)" "blanks k []"
  by (intro ext; cases k; auto simp: der_def blanks_def) (simp add: blanks_def)

lemma der_digits [derivs]:
  "der b (digits lo hi) = (if is_digit b \<and> 0 < hi then digits (lo - 1) (hi - 1) else none)"
  "digits lo hi [] \<longleftrightarrow> lo = 0"
  by (intro ext; cases hi; auto simp: der_def digits_def) (auto simp: digits_def)

lemma der_fraction [derivs]: "der b fraction = (if b = 46 then digits 1 17 else none)" "fraction []"
  by (intro ext; auto simp: der_def fraction_def) (simp add: fraction_def)

lemma der_exp_tail [derivs]:
  "der b exp_tail = (if b = 43 \<or> b = 45 then digits 1 4 else if is_digit b then digits 0 3 else none)"
  "\<not> exp_tail []"
  by (intro ext; auto simp: der_def exp_tail_def digits_def is_digit_def) (simp add: exp_tail_def digits_def)

lemma der_exponent [derivs]: "der b exponent = (if b = 101 \<or> b = 69 then exp_tail else none)" "exponent []"
  by (intro ext; auto simp: der_def exponent_def) (simp add: exponent_def)

lemma der_int_part [derivs]:
  "der b int_part = (if b = 48 then only [] else if 49 \<le> b \<and> b \<le> 57 then digits 0 19 else none)"
  "\<not> int_part []"
  by (intro ext; auto simp: der_def int_part_def only_def) (simp add: int_part_def)

lemma number_iff:
  "number w \<longleftrightarrow> seq int_part (seq fraction exponent) w \<or> seq (only [45]) (seq int_part (seq fraction exponent)) w"
  by (simp add: number_def seq_alt)

lemma der_number [derivs]:
  "der b number =
     (if b = 45 then seq int_part (seq fraction exponent)
      else if b = 48 then seq fraction exponent
      else if 49 \<le> b \<and> b \<le> 57 then seq (digits 0 19) (seq fraction exponent) else none)"
  "\<not> number []"
proof -
  have "der b number w = (if b = 45 then seq int_part (seq fraction exponent)
      else if b = 48 then seq fraction exponent
      else if 49 \<le> b \<and> b \<le> 57 then seq (digits 0 19) (seq fraction exponent) else none) w" for w
    by (simp add: der_def [of b number] number_iff seq_Cons der_only der_int_part)
  then show "der b number =
     (if b = 45 then seq int_part (seq fraction exponent)
      else if b = 48 then seq fraction exponent
      else if 49 \<le> b \<and> b \<le> 57 then seq (digits 0 19) (seq fraction exponent) else none)" by (rule ext)
  show "\<not> number []" by (simp add: number_def der_int_part)
qed

lemma der_follow [derivs]:
  "der b (follow_bytes k) = (if and b 0xC0 = 0x80 \<and> 0 < k then follow_bytes (k - 1) else none)"
  "follow_bytes k [] \<longleftrightarrow> k = 0"
  by (intro ext; cases k; auto simp: der_def follow_bytes_def) (auto simp: follow_bytes_def)

lemma der_hex [derivs]:
  "der b (hex_digits k) = (if is_hexdigit b \<and> 0 < k then hex_digits (k - 1) else none)"
  "hex_digits k [] \<longleftrightarrow> k = 0"
  by (intro ext; cases k; auto simp: der_def hex_digits_def) (auto simp: hex_digits_def)

lemma zero_follow [simp]: "follow_bytes 0 = only []" "hex_digits 0 = only []"
  by (intro ext; auto simp: follow_bytes_def hex_digits_def only_def)+

lemma der_escape [derivs]:
  "der b escape_tail =
     (if b \<in> {34, 92, 47, 98, 102, 110, 114, 116} then only [] else if b = 117 then hex_digits 4 else none)"
  "\<not> escape_tail []"
  by (intro ext; auto simp: der_def escape_tail_def only_def) (simp add: escape_tail_def)

lemma string_char_ne: "\<not> string_char []"
  by (simp add: string_char_def)

lemma string_rest_iff: "string_rest w \<longleftrightarrow> w = [34] \<or> seq string_char string_rest w"
  unfolding seq_def by (subst string_rest.simps) auto

lemma follow_count_ascii: "follow_count 34 = None" "follow_count 92 = None"
  by (simp_all add: follow_count_def)

lemma der_string_char [derivs]:
  "der b string_char =
     (if b = 92 then escape_tail else (case follow_count b of Some k \<Rightarrow> follow_bytes k | None \<Rightarrow> none))"
  by (intro ext) (auto simp: der_def string_char_def follow_count_ascii split: option.splits)

lemma der_string_rest [derivs]:
  "der b string_rest =
     (if b = 34 then only [] else if b = 92 then seq escape_tail string_rest
      else (case follow_count b of Some k \<Rightarrow> seq (follow_bytes k) string_rest | None \<Rightarrow> none))"
  "\<not> string_rest []"
proof -
  have "der b string_rest w = (if b = 34 then only [] else if b = 92 then seq escape_tail string_rest
      else (case follow_count b of Some k \<Rightarrow> seq (follow_bytes k) string_rest | None \<Rightarrow> none)) w" for w
    unfolding der_def [of b string_rest]
    by (subst string_rest_iff)
      (auto simp: seq_Cons string_char_ne der_string_char only_def follow_count_ascii split: option.splits)
  then show "der b string_rest =
     (if b = 34 then only [] else if b = 92 then seq escape_tail string_rest
      else (case follow_count b of Some k \<Rightarrow> seq (follow_bytes k) string_rest | None \<Rightarrow> none))"
    by (rule ext)
  show "\<not> string_rest []" by (subst string_rest_iff) (simp add: string_char_ne)
qed

lemma der_seq_string: "der b (seq string_rest Q) = seq (der b string_rest) Q"
  by (rule der_seq) (rule der_string_rest(2))

lemma der_json_string [derivs]: "der b json_string = (if b = 34 then string_rest else none)" "\<not> json_string []"
  by (intro ext; auto simp: der_def json_string_def) (simp add: json_string_def)

lemma der_more [derivs]:
  "c \<noteq> 44 \<Longrightarrow> der b (more c I) =
     (if b = c then only [] else if b = 44 then seq (blanks 20) (seq I (seq (blanks 20) (more c I))) else none)"
  "\<not> more c I []"
  by (intro ext; auto simp: der_def only_def more.simps [of c I "_ # _"]) (simp add: more.simps [of c I "[]"])

lemma der_member [derivs]:
  "der b (member V) =
     (if b = 34 then seq string_rest (seq (blanks 20) (seq (only [58]) (seq (blanks 20) V))) else none)"
  "\<not> member V []"
  unfolding member_def by (simp_all add: der_seq der_json_string)

lemma der_literal [derivs]:
  "der b literal =
     (if b = 116 then only (drop 1 (LITERALS ! 0)) else if b = 102 then only (drop 1 (LITERALS ! 1))
      else if b = 110 then only (drop 1 (LITERALS ! 2)) else none)"
  "\<not> literal []"
  by (intro ext; auto simp: der_def literal_def only_def LITERALS_def) (simp add: literal_def LITERALS_def)

lemma der_value [derivs]:
  "der b (json_value d) w \<longleftrightarrow>
     (if b = 123 then 0 < d \<and> items 125 (member (json_value (d - 1))) w
      else if b = 91 then 0 < d \<and> items 93 (json_value (d - 1)) w
      else if b = 34 then string_rest w
      else der b number w \<or> der b literal w)"
  "\<not> json_value d []"
proof -
  have sc: "der b scalar w \<longleftrightarrow> der b number w \<or> der b literal w \<or> b = 34 \<and> string_rest w"
    using der_json_string(1) [of b] by (auto simp: der_def scalar_def fun_eq_iff)
  show "der b (json_value d) w \<longleftrightarrow>
     (if b = 123 then 0 < d \<and> items 125 (member (json_value (d - 1))) w
      else if b = 91 then 0 < d \<and> items 93 (json_value (d - 1)) w
      else if b = 34 then string_rest w
      else der b number w \<or> der b literal w)"
    using sc by (cases d) (auto simp: der_def [of b "json_value _"] array_text_def object_text_def der_number
      der_literal der_def [of b scalar])
  have "\<not> scalar []" by (simp add: scalar_def der_number der_literal der_json_string)
  then show "\<not> json_value d []" by (cases d) (simp_all add: array_text_def object_text_def)
qed


section \<open>What may follow each state of the automaton\<close>

text \<open>\<open>frames\<close> reads the stack word: one element per open bracket, the innermost first.\<close>

definition frames :: "json \<Rightarrow> bool list" where
  "frames j = map (bit (stack j)) (rev [0..<depth j])"

definition inner :: "bool list \<Rightarrow> lang" where
  "inner fs = json_value (NESTING_LIMIT - length fs)"

fun after :: "nat \<Rightarrow> bool list \<Rightarrow> lang" where
  "after k [] = only []"
| "after k (obj # fs) = seq (blanks k)
     (seq (if obj then more 125 (member (inner (obj # fs))) else more 93 (inner (obj # fs))) (after 20 fs))"

definition colon :: "nat \<Rightarrow> bool list \<Rightarrow> lang" where
  "colon k fs = seq (blanks k) (seq (only [58]) (seq (blanks 20) (seq (inner fs) (after 20 fs))))"

definition string_end :: "bool \<Rightarrow> bool list \<Rightarrow> lang" where
  "string_end key fs = (if key then colon 20 fs else after 20 fs)"

fun follows :: "lex \<Rightarrow> nat \<Rightarrow> bool list \<Rightarrow> lang" where
  "follows Start n fs = none"
| "follows Val n fs = seq (blanks (20 - n)) (seq (inner fs) (after 20 fs))"
| "follows ArrayFirst n fs = seq (blanks (20 - n))
     (alt (seq (only [93]) (after 20 (tl fs))) (seq (inner fs) (after 20 fs)))"
| "follows ObjectFirst n fs = seq (blanks (20 - n))
     (alt (seq (only [125]) (after 20 (tl fs))) (seq (member (inner fs)) (after 20 fs)))"
| "follows Key n fs = seq (blanks (20 - n)) (seq (member (inner fs)) (after 20 fs))"
| "follows Colon n fs = colon (20 - n) fs"
| "follows After n fs = after (20 - n) fs"
| "follows (Str key) n fs = seq (follow_bytes n) (seq string_rest (string_end key fs))"
| "follows (Esc key) n fs = seq escape_tail (seq string_rest (string_end key fs))"
| "follows (Hex key) n fs = seq (hex_digits n) (seq string_rest (string_end key fs))"
| "follows (Lit word) n fs = seq (only (drop n (LITERALS ! word))) (after 20 fs)"
| "follows Minus n fs = seq int_part (seq fraction (seq exponent (after 20 fs)))"
| "follows Zero n fs = seq fraction (seq exponent (after 20 fs))"
| "follows LexInt n fs = seq (digits 0 (20 - n)) (seq fraction (seq exponent (after 20 fs)))"
| "follows Dot n fs = seq (digits 1 17) (seq exponent (after 20 fs))"
| "follows Frac n fs = seq (digits 0 (17 - n)) (seq exponent (after 20 fs))"
| "follows Exp n fs = seq exp_tail (after 20 fs)"
| "follows ExpSign n fs = seq (digits 1 4) (after 20 fs)"
| "follows ExpInt n fs = seq (digits 0 (4 - n)) (after 20 fs)"

text \<open>The shape of the states the automaton reaches.\<close>

fun lex_wf :: "lex \<Rightarrow> nat \<Rightarrow> bool list \<Rightarrow> bool" where
  "lex_wf Start n fs = False"
| "lex_wf Val n fs = (n \<le> 20)"
| "lex_wf ArrayFirst n fs = (n \<le> 20 \<and> (\<exists>gs. fs = False # gs))"
| "lex_wf ObjectFirst n fs = (n \<le> 20 \<and> (\<exists>gs. fs = True # gs))"
| "lex_wf Key n fs = (n \<le> 20 \<and> (\<exists>gs. fs = True # gs))"
| "lex_wf Colon n fs = (n \<le> 20 \<and> (\<exists>gs. fs = True # gs))"
| "lex_wf After n fs = (n \<le> 20 \<and> fs \<noteq> [])"
| "lex_wf (Str key) n fs = (n \<le> 3 \<and> (key \<longrightarrow> (\<exists>gs. fs = True # gs)))"
| "lex_wf (Esc key) n fs = (n = 0 \<and> (key \<longrightarrow> (\<exists>gs. fs = True # gs)))"
| "lex_wf (Hex key) n fs = (1 \<le> n \<and> n \<le> 4 \<and> (key \<longrightarrow> (\<exists>gs. fs = True # gs)))"
| "lex_wf (Lit word) n fs = (word < 3 \<and> 1 \<le> n \<and> n < length (LITERALS ! word))"
| "lex_wf LexInt n fs = (1 \<le> n \<and> n \<le> 20)"
| "lex_wf Frac n fs = (1 \<le> n \<and> n \<le> 17)"
| "lex_wf ExpInt n fs = (1 \<le> n \<and> n \<le> 4)"
| "lex_wf _ n fs = (n \<le> 1)"

definition json_wf :: "json \<Rightarrow> bool" where
  "json_wf j \<longleftrightarrow> depth j \<le> NESTING_LIMIT \<and> lex_wf (lex_state j) (lex_n j) (frames j)"

definition may_follow :: "json \<Rightarrow> lang" where
  "may_follow j = follows (lex_state j) (lex_n j) (frames j)"

lemma frames_upd [simp]:
  "frames (j\<lparr>lex_state := l\<rparr>) = frames j" "frames (j\<lparr>lex_n := k\<rparr>) = frames j"
  by (simp_all add: frames_def)

lemma length_frames [simp]: "length (frames j) = depth j"
  by (simp add: frames_def)

lemma frames_open:
  "depth j < 64 \<Longrightarrow> frames (j\<lparr>stack := (if obj then set_bit (depth j) (stack j) else unset_bit (depth j) (stack j)),
     depth := depth j + 1\<rparr>) = obj # frames j"
  by (auto simp: frames_def bit_set_bit_iff bit_unset_bit_iff)

lemma frames_close: "frames (j\<lparr>depth := depth j - 1\<rparr>) = tl (frames j)"
  by (cases "depth j") (simp_all add: frames_def)

lemma frames_top: "depth j > 0 \<Longrightarrow> hd (frames j) = bit (stack j) (depth j - 1)"
  by (cases "depth j") (simp_all add: frames_def)

lemma frames_Nil: "frames j = [] \<longleftrightarrow> depth j = 0"
  by (simp add: frames_def)

lemma top_is_object_frames: "top_is_object j \<longleftrightarrow> (\<exists>gs. frames j = True # gs)"
  by (cases "frames j")
    (use frames_top [of j] frames_Nil [of j] in \<open>auto simp: top_is_object_def\<close>)

text \<open>A step is right when it goes to a well-formed state that may be followed by exactly what may follow
  the byte, or ends or rejects exactly where the language does.\<close>

fun step_right :: "lang \<Rightarrow> outcome \<Rightarrow> bool" where
  "step_right L (Next j) = (json_wf j \<and> may_follow j = L)"
| "step_right L Done = (L = only [])"
| "step_right L DoneBeforeThisByte = (L = none)"
| "step_right L Reject = (L = none)"

lemma right_to_lex:
  "depth j \<le> 64 \<Longrightarrow> lex_wf l k (frames j) \<Longrightarrow> follows l k (frames j) = L \<Longrightarrow> step_right L (to_lex l k j)"
  by (simp add: to_lex_def json_wf_def may_follow_def NESTING_LIMIT_def)

lemma right_value_done: "depth j \<le> 64 \<Longrightarrow> after 20 (frames j) = L \<Longrightarrow> step_right L (value_done j)"
proof (cases "depth j = 0")
  case True
  then have "frames j = []" by (simp add: frames_Nil)
  then show "after 20 (frames j) = L \<Longrightarrow> step_right L (value_done j)" using True by (simp add: value_done_def)
next
  case False
  then have "frames j \<noteq> []" by (simp add: frames_Nil)
  then show "depth j \<le> 64 \<Longrightarrow> after 20 (frames j) = L \<Longrightarrow> step_right L (value_done j)"
    using False by (simp add: value_done_def right_to_lex)
qed

lemma right_close:
  assumes "depth j \<le> 64" and "frames j = obj # gs" and "after 20 gs = L"
  shows "step_right L (close_bracket obj j)"
proof -
  have "top_is_object j = obj" using assms(2) by (simp add: top_is_object_frames)
  moreover have "frames (j\<lparr>depth := depth j - 1\<rparr>) = gs" unfolding frames_close using assms(2) by simp
  moreover have "depth j \<noteq> 0" using assms(2) frames_Nil [of j] by auto
  ultimately show ?thesis using assms
    by (auto simp: close_bracket_def intro!: right_value_done)
qed

lemma items_after:
  "seq (items 93 (inner (False # fs))) (after 20 fs) = follows ArrayFirst 0 (False # fs)"
  "seq (items 125 (member (inner (True # fs)))) (after 20 fs) = follows ObjectFirst 0 (True # fs)"
  by (intro ext; simp add: items_def seq_assoc seq_def [of "blanks 20"] seq_alt alt_def)+


lemma alt_none [simp]: "alt none P = P" "alt P none = P"
  by (intro ext; simp add: alt_def)+

lemma der_none [simp]: "der b none = none"
  by (intro ext) (simp add: der_def)

lemma der_seq_null: "P [] \<Longrightarrow> der b (seq P Q) = alt (seq (der b P) Q) (der b Q)"
  by (intro ext) (auto simp: der_def [of b "seq P Q"] der_def [of b Q] alt_def seq_Cons)

lemma if_lang: "seq (if c then P else Q) R = (if c then seq P R else seq Q R)"
  by simp

lemmas der_rules = der_seq der_seq_null der_only der_alt der_none

lemma blanks_then:
  "der b (seq (blanks k) Q) =
     (if b \<in> {32, 9, 10} \<and> 0 < k then alt (seq (blanks (k - 1)) Q) (der b Q) else der b Q)"
  by (simp add: der_seq_null der_blanks)

lemma der_after:
  "der b (after k []) = none"
  "der b (after k (obj # fs)) =
     (if b \<in> {32, 9, 10} then (if 0 < k then after (k - 1) (obj # fs) else none)
      else if b = (if obj then 125 else 93) then after 20 fs
      else if b = 44 then (if obj then follows Key 0 (True # fs) else follows Val 0 (False # fs))
      else none)"
  by (simp add: der_only) (cases obj; simp add: blanks_then der_seq der_more seq_assoc)

lemma der_inner:
  "der b (inner fs) =
     (if b = 123 then (if length fs < 64 then items 125 (member (inner (True # fs))) else none)
      else if b = 91 then (if length fs < 64 then items 93 (inner (False # fs)) else none)
      else if b = 34 then string_rest
      else if b = 45 then seq int_part (seq fraction exponent)
      else if b = 48 then seq fraction exponent
      else if 49 \<le> b \<and> b \<le> 57 then seq (digits 0 19) (seq fraction exponent)
      else if b = 116 then only (drop 1 (LITERALS ! 0))
      else if b = 102 then only (drop 1 (LITERALS ! 1))
      else if b = 110 then only (drop 1 (LITERALS ! 2))
      else none)"
proof (rule ext)
  fix w
  have d: "NESTING_LIMIT - length fs - 1 = NESTING_LIMIT - length (o' # fs)" for o' by simp
  show "der b (inner fs) w = (if b = 123 then (if length fs < 64 then items 125 (member (inner (True # fs))) else none)
      else if b = 91 then (if length fs < 64 then items 93 (inner (False # fs)) else none)
      else if b = 34 then string_rest
      else if b = 45 then seq int_part (seq fraction exponent)
      else if b = 48 then seq fraction exponent
      else if 49 \<le> b \<and> b \<le> 57 then seq (digits 0 19) (seq fraction exponent)
      else if b = 116 then only (drop 1 (LITERALS ! 0))
      else if b = 102 then only (drop 1 (LITERALS ! 1))
      else if b = 110 then only (drop 1 (LITERALS ! 2))
      else none) w"
    unfolding inner_def der_value(1) d [of True] by (simp add: der_number der_literal NESTING_LIMIT_def)
qed

lemma inner_Nil [simp]: "\<not> inner fs []"
  by (simp add: inner_def der_value)

lemma right_open:
  assumes "depth j \<le> 64" and "L = (if depth j < 64 then follows (if obj then ObjectFirst else ArrayFirst) 0 (obj # frames j) else none)"
  shows "step_right L (open_bracket obj j)"
proof (cases "depth j < 64")
  case True
  let ?j = "j\<lparr>stack := (if obj then set_bit (depth j) (stack j) else unset_bit (depth j) (stack j)), depth := depth j + 1\<rparr>"
  have "open_bracket obj j = to_lex (if obj then ObjectFirst else ArrayFirst) 0 ?j"
    using True by (simp add: open_bracket_def to_lex_def NESTING_LIMIT_def)
  moreover have "frames ?j = obj # frames j" using frames_open [OF True] .
  ultimately show ?thesis using assms True
    by (auto intro!: right_to_lex)
next
  case False
  then show ?thesis using assms by (simp add: open_bracket_def NESTING_LIMIT_def)
qed

lemma right_read_value:
  assumes "depth j \<le> 64"
  shows "step_right (seq (der b (inner (frames j))) (after 20 (frames j))) (read_value b j)"
  unfolding der_inner read_value_def if_lang
  using assms
  by (auto simp: items_after seq_assoc LITERALS_def string_end_def
      intro!: right_open right_to_lex simp del: follows.simps(3,4))


lemma right_after:
  assumes "depth j \<le> 64" and "frames j \<noteq> []" and "lex_state j = After" and "lex_n j \<le> 20"
  shows "step_right (der b (after (20 - lex_n j) (frames j))) (step_after b j)"
proof -
  obtain obj gs where f: "frames j = obj # gs" using assms(2) by (cases "frames j") auto
  have top: "top_is_object j = obj" using f by (simp add: top_is_object_frames)
  have close: "step_right (after 20 gs) (close_bracket obj j)" by (rule right_close [OF assms(1) f refl])
  have other: "step_right none (close_bracket (\<not> obj) j)" using top by (simp add: close_bracket_def)
  have n: "20 - lex_n j - 1 = 20 - Suc (lex_n j)" by simp
  show ?thesis
    unfolding f der_after n step_after_def blank_def or_else_def top
    using assms f close other
    by (cases obj) (auto simp: WHITESPACE_RUN_LIMIT_def intro!: right_to_lex)
qed

lemma right_number_end:
  assumes "depth j \<le> 64"
  shows "step_right (der b (after 20 (frames j))) (number_end b j)"
proof (cases "depth j = 0")
  case True
  then have "frames j = []" by (simp add: frames_Nil)
  then show ?thesis using True by (simp add: number_end_def der_only)
next
  case False
  then have "frames j \<noteq> []" by (simp add: frames_Nil)
  then show ?thesis using False assms right_after [of "j\<lparr>lex_state := After, lex_n := 0\<rparr>" b]
    by (simp add: number_end_def)
qed

lemma follow_count_cases:
  "follow_count b =
     (if b = 34 \<or> b = 92 then None
      else if b \<le> 0x1F \<or> 0x80 \<le> b \<and> b \<le> 0xC1 \<or> 0xF5 \<le> b then None
      else if 0xC2 \<le> b \<and> b \<le> 0xDF then Some 1
      else if 0xE0 \<le> b \<and> b \<le> 0xEF then Some 2
      else if 0xF0 \<le> b \<and> b \<le> 0xF4 then Some 3
      else Some 0)"
  unfolding follow_count_def word_le_nat_alt by auto

lemma right_if:
  "(c \<Longrightarrow> step_right A x) \<Longrightarrow> (\<not> c \<Longrightarrow> step_right B y) \<Longrightarrow>
   step_right (if c then A else B) (if c then x else y)"
  by simp

lemma der_string_rest_cases:
  "der b string_rest =
     (if b = 34 then only [] else if b = 92 then seq escape_tail string_rest
      else if b \<le> 0x1F \<or> 0x80 \<le> b \<and> b \<le> 0xC1 \<or> 0xF5 \<le> b then none
      else if 0xC2 \<le> b \<and> b \<le> 0xDF then seq (follow_bytes 1) string_rest
      else if 0xE0 \<le> b \<and> b \<le> 0xEF then seq (follow_bytes 2) string_rest
      else if 0xF0 \<le> b \<and> b \<le> 0xF4 then seq (follow_bytes 3) string_rest
      else string_rest)"
  by (simp add: der_string_rest follow_count_cases)

lemma right_read_string:
  assumes "depth j \<le> 64" and "lex_state j = Str key" and "lex_wf (Str key) (lex_n j) (frames j)"
  shows "step_right (der b (follows (Str key) (lex_n j) (frames j))) (read_string key b j)"
proof (cases "lex_n j = 0")
  case True
  let ?R = "string_end key (frames j)"
  have str: "step_right (seq (follow_bytes k) (seq string_rest ?R)) (to_lex (Str key) k j)" if "k \<le> 3" for k
    using assms that by (intro right_to_lex) auto
  have quote: "step_right ?R (if b = 34 \<and> key then to_lex Colon 0 j else value_done j)" if "b = 34"
    using assms that by (cases key) (auto intro!: right_to_lex right_value_done simp: string_end_def)
  have esc: "step_right (seq escape_tail (seq string_rest ?R)) (to_lex (Esc key) 0 j)"
    using assms by (intro right_to_lex) auto
  have read: "read_string key b j =
     (if b = 34 then (if b = 34 \<and> key then to_lex Colon 0 j else value_done j)
      else if b = 92 then to_lex (Esc key) 0 j
      else if b \<le> 0x1F \<or> 0x80 \<le> b \<and> b \<le> 0xC1 \<or> 0xF5 \<le> b then Reject
      else if 0xC2 \<le> b \<and> b \<le> 0xDF then to_lex (Str key) 1 j
      else if 0xE0 \<le> b \<and> b \<le> 0xEF then to_lex (Str key) 2 j
      else if 0xF0 \<le> b \<and> b \<le> 0xF4 then to_lex (Str key) 3 j
      else to_lex (Str key) 0 j)"
    using True assms(2) by (simp add: read_string_def)
  have lang: "der b (follows (Str key) (lex_n j) (frames j)) =
     (if b = 34 then ?R else if b = 92 then seq escape_tail (seq string_rest ?R)
      else if b \<le> 0x1F \<or> 0x80 \<le> b \<and> b \<le> 0xC1 \<or> 0xF5 \<le> b then none
      else if 0xC2 \<le> b \<and> b \<le> 0xDF then seq (follow_bytes 1) (seq string_rest ?R)
      else if 0xE0 \<le> b \<and> b \<le> 0xEF then seq (follow_bytes 2) (seq string_rest ?R)
      else if 0xF0 \<le> b \<and> b \<le> 0xF4 then seq (follow_bytes 3) (seq string_rest ?R)
      else seq (follow_bytes 0) (seq string_rest ?R))"
    unfolding follows.simps True
    by (simp only: zero_follow seq_only_Nil der_seq_string der_string_rest_cases if_lang
        seq_assoc seq_none)
  show ?thesis
    unfolding read lang
    by (intro right_if quote esc str; simp)
next
  case False
  have n: "lex_n j - 1 \<le> 3" using assms(3) by auto
  have "step_right (seq (follow_bytes (lex_n j - 1)) (seq string_rest (string_end key (frames j))))
      (to_lex (Str key) (lex_n j - 1) j)"
    using assms n by (intro right_to_lex) auto
  then show ?thesis using False assms(2) by (simp add: read_string_def der_seq der_follow)
qed

lemma right_blank:
  assumes d: "depth j \<le> 64" and n: "lex_n j \<le> 20"
    and lw: "\<And>k. k \<le> 20 \<Longrightarrow> lex_wf (lex_state j) k (frames j)"
    and fo: "\<And>k. k \<le> 20 \<Longrightarrow> follows (lex_state j) k (frames j) = seq (blanks (20 - k)) Q"
    and "b \<in> {32, 9, 10} \<Longrightarrow> der b Q = none"
    and "b \<notin> {32, 9, 10} \<Longrightarrow> step_right (der b Q) s"
  shows "step_right (der b (follows (lex_state j) (lex_n j) (frames j))) (or_else (blank b j) s)"
proof (cases "b \<in> {32, 9, 10}")
  case False
  then show ?thesis using assms(6) by (simp add: fo n blanks_then blank_def or_else_def)
next
  case True
  then have "der b Q = none" by (rule assms(5))
  then have der: "der b (follows (lex_state j) (lex_n j) (frames j)) =
      (if lex_n j < 20 then seq (blanks (20 - Suc (lex_n j))) Q else none)"
    using True by (simp add: fo n blanks_then)
  have "step_right (seq (blanks (20 - Suc (lex_n j))) Q) (to_lex (lex_state j) (Suc (lex_n j)) j)" if "lex_n j < 20"
    by (rule right_to_lex [OF d]) (use that lw fo in auto)
  then show ?thesis unfolding der using True by (simp add: blank_def or_else_def WHITESPACE_RUN_LIMIT_def)
qed

lemma der_after_other: "b \<notin> {32, 9, 10, 44, 93, 125} \<Longrightarrow> der b (after k fs) = none"
  by (cases fs) (simp_all add: der_after del: after.simps)

lemma digit_not_special: "is_digit b \<Longrightarrow> b \<notin> {32, 9, 10, 44, 93, 125, 46, 101, 69}"
  by (auto simp: is_digit_def)

lemma der_inner_blank: "b \<in> {32, 9, 10} \<Longrightarrow> der b (inner fs) = none"
  by (auto simp: der_inner)

lemma step_is_right:
  assumes wf: "json_wf j"
  shows "step_right (der b (may_follow j)) (json_step b j)"
proof -
  have d: "depth j \<le> 64" and lw: "lex_wf (lex_state j) (lex_n j) (frames j)"
    using wf by (auto simp: json_wf_def NESTING_LIMIT_def)
  note rules = may_follow_def json_step_def Let_def
  show ?thesis
  proof (cases "lex_state j")
    case Start
    then show ?thesis using lw by simp
  next
    case Val
    have "step_right (der b (follows (lex_state j) (lex_n j) (frames j))) (or_else (blank b j) (read_value b j))"
      by (rule right_blank [where Q = "seq (inner (frames j)) (after 20 (frames j))"])
        (use Val lw d right_read_value in \<open>auto simp: der_seq der_inner_blank\<close>)
    then show ?thesis by (simp add: rules Val)
  next
    case ArrayFirst
    then obtain gs where f: "frames j = False # gs" using lw by auto
    have "step_right (der b (follows (lex_state j) (lex_n j) (frames j)))
        (or_else (blank b j) (if b = 93 then close_bracket False j else read_value b j))"
      by (rule right_blank [where Q = "alt (seq (only [93]) (after 20 (tl (frames j)))) (seq (inner (frames j)) (after 20 (frames j)))"])
        (use ArrayFirst lw d f right_read_value [OF d, of b] right_close [OF d f refl] in
          \<open>auto simp: der_seq der_alt der_only der_inner_blank der_inner\<close>)
    then show ?thesis by (simp add: rules ArrayFirst)
  next
    case ObjectFirst
    then obtain gs where f: "frames j = True # gs" using lw by auto
    have "step_right (der b (follows (lex_state j) (lex_n j) (frames j)))
        (or_else (blank b j) (if b = 34 then to_lex (Str True) 0 j else if b = 125 then close_bracket True j else Reject))"
      by (rule right_blank [where Q = "alt (seq (only [125]) (after 20 (tl (frames j)))) (seq (member (inner (frames j))) (after 20 (frames j)))"])
        (use ObjectFirst lw d f right_close [OF d f refl] in
          \<open>auto simp: der_seq der_alt der_only der_member seq_assoc string_end_def colon_def intro!: right_to_lex\<close>)
    then show ?thesis by (simp add: rules ObjectFirst)
  next
    case Key
    then obtain gs where f: "frames j = True # gs" using lw by auto
    have "step_right (der b (follows (lex_state j) (lex_n j) (frames j)))
        (or_else (blank b j) (if b = 34 then to_lex (Str True) 0 j else Reject))"
      by (rule right_blank [where Q = "seq (member (inner (frames j))) (after 20 (frames j))"])
        (use Key lw d f in \<open>auto simp: der_seq der_member seq_assoc string_end_def colon_def intro!: right_to_lex\<close>)
    then show ?thesis by (simp add: rules Key)
  next
    case Colon
    then obtain gs where f: "frames j = True # gs" using lw by auto
    have "step_right (der b (follows (lex_state j) (lex_n j) (frames j)))
        (or_else (blank b j) (if b = 58 then to_lex Val 0 j else Reject))"
      by (rule right_blank [where Q = "seq (only [58]) (seq (blanks 20) (seq (inner (frames j)) (after 20 (frames j))))"])
        (use Colon lw d f in \<open>auto simp: der_seq der_only colon_def intro!: right_to_lex\<close>)
    then show ?thesis by (simp add: rules Colon)
  next
    case After
    then show ?thesis using right_after [OF d _ After] lw by (simp add: rules)
  next
    case (Str key)
    then show ?thesis using right_read_string [OF d Str] lw by (simp add: rules del: follows.simps)
  next
    case (Esc key)
    then show ?thesis using lw d
      by (auto simp: rules der_seq der_escape seq_assoc intro!: right_to_lex)
  next
    case (Hex key)
    have s: "seq (hex_digits 0) R = R" for R by simp
    show ?thesis using Hex lw d s
      by (cases "lex_n j = 1") (auto simp: rules der_seq der_hex intro!: right_to_lex)
  next
    case (Lit word)
    let ?w = "LITERALS ! word"
    have n: "lex_n j < length ?w" "word < 3" using lw Lit by auto
    then have dr: "drop (lex_n j) ?w = ?w ! lex_n j # drop (Suc (lex_n j)) ?w" by (simp add: Cons_nth_drop_Suc)
    show ?thesis
      using Lit n d unfolding rules Lit lex.case follows.simps dr
      by (auto simp: der_seq der_only intro!: right_to_lex right_value_done)
  next
    case Minus
    then show ?thesis using d by (auto simp: rules der_seq der_int_part intro!: right_to_lex)
  next
    case Zero
  then show ?thesis using d right_number_end [OF d, of b]
    by (auto simp: rules der_seq_null der_fraction der_exponent der_seq der_after_other intro!: right_to_lex)
  next
  case LexInt
  have n: "20 - lex_n j - 1 = 20 - Suc (lex_n j)" by simp
  show ?thesis using LexInt lw d right_number_end [OF d, of b] digit_not_special [of b]
    by (auto simp: rules der_seq_null der_fraction der_exponent der_digits der_seq der_after_other n
        INT_DIGITS_LIMIT_def is_digit_def intro!: right_to_lex)
  next
  case Dot
    then show ?thesis using d by (auto simp: rules der_seq der_digits intro!: right_to_lex)
  next
    case Frac
  have n: "17 - lex_n j - 1 = 17 - Suc (lex_n j)" by simp
  show ?thesis using Frac lw d right_number_end [OF d, of b] digit_not_special [of b]
    by (auto simp: rules der_seq_null der_exponent der_digits der_seq der_after_other n
        FRAC_DIGITS_LIMIT_def is_digit_def intro!: right_to_lex)
  next
  case Exp
    then show ?thesis using d by (auto simp: rules der_seq der_exp_tail is_digit_def intro!: right_to_lex)
  next
    case ExpSign
    then show ?thesis using d by (auto simp: rules der_seq der_digits intro!: right_to_lex)
  next
    case ExpInt
  have n: "4 - lex_n j - 1 = 4 - Suc (lex_n j)" by simp
  show ?thesis using ExpInt lw d right_number_end [OF d, of b] digit_not_special [of b]
    by (auto simp: rules der_seq_null der_digits der_after_other n
        EXP_DIGITS_LIMIT_def is_digit_def intro!: right_to_lex)
  qed
qed


section \<open>The automaton accepts the language\<close>

lemma follow_nothing:
  assumes "json_wf j"
  shows "may_follow j [] \<longleftrightarrow> json_complete j"
proof -
  have af: "after k fs [] \<longleftrightarrow> fs = []" for k fs by (cases fs) (auto simp: der_more)
  have f: "frames j = [] \<longleftrightarrow> depth j = 0" by (rule frames_Nil)
  have lw: "lex_wf (lex_state j) (lex_n j) (frames j)" using assms by (simp add: json_wf_def)
  show ?thesis
    unfolding may_follow_def json_complete_def
    using lw f
    by (cases "lex_state j"; (simp add: af derivs colon_def alt_def del: after.simps; fail)?;
      auto simp: af derivs colon_def alt_def simp del: after.simps)
qed

lemma accepts_iff: "json_wf j \<Longrightarrow> json_accepts j w \<longleftrightarrow> may_follow j w"
proof (induction w arbitrary: j)
  case Nil
  then show ?case by (simp add: follow_nothing)
next
  case (Cons b w)
  have right: "step_right (der b (may_follow j)) (json_step b j)" by (rule step_is_right [OF Cons.prems])
  have "may_follow j (b # w) \<longleftrightarrow> der b (may_follow j) w" by (simp add: der_def)
  then show ?case using right Cons.IH
    by (cases "json_step b j") (auto simp: only_def)
qed

lemma frames_start [simp]: "frames (json_start ob) = []" "depth (json_start ob) = 0"
  by (simp_all add: frames_def json_start_def)

lemma seq_only_right [simp]: "seq P (only []) = P"
  by (intro ext) (simp add: seq_def only_def)

text \<open>What the two starting states accept.\<close>

definition json_text :: "bool \<Rightarrow> lang" where
  "json_text object = (if object then object_text (json_value 63) else json_value 64)"

lemma start_right: "step_right (der b (json_text object)) (json_step b (json_start object))"
proof (cases object)
  case False
  have "der b (inner []) = der b (json_text object)"
    using False by (simp add: json_text_def inner_def NESTING_LIMIT_def)
  moreover have "json_step b (json_start False) = read_value b (json_start False)"
    by (simp add: json_step_def json_start_def)
  ultimately show ?thesis using False right_read_value [of "json_start False" b] by simp
next
  case True
  show ?thesis
  proof (cases "b = 123")
    case b: True
    have "der b (json_text object) = items 125 (member (inner [True]))"
      using True b by (intro ext) (simp add: json_text_def der_def object_text_def inner_def NESTING_LIMIT_def)
    also have "\<dots> = follows ObjectFirst 0 [True]" using items_after(2) [of "[]"] by simp
    finally have "der b (json_text object) = follows ObjectFirst 0 [True]" .
    moreover have "json_step b (json_start True) = open_bracket True (json_start True)"
      using b by (simp add: json_step_def json_start_def)
    ultimately show ?thesis using True right_open [of "json_start True" _ True] by (simp del: follows.simps)
  next
    case b: False
    then have "der b (json_text object) = none"
      using True by (intro ext) (simp add: json_text_def der_def object_text_def)
    then show ?thesis using True b by (simp add: json_step_def json_start_def)
  qed
qed

lemma json_text_ne: "\<not> json_text object []"
  by (simp add: json_text_def object_text_def der_value)

lemma start_accepts: "json_accepts (json_start object) w \<longleftrightarrow> json_text object w"
proof (cases w)
  case Nil
  then show ?thesis using json_text_ne by (simp add: json_complete_def json_start_def)
next
  case (Cons b v)
  have "json_text object (b # v) \<longleftrightarrow> der b (json_text object) v" by (simp add: der_def)
  then show ?thesis using Cons start_right [of b object]
    by (cases "json_step b (json_start object)") (auto simp: only_def accepts_iff)
qed

section \<open>No state is a dead end\<close>

text \<open>Reading a text to a state that expects more.\<close>

fun json_read :: "json \<Rightarrow> u8 list \<Rightarrow> json option" where
  "json_read j [] = Some j"
| "json_read j (b # w) = (case json_step b j of Next j' \<Rightarrow> json_read j' w | _ \<Rightarrow> None)"

lemma read_accepts: "json_read j u = Some j' \<Longrightarrow> json_accepts j (u @ w) = json_accepts j' w"
  by (induction u arbitrary: j) (auto split: outcome.splits)

lemma read_wf: "json_wf j \<Longrightarrow> json_read j u = Some j' \<Longrightarrow> json_wf j'"
proof (induction u arbitrary: j)
  case (Cons b u)
  then obtain j1 where "json_step b j = Next j1" "json_read j1 u = Some j'" by (auto split: outcome.splits)
  then show ?case using Cons step_is_right [of j b] by auto
qed simp

lemma read_start_wf: "json_read (json_start object) (b # u) = Some j \<Longrightarrow> json_wf j"
  using start_right [of b object] read_wf by (auto split: outcome.splits)

definition inhabited :: "lang \<Rightarrow> bool" where
  "inhabited P \<longleftrightarrow> (\<exists>w. P w)"

lemma inhabited_seq [simp]: "inhabited (seq P Q) \<longleftrightarrow> inhabited P \<and> inhabited Q"
  by (auto simp: inhabited_def seq_def)

lemma inhabited_alt [simp]: "inhabited (alt P Q) \<longleftrightarrow> inhabited P \<or> inhabited Q"
  by (auto simp: inhabited_def alt_def)

lemma inhabited_parts [simp]:
  "inhabited (only x)" "inhabited (blanks k)" "inhabited fraction" "inhabited exponent"
  "inhabited int_part" "inhabited string_rest" "inhabited (more c I)" "inhabited (inner fs)"
proof -
  show "inhabited (only x)" by (auto simp: inhabited_def only_def)
  show "inhabited (blanks k)" using der_blanks(2) unfolding inhabited_def by blast
  show "inhabited fraction" "inhabited exponent"
    using der_fraction(2) der_exponent(2) unfolding inhabited_def by blast+
  show "inhabited int_part" unfolding inhabited_def int_part_def by blast
  show "inhabited string_rest" using string_rest.quote unfolding inhabited_def by blast
  show "inhabited (more c I)" using more.close unfolding inhabited_def by blast
  have "literal (LITERALS ! 0)" by (simp add: literal_def LITERALS_def)
  then have "json_value n (LITERALS ! 0)" for n by (cases n) (simp_all add: scalar_def)
  then show "inhabited (inner fs)" unfolding inhabited_def inner_def by blast
qed

lemma inhabited_digits: "lo \<le> hi \<Longrightarrow> inhabited (digits lo hi)"
  unfolding inhabited_def by (rule exI [of _ "replicate lo 48"]) (simp add: digits_def is_digit_def)

lemma inhabited_exp_tail [simp]: "inhabited exp_tail"
  unfolding inhabited_def
  by (rule exI [of _ "[48]"]) (simp add: exp_tail_def digits_def is_digit_def)

lemma inhabited_bytes [simp]: "inhabited (follow_bytes k)" "inhabited (hex_digits k)" "inhabited escape_tail"
proof -
  show "inhabited (follow_bytes k)" unfolding inhabited_def
    by (rule exI [of _ "replicate k 0x80"]) (simp add: follow_bytes_def)
  show "inhabited (hex_digits k)" unfolding inhabited_def
    by (rule exI [of _ "replicate k 48"]) (simp add: hex_digits_def is_hexdigit_def)
  show "inhabited escape_tail" unfolding inhabited_def by (rule exI [of _ "[34]"]) (simp add: escape_tail_def)
qed

lemma inhabited_member [simp]: "inhabited (member V) \<longleftrightarrow> inhabited V"
proof -
  have "inhabited json_string" unfolding inhabited_def json_string_def using string_rest.quote by blast
  then show ?thesis by (simp add: member_def)
qed

lemma inhabited_after [simp]: "inhabited (after k fs)"
  by (induction fs arbitrary: k) auto

lemma inhabited_follows: "json_wf j \<Longrightarrow> inhabited (may_follow j)"
  unfolding may_follow_def json_wf_def
  by (cases "lex_state j") (auto simp: colon_def string_end_def inhabited_digits simp del: after.simps)

lemma inhabited_text: "inhabited (json_text object)"
proof -
  have "inhabited (items c I)" for c I by (simp add: items_def)
  then have "inhabited (object_text V)" for V unfolding inhabited_def object_text_def by blast
  moreover have "inhabited (json_value 64)"
    using inhabited_parts(8) [of "[]"] by (simp add: inner_def NESTING_LIMIT_def)
  ultimately show ?thesis by (simp add: json_text_def)
qed

end
