(* ===== verification/Grammar.thy ===== *)
theory Grammar
  imports Json_Automaton
begin

text \<open>
  Guided decoding (\<open>src/rust/crates/nv-grammar/src/lib.rs\<close>): a byte-level automaton for the grammar, in
  which a marker byte stands for "any JSON value" and hands over to the automaton of Json_Automaton, and the
  decoder that masks the logits of tokens the grammar forbids. The dense automaton comes from the crate
  regex-automata, so it is a parameter: a record of the four functions the code calls on it. A logit is the
  word of the bits of its f32. The warning printed for an end-of-sequence id outside the vocabulary is left
  out.
\<close>

section \<open>Stepping the combined automaton\<close>

record 's dfa =
  next_state :: "'s \<Rightarrow> u8 \<Rightarrow> 's"
  is_dead_state :: "'s \<Rightarrow> bool"
  next_eoi_state :: "'s \<Rightarrow> 's"
  is_match_state :: "'s \<Rightarrow> bool"

record 's gstate =
  dfa_state :: 's
  json_state :: "json option"

definition marker :: "bool \<Rightarrow> u8" where
  "marker o_only = (if o_only then 2 else 1)"

definition live :: "'s dfa \<Rightarrow> 's \<Rightarrow> 's option" where
  "live A s = (if is_dead_state A s then None else Some s)"

definition at_dfa :: "'s \<Rightarrow> 's gstate" where
  "at_dfa s = \<lparr>dfa_state = s, json_state = None\<rparr>"

text \<open>\<open>find_map\<close> of an iterator.\<close>

fun find_map :: "('a \<Rightarrow> 'b option) \<Rightarrow> 'a list \<Rightarrow> 'b option" where
  "find_map f [] = None"
| "find_map f (x # xs) = (case f x of Some y \<Rightarrow> Some y | None \<Rightarrow> find_map f xs)"

text \<open>The code's \<open>resume\<close> and \<open>step_state\<close> call each other: a number ends before the byte that is read, and
  that byte is then read again from the state after the marker, where it may open the next JSON value. The
  fuel counts how often this happens for one byte. One is enough, because an automaton that was just started
  never ends before its first byte (\<open>step_fuel_enough\<close> in Grammar_Facts).\<close>

function (sequential) resume ::
  "nat \<Rightarrow> 's dfa \<Rightarrow> bool \<Rightarrow> 's \<Rightarrow> json \<Rightarrow> outcome \<Rightarrow> u8 \<Rightarrow> 's gstate option"
and step_state_in :: "nat \<Rightarrow> 's dfa \<Rightarrow> bool \<Rightarrow> 's gstate \<Rightarrow> u8 \<Rightarrow> 's gstate option" where
  "resume fuel A json_markers at j st b =
     (let after = live A (next_state A at (marker (object_only j))) in
      case st of
        Next j' \<Rightarrow> Some \<lparr>dfa_state = at, json_state = Some j'\<rparr>
      | Done \<Rightarrow> map_option at_dfa after
      | DoneBeforeThisByte \<Rightarrow>
          (case (fuel, after) of
             (Suc k, Some s) \<Rightarrow> step_state_in k A json_markers (at_dfa s) b
           | _ \<Rightarrow> None)
      | Reject \<Rightarrow> None)"
| "step_state_in fuel A json_markers st b =
     (if json_markers \<and> (b = marker False \<or> b = marker True) then None
      else (case json_state st of
          Some j \<Rightarrow> resume fuel A json_markers (dfa_state st) j (json_step b j) b
        | None \<Rightarrow>
            (case live A (next_state A (dfa_state st) b) of
               Some ns \<Rightarrow> Some (at_dfa ns)
             | None \<Rightarrow>
                 if \<not> json_markers then None
                 else find_map (\<lambda>ob. let j = json_start ob in
                     resume fuel A json_markers (dfa_state st) j (json_step b j) b)
                   (filter (\<lambda>ob. live A (next_state A (dfa_state st) (marker ob)) \<noteq> None) [False, True]))))"
  by pat_completeness auto
termination
  by (relation "measure (\<lambda>x. case x of Inl (k, _) \<Rightarrow> 2 * k | Inr (k, _) \<Rightarrow> 2 * k + 1)") auto


definition step_state :: "'s dfa \<Rightarrow> bool \<Rightarrow> 's gstate \<Rightarrow> u8 \<Rightarrow> 's gstate option" where
  "step_state = step_state_in 1"

definition terminates :: "'s dfa \<Rightarrow> 's gstate \<Rightarrow> bool" where
  "terminates A st =
     (case json_state st of
        None \<Rightarrow> is_match_state A (next_eoi_state A (dfa_state st))
      | Some j \<Rightarrow>
          if json_complete j
          then is_match_state A (next_eoi_state A (next_state A (dfa_state st) (marker (object_only j))))
          else False)"

fun step_all :: "'s dfa \<Rightarrow> bool \<Rightarrow> 's gstate \<Rightarrow> u8 list \<Rightarrow> 's gstate option" where
  "step_all A m st [] = Some st"
| "step_all A m st (b # bs) = (case step_state A m st b of Some ns \<Rightarrow> step_all A m ns bs | None \<Rightarrow> None)"

section \<open>Constraining a text\<close>

text \<open>A text is given by its bytes.\<close>

record 's constraint =
  c_dfa :: "'s dfa"
  c_markers :: bool
  c_state :: "'s gstate"
  c_dead :: bool

definition constraint_new :: "'s dfa \<Rightarrow> 's \<Rightarrow> bool \<Rightarrow> 's constraint" where
  "constraint_new A start m = \<lparr>c_dfa = A, c_markers = m, c_state = at_dfa start, c_dead = False\<rparr>"

definition constraint_can_terminate :: "'s constraint \<Rightarrow> bool" where
  "constraint_can_terminate c \<longleftrightarrow> \<not> c_dead c \<and> terminates (c_dfa c) (c_state c)"

fun advance_str :: "u8 list \<Rightarrow> 's constraint \<Rightarrow> bool \<times> 's constraint" where
  "advance_str [] c = (True, c)"
| "advance_str (b # bs) c =
     (case step_state (c_dfa c) (c_markers c) (c_state c) b of
        Some ns \<Rightarrow> advance_str bs (c\<lparr>c_state := ns\<rparr>)
      | None \<Rightarrow> (False, c\<lparr>c_dead := True\<rparr>))"

definition accepts_str :: "'s constraint \<Rightarrow> u8 list \<Rightarrow> bool" where
  "accepts_str c bs = (if c_dead c then False else step_all (c_dfa c) (c_markers c) (c_state c) bs \<noteq> None)"

definition token_mask :: "'s constraint \<Rightarrow> u8 list list \<Rightarrow> bool list" where
  "token_mask c token_strs = map (accepts_str c) token_strs"

section \<open>Vocabularies\<close>

record vocab =
  vocab_bytes :: "u8 list list"
  is_eos :: "bool list"
  oov_eos :: "u32 list"
  eos :: "u32 list"

text \<open>\<open>sort_unstable\<close> and \<open>dedup\<close>.\<close>

definition sort_dedup :: "u32 list \<Rightarrow> u32 list" where
  "sort_dedup xs = remdups_adj (sort xs)"

definition vocab_new :: "u8 list list \<Rightarrow> u32 list \<Rightarrow> vocab" where
  "vocab_new token_bytes eos_ids =
     (let n = length token_bytes in
      \<lparr>vocab_bytes = token_bytes,
       is_eos = fold (\<lambda>e flags. if unat e < n then flags[unat e := True] else flags) eos_ids (replicate n False),
       oov_eos = sort_dedup (filter (\<lambda>e. \<not> unat e < n) eos_ids),
       eos = sort_dedup eos_ids\<rparr>)"

text \<open>A binary search in a sorted vector finds what the vector contains.\<close>

definition is_oov_eos :: "vocab \<Rightarrow> u32 \<Rightarrow> bool" where
  "is_oov_eos V i \<longleftrightarrow> i \<in> set (oov_eos V)"

definition vocab_len :: "vocab \<Rightarrow> nat" where
  "vocab_len V = length (vocab_bytes V)"

section \<open>The guided decoder\<close>

text \<open>Automaton and vocabulary are shared; the decoder holds their addresses, which the cache of mask rows
  shared by all decoders uses in its keys. An entry of that cache keeps both objects alive, so an address
  in a key always means the same object: the memory is a function.\<close>

record 's memory =
  dfa_at :: "nat \<Rightarrow> 's dfa"
  vocab_at :: "nat \<Rightarrow> vocab"

record state_row =
  allowed :: "u64 list"
  row_can_terminate :: bool

type_synonym 's row_key = "nat \<times> nat \<times> bool \<times> 's gstate"
type_synonym 's row_cache = "('s row_key \<times> state_row) list"

definition ROW_CACHE_LIMIT :: nat where
  "ROW_CACHE_LIMIT = 4096"

record 's decoder =
  dfa_ptr :: nat
  d_markers :: bool
  vocab_ptr :: nat
  d_state :: "'s gstate"
  rows :: "'s gstate \<rightharpoonup> state_row"
  rows_computed :: nat
  d_dead :: bool
  defer_until :: "u32 list"
  defer_matched :: nat

record 's saved_decoder =
  cp_state :: "'s gstate"
  cp_dead :: bool
  cp_defer_until :: "u32 list"
  cp_defer_matched :: nat

definition decoder_new :: "nat \<Rightarrow> 's \<Rightarrow> bool \<Rightarrow> nat \<Rightarrow> 's decoder" where
  "decoder_new dp start m vp =
     \<lparr>dfa_ptr = dp, d_markers = m, vocab_ptr = vp, d_state = at_dfa start, rows = (\<lambda>_. None),
      rows_computed = 0, d_dead = False, defer_until = [], defer_matched = 0\<rparr>"

definition checkpoint :: "'s decoder \<Rightarrow> 's saved_decoder" where
  "checkpoint d = \<lparr>cp_state = d_state d, cp_dead = d_dead d, cp_defer_until = defer_until d,
     cp_defer_matched = defer_matched d\<rparr>"

definition rollback :: "'s saved_decoder \<Rightarrow> 's decoder \<Rightarrow> 's decoder" where
  "rollback cp d = d\<lparr>d_state := cp_state cp, d_dead := cp_dead cp, defer_until := cp_defer_until cp,
     defer_matched := cp_defer_matched cp\<rparr>"

definition set_defer_until_sequence :: "u32 list \<Rightarrow> 's decoder \<Rightarrow> 's decoder" where
  "set_defer_until_sequence ids d = d\<lparr>defer_until := ids, defer_matched := 0\<rparr>"

definition set_defer_until_token :: "u32 \<Rightarrow> 's decoder \<Rightarrow> 's decoder" where
  "set_defer_until_token i = set_defer_until_sequence [i]"

definition deferred :: "'s decoder \<Rightarrow> bool" where
  "deferred d \<longleftrightarrow> defer_until d \<noteq> []"

definition defer_token :: "'s decoder \<Rightarrow> u32 option" where
  "defer_token d =
     (if defer_matched d < length (defer_until d) then Some (defer_until d ! defer_matched d) else None)"

definition close_token_outside_logits :: "nat \<Rightarrow> 's decoder \<Rightarrow> u32 option" where
  "close_token_outside_logits logits_len d = find (\<lambda>i. logits_len \<le> unat i) (defer_until d)"

text \<open>\<open>f32::NEG_INFINITY\<close>.\<close>

definition NEG_INFINITY :: u32 where
  "NEG_INFINITY = 0xFF800000"

definition mask_to_defer_token :: "u32 list \<Rightarrow> 's decoder \<Rightarrow> bool \<times> u32 list" where
  "mask_to_defer_token logits d =
     (case defer_token d of
        None \<Rightarrow> (False, logits)
      | Some close \<Rightarrow>
          if length logits \<le> unat close then (False, logits)
          else (True, map (\<lambda>(i, x). if of_nat i \<noteq> close then NEG_INFINITY else x)
            (zip [0..<length logits] logits)))"

definition walk :: "'s dfa \<Rightarrow> bool \<Rightarrow> 's gstate \<Rightarrow> u8 list \<Rightarrow> 's gstate option" where
  "walk A m st bytes = (if bytes = [] then None else step_all A m st bytes)"

text \<open>One bit per token of the vocabulary, in words of 64.\<close>

definition set_allowed :: "nat \<Rightarrow> u64 list \<Rightarrow> u64 list" where
  "set_allowed i ws = ws[i div 64 := or (ws ! (i div 64)) (push_bit (i mod 64) 1)]"

definition is_allowed :: "u64 list \<Rightarrow> nat \<Rightarrow> bool" where
  "is_allowed ws i \<longleftrightarrow> and (drop_bit (i mod 64) (ws ! (i div 64))) 1 \<noteq> 0"

definition compute_row :: "'s dfa \<Rightarrow> vocab \<Rightarrow> bool \<Rightarrow> 's gstate \<Rightarrow> state_row" where
  "compute_row A V m st =
     (let n = vocab_len V;
          nwords = (n + 63) div 64 in
      \<lparr>allowed = fold (\<lambda>i ws.
           if is_eos V ! i then ws
           else if walk A m st (vocab_bytes V ! i) \<noteq> None then set_allowed i ws else ws)
         [0..<n] (replicate nwords 0),
       row_can_terminate = terminates A st\<rparr>)"

text \<open>The row of the current state: from the decoder's own rows, the shared cache, or computed and put in
  both; a full cache is cleared first.\<close>

definition row_key :: "'s decoder \<Rightarrow> 's row_key" where
  "row_key d = (dfa_ptr d, vocab_ptr d, d_markers d, d_state d)"

definition current_row ::
  "'s memory \<Rightarrow> 's row_cache \<Rightarrow> 's decoder \<Rightarrow> state_row \<times> 's row_cache \<times> 's decoder" where
  "current_row M c d =
     (case rows d (d_state d) of
        Some r \<Rightarrow> (r, c, d)
      | None \<Rightarrow>
          (case map_of c (row_key d) of
             Some r \<Rightarrow> (r, c, d\<lparr>rows := (rows d)(d_state d \<mapsto> r)\<rparr>)
           | None \<Rightarrow>
               (let r = compute_row (dfa_at M (dfa_ptr d)) (vocab_at M (vocab_ptr d)) (d_markers d) (d_state d);
                    c1 = (if ROW_CACHE_LIMIT \<le> length c then [] else c);
                    c2 = (if map_of c1 (row_key d) = None then (row_key d, r) # c1 else c1) in
                (r, c2, d\<lparr>rows_computed := rows_computed d + 1, rows := (rows d)(d_state d \<mapsto> r)\<rparr>))))"

definition decoder_can_terminate :: "'s memory \<Rightarrow> 's decoder \<Rightarrow> bool" where
  "decoder_can_terminate M d \<longleftrightarrow> \<not> d_dead d \<and> terminates (dfa_at M (dfa_ptr d)) (d_state d)"

definition masked_logit :: "vocab \<Rightarrow> state_row \<Rightarrow> nat \<Rightarrow> nat \<Rightarrow> u32 \<Rightarrow> u32" where
  "masked_logit V r n i x =
     (if i < n
      then (if is_eos V ! i then (if \<not> row_can_terminate r then NEG_INFINITY else x)
            else if \<not> is_allowed (allowed r) i then NEG_INFINITY else x)
      else (if (row_can_terminate r \<and> oov_eos V \<noteq> []) \<and> is_oov_eos V (of_nat i) then x else NEG_INFINITY))"

definition apply_mask ::
  "'s memory \<Rightarrow> 's row_cache \<Rightarrow> u32 list \<Rightarrow> 's decoder \<Rightarrow> u32 list \<times> 's row_cache \<times> 's decoder" where
  "apply_mask M c logits d =
     (let V = vocab_at M (vocab_ptr d) in
      if d_dead d then (map (\<lambda>_. NEG_INFINITY) logits, c, d)
      else if deferred d
      then (fold (\<lambda>i ls. if unat i < length ls then ls[unat i := NEG_INFINITY] else ls) (eos V) logits, c, d)
      else (case current_row M c d of (r, c', d') \<Rightarrow>
        (let n = min (length logits) (vocab_len V) in
         (map (\<lambda>(i, x). masked_logit V r n i x) (zip [0..<length logits] logits), c', d'))))"

text \<open>The length of the longest prefix of the sequence that the tokens so far end with, after one more.\<close>

fun fall_back :: "u32 list \<Rightarrow> nat \<Rightarrow> u32 \<Rightarrow> nat \<Rightarrow> nat" where
  "fall_back sq matched i 0 = 0"
| "fall_back sq matched i (Suc k) =
     (if sq ! k = i \<and> take k (drop (matched - k) sq) = take k sq then k + 1
      else fall_back sq matched i k)"

definition contiguous_suffix_match_len :: "u32 list \<Rightarrow> nat \<Rightarrow> u32 \<Rightarrow> nat" where
  "contiguous_suffix_match_len sq matched i =
     (if matched < length sq \<and> sq ! matched = i then matched + 1 else fall_back sq matched i matched)"

definition advance :: "'s memory \<Rightarrow> u32 \<Rightarrow> 's decoder \<Rightarrow> bool \<times> 's decoder" where
  "advance M i d =
     (let V = vocab_at M (vocab_ptr d) in
      if d_dead d then (False, d)
      else if deferred d
      then (let k = contiguous_suffix_match_len (defer_until d) (defer_matched d) i in
        (True, if k = length (defer_until d) then d\<lparr>defer_until := [], defer_matched := 0\<rparr>
          else d\<lparr>defer_matched := k\<rparr>))
      else if vocab_len V \<le> unat i
      then (if is_oov_eos V i then (True, d) else (False, d\<lparr>d_dead := True\<rparr>))
      else if is_eos V ! unat i then (True, d)
      else (case walk (dfa_at M (dfa_ptr d)) (d_markers d) (d_state d) (vocab_bytes V ! unat i) of
          Some ns \<Rightarrow> (True, d\<lparr>d_state := ns\<rparr>)
        | None \<Rightarrow> (False, d\<lparr>d_dead := True\<rparr>)))"

end
