(* ===== verification/Grammar_Facts.thy ===== *)
theory Grammar_Facts
  imports Grammar "HOL-Library.Sublist"
begin

text \<open>
  Lemmas on guided decoding: one unit of fuel is enough, the bit rows say what the automaton allows, the
  shared cache only ever holds such rows, and the partial match of the close sequence is the longest one.
\<close>

section \<open>Fuel\<close>

lemma start_never_ends: "json_step b (json_start ob) \<noteq> DoneBeforeThisByte"
  by (simp add: json_step_def json_start_def read_value_def open_bracket_def to_lex_def)

lemma resume_start:
  "resume (Suc k) A m at (json_start ob) (json_step b (json_start ob)) b =
   resume 0 A m at (json_start ob) (json_step b (json_start ob)) b"
  using start_never_ends [of b ob] by (cases "json_step b (json_start ob)") auto

lemma step_plain_fuel:
  assumes "json_state st = None"
  shows "step_state_in k A m st b = step_state_in 0 A m st b"
proof (cases k)
  case (Suc n)
  show ?thesis unfolding Suc step_state_in.simps [of _ A m st b] assms
    by (simp only: Let_def resume_start option.case)
qed simp

lemma step_state_fuel: "1 \<le> k \<Longrightarrow> step_state_in k A m st b = step_state A m st b"
proof (cases "json_state st")
  case None
  then show ?thesis unfolding step_state_def by (metis step_plain_fuel)
next
  case (Some j)
  assume "1 \<le> k"
  then obtain n where k: "k = Suc n" by (cases k) auto
  have "step_state_in n A m (at_dfa s) b = step_state_in 0 A m (at_dfa s) b" for s
    by (rule step_plain_fuel) (simp add: at_dfa_def)
  then show ?thesis unfolding step_state_def k
    by (cases "json_step b j") (auto simp: Some Let_def simp del: step_state_in.simps
        simp: step_state_in.simps [of _ A m st b] split: option.split)
qed

section \<open>Mask rows\<close>

lemma is_allowed_bit: "is_allowed ws i \<longleftrightarrow> bit (ws ! (i div 64)) (i mod 64)"
  by (simp add: is_allowed_def bit_iff_odd_drop_bit and_one_eq odd_iff_mod_2_eq_one)

lemma is_allowed_set:
  "j div 64 < length ws \<Longrightarrow> is_allowed (set_allowed j ws) i \<longleftrightarrow> i = j \<or> is_allowed ws i"
proof -
  assume j: "j div 64 < length ws"
  show ?thesis
  proof (cases "i div 64 = j div 64")
    case True
    have "i mod 64 = j mod 64 \<longleftrightarrow> i = j" using True by (metis div_mult_mod_eq)
    then show ?thesis using True j
      by (auto simp: is_allowed_bit set_allowed_def bit_simps)
  next
    case False
    then show ?thesis using j by (auto simp: is_allowed_bit set_allowed_def)
  qed
qed

lemma length_set_allowed [simp]: "length (set_allowed i ws) = length ws"
  by (simp add: set_allowed_def)

lemma fold_allowed:
  assumes "\<And>j. j \<in> set js \<Longrightarrow> j div 64 < length ws"
  shows "is_allowed (fold (\<lambda>j ws. if p j then ws else if q j then set_allowed j ws else ws) js ws) i \<longleftrightarrow>
    (i \<in> set js \<and> \<not> p i \<and> q i) \<or> is_allowed ws i"
  using assms
proof (induction js arbitrary: ws)
  case (Cons j js)
  then show ?case using Cons.IH [of ws] Cons.IH [of "set_allowed j ws"] by (auto simp: is_allowed_set)
qed simp

lemma compute_row_allowed:
  assumes "i < vocab_len V"
  shows "is_allowed (allowed (compute_row A V m st)) i \<longleftrightarrow>
    \<not> is_eos V ! i \<and> walk A m st (vocab_bytes V ! i) \<noteq> None"
proof -
  let ?n = "vocab_len V" and ?w = "(vocab_len V + 63) div 64"
  have less: "j div 64 < ?w" if "j < ?n" for j
  proof -
    have "j div 64 \<le> (?n - 1) div 64" using that by (intro div_le_mono) simp
    moreover have "(?n - 1) div 64 < (?n - 1 + 64) div 64" by simp
    moreover have "?n - 1 + 64 = ?n + 63" using that by simp
    ultimately show ?thesis by simp
  qed
  have "\<not> is_allowed (replicate ?w 0) i" using less [OF assms] by (simp add: is_allowed_bit)
  then show ?thesis
    using fold_allowed [of "[0..<?n]" "replicate ?w 0" "\<lambda>i. is_eos V ! i"
        "\<lambda>i. walk A m st (vocab_bytes V ! i) \<noteq> None" i] less assms
    by (simp add: compute_row_def Let_def)
qed

section \<open>The caches\<close>

definition row_for :: "'s memory \<Rightarrow> 's row_key \<Rightarrow> state_row" where
  "row_for M = (\<lambda>(p, v, m, s). compute_row (dfa_at M p) (vocab_at M v) m s)"

definition cache_ok :: "'s memory \<Rightarrow> 's row_cache \<Rightarrow> bool" where
  "cache_ok M c \<longleftrightarrow> (\<forall>(k, r) \<in> set c. r = row_for M k) \<and> length c \<le> ROW_CACHE_LIMIT"

definition rows_ok :: "'s memory \<Rightarrow> 's decoder \<Rightarrow> bool" where
  "rows_ok M d \<longleftrightarrow> (\<forall>s r. rows d s = Some r \<longrightarrow> r = row_for M (dfa_ptr d, vocab_ptr d, d_markers d, s))"

text \<open>Two decoders that behave alike: they differ at most in the rows they have at hand.\<close>

definition alike :: "'s decoder \<Rightarrow> 's decoder \<Rightarrow> bool" where
  "alike d d' \<longleftrightarrow> dfa_ptr d' = dfa_ptr d \<and> d_markers d' = d_markers d \<and> vocab_ptr d' = vocab_ptr d \<and>
     d_state d' = d_state d \<and> d_dead d' = d_dead d \<and> defer_until d' = defer_until d \<and>
     defer_matched d' = defer_matched d"

lemma alike_refl [simp]: "alike d d"
  by (simp add: alike_def)

lemma current_row_right:
  assumes "cache_ok M c" and "rows_ok M d" and r: "current_row M c d = (r, c', d')"
  shows "r = row_for M (row_key d)" and "cache_ok M c'" and "rows_ok M d'" and "alike d d'"
proof -
  have hit: "r = row_for M k" if "map_of c k = Some r" for k r
    using assms(1) map_of_SomeD [OF that] by (auto simp: cache_ok_def)
  have own: "r = row_for M (row_key d)" if "rows d (d_state d) = Some r" for r
    using assms(2) that by (simp add: rows_ok_def row_key_def)
  have new: "row_for M (row_key d) =
      compute_row (dfa_at M (dfa_ptr d)) (vocab_at M (vocab_ptr d)) (d_markers d) (d_state d)"
    by (simp add: row_for_def row_key_def)
  have set: "rows_ok M (d\<lparr>rows_computed := x, rows := (rows d)(d_state d \<mapsto> row_for M (row_key d))\<rparr>)" for x
    using assms(2) by (auto simp: rows_ok_def row_key_def)
  have set': "rows_ok M (d\<lparr>rows := (rows d)(d_state d \<mapsto> row_for M (row_key d))\<rparr>)"
    using assms(2) by (auto simp: rows_ok_def row_key_def)
  have put: "cache_ok M (if map_of c1 k = None then (k, row_for M k) # c1 else c1)"
    if "c1 = (if ROW_CACHE_LIMIT \<le> length c then [] else c)" for c1 k
    using assms(1) that by (auto simp: cache_ok_def ROW_CACHE_LIMIT_def)
  have "r = row_for M (row_key d) \<and> cache_ok M c' \<and> rows_ok M d' \<and> alike d d'"
  proof (cases "rows d (d_state d)")
    case (Some x)
    then show ?thesis using r own assms(1,2) by (auto simp: current_row_def)
  next
    case none: None
    show ?thesis
    proof (cases "map_of c (row_key d)")
      case (Some x)
      then have "r = x" "c' = c" "d' = d\<lparr>rows := (rows d)(d_state d \<mapsto> x)\<rparr>"
        using r none by (auto simp: current_row_def)
      moreover have "x = row_for M (row_key d)" using hit [OF Some] .
      ultimately show ?thesis using set' assms(1) by (simp add: alike_def)
    next
      case None
      let ?c1 = "if ROW_CACHE_LIMIT \<le> length c then [] else c"
      have "r = row_for M (row_key d)"
        and "c' = (if map_of ?c1 (row_key d) = None then (row_key d, row_for M (row_key d)) # ?c1 else ?c1)"
        and "d' = d\<lparr>rows_computed := rows_computed d + 1, rows := (rows d)(d_state d \<mapsto> row_for M (row_key d))\<rparr>"
        using r none None unfolding current_row_def Let_def new [symmetric]
        by (simp_all split: if_splits)
      then show ?thesis using set put by (simp add: alike_def)
    qed
  qed
  then show "r = row_for M (row_key d)" "cache_ok M c'" "rows_ok M d'" "alike d d'" by simp_all
qed

section \<open>The close sequence\<close>

definition longest :: "u32 list \<Rightarrow> u32 list \<Rightarrow> nat \<Rightarrow> bool" where
  "longest sq h m \<longleftrightarrow> m \<le> length sq \<and> suffix (take m sq) h \<and>
     (\<forall>k \<le> length sq. suffix (take k sq) h \<longrightarrow> k \<le> m)"

lemma suffix_snoc_take:
  "k < length sq \<Longrightarrow> suffix (take (Suc k) sq) (h @ [i]) \<longleftrightarrow> sq ! k = i \<and> suffix (take k sq) h"
  by (simp add: take_Suc_conv_app_nth)

lemma suffix_within:
  assumes "m \<le> length sq" and "suffix (take m sq) h" and "k \<le> m"
  shows "suffix (take k sq) h \<longleftrightarrow> take k (drop (m - k) sq) = take k sq"
proof -
  have len: "length (take k sq) = k" "length (take m sq) = m" using assms by auto
  have "suffix (take k sq) h \<longleftrightarrow> suffix (take k sq) (take m sq)"
    using assms len by (metis suffix_length_suffix suffix_order.trans)
  also have "\<dots> \<longleftrightarrow> drop (m - k) (take m sq) = take k sq"
    using len assms(3) by (metis suffix_drop suffix_take diff_diff_cancel length_drop append_take_drop_id
        suffixE append_eq_conv_conj length_append add_diff_cancel_right')
  also have "drop (m - k) (take m sq) = take k (drop (m - k) sq)"
    using assms(3) by (simp add: drop_take)
  finally show ?thesis .
qed

lemma fall_back_longest:
  assumes m: "m \<le> length sq" "suffix (take m sq) h"
    and k: "k \<le> m" and above: "\<forall>n. k < n \<and> n \<le> length sq \<longrightarrow> \<not> suffix (take n sq) (h @ [i])"
  shows "longest sq (h @ [i]) (fall_back sq m i k)"
  using k above
proof (induction k)
  case 0
  then show ?case by (auto simp: longest_def)
next
  case (Suc k)
  have less: "k < length sq" using Suc.prems(1) m by simp
  have iff: "suffix (take (Suc k) sq) (h @ [i]) \<longleftrightarrow> sq ! k = i \<and> take k (drop (m - k) sq) = take k sq"
    using suffix_snoc_take [OF less] suffix_within [OF m, of k] Suc.prems(1) by simp
  show ?case
  proof (cases "sq ! k = i \<and> take k (drop (m - k) sq) = take k sq")
    case True
    then have "suffix (take (Suc k) sq) (h @ [i])" using iff by simp
    moreover have "n \<le> Suc k" if "n \<le> length sq" "suffix (take n sq) (h @ [i])" for n
      using Suc.prems(2) that by (meson not_le_imp_less)
    moreover have "fall_back sq m i (Suc k) = Suc k" using True by simp
    ultimately show ?thesis using less unfolding longest_def by (simp only: Suc_leI) blast
  next
    case False
    then have "\<not> suffix (take (Suc k) sq) (h @ [i])" using iff by simp
    then have "\<forall>n. k < n \<and> n \<le> length sq \<longrightarrow> \<not> suffix (take n sq) (h @ [i])"
      using Suc.prems(2) by (metis Suc_lessI)
    moreover have "fall_back sq m i (Suc k) = fall_back sq m i k" using False by auto
    ultimately show ?thesis using Suc.IH Suc.prems(1) by simp
  qed
qed

lemma match_len_longest:
  assumes l: "longest sq h m"
  shows "longest sq (h @ [i]) (contiguous_suffix_match_len sq m i)"
proof -
  have m: "m \<le> length sq" "suffix (take m sq) h" using l by (auto simp: longest_def)
  have top: "\<not> suffix (take n sq) (h @ [i])" if "m + 1 < n" "n \<le> length sq" for n
  proof
    assume s: "suffix (take n sq) (h @ [i])"
    obtain k where n: "n = Suc k" using \<open>m + 1 < n\<close> by (cases n) auto
    then have "suffix (take k sq) h" using s suffix_snoc_take [of k sq h i] that by simp
    moreover have "k \<le> length sq" using that n by simp
    ultimately have "k \<le> m" using l by (simp add: longest_def)
    then show False using that n by simp
  qed
  show ?thesis
  proof (cases "m < length sq \<and> sq ! m = i")
    case True
    then have "suffix (take (Suc m) sq) (h @ [i])" using suffix_snoc_take [of m sq h i] m by simp
    then show ?thesis using True top
      by (auto simp: longest_def contiguous_suffix_match_len_def not_less [symmetric])
  next
    case False
    then have "\<not> suffix (take (Suc m) sq) (h @ [i])" if "Suc m \<le> length sq"
      using suffix_snoc_take [of m sq h i] that by auto
    then have "\<not> suffix (take n sq) (h @ [i])" if "m < n" "n \<le> length sq" for n
      using top [of n] that by (cases "n = Suc m") auto
    then have "\<forall>n. m < n \<and> n \<le> length sq \<longrightarrow> \<not> suffix (take n sq) (h @ [i])" by blast
    from fall_back_longest [OF m order_refl this] show ?thesis
      using False by (auto simp: contiguous_suffix_match_len_def)
  qed
qed

lemma longest_full:
  assumes "longest sq h m"
  shows "m = length sq \<longleftrightarrow> suffix sq h"
proof
  assume "suffix sq h"
  then have "suffix (take (length sq) sq) h" by simp
  then have "length sq \<le> m" using assms unfolding longest_def by blast
  then show "m = length sq" using assms by (simp add: longest_def)
qed (use assms in \<open>simp add: longest_def\<close>)

section \<open>Feeding tokens\<close>

definition feed :: "'s memory \<Rightarrow> u32 list \<Rightarrow> 's decoder \<Rightarrow> 's decoder" where
  "feed M ts d = fold (\<lambda>i d. snd (advance M i d)) ts d"

lemma feed_simps [simp]: "feed M [] d = d" "feed M (t # ts) d = feed M ts (snd (advance M t d))"
  by (simp_all add: feed_def)

lemma advance_keeps_undeferred: "\<not> deferred d \<Longrightarrow> \<not> deferred (snd (advance M i d))"
  by (auto simp: advance_def Let_def deferred_def split: option.splits)

lemma feed_undeferred: "\<not> deferred d \<Longrightarrow> \<not> deferred (feed M ts d)"
  by (induction ts arbitrary: d) (auto simp: advance_keeps_undeferred)

lemma advance_deferred:
  assumes "\<not> d_dead d" and "defer_until d = sq" and "sq \<noteq> []"
  shows "snd (advance M i d) =
    (let k = contiguous_suffix_match_len sq (defer_matched d) i in
     if k = length sq then d\<lparr>defer_until := [], defer_matched := 0\<rparr> else d\<lparr>defer_matched := k\<rparr>)"
  using assms by (simp add: advance_def deferred_def Let_def)

lemma feed_deferred:
  assumes "\<not> d_dead d" and "defer_until d = sq" and "sq \<noteq> []"
    and "longest sq h (defer_matched d)" and "\<not> sublist sq h"
  shows "(deferred (feed M ts d) \<longleftrightarrow> \<not> sublist sq (h @ ts)) \<and>
    (deferred (feed M ts d) \<longrightarrow> d_state (feed M ts d) = d_state d \<and> \<not> d_dead (feed M ts d))"
  using assms
proof (induction ts arbitrary: d h)
  case Nil
  then show ?case by (simp add: deferred_def)
next
  case (Cons t ts)
  let ?k = "contiguous_suffix_match_len sq (defer_matched d) t"
  have l: "longest sq (h @ [t]) ?k" by (rule match_len_longest) (rule Cons.prems(4))
  have adv: "snd (advance M t d) = (if ?k = length sq then d\<lparr>defer_until := [], defer_matched := 0\<rparr>
      else d\<lparr>defer_matched := ?k\<rparr>)" using advance_deferred [OF Cons.prems(1,2,3)] by (simp add: Let_def)
  show ?case
  proof (cases "?k = length sq")
    case True
    then have "suffix sq (h @ [t])" using longest_full [OF l] by simp
    then have "sublist sq (h @ t # ts)"
      by (auto simp: sublist_def suffix_def) (metis append.assoc append_Cons append_Nil)
    moreover have "\<not> deferred (feed M ts (d\<lparr>defer_until := [], defer_matched := 0\<rparr>))"
      by (rule feed_undeferred) (simp add: deferred_def)
    ultimately show ?thesis using True adv by simp
  next
    case False
    then have "\<not> suffix sq (h @ [t])" using longest_full [OF l] by simp
    then have "\<not> sublist sq (h @ [t])" using Cons.prems(5) by (simp add: sublist_snoc)
    then show ?thesis using Cons.IH [of "d\<lparr>defer_matched := ?k\<rparr>" "h @ [t]"] False adv Cons.prems l by simp
  qed
qed

end
