(* ===== verification/Grammar_Properties.thy ===== *)
theory Grammar_Properties
  imports Json_Language Grammar_Facts
begin

text \<open>
  The properties of guided decoding: the JSON automaton accepts exactly JSON and never runs into a dead end,
  the grammar "any value" accepts exactly JSON texts, the mask agrees with what the decoder accepts, the
  grammar arms when the close sequence has been produced, and speculation can be undone.
\<close>

section \<open>Composition with the JSON automaton\<close>

text \<open>A grammar that is one JSON value: its automaton takes the marker byte and nothing else.\<close>

definition one_marker :: "'s dfa \<Rightarrow> 's \<Rightarrow> bool" where
  "one_marker A s \<longleftrightarrow>
     (\<forall>b. is_dead_state A (next_state A s b) \<longleftrightarrow> b \<noteq> marker False) \<and>
     (\<forall>b. is_dead_state A (next_state A (next_state A s (marker False)) b)) \<and>
     is_match_state A (next_eoi_state A (next_state A s (marker False))) \<and>
     \<not> is_match_state A (next_eoi_state A s)"

lemma no_literal_marker:
  assumes "b \<in> {1, 2}" and "word < 3" and "k < length (LITERALS ! word)"
  shows "LITERALS ! word ! k \<noteq> b"
proof -
  have "LITERALS ! word ! k \<in> set (LITERALS ! word)" using assms by simp
  moreover have "word = 0 \<or> word = 1 \<or> word = 2" using assms by linarith
  ultimately show ?thesis using assms(1) by (auto simp: LITERALS_def)
qed

lemma one_small: "\<not> (48::u8) \<le> 1" "\<not> (49::u8) \<le> 1" "\<not> (65::u8) \<le> 1" "\<not> (97::u8) \<le> 1"
  by (simp_all add: word_le_nat_alt)

lemma json_step_marker:
  assumes wf: "json_wf j" and b: "b \<in> {1, 2}"
  shows "json_step b j = Reject \<or> json_step b j = DoneBeforeThisByte"
proof -
  have blank: "blank b j' = None" for j' using b by (auto simp: blank_def)
  have after: "step_after b j' = Reject" for j'
    using b by (auto simp: step_after_def or_else_def blank)
  have val: "read_value b j = Reject" using b by (auto simp: read_value_def one_small)
  have digit: "is_digit b = False" "is_hexdigit b = False"
    using b by (auto simp: is_digit_def is_hexdigit_def one_small)
  have "number_end b j = Reject \<or> number_end b j = DoneBeforeThisByte"
    by (simp add: number_end_def after)
  note simple = this blank val digit after
  have ne: "b \<noteq> 123" "b \<noteq> 93" "b \<noteq> 34" "b \<noteq> 125" "b \<noteq> 58" "b \<noteq> 92" "b \<noteq> 47" "b \<noteq> 98" "b \<noteq> 102"
      "b \<noteq> 110" "b \<noteq> 114" "b \<noteq> 116" "b \<noteq> 117" "b \<noteq> 48" "b \<noteq> 46" "b \<noteq> 101" "b \<noteq> 69" "b \<noteq> 43"
      "b \<noteq> 45" "\<not> (49 \<le> b \<and> b \<le> 57)"
    using b by (auto simp: one_small)
  have low: "b \<le> 0x1F" "and b 0xC0 \<noteq> 0x80" using b by (auto simp: word_le_nat_alt)
  have str: "read_string key b j = Reject" for key
    using ne low by (simp add: read_string_def)
  show ?thesis
  proof (cases "lex_state j")
    case (Lit word)
    then have "lex_n j < length (LITERALS ! word)" "word < 3" using wf by (simp_all add: json_wf_def)
    then have "LITERALS ! word ! lex_n j \<noteq> b" by (intro no_literal_marker [OF b])
    then show ?thesis using Lit by (simp add: json_step_def Let_def)
  next
    case Minus
    then show ?thesis using ne by (auto simp: json_step_def Let_def)
  qed (use simple str ne in \<open>simp_all add: json_step_def or_else_def Let_def\<close>)
qed

lemma start_step_marker: "b \<in> {1, 2} \<Longrightarrow> json_step b (json_start ob) = Reject"
  by (auto simp: json_step_def json_start_def read_value_def one_small)

lemma marker_simps [simp]: "marker False = 1" "marker True = 2"
  by (simp_all add: marker_def)

lemma step_in_json:
  assumes "one_marker A s" and "b \<notin> {1, 2}"
  shows "step_state A True \<lparr>dfa_state = s, json_state = Some j\<rparr> b =
    (case json_step b j of
       Next j' \<Rightarrow> Some \<lparr>dfa_state = s, json_state = Some j'\<rparr>
     | Done \<Rightarrow> if object_only j then None else Some (at_dfa (next_state A s 1))
     | _ \<Rightarrow> None)"
proof -
  have out: "step_state_in 0 A True (at_dfa (next_state A s 1)) b = None"
    using assms by (simp add: one_marker_def at_dfa_def live_def Let_def)
  show ?thesis
    using assms out unfolding step_state_def
    by (cases "json_step b j"; cases "object_only j") (auto simp: live_def one_marker_def Let_def)
qed

lemma object_only_step: "json_step b j = Next j' \<Longrightarrow> object_only j' = object_only j"
  by (auto simp: json_step_def Let_def to_lex_def open_bracket_def read_value_def read_string_def value_done_def
      close_bracket_def blank_def or_else_def step_after_def number_end_def
      split: lex.splits if_splits)


lemma json_part_accepts:
  assumes A: "one_marker A s" and "json_wf j" and "\<not> object_only j"
  shows "(\<exists>st'. step_all A True \<lparr>dfa_state = s, json_state = Some j\<rparr> w = Some st' \<and> terminates A st') \<longleftrightarrow>
    json_accepts j w"
  using assms(2,3)
proof (induction w arbitrary: j)
  case Nil
  then show ?case using A by (simp add: terminates_def one_marker_def)
next
  case (Cons b w)
  show ?case
  proof (cases "b \<in> {1, 2}")
    case True
    then have "step_state A True \<lparr>dfa_state = s, json_state = Some j\<rparr> b = None"
      by (auto simp: step_state_def)
    then show ?thesis using json_step_marker [OF Cons.prems(1) True] by auto
  next
    case False
    note step = step_in_json [OF A False, of j]
    show ?thesis
    proof (cases "json_step b j")
      case (Next j')
      have "json_wf j'" using step_is_right [OF Cons.prems(1), of b] Next by simp
      then show ?thesis using Next step Cons object_only_step [OF Next] by simp
    next
      case Done
      have stuck: "step_state A True (at_dfa (next_state A s 1)) c = None" for c
        using A by (simp add: step_state_def at_dfa_def live_def one_marker_def Let_def)
      have fin: "terminates A (at_dfa (next_state A s 1))"
        using A by (simp add: terminates_def at_dfa_def one_marker_def)
      show ?thesis using Done step Cons.prems(2) stuck fin by (cases w) auto
    qed (use step in auto)
  qed
qed

lemma advance_str_step_all:
  "advance_str w c = (ok, c') \<Longrightarrow>
   ok \<and> constraint_can_terminate c' \<longleftrightarrow>
   \<not> c_dead c \<and> (\<exists>st. step_all (c_dfa c) (c_markers c) (c_state c) w = Some st \<and> terminates (c_dfa c) st)"
proof (induction w arbitrary: c)
  case Nil
  then show ?case by (auto simp: constraint_can_terminate_def)
next
  case (Cons b w)
  show ?case
  proof (cases "step_state (c_dfa c) (c_markers c) (c_state c) b")
    case None
    then show ?thesis using Cons.prems by auto
  next
    case (Some ns)
    then show ?thesis using Cons.IH [of "c\<lparr>c_state := ns\<rparr>"] Cons.prems by simp
  qed
qed

section \<open>A concrete grammar and vocabulary\<close>

text \<open>The grammar "any JSON value" as a three-state automaton, and four tokens: 1, a, an opening bracket and
  the end token.\<close>

definition toy_dfa :: "nat dfa" where
  "toy_dfa = \<lparr>next_state = (\<lambda>s b. if s = 0 \<and> b = 1 then 1 else 2), is_dead_state = (\<lambda>s. s = 2),
     next_eoi_state = (\<lambda>s. s), is_match_state = (\<lambda>s. s = 1)\<rparr>"

definition toy_vocab :: vocab where
  "toy_vocab = vocab_new [[49], [97], [91], []] [3]"

definition toy_memory :: "nat memory" where
  "toy_memory = \<lparr>dfa_at = (\<lambda>_. toy_dfa), vocab_at = (\<lambda>_. toy_vocab)\<rparr>"

definition toy_decoder :: "nat decoder" where
  "toy_decoder = decoder_new 0 0 True 0"

lemma toy_one_marker: "one_marker toy_dfa 0"
  by (simp add: one_marker_def toy_dfa_def)

lemma toy_vocab_fields:
  "vocab_bytes toy_vocab = [[49], [97], [91], []]" "is_eos toy_vocab = [False, False, False, True]"
  by code_simp+

lemma toy_caches: "cache_ok M []" "rows_ok M toy_decoder" "\<not> d_dead toy_decoder" "\<not> deferred toy_decoder"
  by (simp_all add: cache_ok_def rows_ok_def toy_decoder_def decoder_new_def deferred_def)

section \<open>Properties of the JSON automaton\<close>

text \<open>
  C14. The byte automaton for "any JSON value" accepts exactly JSON. Started for a value, it accepts a text
  if and only if the text is in the JSON language (null, true, false, numbers of at most 20 integer, 17
  fraction and 4 exponent digits, strings of well-formed escapes and lead and follow bytes, arrays and objects
  nested at most 64 deep with at most 20 blanks between tokens); started for an object, if and only if the
  text is an object of it. The 64-bit word that holds the stack of open brackets loses nothing.
\<close>

theorem json_automaton_accepts_json:
  "json_accepts (json_start object) w \<longleftrightarrow> (if object then object_text (json_value 63) w else json_value 64 w)"
  using start_accepts by (simp add: json_text_def)

text \<open>
  The automaton never runs into a dead end. From every state it reaches by reading bytes it has not
  rejected, some continuation completes the text to an accepted one, so guided decoding that follows the
  automaton can always be finished.
\<close>

theorem json_automaton_never_stuck:
  assumes "json_read (json_start object) u = Some j"
  shows "\<exists>w. json_accepts (json_start object) (u @ w)"
proof (cases u)
  case Nil
  have "inhabited (json_text object)" by (rule inhabited_text)
  then show ?thesis using Nil start_accepts by (auto simp: inhabited_def)
next
  case (Cons b v)
  then have wf: "json_wf j" using read_start_wf assms by simp
  then have "\<exists>w. json_accepts j w"
    using inhabited_follows [OF wf] accepts_iff [OF wf] by (auto simp: inhabited_def)
  then show ?thesis using read_accepts [OF assms] by auto
qed

theorem json_automaton_never_stuck_witness:
  "\<exists>w. json_accepts (json_start False) ([91, 49, 44] @ w)"
proof -
  have "json_read (json_start False) [91, 49, 44] \<noteq> None"
    by (simp add: json_step_def json_start_def read_value_def open_bracket_def to_lex_def NESTING_LIMIT_def
        or_else_def blank_def step_after_def number_end_def is_digit_def top_is_object_def Let_def)
  then obtain j where "json_read (json_start False) [91, 49, 44] = Some j" by blast
  then show ?thesis by (rule json_automaton_never_stuck)
qed

text \<open>
  C15. A grammar that asks for any JSON value accepts exactly JSON. When the grammar's own automaton takes
  the marker byte and nothing else, a text advanced through a fresh constraint is accepted and may end
  there if and only if it is a JSON value; the hand-over at the marker, the return after the value and the
  end of a number at the end of the text are all right.
\<close>

theorem any_value_grammar_accepts_json:
  assumes "one_marker A s" and "advance_str w (constraint_new A s True) = (ok, c)"
  shows "ok \<and> constraint_can_terminate c \<longleftrightarrow> json_value 64 w"
proof -
  have "ok \<and> constraint_can_terminate c \<longleftrightarrow>
      (\<exists>st. step_all A True (at_dfa s) w = Some st \<and> terminates A st)"
    using advance_str_step_all [OF assms(2)] by (simp add: constraint_new_def)
  also have "\<dots> \<longleftrightarrow> json_value 64 w"
  proof (cases w)
    case Nil
    have "\<not> json_value 64 []" by (simp add: der_value)
    then show ?thesis using assms(1) Nil by (simp add: terminates_def at_dfa_def one_marker_def)
  next
    case (Cons b v)
    have run: "json_value 64 w \<longleftrightarrow> json_accepts (json_start False) w"
      using start_accepts [of False] by (simp add: json_text_def)
    show ?thesis
    proof (cases "b \<in> {1, 2}")
      case True
      then have "step_state A True (at_dfa s) b = None" by (auto simp: step_state_def)
      then show ?thesis using run Cons start_step_marker [OF True] by simp
    next
      case False
      have only: "live A (next_state A s 2) = None" "live A (next_state A s 1) = Some (next_state A s 1)"
          "live A (next_state A s b) = None"
        using assms(1) False by (auto simp: live_def one_marker_def)
      have obj: "object_only j' = False" if "json_step b (json_start False) = Next j'" for j'
        using object_only_step [OF that] by (simp add: json_start_def)
      have nd: "json_step b (json_start False) \<noteq> Done"
        by (simp add: json_step_def json_start_def read_value_def open_bracket_def to_lex_def)
      have "step_state A True (at_dfa s) b = (case json_step b (json_start False) of
          Next j' \<Rightarrow> Some \<lparr>dfa_state = s, json_state = Some j'\<rparr> | _ \<Rightarrow> None)"
        using only False nd start_never_ends [of b False] unfolding step_state_def
        by (cases "json_step b (json_start False)") (auto simp: at_dfa_def Let_def)
      moreover have "json_wf j'" if "json_step b (json_start False) = Next j'" for j'
        using start_right [of b False] that by simp
      ultimately show ?thesis
        using run Cons json_part_accepts [OF assms(1)] obj nd
        by (cases "json_step b (json_start False)") auto
    qed
  qed
  finally show ?thesis .
qed

theorem any_value_grammar_accepts_json_witness:
  "fst (advance_str [49] (constraint_new toy_dfa 0 True)) \<and>
   constraint_can_terminate (snd (advance_str [49] (constraint_new toy_dfa 0 True)))"
proof -
  obtain ok c where a: "advance_str [49] (constraint_new toy_dfa 0 True) = (ok, c)" by fastforce
  have "json_accepts (json_start False) [49]"
    by (simp add: json_step_def json_start_def read_value_def to_lex_def json_complete_def)
  then have "json_value 64 [49]" using start_accepts [of False "[49]"] by (simp only: json_text_def if_False)
  then show ?thesis using any_value_grammar_accepts_json [OF toy_one_marker a] a by simp
qed

text \<open>The follow bytes are not checked against the lead byte: an overlong form, a surrogate and a code point
  beyond Unicode pass inside a string, though none of them is UTF-8.\<close>

lemma ill_formed_utf8_accepted:
  "json_accepts (json_start False) [34, 0xE0, 0x80, 0x80, 34]"
  "json_accepts (json_start False) [34, 0xED, 0xA0, 0x80, 34]"
  "json_accepts (json_start False) [34, 0xF4, 0x90, 0x80, 0x80, 34]"
  by code_simp+

section \<open>Properties of the decoder\<close>

text \<open>What it means that sampling a token is legal: the decoder would take it, and an end token only when
  the grammar may end.\<close>

definition is_end_token :: "vocab \<Rightarrow> u32 \<Rightarrow> bool" where
  "is_end_token V i = (if unat i < vocab_len V then is_eos V ! unat i else is_oov_eos V i)"

definition legal :: "'s memory \<Rightarrow> 's decoder \<Rightarrow> u32 \<Rightarrow> bool" where
  "legal M d i \<longleftrightarrow> fst (advance M i d) \<and>
     (is_end_token (vocab_at M (vocab_ptr d)) i \<longrightarrow> decoder_can_terminate M d)"

lemma unat_of_nat_small: "i < 2 ^ 32 \<Longrightarrow> unat (of_nat i :: u32) = i"
  by (simp add: unat_of_nat)

lemma masked_is_legal:
  assumes live: "\<not> d_dead d" "\<not> deferred d" and i: "i < len" "len \<le> 2 ^ 32"
  shows "masked_logit (vocab_at M (vocab_ptr d)) (row_for M (row_key d)) (min len (vocab_len (vocab_at M (vocab_ptr d)))) i x =
    (if legal M d (of_nat i) then x else NEG_INFINITY)"
proof -
  let ?V = "vocab_at M (vocab_ptr d)" and ?A = "dfa_at M (dfa_ptr d)"
  have u: "unat (of_nat i :: u32) = i" using i by (intro unat_of_nat_small) simp
  have can: "row_can_terminate (row_for M (row_key d)) = decoder_can_terminate M d"
    using live by (simp add: row_for_def row_key_def compute_row_def Let_def decoder_can_terminate_def)
  show ?thesis
  proof (cases "i < vocab_len ?V")
    case True
    have "is_allowed (allowed (row_for M (row_key d))) i \<longleftrightarrow>
        \<not> is_eos ?V ! i \<and> walk ?A (d_markers d) (d_state d) (vocab_bytes ?V ! i) \<noteq> None"
      using compute_row_allowed [OF True] by (simp add: row_for_def row_key_def)
    then show ?thesis using True i live u can
      by (auto simp: masked_logit_def legal_def is_end_token_def advance_def Let_def split: option.splits)
  next
    case False
    then show ?thesis using i live u can
      by (auto simp: masked_logit_def legal_def is_end_token_def advance_def Let_def is_oov_eos_def)
  qed
qed

text \<open>A speculative run: tokens that are tried and masks that are computed for them.\<close>

datatype spec_op = Advance u32 | Mask "u32 list"

fun spec_run :: "'s memory \<Rightarrow> spec_op list \<Rightarrow> 's row_cache \<times> 's decoder \<Rightarrow> 's row_cache \<times> 's decoder" where
  "spec_run M [] s = s"
| "spec_run M (Advance i # ops) (c, d) = spec_run M ops (c, snd (advance M i d))"
| "spec_run M (Mask l # ops) (c, d) = spec_run M ops (snd (apply_mask M c l d))"

definition same_place :: "'s decoder \<Rightarrow> 's decoder \<Rightarrow> bool" where
  "same_place d d' \<longleftrightarrow> dfa_ptr d' = dfa_ptr d \<and> d_markers d' = d_markers d \<and> vocab_ptr d' = vocab_ptr d"

lemma advance_place: "same_place d (snd (advance M i d)) \<and> rows (snd (advance M i d)) = rows d"
  by (simp add: advance_def Let_def same_place_def split: option.splits)

lemma mask_place:
  assumes "cache_ok M c" "rows_ok M d" "apply_mask M c l d = (l', c', d')"
  shows "cache_ok M c' \<and> rows_ok M d' \<and> same_place d d'"
proof (cases "d_dead d \<or> deferred d")
  case True
  then show ?thesis using assms by (cases "d_dead d") (simp_all add: apply_mask_def Let_def same_place_def)
next
  case False
  obtain r c1 d1 where row: "current_row M c d = (r, c1, d1)" by (metis surj_pair)
  show ?thesis using current_row_right [OF assms(1,2) row] assms(3) False row
    by (auto simp: apply_mask_def Let_def same_place_def alike_def)
qed

lemma spec_run_ok:
  "cache_ok M c \<Longrightarrow> rows_ok M d \<Longrightarrow> spec_run M ops (c, d) = (c1, d1) \<Longrightarrow>
   cache_ok M c1 \<and> rows_ok M d1 \<and> same_place d d1"
proof (induction ops arbitrary: c d)
  case Nil
  then show ?case by (simp add: same_place_def)
next
  case (Cons op ops)
  show ?case
  proof (cases op)
    case (Advance i)
    have "rows_ok M (snd (advance M i d))"
      using Cons.prems(2) advance_place [of d M i] by (simp add: rows_ok_def same_place_def)
    then show ?thesis using Cons.IH [of c "snd (advance M i d)"] Cons.prems Advance advance_place [of d M i]
      by (auto simp: same_place_def)
  next
    case (Mask l)
    obtain l' c' d' where m: "apply_mask M c l d = (l', c', d')" by (metis surj_pair)
    note ok = mask_place [OF Cons.prems(1,2) m]
    then show ?thesis using Cons.IH [of c' d'] Cons.prems(3) Mask m by (auto simp: same_place_def)
  qed
qed

lemma mask_alike:
  assumes "cache_ok M c" "rows_ok M d" "cache_ok M c'" "rows_ok M d'" "alike d d'"
  shows "fst (apply_mask M c' l d') = fst (apply_mask M c l d)"
proof -
  obtain r c1 d1 where row: "current_row M c d = (r, c1, d1)" by (metis surj_pair)
  obtain r' c1' d1' where row': "current_row M c' d' = (r', c1', d1')" by (metis surj_pair)
  have "r' = r"
    using current_row_right(1) [OF assms(1,2) row] current_row_right(1) [OF assms(3,4) row'] assms(5)
    by (simp add: alike_def row_key_def)
  then show ?thesis using assms(5) row row'
    by (simp add: apply_mask_def Let_def alike_def deferred_def)
qed

lemma advance_alike: "alike d d' \<Longrightarrow> fst (advance M i d') = fst (advance M i d)"
  by (simp add: advance_def Let_def alike_def deferred_def split: option.split)

text \<open>
  C16. The mask is exactly what the decoder accepts. For a decoder that is alive and not deferred, whatever
  the caches hold as long as every entry is a row that was computed for its key, masking keeps the logit of
  a token unchanged if the decoder would take that token (an end token: if the grammar may end) and sets it
  to minus infinity otherwise; the caches keep that property and stay within their limit, and the decoder
  only gains rows.
\<close>

theorem mask_matches_advance:
  assumes "cache_ok M c" and "rows_ok M d" and "\<not> d_dead d" and "\<not> deferred d"
    and "length logits \<le> 2 ^ 32" and "apply_mask M c logits d = (logits', c', d')"
  shows "length logits' = length logits \<and>
    (\<forall>i < length logits. logits' ! i = (if legal M d (of_nat i) then logits ! i else NEG_INFINITY)) \<and>
    cache_ok M c' \<and> rows_ok M d' \<and> alike d d'"
proof -
  let ?V = "vocab_at M (vocab_ptr d)"
  obtain r c1 d1 where row: "current_row M c d = (r, c1, d1)" by (metis surj_pair)
  note right = current_row_right [OF assms(1,2) row]
  have out: "logits' = map (\<lambda>(i, x). masked_logit ?V r (min (length logits) (vocab_len ?V)) i x)
      (zip [0..<length logits] logits)" "c' = c1" "d' = d1"
    using assms(3,4,6) row by (simp_all add: apply_mask_def Let_def)
  have "logits' ! i = (if legal M d (of_nat i) then logits ! i else NEG_INFINITY)" if "i < length logits" for i
    using masked_is_legal [OF assms(3,4) that assms(5), of M "logits ! i"] that
    by (simp add: out(1) right(1))
  then show ?thesis using right out by simp
qed

theorem mask_matches_advance_witness:
  "fst (apply_mask toy_memory [] [5, 6, 7, 8] toy_decoder) ! 1 = NEG_INFINITY"
proof -
  obtain l c d where m: "apply_mask toy_memory [] [5, 6, 7, 8] toy_decoder = (l, c, d)" by (metis surj_pair)
  have u: "unat (1 :: u32) = 1" by simp
  have "\<not> legal toy_memory toy_decoder 1"
    by code_simp
  then have "l ! 1 = NEG_INFINITY"
    using mask_matches_advance [OF toy_caches(1,2,3,4) _ m] by simp
  then show ?thesis using m by simp
qed

text \<open>
  C17. The grammar arms exactly when the close sequence has been produced. A decoder that waits for a
  nonempty sequence of tokens and is fed any tokens is still waiting if and only if the sequence does not
  occur among them as a contiguous run, however its beginnings overlap; while it waits the grammar's state
  does not move and the decoder does not die.
\<close>

theorem deferral_ends_at_close_sequence:
  fixes M :: "'s memory" and d :: "'s decoder" and sq ts :: "u32 list"
  assumes "\<not> d_dead d" and "sq \<noteq> []"
  defines "d' \<equiv> feed M ts (set_defer_until_sequence sq d)"
  shows "(deferred d' \<longleftrightarrow> \<not> sublist sq ts) \<and> (deferred d' \<longrightarrow> d_state d' = d_state d \<and> \<not> d_dead d')"
proof -
  have "longest sq [] 0" by (auto simp: longest_def)
  moreover have "\<not> sublist sq []" using assms(2) by simp
  ultimately show ?thesis
    using feed_deferred [of "set_defer_until_sequence sq d" sq "[]" M ts] assms
    by (simp add: set_defer_until_sequence_def)
qed

theorem deferral_ends_at_close_sequence_witness:
  "\<not> deferred (feed toy_memory [1, 1, 2] (set_defer_until_sequence [1, 2] toy_decoder))"
proof -
  have "[1, 1, 2] = [1] @ [1, 2] @ ([] :: u32 list)" by simp
  then have "sublist [1, 2] [1, 1, 2 :: u32]" unfolding sublist_def by blast
  then show ?thesis
    using deferral_ends_at_close_sequence [OF toy_caches(3), of "[1, 2]" toy_memory "[1, 1, 2]"] by simp
qed

text \<open>
  The step function of the combined automaton is total: although the automaton and the hand-over to
  JSON call each other, for any automaton, state and byte one nested call is enough, more never changes the
  result.
\<close>

theorem step_fuel_enough:
  assumes "1 \<le> fuel"
  shows "step_state_in fuel A json_markers st b = step_state A json_markers st b"
  using assms by (rule step_state_fuel)

theorem step_fuel_enough_witness:
  "step_state_in 3 toy_dfa True (at_dfa 0) 49 = step_state toy_dfa True (at_dfa 0) 49"
  by (rule step_fuel_enough) simp

text \<open>
  C18. Speculation leaves no trace. After a checkpoint, any sequence of advances and masks, and the rollback,
  the decoder masks the next logits exactly as it would have before, and accepts exactly the same next
  token; the rows it gained on the way make no difference.
\<close>

theorem rollback_undoes_speculation:
  assumes "cache_ok M c" and "rows_ok M d" and "spec_run M ops (c, d) = (c1, d1)"
  defines "d2 \<equiv> rollback (checkpoint d) d1"
  shows "fst (apply_mask M c1 logits d2) = fst (apply_mask M c logits d) \<and>
    fst (advance M i d2) = fst (advance M i d) \<and> alike d d2"
proof -
  have "cache_ok M c1 \<and> rows_ok M d1 \<and> same_place d d1" by (rule spec_run_ok [OF assms(1,2,3)])
  then have "cache_ok M c1" "rows_ok M d2" "alike d d2"
    by (auto simp: d2_def rollback_def checkpoint_def alike_def same_place_def rows_ok_def)
  then show ?thesis using mask_alike [OF assms(1,2)] advance_alike by blast
qed

theorem rollback_undoes_speculation_witness:
  "fst (advance toy_memory 0 (rollback (checkpoint toy_decoder)
     (snd (spec_run toy_memory [Advance 1, Mask [5, 6]] ([], toy_decoder))))) =
   fst (advance toy_memory 0 toy_decoder)"
  using rollback_undoes_speculation [OF toy_caches(1,2), of toy_memory "[Advance 1, Mask [5, 6]]" _ _ "[]" 0]
  by (metis surjective_pairing)

end
