(* ===== verification/Batch_Contract.thy ===== *)
theory Batch_Contract
  imports Scheduler_Properties
begin

text \<open>
  What the engine relies on in the scheduler beyond its invariant: a step never fails, only known
  ids are queued, and completing a batch appends to each sequence exactly the token sampled for it.
\<close>

section \<open>Ids in the queues\<close>

definition unrepeated :: "'a multiset \<Rightarrow> bool" where
  "unrepeated M \<longleftrightarrow> (\<forall>x. count M x \<le> 1)"

lemma unrepeated_add [simp]: "unrepeated (add_mset x M) \<longleftrightarrow> x \<notin># M \<and> unrepeated M"
proof
  assume u: "unrepeated (add_mset x M)"
  then have c: "count (add_mset x M) y \<le> 1" for y unfolding unrepeated_def by (rule spec)
  have "Suc (count M x) \<le> 1" using c [of x] unfolding count_add_mset if_P [OF refl] .
  then have "x \<notin># M" unfolding not_in_iff by linarith
  moreover have "count M y \<le> 1" for y
    using c [of y] count_union [of "{#x#}" M y] unfolding add_mset_add_single [of x M] count_union by linarith
  ultimately show "x \<notin># M \<and> unrepeated M" unfolding unrepeated_def by blast
next
  assume a: "x \<notin># M \<and> unrepeated M"
  then have z: "count M x = 0" unfolding not_in_iff by blast
  have o: "count M y \<le> 1" for y using a unfolding unrepeated_def by blast
  have "count (add_mset x M) y \<le> 1" for y
    using z o [of y] unfolding count_add_mset by presburger
  then show "unrepeated (add_mset x M)" unfolding unrepeated_def by blast
qed

lemma unrepeated_empty [simp]: "unrepeated {#}"
  by (simp add: unrepeated_def)

lemma unrepeated_sub: "unrepeated (M + N) \<Longrightarrow> unrepeated M"
  unfolding unrepeated_def by (metis add_leD1 count_union)

interpretation members: request_contract "\<lambda>s. seq_id s \<in> A" "\<lambda>s. True" for A
  by unfold_locales (auto simp: same_request_def grows_by_def)

definition live_ids :: "scheduler \<Rightarrow> u64 multiset" where
  "live_ids sch = image_mset seq_id (mset (waiting sch) + mset (running sch))"

lemma census_live: "census sch = live_ids sch + image_mset seq_id (mset (finished sch))"
  by (simp add: census_def live_ids_def)

lemma members_live: "members.all_ok A sch \<longleftrightarrow> set_mset (live_ids sch) \<subseteq> A"
  by (auto simp: members.all_ok_def live_ids_def)

lemma live_ids_empty: "live_ids sch = {#} \<longleftrightarrow> \<not> has_work sch"
  by (simp add: live_ids_def has_work_def)

lemma live_ids_abort: "live_ids (abort i sch) = live_ids sch - {#i#}"
proof (cases "position (has_id i) (waiting sch)")
  case (Some k)
  then have m: "mset (waiting sch) = add_mset (waiting sch ! k) (mset (remove_at k (waiting sch)))"
    and i: "seq_id (waiting sch ! k) = i"
    using mset_remove_at [OF position_less [OF Some]] position_holds [OF Some] by (simp_all add: has_id_def)
  then have "live_ids sch = add_mset i (live_ids (abort i sch))"
    using Some by (simp add: live_ids_def abort_def m)
  then show ?thesis by simp
next
  case wait: None
  show ?thesis
  proof (cases "position (has_id i) (running sch)")
    case (Some k)
    then have m: "mset (running sch) = add_mset (running sch ! k) (mset (remove_at k (running sch)))"
      and i: "seq_id (running sch ! k) = i"
      using mset_remove_at [OF position_less [OF Some]] position_holds [OF Some] by (simp_all add: has_id_def)
    then have "live_ids sch = add_mset i (live_ids (abort i sch))"
      using Some wait by (simp add: live_ids_def abort_def Let_def m)
    then show ?thesis by simp
  next
    case None
    then have "i \<notin># live_ids sch" using wait by (auto simp: live_ids_def position_None_iff has_id_def)
    then show ?thesis using wait None by (simp add: abort_def)
  qed
qed

section \<open>A step never fails\<close>

lemma admit_pass_total:
  "(\<And>s. s \<in> set ws \<Longrightarrow> waiting_ok s) \<Longrightarrow>
   \<exists>its sch'. admit_pass xxh cm ws items budget sch = (Inr its, sch')"
proof (induction xxh cm ws items budget sch rule: admit_pass.induct)
  case (2 xxh cm s ws items budget sch)
  let ?full = "budget = 0 \<or> max_batch_size (config sch) \<le> length items"
  obtain p bm where al: "allocate_with_prefix xxh s (pool sch) = (p, bm)" by fastforce
  consider (full) "?full" | (empty) "\<not> ?full" "total_len s = 0"
    | (refused) e where "\<not> ?full" "0 < total_len s" "p = Inl e"
    | (go) a where "\<not> ?full" "0 < total_len s" "p = Inr a"
    by (metis not_gr0 sum.exhaust)
  then show ?case
  proof cases
    case (go a)
    obtain o1 s1 where t: "transition_to_prefill_with_cache
        (if prefix_cache_reuse sch then cached_tokens a else 0) (s\<lparr>block_table := alloc_table a\<rparr>) = (o1, s1)"
      by fastforce
    have "seq_state s = Waiting" using 2(3) [of s] by (simp add: waiting_ok_def)
    then have o1: "o1 = Inr ()" using t by (auto simp: transition_to_prefill_with_cache_def)
    let ?tk = "floored_take (remaining_uncomputed s1) budget cm"
    let ?sch1 = "sch\<lparr>pool := bm, running := running sch @ [s1]\<rparr>"
    show ?thesis
    proof (cases "?tk = 0")
      case False
      then show ?thesis
        using 2(2) [of p bm a o1 s1 "()" ?tk ?sch1] 2(3) go al t o1 by (auto simp: Let_def)
    qed (use go al t o1 in auto)
  qed (use 2(1,3) al in auto)
qed auto

lemma step_total:
  assumes "sched_inv xxh {} [] sch"
  shows "\<exists>b sch'. step xxh cm sch = (Inr b, sch')"
proof (cases "has_verify_ready_drafts sch")
  case False
  obtain items2 b2 where p: "(case decode_pass (max_batch_size (config sch)) (running sch) []
      (max_batched_tokens (config sch)) of (items1, b1) \<Rightarrow>
      prefill_pass cm (max_batch_size (config sch)) (running sch) items1 b1) = (items2, b2)" by fastforce
  obtain its sch1 where "admit_pass xxh cm (waiting sch) items2 b2 sch = (Inr its, sch1)"
    using admit_pass_total [of "waiting sch"] sched_invD(2) [OF assms] by blast
  then show ?thesis using False p by (auto simp: step_def build_mixed_batch_def split: prod.splits)
qed (simp add: step_def split: prod.splits)

section \<open>Tokens owed to the client\<close>

text \<open>
  \<open>p\<close> gives the tokens of each id that were appended but not yet reported, and \<open>T\<close> holds of the
  tokens reported so far.
\<close>

definition owes ::
  "(u64 \<Rightarrow> nat \<Rightarrow> nat \<Rightarrow> token list \<Rightarrow> bool) \<Rightarrow> (u64 \<Rightarrow> token list) \<Rightarrow> sequence \<Rightarrow> bool" where
  "owes T p s \<longleftrightarrow>
     (\<exists>ts. seq_output s = ts @ p (seq_id s) \<and>
           T (seq_id s) (length (seq_prompt s)) (max_new_tokens s) ts)"

interpretation owed: request_frame "owes T p" "owes T p" for T p
  by unfold_locales (auto simp: owes_def same_request_def abort_seq_def)

definition pending :: "(u64 \<times> token) list \<Rightarrow> u64 \<Rightarrow> token list" where
  "pending its i = map snd (filter (\<lambda>x. fst x = i) its)"

lemma pending_simps [simp]:
  "pending [] = (\<lambda>i. [])"
  "pending ((j, t) # its) i = (if j = i then t # pending its i else pending its i)"
  "pending (xs @ ys) i = pending xs i @ pending ys i"
  by (auto simp: pending_def)

lemma owes_grows:
  "owes T (pending ps) s \<Longrightarrow> grows_by t s s' \<Longrightarrow> owes T (pending (ps @ [(seq_id s, t)])) s'"
  by (auto simp: owes_def grows_by_def)

lemma owes_other: "owes T (pending ps) s \<Longrightarrow> seq_id s \<noteq> i \<Longrightarrow> owes T (pending (ps @ [(i, t)])) s"
  by (auto simp: owes_def)

lemma owed_all_iff:
  "owed.all_ok T p sch \<longleftrightarrow> (\<forall>s\<in>#mset (waiting sch) + mset (running sch) + mset (finished sch). owes T p s)"
  by (auto simp: owed.all_ok_def)

text \<open>An item that takes a token moves one sequence on and leaves the others.\<close>

lemma apply_scheduled_item_grows:
  assumes a: "apply_scheduled_item xxh it (Some t) sch = (Inr b, sch')"
  shows "\<exists>s s' rest. seq_id s = item_seq_id it \<and> grows_by t s s' \<and> waiting sch' = waiting sch \<and>
           mset (running sch) = add_mset s rest \<and>
           mset (running sch') + mset (finished sch') = add_mset s' (rest + mset (finished sch))"
proof (cases "position (has_id (item_seq_id it)) (running sch)")
  case None
  then show ?thesis using a by (simp add: apply_scheduled_item_def)
next
  case (Some k)
  define s0 where "s0 = running sch ! k"
  define rest where "rest = remove_at k (running sch)"
  define s where "s = (if is_prefill it then record_computed (num_scheduled_tokens it) s0 else s0)"
  have m: "mset (running sch) = add_mset s0 (mset rest)"
    using mset_remove_at [OF position_less [OF Some]] by (simp add: s0_def rest_def)
  have id: "seq_id s0 = item_seq_id it" using position_holds [OF Some] by (simp add: s0_def has_id_def)
  obtain q s2 where tt: "take_token (is_final_prefill_chunk it) t s = (q, s2)" by fastforce
  note unf = apply_scheduled_item_def Let_def s_def [symmetric] s0_def [symmetric] rest_def [symmetric]
  obtain u where q: "q = Inr u" using a Some tt by (cases q) (auto simp: unf)
  define s3 where "s3 = record_computed 1 s2"
  have "grows_by t s s3"
    using grows_same(2) [OF take_token_grows [OF tt [unfolded q]] same_request_simps(4)] by (simp add: s3_def)
  then have g: "grows_by t s0 s3"
    by (rule grows_same(1) [rotated]) (simp add: s_def)
  then have gf: "grows_by t s0 (finish r s3)" for r by (simp add: grows_by_def finish_def)
  show ?thesis
  proof (cases "stop_reason (every_eos sch) s3")
    case None
    then have "waiting sch' = waiting sch" "mset (running sch') + mset (finished sch') =
        add_mset s3 (mset rest + mset (finished sch))"
      using a Some tt q by (auto simp: unf s3_def mset_insert_at)
    then show ?thesis using id g m by blast
  next
    case (Some r)
    then have "waiting sch' = waiting sch" "mset (running sch') + mset (finished sch') =
        add_mset (finish r s3) (mset rest + mset (finished sch))"
      using a \<open>position _ _ = Some k\<close> tt q by (auto simp: unf s3_def)
    then show ?thesis using id gf m by blast
  qed
qed

lemma owed_apply_scheduled_item:
  assumes a: "apply_scheduled_item xxh it (Some t) sch = (Inr b, sch')"
    and d: "unrepeated (census sch)" and ok: "owed.all_ok T (pending ps) sch"
  shows "owed.all_ok T (pending (ps @ [(item_seq_id it, t)])) sch'"
proof -
  obtain s s' rest where s: "seq_id s = item_seq_id it" "grows_by t s s'" "waiting sch' = waiting sch"
    "mset (running sch) = add_mset s rest"
    "mset (running sch') + mset (finished sch') = add_mset s' (rest + mset (finished sch))"
    using apply_scheduled_item_grows [OF a] by blast
  let ?others = "mset (waiting sch) + rest + mset (finished sch)"
  have m: "mset (waiting sch') + mset (running sch') + mset (finished sch') = add_mset s' ?others"
    using s(3,5) by (simp add: add.assoc)
  have "census sch = add_mset (seq_id s) (image_mset seq_id ?others)"
    by (simp add: census_def s(4) ac_simps)
  then have no: "seq_id s \<notin># image_mset seq_id ?others" using d by simp
  then have other: "seq_id u \<noteq> item_seq_id it" if "u \<in># ?others" for u
    using no that s(1) by (metis image_eqI set_image_mset)
  have all: "\<forall>u\<in>#add_mset s ?others. owes T (pending ps) u"
    using ok s(4) unfolding owed_all_iff by auto
  show ?thesis
    unfolding owed_all_iff m
  proof
    fix u assume "u \<in># add_mset s' ?others"
    then show "owes T (pending (ps @ [(item_seq_id it, t)])) u"
      using all owes_grows [OF _ s(2), of T ps] owes_other other s(1) by auto
  qed
qed

lemma owed_apply_scheduled_item_none:
  assumes a: "apply_scheduled_item xxh it None sch = (Inr b, sch')" and ok: "owed.all_ok T p sch"
  shows "owed.all_ok T p sch'"
proof (cases "position (has_id (item_seq_id it)) (running sch)")
  case (Some k)
  have "same_request (running sch ! k) (record_computed n (running sch ! k))" for n by simp
  then have "owes T p (record_computed n (running sch ! k))" for n
    using owed.Q_frame [OF owed.all_ok_at [OF ok position_less [OF Some]]] by blast
  then show ?thesis using a Some ok owed.Q_rest [OF ok] owed.all_ok_at [OF ok position_less [OF Some]]
    by (auto simp: apply_scheduled_item_def Let_def owed.all_ok_def set_insert_at)
qed (use a in \<open>simp add: apply_scheduled_item_def\<close>)

lemma owed_apply_items:
  "apply_items xxh its toks fs need sch = (fs', need', sch') \<Longrightarrow> coherent its sch \<Longrightarrow> all_running its sch \<Longrightarrow>
   unrepeated (census sch) \<Longrightarrow> length toks = length (filter produces_token its) \<Longrightarrow>
   owed.all_ok T (pending ps) sch \<Longrightarrow>
   owed.all_ok T (pending (ps @ zip (map item_seq_id (filter produces_token its)) toks)) sch'"
proof (induction its arbitrary: toks fs need sch ps)
  case (Cons it its)
  obtain tok toks1 where t: "(if produces_token it
      then (case toks of t # ts \<Rightarrow> (Some t, ts) | [] \<Rightarrow> (None, [])) else (None, toks)) = (tok, toks1)"
    by fastforce
  obtain q sch1 where a: "apply_scheduled_item xxh it tok sch = (q, sch1)" by fastforce
  have "tok \<noteq> None \<Longrightarrow> produces_token it" using t by (auto split: if_splits)
  note one = apply_item_coherent [OF a Cons.prems(2,3) this]
  then obtain b where q: "q = Inr b" by blast
  obtain need1 where n: "apply_items xxh its toks1 fs need1 sch1 = (fs', need', sch')"
    using Cons.prems(1) t a q by (cases b) (auto simp: Let_def split: if_splits)
  have d: "unrepeated (census sch1)" using Cons.prems(4) census_apply_scheduled_item [OF a] by simp
  show ?case
  proof (cases "produces_token it")
    case True
    then obtain tk where tk: "toks = tk # toks1" "tok = Some tk" using t Cons.prems(5) by (cases toks) auto
    have "owed.all_ok T (pending (ps @ [(item_seq_id it, tk)])) sch1"
      by (rule owed_apply_scheduled_item [OF a [unfolded tk(2) q] Cons.prems(4) Cons.prems(6)])
    moreover have "length toks1 = length (filter produces_token its)"
      using Cons.prems(5) True tk(1) by simp
    moreover have "coherent its sch1" "all_running its sch1" using one by simp_all
    ultimately show ?thesis using Cons.IH [OF n _ _ d, of "ps @ [(item_seq_id it, tk)]"] True tk(1)
      by (simp del: pending_simps)
  next
    case False
    then have tk: "toks1 = toks" "tok = None" using t by auto
    have "owed.all_ok T (pending ps) sch1"
      by (rule owed_apply_scheduled_item_none [OF a [unfolded tk(2) q] Cons.prems(6)])
    moreover have "coherent its sch1" "all_running its sch1" using one by simp_all
    ultimately show ?thesis using Cons.IH [OF n _ _ d, of ps] False tk(1) Cons.prems(5) by simp
  qed
qed simp

lemma owed_complete_step:
  assumes c: "complete_step xxh ts sch = (Inr fs, sch')" and b: "last_batch sch = Some b"
    and co: "coherent (batch_items b) sch" "all_running (batch_items b) sch"
    and d: "unrepeated (census sch)" and ok: "owed.all_ok T (\<lambda>i. []) sch"
  shows "owed.all_ok T (pending (zip (map item_seq_id (filter produces_token (batch_items b))) ts)) sch'"
proof -
  let ?sch0 = "sch\<lparr>last_batch := None\<rparr>"
  have n: "length ts = length (filter produces_token (batch_items b))"
    using c b by (auto simp: complete_step_def Let_def split: if_splits)
  obtain fs1 need sch1 where ap: "apply_items xxh (batch_items b) ts [] [] ?sch0 = (fs1, need, sch1)"
    by (metis surj_pair)
  have ex: "extend_all need fs1 sch1 = (fs, sch')"
    using c b ap n by (auto simp: complete_step_def Let_def split: if_splits prod.splits)
  have "coherent (batch_items b) ?sch0" "all_running (batch_items b) ?sch0" "unrepeated (census ?sch0)"
    using co d by (simp_all add: coherent_def all_running_def census_def)
  moreover have "owed.all_ok T (pending []) ?sch0"
    by (rule owed.all_ok_frame [of _ _ sch]) (use ok in simp_all)
  ultimately have "owed.all_ok T (pending ([] @ zip (map item_seq_id (filter produces_token (batch_items b))) ts)) sch1"
    using owed_apply_items [OF ap] n by blast
  then show ?thesis using owed.all_ok_extend_all [OF ex] by simp
qed

section \<open>The configuration never changes\<close>

lemma config_preempt: "config (preempt s sch) = config sch"
  by (simp add: preempt_def drop_drafts_def Let_def)

lemma config_abort [op_frames]: "config (abort i sch) = config sch"
  by (simp add: abort_def drop_drafts_def Let_def split: option.splits)

lemma config_verify_candidate: "verify_candidate i sch = (ok, sch') \<Longrightarrow> config sch' = config sch"
  by (auto simp: verify_candidate_def drop_drafts_def Let_def split: option.splits prod.splits sum.splits if_splits)

lemma config_verify_pass: "verify_pass is acc sch = (ids, sch') \<Longrightarrow> config sch' = config sch"
  by (induction "is" arbitrary: acc sch)
    (auto split: if_splits prod.splits dest!: config_verify_candidate)

lemma config_step: "step xxh cm sch = (r, sch') \<Longrightarrow> config sch' = config sch"
  by (auto simp: step_def build_verify_batch_def build_mixed_batch_def Let_def
      dest!: config_verify_pass admit_pass_config split: if_splits prod.splits sum.splits)

lemma config_extend_loop: "extend_loop idx s sch = (r, sch') \<Longrightarrow> config sch' = config sch"
proof (induction idx s sch rule: extend_loop.induct)
  case (1 idx s sch)
  obtain q s1 bm where e: "extend_for s (pool sch) = (q, s1, bm)" by (metis surj_pair)
  show ?case
  proof (cases q)
    case (Inr u)
    then show ?thesis using 1(2) e by (auto simp: extend_loop.simps [of idx s sch])
  next
    case (Inl x)
    then show ?thesis
      using 1(1) [OF e [symmetric] Inl refl refl] 1(2) e
      by (auto simp: extend_loop.simps [of idx s sch] Let_def drop_drafts_def config_preempt split: if_splits)
  qed
qed

lemma config_extend_all: "extend_all is fs sch = (fs', sch') \<Longrightarrow> config sch' = config sch"
proof (induction "is" arbitrary: fs sch)
  case (Cons i "is")
  obtain f sch1 where e: "extend_blocks_or_preempt i sch = (f, sch1)" by fastforce
  then have "config sch1 = config sch"
    by (auto simp: extend_blocks_or_preempt_def dest!: config_extend_loop split: option.splits)
  moreover have "\<exists>fs1. extend_all is fs1 sch1 = (fs', sch')" using Cons.prems e by (cases f) auto
  ultimately show ?case using Cons.IH by metis
qed simp

lemma config_apply_scheduled_item:
  "apply_scheduled_item xxh it tok sch = (r, sch') \<Longrightarrow> config sch' = config sch"
  by (auto simp: apply_scheduled_item_def Let_def split: option.splits prod.splits sum.splits)

lemma config_apply_items:
  "apply_items xxh its toks fs need sch = (fs', need', sch') \<Longrightarrow> config sch' = config sch"
proof (induction its arbitrary: toks fs need sch)
  case (Cons it its)
  obtain tok toks1 where t: "(if produces_token it
      then (case toks of t # ts \<Rightarrow> (Some t, ts) | [] \<Rightarrow> (None, [])) else (None, toks)) = (tok, toks1)"
    by fastforce
  obtain q sch1 where a: "apply_scheduled_item xxh it tok sch = (q, sch1)" by fastforce
  have "\<exists>fs1 need1. apply_items xxh its toks1 fs1 need1 sch1 = (fs', need', sch')"
    using Cons.prems t a by (auto simp: Let_def split: if_splits sum.splits bool.splits)
  then show ?case using Cons.IH config_apply_scheduled_item [OF a] by metis
qed simp

lemma config_complete_step: "complete_step xxh ts sch = (r, sch') \<Longrightarrow> config sch' = config sch"
  by (auto simp: complete_step_def Let_def split: option.splits if_splits prod.splits
      dest!: config_apply_items config_extend_all)

section \<open>What gather, step and completion leave to the engine\<close>

lemma complete_step_error:
  "complete_step xxh ts sch = (Inl x, sch') \<Longrightarrow> sch' = sch \<or> sch' = sch\<lparr>last_batch := None\<rparr>"
  by (auto simp: complete_step_def Let_def split: option.splits if_splits prod.splits)

lemma step_mixed_batch:
  assumes inv: "sched_inv xxh {} [] sch" and s: "step xxh cm sch = (Inr b, sch')"
    and k: "batch_kind_of b \<noteq> VerifyBatch"
  shows "last_batch sch' = Some b" "coherent (batch_items b) sch'" "all_running (batch_items b) sch'"
    and "batch_seq_ids b = map item_seq_id (batch_items b)"
proof -
  obtain sch1 where m: "build_mixed_batch xxh cm sch = (Inr b, sch1)" and e: "sch' = sch1\<lparr>last_batch := Some b\<rparr>"
    using mixed_step(1) [OF inv s k] by blast
  show "last_batch sch' = Some b" by (simp add: e)
  show "coherent (batch_items b) sch'" "all_running (batch_items b) sch'"
    and "batch_seq_ids b = map item_seq_id (batch_items b)"
    using mixed_batch_spec [OF inv m] by (simp_all add: e coherent_def all_running_def)
qed

end
