(* ===== verification/Batch_Engine.thy ===== *)
theory Batch_Engine
  imports Batch_Contract "HOL-Library.AList"
begin

text \<open>
  \<open>rust/crates/nv-engine/src/batch_engine.rs\<close>: the engine around the scheduler. It admits
  requests, runs one batch per \<open>step\<close> on a \<open>BatchStepper\<close> (the model, a trait the crates of the
  models implement, hence a parameter here) and streams events to the clients over bounded
  channels. A channel is an address; \<open>channels\<close> is the store, so that the client's end
  (\<open>mpsc::Receiver\<close>) and the engine's share it.
\<close>

section \<open>Channels\<close>

datatype engine_message =
    PromptTooLong nat nat nat nat
  | Overloaded nat nat
  | StepFailed engine_error
  | EngineFailed string

datatype engine_event =
    Started u64 u32
  | Token u64 token
  | Done u64 finish_reason u32
  | Error u64 engine_message

text \<open>
  A bounded \<open>mpsc\<close> channel: what was ever accepted, how much of it the reader took, and whether the
  reader still exists.
\<close>

record channel =
  chan_capacity :: nat
  chan_log :: "engine_event list"
  chan_taken :: nat
  chan_open :: bool

definition try_send :: "engine_event \<Rightarrow> channel \<Rightarrow> bool \<times> channel" where
  "try_send ev c =
     (if \<not> chan_open c \<or> chan_capacity c \<le> length (chan_log c) - chan_taken c then (False, c)
      else (True, c\<lparr>chan_log := chan_log c @ [ev]\<rparr>))"

section \<open>The model behind the engine\<close>

text \<open>The floats of a sampling configuration are only handed on; they are kept as their bits.\<close>

record sampling_config =
  temperature :: u32
  top_p :: "u32 option"
  top_k :: "u32 option"
  min_p :: "u32 option"
  seed :: "u64 option"
  presence_penalty :: "u32 option"
  frequency_penalty :: "u32 option"
  repetition_penalty :: "u32 option"

record gen_request =
  req_prompt :: "token list"
  req_max_new :: nat
  req_eos :: "token list"
  req_sampling :: sampling_config
  req_reply :: nat

record seq_input =
  si_seq_id :: u64
  si_position :: nat
  si_token :: token
  si_block_table :: "nat list"

record prefill_input =
  pi_seq_id :: u64
  pi_tokens :: "token list"
  pi_block_table :: "nat list"

record prefill_chunk =
  pc_seq_id :: u64
  pc_tokens :: "token list"
  pc_chunk_start :: nat
  pc_is_final :: bool
  pc_block_table :: "nat list"

record step_result =
  res_seq_id :: u64
  res_token :: token

text \<open>
  The trait \<open>BatchStepper\<close> over the stepper's own state \<open>'m\<close>. An \<open>anyhow\<close> error of the model is
  its message.
\<close>

record 'm stepper =
  on_admit :: "u64 \<Rightarrow> sampling_config \<Rightarrow> 'm \<Rightarrow> 'm"
  reuses_cached_prefix :: "'m \<Rightarrow> bool"
  step_mixed :: "prefill_chunk list \<Rightarrow> seq_input list \<Rightarrow> 'm \<Rightarrow> (string + step_result list) \<times> 'm"
  release :: "u64 \<Rightarrow> 'm \<Rightarrow> 'm"

text \<open>The trait's default \<open>step_mixed\<close>: only final chunks reach the model, whole.\<close>

definition default_step_mixed ::
  "(prefill_input list \<Rightarrow> 'm \<Rightarrow> (string + step_result list) \<times> 'm) \<Rightarrow>
   (seq_input list \<Rightarrow> 'm \<Rightarrow> (string + step_result list) \<times> 'm) \<Rightarrow>
   prefill_chunk list \<Rightarrow> seq_input list \<Rightarrow> 'm \<Rightarrow> (string + step_result list) \<times> 'm" where
  "default_step_mixed prefill decode chunks decodes m =
     (let final_prefills = map (\<lambda>c. \<lparr>pi_seq_id = pc_seq_id c, pi_tokens = pc_tokens c,
            pi_block_table = pc_block_table c\<rparr>) (filter pc_is_final chunks)
      in case (if final_prefills \<noteq> [] then prefill final_prefills m else (Inr [], m)) of
           (Inl e, m1) \<Rightarrow> (Inl e, m1)
         | (Inr rs, m1) \<Rightarrow>
             (case (if decodes \<noteq> [] then decode decodes m1 else (Inr [], m1)) of
                (Inl e, m2) \<Rightarrow> (Inl e, m2)
              | (Inr rs', m2) \<Rightarrow> (Inr (rs @ rs'), m2)))"

section \<open>The engine\<close>

record req_meta =
  meta_reply :: nat
  completion_tokens :: u32
  meta_started :: bool

text \<open>
  What is fixed while the engine runs: the block hash, the chunk floor read from the environment,
  the methods of the stepper, the order in which \<open>HashMap::keys\<close> yields the keys, and how an error
  value prints.
\<close>

datatype batch_error =
    SchedulerError engine_error
  | VerifyNotDriven
  | StepNotRunning u64
  | DecodeNoToken u64
  | StepperError string
  | ResultCount nat nat
  | MissingResult u64

record 'm host =
  block_hash :: hasher
  chunk_floor :: nat
  model :: "'m stepper"
  key_order :: "u64 list \<Rightarrow> u64 list"
  render :: "batch_error \<Rightarrow> string"

record 'm engine =
  sched :: scheduler
  model_state :: 'm
  meta :: "(u64 \<times> req_meta) list"
  next_seq_id :: u64
  max_waiting :: nat
  channels :: "nat \<Rightarrow> channel"

definition max_waiting_for :: "nat \<Rightarrow> nat option \<Rightarrow> nat" where
  "max_waiting_for mb env =
     (case env of
        Some n \<Rightarrow> if 0 < n then n else max (mb * 4) 16
      | None \<Rightarrow> max (mb * 4) 16)"

definition new_engine ::
  "'m host \<Rightarrow> scheduler_config \<Rightarrow> string option \<Rightarrow> 'm \<Rightarrow> (nat \<Rightarrow> channel) \<Rightarrow> 'm engine" where
  "new_engine H cfg env m chans =
     \<lparr> sched = (new_scheduler cfg)\<lparr>prefix_cache_reuse := reuses_cached_prefix (model H) m\<rparr>,
       model_state = m, meta = [], next_seq_id = 1,
       max_waiting = max_waiting_for (max_batch_size cfg) (Option.bind env parse_usize),
       channels = chans \<rparr>"

definition set_max_waiting :: "nat \<Rightarrow> 'm engine \<Rightarrow> 'm engine" where
  "set_max_waiting n e = e\<lparr>max_waiting := max n 1\<rparr>"

definition engine_has_work :: "'m engine \<Rightarrow> bool" where
  "engine_has_work e = (has_work (sched e) \<or> meta e \<noteq> [])"

text \<open>\<open>reply.try_send(..)\<close>.\<close>

definition send :: "nat \<Rightarrow> engine_event \<Rightarrow> 'm engine \<Rightarrow> bool \<times> 'm engine" where
  "send a ev e =
     (case try_send ev (channels e a) of
        (ok, c) \<Rightarrow> (ok, e\<lparr>channels := (channels e)(a := c)\<rparr>))"

definition tell_release :: "'m host \<Rightarrow> u64 \<Rightarrow> 'm engine \<Rightarrow> 'm engine" where
  "tell_release H i e = e\<lparr>model_state := release (model H) i (model_state e)\<rparr>"

section \<open>Admission\<close>

text \<open>\<open>saturating_mul\<close> and \<open>saturating_add\<close> on a 64-bit \<open>usize\<close> saturate the exact result.\<close>

definition saturate :: "nat \<Rightarrow> nat" where
  "saturate n = (if int n < 2 ^ 64 then n else 2 ^ 64 - 1)"

lemma saturate_le: "saturate n \<le> n"
  by (simp add: saturate_def)

definition capacity_tokens :: "scheduler_config \<Rightarrow> nat" where
  "capacity_tokens cfg = saturate (cfg_num_blocks cfg * cfg_block_size cfg)"

definition refuse :: "u64 \<Rightarrow> nat \<Rightarrow> engine_message \<Rightarrow> 'm engine \<Rightarrow> 'm engine" where
  "refuse i a msg e = snd (send a (Done i AbortedReason 0) (snd (send a (Error i msg) e)))"

definition admit :: "'m host \<Rightarrow> gen_request \<Rightarrow> 'm engine \<Rightarrow> u64 \<times> 'm engine" where
  "admit H req e0 =
     (let i = next_seq_id e0;
          e = e0\<lparr>next_seq_id := i + 1\<rparr>;
          cfg = config (sched e);
          cap = capacity_tokens cfg;
          n = length (req_prompt req)
      in if cap < n + 1
         then (i, refuse i (req_reply req)
                    (PromptTooLong n cap (cfg_num_blocks cfg) (cfg_block_size cfg)) e)
         else if max_waiting e \<le> length (waiting (sched e))
         then (i, refuse i (req_reply req)
                    (Overloaded (length (waiting (sched e))) (max_waiting e)) e)
         else let s = new_sequence i (req_prompt req) (min (req_max_new req) (cap - n - 1))
              in (i, e\<lparr> model_state := on_admit (model H) i (req_sampling req) (model_state e),
                        sched := enqueue_with_eos_ids s (req_eos req) (sched e),
                        meta := AList.update i
                          \<lparr>meta_reply = req_reply req, completion_tokens = 0, meta_started = False\<rparr>
                          (meta e)\<rparr>))"

section \<open>Ending requests\<close>

definition engine_abort :: "'m host \<Rightarrow> u64 \<Rightarrow> 'm engine \<Rightarrow> 'm engine" where
  "engine_abort H i e = tell_release H i (e\<lparr>sched := abort i (sched e)\<rparr>)"

text \<open>One turn of the loop of \<open>drain_finished\<close>.\<close>

definition drain_one :: "'m host \<Rightarrow> sequence \<Rightarrow> 'm engine \<Rightarrow> 'm engine" where
  "drain_one H s e =
     (let e1 = tell_release H (seq_id s) e
      in case map_of (meta e1) (seq_id s) of
           None \<Rightarrow> e1
         | Some m \<Rightarrow>
             snd (send (meta_reply m)
                    (Done (seq_id s)
                      (case seq_finish s of Some r \<Rightarrow> r | None \<Rightarrow> AbortedReason) (completion_tokens m))
                    (e1\<lparr>meta := AList.delete (seq_id s) (meta e1)\<rparr>)))"

definition engine_drain :: "'m host \<Rightarrow> 'm engine \<Rightarrow> 'm engine" where
  "engine_drain H e =
     (case drain_finished (sched e) of
        (ss, s1) \<Rightarrow> fold (drain_one H) ss (e\<lparr>sched := s1\<rparr>))"

definition fail_one :: "'m host \<Rightarrow> engine_message \<Rightarrow> u64 \<Rightarrow> 'm engine \<Rightarrow> 'm engine" where
  "fail_one H msg i e =
     engine_abort H i
       (case map_of (meta e) i of
          Some m \<Rightarrow> snd (send (meta_reply m) (Error i msg) e)
        | None \<Rightarrow> e)"

definition fail_all :: "'m host \<Rightarrow> engine_message \<Rightarrow> 'm engine \<Rightarrow> nat \<times> 'm engine" where
  "fail_all H msg e =
     (let ids = key_order H (map fst (meta e))
      in (length ids, engine_drain H ((fold (fail_one H msg) ids e)\<lparr>meta := []\<rparr>)))"

section \<open>One step\<close>

record step_work =
  work_chunks :: "prefill_chunk list"
  work_decodes :: "seq_input list"
  work_producing :: "u64 list"
  work_started :: "(u64 \<times> u32) list"

text \<open>The loop that turns the batch's items into the model's inputs.\<close>

definition gather_item :: "scheduler \<Rightarrow> seq_item \<Rightarrow> step_work \<Rightarrow> batch_error + step_work" where
  "gather_item sch it w =
     (case running_seq (item_seq_id it) sch of
        None \<Rightarrow> Inl (StepNotRunning (item_seq_id it))
      | Some s \<Rightarrow>
          if is_prefill it
          then Inr \<lparr> work_chunks = work_chunks w @
                        [\<lparr> pc_seq_id = item_seq_id it,
                           pc_tokens = take (num_computed_tokens s + num_scheduled_tokens it) (seq_tokens s),
                           pc_chunk_start = num_computed_tokens s,
                           pc_is_final = is_final_prefill_chunk it, pc_block_table = block_table s \<rparr>],
                     work_decodes = work_decodes w,
                     work_producing = work_producing w @
                       (if is_final_prefill_chunk it then [item_seq_id it] else []),
                     work_started = work_started w @ [(item_seq_id it, of_nat (length (seq_prompt s)))] \<rparr>
          else (case last_token s of
                  None \<Rightarrow> Inl (DecodeNoToken (item_seq_id it))
                | Some t \<Rightarrow>
                    Inr (w\<lparr> work_decodes := work_decodes w @
                              [\<lparr> si_seq_id = item_seq_id it, si_position = total_len s - 1,
                                 si_token = t, si_block_table = block_table s \<rparr>],
                            work_producing := work_producing w @ [item_seq_id it] \<rparr>)))"

fun gather :: "scheduler \<Rightarrow> seq_item list \<Rightarrow> step_work \<Rightarrow> batch_error + step_work" where
  "gather sch [] w = Inr w"
| "gather sch (it # its) w =
     (case gather_item sch it w of Inl e \<Rightarrow> Inl e | Inr w1 \<Rightarrow> gather sch its w1)"

definition emit_started :: "u64 \<times> u32 \<Rightarrow> 'm engine \<Rightarrow> 'm engine" where
  "emit_started st e =
     (case map_of (meta e) (fst st) of
        None \<Rightarrow> e
      | Some m \<Rightarrow>
          if meta_started m then e
          else snd (send (meta_reply m) (Started (fst st) (snd st))
                 (e\<lparr>meta := AList.update (fst st) (m\<lparr>meta_started := True\<rparr>) (meta e)\<rparr>)))"

text \<open>
  The model answers in any order; a \<open>HashMap\<close> brings the tokens back into the batch's order. When
  an id is answered twice the later answer wins.
\<close>

definition by_id :: "step_result list \<Rightarrow> u64 \<rightharpoonup> token" where
  "by_id rs = foldl (\<lambda>m r. m(res_seq_id r \<mapsto> res_token r)) Map.empty rs"

fun look_up_all :: "(u64 \<rightharpoonup> token) \<Rightarrow> u64 list \<Rightarrow> batch_error + token list" where
  "look_up_all m [] = Inr []"
| "look_up_all m (i # is) =
     (case m i of
        None \<Rightarrow> Inl (MissingResult i)
      | Some t \<Rightarrow> (case look_up_all m is of Inl e \<Rightarrow> Inl e | Inr ts \<Rightarrow> Inr (t # ts)))"

definition order_tokens :: "u64 list \<Rightarrow> step_result list \<Rightarrow> batch_error + token list" where
  "order_tokens ids rs =
     (if length rs \<noteq> length ids then Inl (ResultCount (length rs) (length ids))
      else look_up_all (by_id rs) ids)"

definition emit_token :: "'m host \<Rightarrow> step_failure list \<Rightarrow> u64 \<times> token \<Rightarrow> 'm engine \<Rightarrow> 'm engine" where
  "emit_token H fs it e =
     (case map_of (meta e) (fst it) of
        None \<Rightarrow> e
      | Some m \<Rightarrow>
          (let (ev, m1) = (case find (\<lambda>f. failed_seq_id f = fst it) fs of
                 Some f \<Rightarrow> (Error (fst it) (StepFailed (failure_error f)), m)
               | None \<Rightarrow> (Token (fst it) (snd it), m\<lparr>completion_tokens := completion_tokens m + 1\<rparr>))
           in case send (meta_reply m) ev (e\<lparr>meta := AList.update (fst it) m1 (meta e)\<rparr>) of
                (True, e1) \<Rightarrow> e1
              | (False, e1) \<Rightarrow>
                  engine_abort H (fst it) (e1\<lparr>meta := AList.delete (fst it) (meta e1)\<rparr>)))"

text \<open>\<open>step\<close>, without the timing printout that \<open>NV_BATCH_STEP_PROF\<close> switches on.\<close>

definition engine_step :: "'m host \<Rightarrow> 'm engine \<Rightarrow> (batch_error + unit) \<times> 'm engine" where
  "engine_step H e =
     (let e0 = engine_drain H e in
      if \<not> has_work (sched e0) then (Inr (), e0)
      else case step (block_hash H) (chunk_floor H) (sched e0) of
        (Inl x, s1) \<Rightarrow> (Inl (SchedulerError x), e0\<lparr>sched := s1\<rparr>)
      | (Inr b, s1) \<Rightarrow>
          (let e1 = e0\<lparr>sched := s1\<rparr> in
           if batch_seq_ids b = [] then (Inr (), engine_drain H e1)
           else if batch_kind_of b = VerifyBatch then (Inl VerifyNotDriven, e1)
           else case gather s1 (batch_items b)
                  \<lparr>work_chunks = [], work_decodes = [], work_producing = [], work_started = []\<rparr> of
             Inl x \<Rightarrow> (Inl x, e1)
           | Inr w \<Rightarrow>
               (let e2 = fold emit_started (work_started w) e1 in
                case step_mixed (model H) (work_chunks w) (work_decodes w) (model_state e2) of
                  (Inl x, m1) \<Rightarrow> (Inl (StepperError x), e2\<lparr>model_state := m1\<rparr>)
                | (Inr rs, m1) \<Rightarrow>
                    (let e3 = e2\<lparr>model_state := m1\<rparr> in
                     case order_tokens (work_producing w) rs of
                       Inl x \<Rightarrow> (Inl x, e3)
                     | Inr ts \<Rightarrow>
                         (case complete_step (block_hash H) ts (sched e3) of
                            (Inl x, s2) \<Rightarrow> (Inl (SchedulerError x), e3\<lparr>sched := s2\<rparr>)
                          | (Inr fs, s2) \<Rightarrow>
                              (Inr (), engine_drain H
                                (fold (emit_token H fs) (zip (work_producing w) ts)
                                  (e3\<lparr>sched := s2\<rparr>))))))))"

end
