(* ===== verification/Batch_Streams.thy ===== *)
theory Batch_Streams
  imports Batch_Engine
begin

text \<open>
  The event streams. A stream is \<open>Started\<close>, the tokens in order, and one last event; a reader that
  went away leaves it cut off. The books of the engine are the map from ids to \<open>ReqMeta\<close> together
  with the channels; each kind of event has one lemma that says how it moves the books.
\<close>

section \<open>Shapes\<close>

definition begun :: "u64 \<Rightarrow> token list \<Rightarrow> engine_event list \<Rightarrow> bool" where
  "begun i ts log \<longleftrightarrow> log = [] \<and> ts = [] \<or> (\<exists>n. log = Started i n # map (Token i) ts)"

definition last_event :: "u64 \<Rightarrow> token list \<Rightarrow> engine_event \<Rightarrow> bool" where
  "last_event i ts ev \<longleftrightarrow> (\<exists>r. ev = Done i r (of_nat (length ts))) \<or> (\<exists>msg. ev = Error i msg)"

definition complete_stream :: "u64 \<Rightarrow> engine_event list \<Rightarrow> bool" where
  "complete_stream i log \<longleftrightarrow>
     (\<exists>msg. log = [Error i msg, Done i AbortedReason 0]) \<or>
     (\<exists>ts pre ev. begun i ts pre \<and> last_event i ts ev \<and> log = pre @ [ev])"

definition settled_channel :: "channel \<Rightarrow> bool" where
  "settled_channel c \<longleftrightarrow>
     chan_log c = [] \<or> (\<exists>i. complete_stream i (chan_log c)) \<or>
     \<not> chan_open c \<and> (\<exists>i ts. begun i ts (chan_log c))"

text \<open>A request in progress, told of the tokens \<open>ts\<close>.\<close>

definition spoken :: "u64 \<Rightarrow> req_meta \<Rightarrow> u32 \<Rightarrow> token list \<Rightarrow> engine_event list \<Rightarrow> bool" where
  "spoken i m n ts log \<longleftrightarrow>
     log = (if meta_started m then [Started i n] else []) @ map (Token i) ts \<and>
     completion_tokens m = of_nat (length ts) \<and> (ts \<noteq> [] \<longrightarrow> meta_started m)"

lemma spoken_begun: "spoken i m n ts log \<Longrightarrow> begun i ts log"
  by (auto simp: spoken_def begun_def)

lemma spoken_length: "spoken i m n ts log \<Longrightarrow> length log \<le> Suc (length ts)"
  by (simp add: spoken_def)

definition in_progress :: "u64 \<Rightarrow> req_meta \<Rightarrow> channel \<Rightarrow> bool" where
  "in_progress i m c \<longleftrightarrow>
     (if chan_open c
      then (\<exists>n ts. spoken i m n ts (chan_log c) \<and> length ts + 2 \<le> chan_capacity c)
      else (\<exists>ts. begun i ts (chan_log c)))"

lemma in_progressI:
  "spoken i m n ts (chan_log c) \<Longrightarrow> length ts + 2 \<le> chan_capacity c \<Longrightarrow> in_progress i m c"
  unfolding in_progress_def by (cases "chan_open c") (auto dest: spoken_begun)

lemma in_progress_openD:
  "in_progress i m c \<Longrightarrow> chan_open c \<Longrightarrow>
   \<exists>n ts. spoken i m n ts (chan_log c) \<and> length ts + 2 \<le> chan_capacity c"
  by (simp add: in_progress_def)

section \<open>The books\<close>

definition books :: "(u64 \<rightharpoonup> req_meta) \<Rightarrow> (nat \<Rightarrow> channel) \<Rightarrow> bool" where
  "books \<mu> ch \<longleftrightarrow>
     (\<forall>i m. \<mu> i = Some m \<longrightarrow> in_progress i m (ch (meta_reply m))) \<and>
     (\<forall>i m j m'. \<mu> i = Some m \<longrightarrow> \<mu> j = Some m' \<longrightarrow> meta_reply m = meta_reply m' \<longrightarrow> i = j) \<and>
     (\<forall>a. (\<forall>i m. \<mu> i = Some m \<longrightarrow> meta_reply m \<noteq> a) \<longrightarrow> settled_channel (ch a))"

text \<open>
  \<open>told\<close> is the predicate \<open>T\<close> of \<open>owes\<close>: a reader that is still there has been told exactly \<open>ts\<close>,
  and its channel has room for the rest.
\<close>

definition told ::
  "(u64 \<rightharpoonup> req_meta) \<Rightarrow> (nat \<Rightarrow> channel) \<Rightarrow> u64 \<Rightarrow> nat \<Rightarrow> nat \<Rightarrow> token list \<Rightarrow> bool" where
  "told \<mu> ch i n mx ts \<longleftrightarrow>
     (\<forall>m. \<mu> i = Some m \<longrightarrow> chan_open (ch (meta_reply m)) \<longrightarrow>
        spoken i m (of_nat n) ts (chan_log (ch (meta_reply m))) \<and>
        mx + 3 \<le> chan_capacity (ch (meta_reply m)))"

lemma booksD:
  assumes "books \<mu> ch"
  shows "\<mu> i = Some m \<Longrightarrow> in_progress i m (ch (meta_reply m))"
    and "\<mu> i = Some m \<Longrightarrow> \<mu> j = Some m' \<Longrightarrow> meta_reply m = meta_reply m' \<Longrightarrow> i = j"
    and "(\<And>i m. \<mu> i = Some m \<Longrightarrow> meta_reply m \<noteq> a) \<Longrightarrow> settled_channel (ch a)"
  using assms unfolding books_def by blast+

lemma booksI:
  assumes "\<And>i m. \<mu> i = Some m \<Longrightarrow> in_progress i m (ch (meta_reply m))"
    and "\<And>i m j m'. \<mu> i = Some m \<Longrightarrow> \<mu> j = Some m' \<Longrightarrow> meta_reply m = meta_reply m' \<Longrightarrow> i = j"
    and "\<And>a. (\<And>i m. \<mu> i = Some m \<Longrightarrow> meta_reply m \<noteq> a) \<Longrightarrow> settled_channel (ch a)"
  shows "books \<mu> ch"
  using assms unfolding books_def by blast

lemma books_reply_other:
  "books \<mu> ch \<Longrightarrow> \<mu> i = Some m \<Longrightarrow> \<mu> j = Some m' \<Longrightarrow> j \<noteq> i \<Longrightarrow> meta_reply m' \<noteq> meta_reply m"
  using booksD(2) by metis

text \<open>Replacing the channel of one request, which ends.\<close>

lemma books_remove:
  assumes b: "books \<mu> ch" and m: "\<mu> i = Some m" and c: "settled_channel c"
  shows "books (\<mu>(i := None)) (ch(meta_reply m := c))"
proof (rule booksI)
  fix j m' assume j: "(\<mu>(i := None)) j = Some m'"
  then have "j \<noteq> i" "\<mu> j = Some m'" by (auto split: if_splits)
  then show "in_progress j m' ((ch(meta_reply m := c)) (meta_reply m'))"
    using books_reply_other [OF b m] booksD(1) [OF b] by simp
next
  fix j m' k m'' assume "(\<mu>(i := None)) j = Some m'" "(\<mu>(i := None)) k = Some m''"
    and "meta_reply m' = meta_reply m''"
  then show "j = k" using booksD(2) [OF b] by (auto split: if_splits)
next
  fix a assume a: "\<And>j m'. (\<mu>(i := None)) j = Some m' \<Longrightarrow> meta_reply m' \<noteq> a"
  show "settled_channel ((ch(meta_reply m := c)) a)"
  proof (cases "a = meta_reply m")
    case False
    have "meta_reply m' \<noteq> a" if "\<mu> j = Some m'" for j m'
      using a [of j m'] that m False by (cases "j = i") auto
    then show ?thesis using booksD(3) [OF b] False by simp
  qed (simp add: c)
qed

text \<open>Replacing the channel and the entry of one request, which goes on.\<close>

lemma books_replace:
  assumes b: "books \<mu> ch" and m: "\<mu> i = Some m" and r: "meta_reply m1 = meta_reply m"
    and c: "in_progress i m1 c"
  shows "books (\<mu>(i \<mapsto> m1)) (ch(meta_reply m := c))"
proof (rule booksI)
  fix j m' assume j: "(\<mu>(i \<mapsto> m1)) j = Some m'"
  show "in_progress j m' ((ch(meta_reply m := c)) (meta_reply m'))"
  proof (cases "j = i")
    case True
    then show ?thesis using j c r by simp
  next
    case False
    then have "\<mu> j = Some m'" using j by simp
    then show ?thesis using books_reply_other [OF b m _ False] booksD(1) [OF b] by simp
  qed
next
  fix j m' k m'' assume "(\<mu>(i \<mapsto> m1)) j = Some m'" "(\<mu>(i \<mapsto> m1)) k = Some m''"
    and "meta_reply m' = meta_reply m''"
  then show "j = k" using booksD(2) [OF b] m r by (auto split: if_splits)
next
  fix a assume a: "\<And>j m'. (\<mu>(i \<mapsto> m1)) j = Some m' \<Longrightarrow> meta_reply m' \<noteq> a"
  have "a \<noteq> meta_reply m" using a [of i m1] r by simp
  moreover have "meta_reply m' \<noteq> a" if "\<mu> j = Some m'" for j m'
    using a [of j m'] that calculation m by (cases "j = i") auto
  ultimately show "settled_channel ((ch(meta_reply m := c)) a)" using booksD(3) [OF b] by simp
qed

lemma books_new:
  assumes b: "books \<mu> ch" and i: "\<mu> i = None"
    and r: "\<And>j m'. \<mu> j = Some m' \<Longrightarrow> meta_reply m' \<noteq> meta_reply m"
    and c: "in_progress i m (ch (meta_reply m))"
  shows "books (\<mu>(i \<mapsto> m)) ch"
proof (rule booksI)
  fix j m' assume "(\<mu>(i \<mapsto> m)) j = Some m'"
  then show "in_progress j m' (ch (meta_reply m'))" using booksD(1) [OF b] c by (auto split: if_splits)
next
  fix j m' k m'' assume "(\<mu>(i \<mapsto> m)) j = Some m'" "(\<mu>(i \<mapsto> m)) k = Some m''"
    and "meta_reply m' = meta_reply m''"
  then show "j = k" using booksD(2) [OF b] r by (auto split: if_splits) metis+
next
  fix a assume a: "\<And>j m'. (\<mu>(i \<mapsto> m)) j = Some m' \<Longrightarrow> meta_reply m' \<noteq> a"
  have "meta_reply m' \<noteq> a" if "\<mu> j = Some m'" for j m'
    using a [of j m'] that i by (cases "j = i") auto
  then show "settled_channel (ch a)" by (rule booksD(3) [OF b])
qed

section \<open>Sending\<close>

lemma try_send_fields:
  "try_send ev c = (ok, c') \<Longrightarrow>
     chan_open c' = chan_open c \<and> chan_capacity c' = chan_capacity c \<and>
     chan_log c' = (if ok then chan_log c @ [ev] else chan_log c)"
  by (auto simp: try_send_def split: if_splits)

lemma try_send_ok:
  "chan_open c \<Longrightarrow> length (chan_log c) < chan_capacity c \<Longrightarrow>
   try_send ev c = (True, c\<lparr>chan_log := chan_log c @ [ev]\<rparr>)"
  by (simp add: try_send_def)

lemma try_send_closed: "\<not> chan_open c \<Longrightarrow> try_send ev c = (False, c)"
  by (simp add: try_send_def)

text \<open>The last event of a request, \<open>Done\<close> or \<open>Error\<close>.\<close>

lemma last_send_settles:
  assumes p: "in_progress i m c"
    and ev: "(\<exists>r. ev = Done i r (completion_tokens m)) \<or> (\<exists>msg. ev = Error i msg)"
  shows "settled_channel (snd (try_send ev c))"
proof (cases "chan_open c")
  case True
  then obtain n ts where s: "spoken i m n ts (chan_log c)" "length ts + 2 \<le> chan_capacity c"
    using p by (auto simp: in_progress_def)
  have "length (chan_log c) < chan_capacity c" using spoken_length [OF s(1)] s(2) by linarith
  then have "chan_log (snd (try_send ev c)) = chan_log c @ [ev]" using True by (simp add: try_send_ok)
  moreover have "last_event i ts ev" using ev s(1) by (auto simp: last_event_def spoken_def)
  ultimately have "complete_stream i (chan_log (snd (try_send ev c)))"
    using spoken_begun [OF s(1)] by (auto simp: complete_stream_def)
  then show ?thesis by (auto simp: settled_channel_def)
next
  case False
  then show ?thesis using p by (auto simp: in_progress_def settled_channel_def try_send_closed)
qed

lemma told_remove: "told \<mu> ch j n mx ts \<Longrightarrow> books \<mu> ch \<Longrightarrow> \<mu> i = Some m \<Longrightarrow>
   told (\<mu>(i := None)) (ch(meta_reply m := c)) j n mx ts"
  using books_reply_other by (fastforce simp: told_def)

lemma told_other: "told \<mu> ch j n mx ts \<Longrightarrow> books \<mu> ch \<Longrightarrow> \<mu> i = Some m \<Longrightarrow> j \<noteq> i \<Longrightarrow>
   told (\<mu>(i \<mapsto> m1)) (ch(meta_reply m := c)) j n mx ts"
  using books_reply_other by (fastforce simp: told_def)

text \<open>\<open>Started\<close> is sent once; a reader that is gone is marked all the same.\<close>

lemma started_send:
  assumes b: "books \<mu> ch" and m: "\<mu> i = Some m" and st: "\<not> meta_started m"
    and c: "try_send (Started i n) (ch (meta_reply m)) = (ok, c)"
  shows "in_progress i (m\<lparr>meta_started := True\<rparr>) c"
    and "told \<mu> ch i k mx ts \<Longrightarrow> n = of_nat k \<Longrightarrow>
         told (\<mu>(i \<mapsto> m\<lparr>meta_started := True\<rparr>)) (ch(meta_reply m := c)) i k mx ts"
proof -
  let ?c = "ch (meta_reply m)"
  have p: "in_progress i m ?c" by (rule booksD(1) [OF b m])
  have f: "chan_open c = chan_open ?c" "chan_capacity c = chan_capacity ?c"
    "chan_log c = (if ok then chan_log ?c @ [Started i n] else chan_log ?c)"
    using try_send_fields [OF c] by simp_all
  have log: "chan_log c = [Started i n] \<and> chan_log ?c = [] \<and> 2 \<le> chan_capacity ?c" if op: "chan_open ?c"
  proof -
    obtain n' ts where s: "spoken i m n' ts (chan_log ?c)" "length ts + 2 \<le> chan_capacity ?c"
      using in_progress_openD [OF p op] by blast
    then have "chan_log ?c = []" using st by (auto simp: spoken_def)
    moreover have ok
      using c try_send_ok [OF op, of "Started i n"] s(2) calculation by simp
    ultimately show ?thesis using f(3) s(2) by simp
  qed
  show "in_progress i (m\<lparr>meta_started := True\<rparr>) c"
  proof (cases "chan_open ?c")
    case True
    have "completion_tokens m = 0" using p True st by (auto simp: in_progress_def spoken_def)
    then have "spoken i (m\<lparr>meta_started := True\<rparr>) n [] (chan_log c)"
      using log [OF True] by (simp add: spoken_def)
    moreover have "length ([] :: token list) + 2 \<le> chan_capacity c" using log [OF True] f(2) by simp
    ultimately show ?thesis by (rule in_progressI)
  next
    case False
    then show ?thesis using p c f by (auto simp: in_progress_def try_send_closed)
  qed
  show "told (\<mu>(i \<mapsto> m\<lparr>meta_started := True\<rparr>)) (ch(meta_reply m := c)) i k mx ts"
    if t: "told \<mu> ch i k mx ts" and n: "n = of_nat k"
  proof (cases "chan_open ?c")
    case True
    then have s: "spoken i m (of_nat k) ts (chan_log ?c)" "mx + 3 \<le> chan_capacity ?c"
      using t m by (auto simp: told_def)
    then have "spoken i (m\<lparr>meta_started := True\<rparr>) (of_nat k) ts (chan_log c)"
      using log [OF True] st n by (auto simp: spoken_def)
    then show ?thesis using s(2) f(2) by (simp add: told_def)
  next
    case False
    then show ?thesis using f(1) by (simp add: told_def)
  qed
qed

text \<open>A token, to a reader whose channel has room for it.\<close>

lemma token_send:
  assumes b: "books \<mu> ch" and m: "\<mu> i = Some m" and st: "meta_started m"
    and op: "chan_open (ch (meta_reply m))"
    and t: "told \<mu> ch i k mx ts" and room: "length ts + 1 \<le> max 1 mx"
    and m1: "m1 = m\<lparr>completion_tokens := completion_tokens m + 1\<rparr>"
  shows "\<exists>c. try_send (Token i x) (ch (meta_reply m)) = (True, c) \<and> in_progress i m1 c \<and>
         told (\<mu>(i \<mapsto> m1)) (ch(meta_reply m := c)) i k mx (ts @ [x])"
proof -
  let ?c = "ch (meta_reply m)"
  let ?c1 = "?c\<lparr>chan_log := chan_log ?c @ [Token i x]\<rparr>"
  have s: "spoken i m (of_nat k) ts (chan_log ?c)" "mx + 3 \<le> chan_capacity ?c"
    using t m op by (auto simp: told_def)
  have "length (chan_log ?c) < chan_capacity ?c"
    using spoken_length [OF s(1)] s(2) room by (simp add: max_def split: if_splits)
  then have send: "try_send (Token i x) ?c = (True, ?c1)" using op by (simp add: try_send_ok)
  have s1: "spoken i m1 (of_nat k) (ts @ [x]) (chan_log ?c1)" using s(1) st by (simp add: spoken_def m1)
  moreover have "length (ts @ [x]) + 2 \<le> chan_capacity ?c1"
    using room s(2) by (simp add: max_def split: if_splits)
  ultimately have "in_progress i m1 ?c1" by (rule in_progressI)
  moreover have "told (\<mu>(i \<mapsto> m1)) (ch(meta_reply m := ?c1)) i k mx (ts @ [x])"
    using s1 s(2) by (simp add: told_def m1)
  ultimately show ?thesis using send by blast
qed

text \<open>Refusal: both events fit a fresh channel of at least two slots.\<close>

lemma refusal_settles:
  assumes "chan_log c = []" and "2 \<le> chan_capacity c"
  shows "settled_channel (snd (try_send (Done i AbortedReason 0) (snd (try_send (Error i msg) c))))"
  using assms by (auto simp: try_send_def settled_channel_def complete_stream_def)

lemma settled_close: "settled_channel c \<Longrightarrow> settled_channel (c\<lparr>chan_open := False\<rparr>)"
  by (auto simp: settled_channel_def)

lemma settled_take: "settled_channel c \<Longrightarrow> settled_channel (c\<lparr>chan_taken := n\<rparr>)"
  by (auto simp: settled_channel_def)

lemma in_progress_close: "in_progress i m c \<Longrightarrow> in_progress i m (c\<lparr>chan_open := False\<rparr>)"
  by (auto simp: in_progress_def dest: spoken_begun split: if_splits)

lemma in_progress_take: "in_progress i m c \<Longrightarrow> in_progress i m (c\<lparr>chan_taken := n\<rparr>)"
  by (auto simp: in_progress_def split: if_splits)

end
