(* ===== verification/Batch_Facts.thy ===== *)
theory Batch_Facts
  imports Batch_Streams
begin

text \<open>
  The invariant of the engine and its preservation by every method, whatever the model answers and
  whatever the readers do.
\<close>

section \<open>The invariant\<close>

definition ids_of :: "sequence list \<Rightarrow> u64 multiset" where
  "ids_of hand = image_mset seq_id (mset hand)"

text \<open>
  \<open>hand\<close> are finished sequences taken from the scheduler and not yet reported; \<open>p\<close> the tokens
  appended and not yet reported; \<open>\<mu>\<close> the requests in progress.
\<close>

definition serves ::
  "'m host \<Rightarrow> (u64 \<rightharpoonup> req_meta) \<Rightarrow> sequence list \<Rightarrow> (u64 \<Rightarrow> token list) \<Rightarrow> 'm engine \<Rightarrow> bool" where
  "serves H \<mu> hand p e \<longleftrightarrow>
     sched_inv (block_hash H) {} [] (sched e) \<and>
     capacity.all_ok (config (sched e)) (sched e) \<and> answers.all_ok (sched e) \<and>
     unrepeated (census (sched e) + ids_of hand) \<and>
     (\<forall>i\<in>#census (sched e) + ids_of hand. i < next_seq_id e) \<and>
     dom \<mu> \<subseteq> set_mset (census (sched e) + ids_of hand) \<and>
     set_mset (live_ids (sched e)) \<subseteq> dom \<mu> \<and>
     books \<mu> (channels e) \<and> owed.all_ok (told \<mu> (channels e)) p (sched e)"

definition engine_inv :: "'m host \<Rightarrow> 'm engine \<Rightarrow> bool" where
  "engine_inv H e \<longleftrightarrow> serves H (map_of (meta e)) [] (\<lambda>i. []) e \<and> distinct (map fst (meta e))"

lemma servesD:
  assumes "serves H \<mu> hand p e"
  shows "sched_inv (block_hash H) {} [] (sched e)"
    and "capacity.all_ok (config (sched e)) (sched e)" and "answers.all_ok (sched e)"
    and "unrepeated (census (sched e) + ids_of hand)"
    and "i \<in># census (sched e) + ids_of hand \<Longrightarrow> i < next_seq_id e"
    and "dom \<mu> \<subseteq> set_mset (census (sched e) + ids_of hand)"
    and "set_mset (live_ids (sched e)) \<subseteq> dom \<mu>"
    and "books \<mu> (channels e)" and "owed.all_ok (told \<mu> (channels e)) p (sched e)"
  using assms unfolding serves_def by blast+

text \<open>A method of the scheduler that keeps the ids keeps the engine's invariant.\<close>

lemma serves_sched:
  assumes s: "serves H \<mu> hand p e"
    and "sched_inv (block_hash H) {} [] sch" and "capacity.all_ok (config sch) sch" and "answers.all_ok sch"
    and c: "census sch = census (sched e)" and "set_mset (live_ids sch) \<subseteq> set_mset (live_ids (sched e))"
    and "owed.all_ok (told \<mu> (channels e)) p' sch"
  shows "serves H \<mu> hand p' (e\<lparr>sched := sch\<rparr>)"
  using assms unfolding serves_def by auto

lemma serves_frame:
  "serves H \<mu> hand p e \<Longrightarrow> sched e' = sched e \<Longrightarrow> next_seq_id e' = next_seq_id e \<Longrightarrow>
   channels e' = channels e \<Longrightarrow> serves H \<mu> hand p e'"
  unfolding serves_def by simp

lemma live_subset:
  "(\<And>A. members.all_ok A sch \<Longrightarrow> members.all_ok A sch') \<Longrightarrow>
   set_mset (live_ids sch') \<subseteq> set_mset (live_ids sch)"
  by (simp add: members_live)

lemma serves_step:
  assumes s: "serves H \<mu> hand p e" and st: "step (block_hash H) cm (sched e) = (Inr b, sch)"
  shows "serves H \<mu> hand p (e\<lparr>sched := sch\<rparr>)"
proof (rule serves_sched [OF s])
  note d = servesD [OF s]
  show "sched_inv (block_hash H) {} [] sch" using step_inv [OF st] d(1) by simp
  show "capacity.all_ok (config sch) sch"
    using capacity.all_ok_step [OF st d(2)] config_step [OF st] by simp
  show "answers.all_ok sch" by (rule answers.all_ok_step [OF st d(3)])
  show "census sch = census (sched e)" by (rule census_step [OF st])
  show "set_mset (live_ids sch) \<subseteq> set_mset (live_ids (sched e))"
    by (rule live_subset) (rule members.all_ok_step [OF st])
  show "owed.all_ok (told \<mu> (channels e)) p sch" by (rule owed.all_ok_step [OF st d(9)])
qed

lemma serves_abort:
  assumes s: "serves H \<mu> hand p e"
  shows "serves H \<mu> hand p (e\<lparr>sched := abort i (sched e)\<rparr>)"
proof (rule serves_sched [OF s])
  note d = servesD [OF s]
  show "sched_inv (block_hash H) {} [] (abort i (sched e))" by (rule abort_inv [OF d(1)])
  show "capacity.all_ok (config (abort i (sched e))) (abort i (sched e))"
    using capacity.all_ok_abort [OF d(2)] by (simp add: config_abort)
  show "answers.all_ok (abort i (sched e))" by (rule answers.all_ok_abort [OF d(3)])
  show "census (abort i (sched e)) = census (sched e)" by (rule census_abort)
  show "set_mset (live_ids (abort i (sched e))) \<subseteq> set_mset (live_ids (sched e))"
    by (auto simp: live_ids_abort dest: in_diffD)
  show "owed.all_ok (told \<mu> (channels e)) p (abort i (sched e))" by (rule owed.all_ok_abort [OF d(9)])
qed

lemma serves_last_batch:
  assumes s: "serves H \<mu> hand p e"
  shows "serves H \<mu> hand p (e\<lparr>sched := (sched e)\<lparr>last_batch := b\<rparr>\<rparr>)"
proof (rule serves_sched [OF s])
  note d = servesD [OF s]
  let ?s = "(sched e)\<lparr>last_batch := b\<rparr>"
  show "sched_inv (block_hash H) {} [] ?s" by (rule sched_inv_frame [OF d(1)]) simp_all
  show "capacity.all_ok (config ?s) ?s" using capacity.all_ok_frame [OF d(2)] by simp
  show "answers.all_ok ?s" by (rule answers.all_ok_frame [OF d(3)]) simp_all
  show "census ?s = census (sched e)" by (simp add: census_def)
  show "set_mset (live_ids ?s) \<subseteq> set_mset (live_ids (sched e))" by (simp add: live_ids_def)
  show "owed.all_ok (told \<mu> (channels e)) p ?s" by (rule owed.all_ok_frame [OF d(9)]) simp_all
qed

section \<open>Abort and release\<close>

lemma tell_release_fields [simp]:
  "sched (tell_release H i e) = sched e" "meta (tell_release H i e) = meta e"
  "next_seq_id (tell_release H i e) = next_seq_id e" "channels (tell_release H i e) = channels e"
  "max_waiting (tell_release H i e) = max_waiting e"
  by (simp_all add: tell_release_def)

lemma engine_abort_fields [simp]:
  "meta (engine_abort H i e) = meta e" "next_seq_id (engine_abort H i e) = next_seq_id e"
  "channels (engine_abort H i e) = channels e" "sched (engine_abort H i e) = abort i (sched e)"
  by (simp_all add: engine_abort_def)

lemma serves_engine_abort: "serves H \<mu> hand p e \<Longrightarrow> serves H \<mu> hand p (engine_abort H i e)"
  unfolding engine_abort_def by (rule serves_frame [OF serves_abort]) simp_all

lemma send_fields [simp]:
  "sched (snd (send a ev e)) = sched e" "meta (snd (send a ev e)) = meta e"
  "next_seq_id (snd (send a ev e)) = next_seq_id e"
  "channels (snd (send a ev e)) = (channels e)(a := snd (try_send ev (channels e a)))"
  "fst (send a ev e) = fst (try_send ev (channels e a))"
  by (simp_all add: send_def split: prod.splits)

section \<open>Reporting the end of a request\<close>

lemma owed_told_remove:
  assumes b: "books \<mu> ch" and m: "\<mu> i = Some m" and o: "owed.all_ok (told \<mu> ch) p sch"
  shows "owed.all_ok (told (\<mu>(i := None)) (ch(meta_reply m := c))) p sch"
proof -
  have "owes (told (\<mu>(i := None)) (ch(meta_reply m := c))) p s" if "owes (told \<mu> ch) p s" for s
    using that told_remove [OF _ b m] unfolding owes_def by blast
  then show ?thesis using o unfolding owed.all_ok_def by blast
qed

text \<open>
  The request \<open>i\<close> is told its end: it leaves the books. It must not be live any more.
\<close>

lemma serves_end:
  assumes s: "serves H \<mu> hand p e" and m: "\<mu> i = Some m"
    and ev: "(\<exists>r. ev = Done i r (completion_tokens m)) \<or> (\<exists>msg. ev = Error i msg)"
    and live: "i \<notin># live_ids sch"
    and e': "serves H \<mu> hand p (e\<lparr>sched := sch\<rparr>)"
  shows "serves H (\<mu>(i := None)) hand p
           (e\<lparr>sched := sch, channels := (channels e)(meta_reply m := snd (try_send ev (channels e (meta_reply m))))\<rparr>)"
proof -
  note d = servesD [OF e']
  have b: "books \<mu> (channels e)" using d(8) by simp
  have "settled_channel (snd (try_send ev (channels e (meta_reply m))))"
    by (rule last_send_settles [OF booksD(1) [OF b m] ev])
  then have "books (\<mu>(i := None)) ((channels e)(meta_reply m := snd (try_send ev (channels e (meta_reply m)))))"
    by (rule books_remove [OF b m])
  moreover have "owed.all_ok (told (\<mu>(i := None))
      ((channels e)(meta_reply m := snd (try_send ev (channels e (meta_reply m)))))) p sch"
    by (rule owed_told_remove [OF b m]) (use d(9) in simp)
  moreover have "dom (\<mu>(i := None)) \<subseteq> set_mset (census sch + ids_of hand)" using d(6) by auto
  moreover have "set_mset (live_ids sch) \<subseteq> dom (\<mu>(i := None))" using d(7) live by auto
  ultimately show ?thesis using d(1-5) unfolding serves_def by simp
qed

lemma drain_one_serves:
  assumes s: "serves H (map_of (meta e)) (s # hand) p e" and dm: "distinct (map fst (meta e))"
  shows "serves H (map_of (meta (drain_one H s e))) hand p (drain_one H s e) \<and>
         distinct (map fst (meta (drain_one H s e)))"
proof (cases "map_of (meta e) (seq_id s)")
  case None
  note d = servesD [OF s]
  have "dom (map_of (meta e)) \<subseteq> set_mset (census (sched e) + ids_of hand)"
    using d(6) None by (auto simp: ids_of_def)
  then have "serves H (map_of (meta e)) hand p e"
    using d(1-5,7-9) unfolding serves_def by (simp add: ids_of_def)
  then show ?thesis using None dm by (auto simp: drain_one_def Let_def intro: serves_frame)
next
  case (Some m)
  note d = servesD [OF s]
  let ?i = "seq_id s"
  let ?ev = "Done ?i (case seq_finish s of Some r \<Rightarrow> r | None \<Rightarrow> AbortedReason) (completion_tokens m)"
  have notlive: "?i \<notin># live_ids (sched e)"
    using d(4) by (auto simp: ids_of_def census_live)
  let ?e1 = "e\<lparr>channels := (channels e)(meta_reply m := snd (try_send ?ev (channels e (meta_reply m))))\<rparr>"
  have "serves H ((map_of (meta e))(?i := None)) (s # hand) p
      (e\<lparr>sched := sched e, channels := channels ?e1\<rparr>)"
    using serves_end [OF s Some _ notlive, of ?ev] s by simp
  then have e1: "serves H ((map_of (meta e))(?i := None)) (s # hand) p ?e1" by simp
  note d1 = servesD [OF e1]
  have "dom ((map_of (meta e))(?i := None)) \<subseteq> set_mset (census (sched ?e1) + ids_of hand)"
    using d1(6) by (auto simp: ids_of_def)
  then have e2: "serves H ((map_of (meta e))(?i := None)) hand p ?e1"
    using d1(1-5,7-9) unfolding serves_def by (simp add: ids_of_def)
  have m': "map_of (meta (drain_one H s e)) = (map_of (meta e))(?i := None)"
    using Some by (simp add: drain_one_def Let_def delete_conv')
  have "serves H (map_of (meta (drain_one H s e))) hand p (drain_one H s e)"
    unfolding m' by (rule serves_frame [OF e2]) (use Some in \<open>simp_all add: drain_one_def Let_def\<close>)
  moreover have "distinct (map fst (meta (drain_one H s e)))"
    using Some dm by (simp add: drain_one_def Let_def distinct_delete)
  ultimately show ?thesis ..
qed

lemma drain_all_serves:
  "serves H (map_of (meta e)) hand p e \<Longrightarrow> distinct (map fst (meta e)) \<Longrightarrow>
   serves H (map_of (meta (fold (drain_one H) hand e))) [] p (fold (drain_one H) hand e) \<and>
   distinct (map fst (meta (fold (drain_one H) hand e)))"
  by (induction hand arbitrary: e) (auto dest: drain_one_serves)

lemma engine_drain_serves:
  assumes s: "serves H (map_of (meta e)) [] p e" and dm: "distinct (map fst (meta e))"
  shows "serves H (map_of (meta (engine_drain H e))) [] p (engine_drain H e) \<and>
         distinct (map fst (meta (engine_drain H e)))"
proof -
  note d = servesD [OF s]
  let ?s1 = "snd (drain_finished (sched e))"
  let ?hand = "finished (sched e)"
  have c: "census (sched e) = census ?s1 + ids_of ?hand"
    by (simp add: drain_finished_def census_def ids_of_def)
  have l: "live_ids ?s1 = live_ids (sched e)" by (simp add: drain_finished_def live_ids_def)
  have "serves H (map_of (meta e)) ?hand p (e\<lparr>sched := ?s1\<rparr>)"
    unfolding serves_def
    using d drain_finished_inv [OF d(1)] capacity.all_ok_drain [OF d(2)] answers.all_ok_drain [OF d(3)]
      owed.all_ok_drain [OF d(9)] c l
    by (simp add: ids_of_def) (simp add: drain_finished_def)
  then show ?thesis
    using drain_all_serves [of H "e\<lparr>sched := ?s1\<rparr>" ?hand p] dm
    by (simp add: engine_drain_def drain_finished_def)
qed

section \<open>Admission\<close>

text \<open>
  The channel of a new request: untouched, nobody else's, and with the room \<open>submit\<close> gives it for
  every token and the three other events.
\<close>

definition fresh_reply :: "gen_request \<Rightarrow> 'm engine \<Rightarrow> bool" where
  "fresh_reply req e \<longleftrightarrow>
     chan_log (channels e (req_reply req)) = [] \<and>
     (\<forall>m\<in>set (map snd (meta e)). meta_reply m \<noteq> req_reply req) \<and>
     min (req_max_new req) (capacity_tokens (config (sched e))) + 3 \<le>
       chan_capacity (channels e (req_reply req))"

lemma fresh_reply_unused:
  "fresh_reply req e \<Longrightarrow> map_of (meta e) i = Some m \<Longrightarrow> meta_reply m \<noteq> req_reply req"
  by (force simp: fresh_reply_def dest: map_of_SomeD)

lemma books_unused:
  assumes b: "books \<mu> ch" and a: "\<And>i m. \<mu> i = Some m \<Longrightarrow> meta_reply m \<noteq> a" and c: "settled_channel c"
  shows "books \<mu> (ch(a := c))"
  by (rule booksI) (use booksD(1) [OF b] booksD(2) [OF b] booksD(3) [OF b] a c in auto)

lemma told_unused:
  "told \<mu> ch j n mx ts \<Longrightarrow> (\<And>i m. \<mu> i = Some m \<Longrightarrow> meta_reply m \<noteq> a) \<Longrightarrow>
   told \<mu> (ch(a := c)) j n mx ts"
  by (auto simp: told_def)

lemma owed_mono:
  "owed.all_ok T p sch \<Longrightarrow>
   (\<And>s ts. s \<in># mset (waiting sch) + mset (running sch) + mset (finished sch) \<Longrightarrow>
      T (seq_id s) (length (seq_prompt s)) (max_new_tokens s) ts \<Longrightarrow>
      T' (seq_id s) (length (seq_prompt s)) (max_new_tokens s) ts) \<Longrightarrow>
   owed.all_ok T' p sch"
  unfolding owed_all_iff owes_def by blast

lemma less_next: "(i :: u64) < n \<Longrightarrow> n < - 1 \<Longrightarrow> i < n + 1"
  by unat_arith

lemma self_next: "(n :: u64) < - 1 \<Longrightarrow> n < n + 1"
  by unat_arith

text \<open>A refusal uses up an id and settles the client's channel.\<close>

lemma refuse_serves:
  assumes inv: "engine_inv H e" and f: "fresh_reply req e" and n: "next_seq_id e < - 1"
  shows "engine_inv H (refuse i (req_reply req) msg (e\<lparr>next_seq_id := next_seq_id e + 1\<rparr>))"
proof -
  let ?a = "req_reply req"
  let ?c = "snd (try_send (Done i AbortedReason 0) (snd (try_send (Error i msg) (channels e ?a))))"
  note s = inv [unfolded engine_inv_def, THEN conjunct1]
  note d = servesD [OF s]
  have "settled_channel ?c"
    by (rule refusal_settles) (use f in \<open>auto simp: fresh_reply_def\<close>)
  then have "books (map_of (meta e)) ((channels e)(?a := ?c))"
    by (intro books_unused [OF d(8)] fresh_reply_unused [OF f])
  moreover have "owed.all_ok (told (map_of (meta e)) ((channels e)(?a := ?c))) (\<lambda>i. []) (sched e)"
    by (rule owed_mono [OF d(9)]) (rule told_unused [OF _ fresh_reply_unused [OF f]])
  moreover have "\<forall>i\<in>#census (sched e) + ids_of []. i < next_seq_id e + 1"
    using d(5) less_next n by blast
  ultimately show ?thesis
    using d(1-4,6,7) inv unfolding engine_inv_def serves_def refuse_def by simp
qed

lemma accept_serves:
  assumes inv: "engine_inv H e" and f: "fresh_reply req e" and n: "next_seq_id e < - 1"
    and cap: "length (req_prompt req) + 1 \<le> capacity_tokens (config (sched e))"
    and s: "s = new_sequence (next_seq_id e) (req_prompt req)
      (min (req_max_new req) (capacity_tokens (config (sched e)) - length (req_prompt req) - 1))"
    and m: "m = \<lparr>meta_reply = req_reply req, completion_tokens = 0, meta_started = False\<rparr>"
  shows "engine_inv H (e\<lparr> next_seq_id := next_seq_id e + 1, model_state := st,
           sched := enqueue_with_eos_ids s eos (sched e), meta := AList.update (next_seq_id e) m (meta e)\<rparr>)"
proof -
  let ?i = "next_seq_id e" and ?\<mu> = "map_of (meta e)" and ?ch = "channels e"
  let ?sch = "(sched e)\<lparr>every_eos := (every_eos (sched e))(seq_id s \<mapsto> eos)\<rparr>"
  have sv: "serves H ?\<mu> [] (\<lambda>i. []) e" and dm: "distinct (map fst (meta e))"
    using inv by (simp_all add: engine_inv_def)
  note d = servesD [OF sv]
  have new: "?i \<notin># census (sched e)" using d(5) by (auto simp: ids_of_def)
  then have i: "?\<mu> ?i = None" using d(6) by (auto simp: ids_of_def)
  have id: "seq_id s = ?i" by (simp add: s new_sequence_def)
  have sch: "enqueue_with_eos_ids s eos (sched e) = enqueue s ?sch" by (simp add: enqueue_with_eos_ids_def)
  have inv1: "sched_inv (block_hash H) {} [] (enqueue s ?sch)"
  proof (rule enqueue_inv [OF sched_inv_eos [OF d(1)]])
    show "waiting_ok s" by (simp add: s new_sequence_def waiting_ok_def has_drafts_def)
    show "fresh_id (seq_id s) ?sch" using new unfolding id by (auto simp: fresh_id_def census_def)
  qed
  have room: "max_new_tokens s + 3 \<le> chan_capacity (?ch (req_reply req))"
  proof -
    have "max_new_tokens s \<le> min (req_max_new req) (capacity_tokens (config (sched e)))"
      by (simp add: s new_sequence_def)
    then show ?thesis using f unfolding fresh_reply_def by linarith
  qed
  have "length (req_prompt req) + max_new_tokens s \<le> capacity_tokens (config (sched e))"
    using cap by (simp add: s new_sequence_def)
  also have "\<dots> \<le> cfg_num_blocks (config (sched e)) * cfg_block_size (config (sched e))"
    by (simp add: capacity_tokens_def saturate_le)
  finally have "roomy (config (sched e)) s" by (simp add: roomy_def s new_sequence_def)
  then have cap1: "capacity.all_ok (config (enqueue s ?sch)) (enqueue s ?sch)"
    using capacity.all_ok_enqueue [OF capacity.all_ok_frame [OF d(2), of ?sch]] by (simp add: enqueue_def)
  have "unstopped s" by (simp add: unstopped_def s new_sequence_def)
  then have ans1: "answers.all_ok (enqueue s ?sch)"
    using answers.all_ok_enqueue [OF answers.all_ok_frame [OF d(3), of ?sch]] by simp
  have c1: "census (enqueue s ?sch) = add_mset ?i (census (sched e))"
    using id by (simp add: census_def enqueue_def)
  have l1: "live_ids (enqueue s ?sch) = add_mset ?i (live_ids (sched e))"
    using id by (simp add: live_ids_def enqueue_def)
  have log: "chan_log (?ch (req_reply req)) = []" using f by (simp add: fresh_reply_def)
  have "in_progress ?i m (?ch (meta_reply m))"
    by (rule in_progressI [of _ _ 0 "[]"]) (use log room in \<open>auto simp: spoken_def m\<close>)
  then have b1: "books (?\<mu>(?i \<mapsto> m)) ?ch"
    using books_new [OF d(8) i] fresh_reply_unused [OF f] by (simp add: m)
  have "owes (told (?\<mu>(?i \<mapsto> m)) ?ch) (\<lambda>i. []) s"
    using log room by (simp add: owes_def id told_def spoken_def m) (simp add: s new_sequence_def)
  moreover have "owed.all_ok (told (?\<mu>(?i \<mapsto> m)) ?ch) (\<lambda>i. []) ?sch"
  proof (rule owed_mono)
    show "owed.all_ok (told ?\<mu> ?ch) (\<lambda>i. []) ?sch" by (rule owed.all_ok_frame [OF d(9)]) simp_all
    fix u ts assume "u \<in># mset (waiting ?sch) + mset (running ?sch) + mset (finished ?sch)"
    then have "seq_id u \<in># census (sched e)" by (auto simp: census_def)
    then have "seq_id u \<noteq> ?i" using new by metis
    then show "told (?\<mu>(?i \<mapsto> m)) ?ch (seq_id u) (length (seq_prompt u)) (max_new_tokens u) ts"
      if "told ?\<mu> ?ch (seq_id u) (length (seq_prompt u)) (max_new_tokens u) ts"
      using that by (simp add: told_def)
  qed
  ultimately have o1: "owed.all_ok (told (?\<mu>(?i \<mapsto> m)) ?ch) (\<lambda>i. []) (enqueue s ?sch)"
    by (rule owed.all_ok_enqueue [rotated])
  have "unrepeated (census (enqueue s ?sch) + ids_of [])"
    using d(4) new by (simp add: c1 ids_of_def)
  moreover have "\<forall>j\<in>#census (enqueue s ?sch) + ids_of []. j < ?i + 1"
    using d(5) less_next [OF _ n] self_next [OF n] by (auto simp: c1 ids_of_def)
  moreover have "dom (?\<mu>(?i \<mapsto> m)) \<subseteq> set_mset (census (enqueue s ?sch) + ids_of [])"
    using d(6) by (auto simp: c1 ids_of_def)
  moreover have "set_mset (live_ids (enqueue s ?sch)) \<subseteq> dom (?\<mu>(?i \<mapsto> m))"
    using d(7) by (auto simp: l1)
  ultimately show ?thesis
    using inv1 cap1 ans1 b1 o1 distinct_update [OF dm]
    unfolding engine_inv_def serves_def sch by (simp add: update_conv')
qed

lemma admit_inv:
  assumes "engine_inv H e" and "fresh_reply req e" and "next_seq_id e < - 1"
  shows "engine_inv H (snd (admit H req e))"
  using refuse_serves [OF assms] accept_serves [OF assms _ refl refl]
  unfolding admit_def by (simp add: Let_def not_less not_le)

section \<open>Failing every request\<close>

lemma unrepeated_removed: "unrepeated M \<Longrightarrow> x \<notin># M - {#x#}"
proof -
  assume "unrepeated M"
  then have "count M x \<le> 1" unfolding unrepeated_def by blast
  then show ?thesis unfolding not_in_iff count_diff by simp
qed

lemma fail_one_serves:
  assumes s: "serves H \<mu> [] p e" and m: "\<mu> i = map_of (meta e) i" "i \<in> dom \<mu>"
  shows "serves H (\<mu>(i := None)) [] p (fail_one H msg i e)"
proof -
  obtain r where r: "\<mu> i = Some r" using m(2) by blast
  then have r': "map_of (meta e) i = Some r" using m(1) by simp
  have "unrepeated (live_ids (sched e))"
    using servesD(4) [OF s] unfolding census_live add.assoc by (rule unrepeated_sub)
  then have live: "i \<notin># live_ids (abort i (sched e))"
    unfolding live_ids_abort by (rule unrepeated_removed)
  show ?thesis
    by (rule serves_frame [OF serves_end [OF s r _ live serves_abort [OF s], of "Error i msg"]])
      (simp_all add: fail_one_def r')
qed

lemma fail_one_meta [simp]: "meta (fail_one H msg i e) = meta e"
  by (simp add: fail_one_def split: option.splits)

lemma fail_fold_serves:
  "serves H (map_of (meta e) |` set is) [] p e \<Longrightarrow> set is \<subseteq> dom (map_of (meta e)) \<Longrightarrow> distinct is \<Longrightarrow>
   serves H Map.empty [] p (fold (fail_one H msg) is e)"
proof (induction "is" arbitrary: e)
  case (Cons i "is")
  let ?\<mu> = "map_of (meta e) |` set (i # is)"
  have "serves H (?\<mu>(i := None)) [] p (fail_one H msg i e)"
    by (rule fail_one_serves [OF Cons.prems(1)]) (use Cons.prems(2) in auto)
  moreover have "?\<mu>(i := None) = map_of (meta (fail_one H msg i e)) |` set is"
    using Cons.prems(3) by (auto simp: restrict_map_def)
  ultimately show ?case using Cons.IH [of "fail_one H msg i e"] Cons.prems by simp
qed simp

lemma drain_idle: "meta e = [] \<Longrightarrow> meta (fold (drain_one H) ss e) = [] \<and> sched (fold (drain_one H) ss e) = sched e"
  by (induction ss arbitrary: e) (simp_all add: drain_one_def Let_def)

lemma fail_all_inv:
  assumes inv: "engine_inv H e" and k: "\<And>xs. mset (key_order H xs) = mset xs"
  shows "engine_inv H (snd (fail_all H msg e)) \<and> \<not> engine_has_work (snd (fail_all H msg e))"
proof -
  let ?is = "key_order H (map fst (meta e))"
  let ?e1 = "fold (fail_one H msg) ?is e"
  have s: "serves H (map_of (meta e)) [] (\<lambda>i. []) e" and dm: "distinct (map fst (meta e))"
    using inv by (simp_all add: engine_inv_def)
  have di: "distinct ?is" using k dm mset_eq_imp_distinct_iff by blast
  have set: "set ?is = dom (map_of (meta e))"
    using k [of "map fst (meta e)"] by (metis dom_map_of_conv_image_fst set_map set_mset_mset)
  have "map_of (meta e) |` set ?is = map_of (meta e)" unfolding set
    by (rule ext) (simp add: restrict_map_def domIff)
  then have "serves H Map.empty [] (\<lambda>i. []) ?e1"
    using fail_fold_serves [of H e ?is "\<lambda>i. []" msg] s set di by simp
  then have e2: "serves H Map.empty [] (\<lambda>i. []) (?e1\<lparr>meta := []\<rparr>)" by (rule serves_frame) simp_all
  then have "live_ids (sched ?e1) = {#}" using servesD(7) [OF e2] by simp
  moreover have "live_ids (sched (engine_drain H (?e1\<lparr>meta := []\<rparr>))) = live_ids (sched ?e1)"
    using drain_idle [of "?e1\<lparr>meta := [], sched := snd (drain_finished (sched ?e1))\<rparr>" H]
    by (simp add: engine_drain_def drain_finished_def live_ids_def)
  moreover have "meta (engine_drain H (?e1\<lparr>meta := []\<rparr>)) = []"
    using drain_idle [of "?e1\<lparr>meta := [], sched := snd (drain_finished (sched ?e1))\<rparr>" H]
    by (simp add: engine_drain_def drain_finished_def)
  ultimately show ?thesis
    using engine_drain_serves [of H "?e1\<lparr>meta := []\<rparr>" "\<lambda>i. []"] e2
    by (simp add: fail_all_def Let_def engine_inv_def engine_has_work_def live_ids_empty [symmetric])
qed

end
