(* ===== verification/Batch_Turn.thy ===== *)
theory Batch_Turn
  imports Batch_Facts
begin

text \<open>
  One turn of the engine: what \<open>gather\<close> hands to the model, the events sent before and after the
  model ran, and the invariant over \<open>engine_step\<close>.
\<close>

section \<open>Gathering\<close>

lemma gather_item_spec:
  "gather_item sch it w = Inr w' \<Longrightarrow>
   \<exists>s. running_seq (item_seq_id it) sch = Some s \<and>
     work_producing w' = work_producing w @ (if produces_token it then [item_seq_id it] else []) \<and>
     work_started w' = work_started w @
       (if is_prefill it then [(item_seq_id it, of_nat (length (seq_prompt s)))] else [])"
  by (auto simp: gather_item_def produces_token_def split: option.splits if_splits)

definition started_by :: "scheduler \<Rightarrow> (u64 \<times> u32) list \<Rightarrow> bool" where
  "started_by sch sts \<longleftrightarrow>
     (\<forall>st\<in>set sts. \<exists>s. running_seq (fst st) sch = Some s \<and> snd st = of_nat (length (seq_prompt s)))"

lemma gather_spec:
  "gather sch its w = Inr w' \<Longrightarrow> started_by sch (work_started w) \<Longrightarrow>
   work_producing w' = work_producing w @ map item_seq_id (filter produces_token its) \<and>
   started_by sch (work_started w') \<and>
   set (map fst (work_started w')) = set (map fst (work_started w)) \<union> item_seq_id ` set (filter is_prefill its)"
proof (induction its arbitrary: w)
  case (Cons it its)
  obtain w1 where w1: "gather_item sch it w = Inr w1" "gather sch its w1 = Inr w'"
    using Cons.prems(1) by (auto split: sum.splits)
  obtain s where s: "running_seq (item_seq_id it) sch = Some s"
    "work_producing w1 = work_producing w @ (if produces_token it then [item_seq_id it] else [])"
    "work_started w1 = work_started w @
       (if is_prefill it then [(item_seq_id it, of_nat (length (seq_prompt s)))] else [])"
    using gather_item_spec [OF w1(1)] by blast
  have "started_by sch (work_started w1)" using Cons.prems(2) s(1,3) by (auto simp: started_by_def)
  then show ?case using Cons.IH [OF w1(2)] s(2,3) by auto
qed simp

section \<open>Sending \<open>Started\<close>\<close>

definition has_started :: "'m engine \<Rightarrow> u64 \<Rightarrow> bool" where
  "has_started e i \<longleftrightarrow>
     (\<forall>m. map_of (meta e) i = Some m \<longrightarrow> chan_open (channels e (meta_reply m)) \<longrightarrow> meta_started m)"

lemma serves_books:
  assumes s: "serves H \<mu> hand p e" and "sched e' = sched e" "next_seq_id e' = next_seq_id e"
    and "dom \<mu>' = dom \<mu>" and "books \<mu>' (channels e')" and "owed.all_ok (told \<mu>' (channels e')) p' (sched e)"
  shows "serves H \<mu>' hand p' e'"
  using assms unfolding serves_def by simp

lemma running_seq_mem: "running_seq i sch = Some s \<Longrightarrow> s \<in> set (running sch) \<and> seq_id s = i"
  by (auto simp: running_seq_def has_id_def find_Some_iff)

lemma queued_unique:
  assumes "unrepeated (census sch + N)"
    and "s \<in># mset (waiting sch) + mset (running sch) + mset (finished sch)"
    and "u \<in># mset (waiting sch) + mset (running sch) + mset (finished sch)" and "seq_id s = seq_id u"
  shows "s = u"
proof (rule ccontr)
  let ?M = "mset (waiting sch) + mset (running sch) + mset (finished sch)"
  assume "s \<noteq> u"
  then obtain R where "?M = add_mset s (add_mset u R)"
    using assms(2,3) by (metis insert_noteq_member mset_add)
  then have "census sch = add_mset (seq_id s) (add_mset (seq_id u) (image_mset seq_id R))"
    by (simp add: census_def)
  then show False using unrepeated_sub [OF assms(1)] assms(4) by simp
qed

lemma emit_started_serves:
  assumes s: "serves H (map_of (meta e)) [] p e" and dm: "distinct (map fst (meta e))"
    and r: "running_seq (fst st) (sched e) = Some u" "snd st = of_nat (length (seq_prompt u))"
  shows "serves H (map_of (meta (emit_started st e))) [] p (emit_started st e) \<and>
    distinct (map fst (meta (emit_started st e))) \<and> sched (emit_started st e) = sched e \<and>
    has_started (emit_started st e) (fst st) \<and>
    (\<forall>i. has_started e i \<longrightarrow> has_started (emit_started st e) i)"
proof (cases "map_of (meta e) (fst st)")
  case None
  then show ?thesis using s dm by (simp add: emit_started_def has_started_def)
next
  case (Some m)
  show ?thesis
  proof (cases "meta_started m")
    case True
    then show ?thesis using s dm Some by (simp add: emit_started_def has_started_def)
  next
    case False
    let ?i = "fst st" and ?n = "snd st" and ?\<mu> = "map_of (meta e)" and ?ch = "channels e"
    let ?m1 = "m\<lparr>meta_started := True\<rparr>"
    note d = servesD [OF s]
    obtain ok c where c: "try_send (Started ?i ?n) (?ch (meta_reply m)) = (ok, c)" by fastforce
    have f: "meta (emit_started st e) = AList.update ?i ?m1 (meta e)" "sched (emit_started st e) = sched e"
      "next_seq_id (emit_started st e) = next_seq_id e" "channels (emit_started st e) = ?ch(meta_reply m := c)"
      using Some False c by (simp_all add: emit_started_def)
    have \<mu>': "map_of (meta (emit_started st e)) = ?\<mu>(?i \<mapsto> ?m1)" by (simp add: f update_conv')
    have b: "books (?\<mu>(?i \<mapsto> ?m1)) (?ch(meta_reply m := c))"
      by (rule books_replace [OF d(8) Some _ started_send(1) [OF d(8) Some False c]]) simp
    have o: "owed.all_ok (told (?\<mu>(?i \<mapsto> ?m1)) (?ch(meta_reply m := c))) p (sched e)"
    proof (rule owed_mono [OF d(9)])
      fix v ts assume v: "v \<in># mset (waiting (sched e)) + mset (running (sched e)) + mset (finished (sched e))"
        and t: "told ?\<mu> ?ch (seq_id v) (length (seq_prompt v)) (max_new_tokens v) ts"
      show "told (?\<mu>(?i \<mapsto> ?m1)) (?ch(meta_reply m := c)) (seq_id v) (length (seq_prompt v)) (max_new_tokens v) ts"
      proof (cases "seq_id v = ?i")
        case True
        have u: "u \<in> set (running (sched e))" "seq_id u = ?i" using running_seq_mem [OF r(1)] by simp_all
        then have "v = u" using queued_unique [OF d(4) v] True by simp
        then show ?thesis using started_send(2) [OF d(8) Some False c _ , of "length (seq_prompt u)"] t u(2) r(2)
          by simp
      next
        case False
        then show ?thesis using told_other [OF t d(8) Some] by simp
      qed
    qed
    have "serves H (?\<mu>(?i \<mapsto> ?m1)) [] p (emit_started st e)"
      by (rule serves_books [OF s]) (use f b o Some in auto)
    moreover have "has_started (emit_started st e) j" if "has_started e j \<or> j = ?i" for j
      using that Some try_send_fields [OF c] books_reply_other [OF d(8) Some]
      by (auto simp: has_started_def \<mu>' f(4))
    moreover have "distinct (map fst (meta (emit_started st e)))" using distinct_update [OF dm] f(1) by simp
    ultimately show ?thesis unfolding \<mu>' using f(2) by blast
  qed
qed

lemma emit_all_started:
  "serves H (map_of (meta e)) [] p e \<Longrightarrow> distinct (map fst (meta e)) \<Longrightarrow> started_by (sched e) sts \<Longrightarrow>
   serves H (map_of (meta (fold emit_started sts e))) [] p (fold emit_started sts e) \<and>
   distinct (map fst (meta (fold emit_started sts e))) \<and> sched (fold emit_started sts e) = sched e \<and>
   (\<forall>i. has_started e i \<or> i \<in> set (map fst sts) \<longrightarrow> has_started (fold emit_started sts e) i)"
proof (induction sts arbitrary: e)
  case (Cons st sts)
  obtain u where "running_seq (fst st) (sched e) = Some u" "snd st = of_nat (length (seq_prompt u))"
    using Cons.prems(3) by (auto simp: started_by_def)
  note one = emit_started_serves [OF Cons.prems(1,2) this]
  then have "started_by (sched (emit_started st e)) sts" using Cons.prems(3) by (simp add: started_by_def)
  then show ?case using Cons.IH [of "emit_started st e"] one by auto
qed simp

section \<open>Sending the tokens\<close>

lemma owed_shift:
  assumes "owed.all_ok T (pending ((i, t) # its)) sch"
    and "\<And>s ts. s \<in># mset (waiting sch) + mset (running sch) + mset (finished sch) \<Longrightarrow> seq_id s = i \<Longrightarrow>
      seq_output s = ts @ t # pending its i \<Longrightarrow> T i (length (seq_prompt s)) (max_new_tokens s) ts \<Longrightarrow>
      T' i (length (seq_prompt s)) (max_new_tokens s) (ts @ [t])"
    and "\<And>(s :: sequence) ts. seq_id s \<noteq> i \<Longrightarrow> T (seq_id s) (length (seq_prompt s)) (max_new_tokens s) ts \<Longrightarrow>
      T' (seq_id s) (length (seq_prompt s)) (max_new_tokens s) ts"
  shows "owed.all_ok T' (pending its) sch"
  unfolding owed_all_iff
proof
  fix s assume s: "s \<in># mset (waiting sch) + mset (running sch) + mset (finished sch)"
  then obtain ts where ts: "seq_output s = ts @ pending ((i, t) # its) (seq_id s)"
    "T (seq_id s) (length (seq_prompt s)) (max_new_tokens s) ts"
    using assms(1) unfolding owed_all_iff owes_def by blast
  show "owes T' (pending its) s"
  proof (cases "seq_id s = i")
    case True
    then show ?thesis using assms(2) [OF s True, of ts] ts unfolding owes_def
      by (intro exI [of _ "ts @ [t]"]) simp
  next
    case False
    then show ?thesis using assms(3) [OF False] ts unfolding owes_def by (intro exI [of _ ts]) simp
  qed
qed

lemma answer_bound:
  assumes "answers.all_ok sch"
    and "s \<in># mset (waiting sch) + mset (running sch) + mset (finished sch)"
  shows "length (seq_output s) \<le> max 1 (max_new_tokens s)"
proof -
  have "unstopped s \<or> stopped_well s" using assms by (auto simp: answers.all_ok_def)
  then show ?thesis by (auto simp: unstopped_def stopped_well_def max_def)
qed

lemma emit_token_serves:
  assumes s: "serves H (map_of (meta e)) [] (pending (x # its)) e" and dm: "distinct (map fst (meta e))"
    and st: "has_started e (fst x)"
  shows "serves H (map_of (meta (emit_token H [] x e))) [] (pending its) (emit_token H [] x e) \<and>
    distinct (map fst (meta (emit_token H [] x e))) \<and>
    (\<forall>i. has_started e i \<longrightarrow> has_started (emit_token H [] x e) i)"
proof -
  obtain i t where x: "x = (i, t)" by fastforce
  let ?\<mu> = "map_of (meta e)" and ?ch = "channels e" and ?e1 = "emit_token H [] x e"
  note d = servesD [OF s [unfolded x]]
  show ?thesis
  proof (cases "?\<mu> i")
    case None
    have "owed.all_ok (told ?\<mu> ?ch) (pending its) (sched e)"
      by (rule owed_shift [OF d(9)]) (simp_all add: told_def None)
    then have "serves H ?\<mu> [] (pending its) e" by (rule serves_books [OF s refl refl refl d(8)])
    then show ?thesis using None dm by (simp add: emit_token_def x)
  next
    case (Some m)
    let ?m1 = "m\<lparr>completion_tokens := completion_tokens m + 1\<rparr>"
    have "i \<in># census (sched e)" using d(6) Some by (auto simp: ids_of_def)
    then obtain u where u: "u \<in># mset (waiting (sched e)) + mset (running (sched e)) + mset (finished (sched e))"
      "seq_id u = i" by (auto simp: census_def)
    show ?thesis
    proof (cases "chan_open (?ch (meta_reply m))")
      case True
      have ms: "meta_started m" using st Some True by (simp add: has_started_def x)
      obtain us where us: "seq_output u = us @ t # pending its i"
        "told ?\<mu> ?ch i (length (seq_prompt u)) (max_new_tokens u) us"
        using d(9) u unfolding owed_all_iff owes_def by fastforce
      have room: "length us + 1 \<le> max 1 (max_new_tokens u)"
        using answer_bound [OF d(3) u(1)] us(1) by simp
      obtain c where c: "try_send (Token i t) (?ch (meta_reply m)) = (True, c)" "in_progress i ?m1 c"
        "told (?\<mu>(i \<mapsto> ?m1)) (?ch(meta_reply m := c)) i (length (seq_prompt u)) (max_new_tokens u) (us @ [t])"
        using token_send [OF d(8) Some ms True us(2) room refl] by blast
      have f: "meta ?e1 = AList.update i ?m1 (meta e)" "sched ?e1 = sched e"
        "next_seq_id ?e1 = next_seq_id e" "channels ?e1 = ?ch(meta_reply m := c)"
        using Some c(1) by (simp_all add: emit_token_def x send_def)
      have \<mu>': "map_of (meta ?e1) = ?\<mu>(i \<mapsto> ?m1)" by (simp add: f update_conv')
      have b: "books (?\<mu>(i \<mapsto> ?m1)) (?ch(meta_reply m := c))"
        by (rule books_replace [OF d(8) Some _ c(2)]) simp
      have o: "owed.all_ok (told (?\<mu>(i \<mapsto> ?m1)) (?ch(meta_reply m := c))) (pending its) (sched e)"
      proof (rule owed_shift [OF d(9)])
        fix v ts assume v: "v \<in># mset (waiting (sched e)) + mset (running (sched e)) + mset (finished (sched e))"
          "seq_id v = i" "seq_output v = ts @ t # pending its i"
        have "v = u" using queued_unique [OF d(4) v(1) u(1)] v(2) u(2) by simp
        then show "told (?\<mu>(i \<mapsto> ?m1)) (?ch(meta_reply m := c)) i (length (seq_prompt v)) (max_new_tokens v) (ts @ [t])"
          using c(3) us(1) v(3) by simp
      next
        fix v :: sequence and ts assume "seq_id v \<noteq> i"
          "told ?\<mu> ?ch (seq_id v) (length (seq_prompt v)) (max_new_tokens v) ts"
        then show "told (?\<mu>(i \<mapsto> ?m1)) (?ch(meta_reply m := c)) (seq_id v) (length (seq_prompt v)) (max_new_tokens v) ts"
          using told_other [OF _ d(8) Some] by simp
      qed
      have "serves H (?\<mu>(i \<mapsto> ?m1)) [] (pending its) ?e1"
        by (rule serves_books [OF s]) (use f b o Some in auto)
      moreover have "has_started ?e1 j" if "has_started e j" for j
        using that Some ms try_send_fields [OF c(1)] books_reply_other [OF d(8) Some]
        by (auto simp: has_started_def \<mu>' f(4))
      moreover have "distinct (map fst (meta ?e1))" using distinct_update [OF dm] f(1) by simp
      ultimately show ?thesis unfolding \<mu>' by blast
    next
      case False
      let ?e0 = "e\<lparr>meta := AList.delete i (AList.update i ?m1 (meta e))\<rparr>"
      have ch: "?ch(meta_reply m := ?ch (meta_reply m)) = ?ch" by simp
      have e1: "?e1 = engine_abort H i ?e0"
        using Some try_send_closed [OF False] by (simp add: emit_token_def x send_def)
      have \<mu>': "map_of (meta ?e1) = ?\<mu>(i := None)" by (simp add: e1 delete_conv' update_conv')
      have "settled_channel (?ch (meta_reply m))"
        using booksD(1) [OF d(8) Some] False by (auto simp: in_progress_def settled_channel_def)
      then have b: "books (?\<mu>(i := None)) ?ch" using books_remove [OF d(8) Some] ch by metis
      have o: "owed.all_ok (told (?\<mu>(i := None)) ?ch) (pending its) (abort i (sched e))"
      proof (rule owed.all_ok_abort, rule owed_shift [OF d(9)])
        fix v :: sequence and ts assume "seq_id v \<noteq> i"
          "told ?\<mu> ?ch (seq_id v) (length (seq_prompt v)) (max_new_tokens v) ts"
        then show "told (?\<mu>(i := None)) ?ch (seq_id v) (length (seq_prompt v)) (max_new_tokens v) ts"
          by (simp add: told_def)
      qed (simp add: told_def)
      note a = servesD [OF serves_abort [OF s, of i]]
      have "unrepeated (live_ids (sched e))"
        using d(4) unfolding census_live add.assoc by (rule unrepeated_sub)
      then have "i \<notin># live_ids (abort i (sched e))" unfolding live_ids_abort by (rule unrepeated_removed)
      then have l: "set_mset (live_ids (abort i (sched e))) \<subseteq> dom (?\<mu>(i := None))" using a(7) by auto
      have "dom (?\<mu>(i := None)) \<subseteq> set_mset (census (abort i (sched e)) + ids_of [])"
        using a(6) by auto
      then have "serves H (?\<mu>(i := None)) [] (pending its) ?e1"
        using a(1-5) b o l unfolding serves_def by (simp add: e1)
      moreover have "has_started ?e1 j" if "has_started e j" for j
        using that unfolding has_started_def \<mu>' by (auto simp: e1 split: if_splits)
      moreover have "distinct (map fst (meta ?e1))"
        unfolding e1 using distinct_delete [OF distinct_update [OF dm]] by simp
      ultimately show ?thesis by (simp add: \<mu>')
    qed
  qed
qed

lemma emit_all_tokens:
  "serves H (map_of (meta e)) [] (pending its) e \<Longrightarrow> distinct (map fst (meta e)) \<Longrightarrow>
   (\<And>x. x \<in> set its \<Longrightarrow> has_started e (fst x)) \<Longrightarrow>
   serves H (map_of (meta (fold (emit_token H []) its e))) [] (\<lambda>i. []) (fold (emit_token H []) its e) \<and>
   distinct (map fst (meta (fold (emit_token H []) its e)))"
proof (induction its arbitrary: e)
  case (Cons x its)
  note one = emit_token_serves [OF Cons.prems(1,2) Cons.prems(3) [of x]]
  then show ?case using Cons.IH [of "emit_token H [] x e"] Cons.prems(3) by simp
qed simp

section \<open>One step of the engine\<close>

lemma order_tokens_length: "order_tokens ids rs = Inr ts \<Longrightarrow> length ts = length ids"
proof -
  have "look_up_all m is = Inr us \<Longrightarrow> length us = length is" for m "is" and us
    by (induction "is" arbitrary: us) (auto split: option.splits sum.splits)
  then show "order_tokens ids rs = Inr ts \<Longrightarrow> length ts = length ids"
    by (auto simp: order_tokens_def split: if_splits)
qed

lemma serves_complete_step:
  assumes s: "serves H \<mu> [] (\<lambda>i. []) e" and b: "last_batch (sched e) = Some b"
    and k: "batch_kind_of b \<noteq> VerifyBatch"
    and co: "coherent (batch_items b) (sched e)" "all_running (batch_items b) (sched e)"
    and n: "length ts = length (filter produces_token (batch_items b))"
  shows "\<exists>sch. complete_step (block_hash H) ts (sched e) = (Inr [], sch) \<and>
    serves H \<mu> [] (pending (zip (map item_seq_id (filter produces_token (batch_items b))) ts))
      (e\<lparr>sched := sch\<rparr>)"
proof -
  note d = servesD [OF s]
  have "fst (complete_step (block_hash H) ts (sched e)) = Inr []"
    by (rule complete_step_no_failure [OF d(1) b k co d(2) n])
  then obtain sch where c: "complete_step (block_hash H) ts (sched e) = (Inr [], sch)"
    by (metis prod.collapse)
  have "serves H \<mu> [] (pending (zip (map item_seq_id (filter produces_token (batch_items b))) ts))
      (e\<lparr>sched := sch\<rparr>)"
  proof (rule serves_sched [OF s])
    show "sched_inv (block_hash H) {} [] sch" using complete_step_inv [OF c] d(1) by simp
    show "capacity.all_ok (config sch) sch"
      using capacity.all_ok_complete_step [OF c d(2)] config_complete_step [OF c] by simp
    show "answers.all_ok sch" by (rule answers.all_ok_complete_step [OF c d(3)])
    show "census sch = census (sched e)" by (rule census_complete_step [OF c])
    show "set_mset (live_ids sch) \<subseteq> set_mset (live_ids (sched e))"
      by (rule live_subset) (rule members.all_ok_complete_step [OF c])
    show "owed.all_ok (told \<mu> (channels e))
        (pending (zip (map item_seq_id (filter produces_token (batch_items b))) ts)) sch"
      by (rule owed_complete_step [OF c b co unrepeated_sub [OF d(4)] d(9)])
  qed
  with c show ?thesis by blast
qed

text \<open>A sequence in decode has been told something already.\<close>

lemma decode_has_started:
  assumes s: "serves H (map_of (meta e)) [] (\<lambda>i. []) e" and u: "u \<in> set (running (sched e))"
    and dec: "seq_state u = Decode"
  shows "has_started e (seq_id u)"
proof -
  note d = servesD [OF s]
  have "seq_output u \<noteq> []" using sched_inv_running(1) [OF d(1) u] dec by (auto simp: seq_live_def)
  moreover have "owes (told (map_of (meta e)) (channels e)) (\<lambda>i. []) u"
    by (rule owed.all_okD(2) [OF d(9) u])
  ultimately show ?thesis by (auto simp: has_started_def owes_def told_def spoken_def)
qed

lemma producers_have_started:
  assumes s: "serves H (map_of (meta e)) [] (\<lambda>i. []) e"
    and co: "coherent its (sched e)" "all_running its (sched e)"
    and it: "it \<in> set its" "produces_token it" "\<not> is_prefill it"
  shows "has_started e (item_seq_id it)"
proof -
  obtain u where u: "u \<in> set (running (sched e))" "seq_id u = item_seq_id it"
    using co(2) it(1) by (auto simp: all_running_def)
  then have "item_fits it u" using co(1) it(1) by (simp add: coherent_def)
  then have "seq_state u = Decode" using it(3) by (simp add: item_fits_def)
  then show ?thesis using decode_has_started [OF s u(1)] u(2) by simp
qed

lemma engine_step_inv:
  assumes inv: "engine_inv H e"
  shows "engine_inv H (snd (engine_step H e))"
proof -
  let ?e0 = "engine_drain H e"
  have i0: "engine_inv H ?e0" using inv engine_drain_serves unfolding engine_inv_def by blast
  show ?thesis
  proof (cases "has_work (sched ?e0)")
    case False
    then show ?thesis using i0 by (simp add: engine_step_def Let_def)
  next
    case work: True
    have s0: "serves H (map_of (meta ?e0)) [] (\<lambda>i. []) ?e0" and dm0: "distinct (map fst (meta ?e0))"
      using i0 by (simp_all add: engine_inv_def)
    note d0 = servesD [OF s0]
    obtain b s1 where st: "step (block_hash H) (chunk_floor H) (sched ?e0) = (Inr b, s1)"
      using step_total [OF d0(1)] by blast
    let ?e1 = "?e0\<lparr>sched := s1\<rparr>"
    have s1: "serves H (map_of (meta ?e1)) [] (\<lambda>i. []) ?e1" using serves_step [OF s0 st] by simp
    then have i1: "engine_inv H ?e1" using dm0 by (simp add: engine_inv_def)
    show ?thesis
    proof (cases "batch_seq_ids b = [] \<or> batch_kind_of b = VerifyBatch")
      case True
      then show ?thesis
        using i1 engine_drain_serves [OF s1] dm0 work st
        by (auto simp: engine_step_def Let_def engine_inv_def)
    next
      case kind: False
      let ?w0 = "\<lparr>work_chunks = [], work_decodes = [], work_producing = [], work_started = []\<rparr>"
      note mb = step_mixed_batch [OF d0(1) st]
      show ?thesis
      proof (cases "gather s1 (batch_items b) ?w0")
        case (Inl x)
        then show ?thesis using i1 work st kind by (simp add: engine_step_def Let_def)
      next
        case w: (Inr w)
        have g: "work_producing w = map item_seq_id (filter produces_token (batch_items b))"
          "started_by (sched ?e1) (work_started w)"
          "set (map fst (work_started w)) = item_seq_id ` set (filter is_prefill (batch_items b))"
          using gather_spec [OF w] by (simp_all add: started_by_def)
        let ?e2 = "fold emit_started (work_started w) ?e1"
        have e2: "serves H (map_of (meta ?e2)) [] (\<lambda>i. []) ?e2" "distinct (map fst (meta ?e2))" "sched ?e2 = s1"
          "\<And>i. has_started ?e1 i \<or> i \<in> set (map fst (work_started w)) \<Longrightarrow> has_started ?e2 i"
          using emit_all_started [OF s1 _ g(2)] dm0 by (simp_all) blast
        obtain q m1 where mo: "step_mixed (model H) (work_chunks w) (work_decodes w) (model_state ?e2) = (q, m1)"
          by fastforce
        let ?e3 = "?e2\<lparr>model_state := m1\<rparr>"
        have s3: "serves H (map_of (meta ?e3)) [] (\<lambda>i. []) ?e3"
          using serves_frame [OF e2(1), of ?e3] by simp
        then have i3: "engine_inv H ?e3" using e2(2) by (simp add: engine_inv_def)
        note pre = work st kind w mo e2(3)
        show ?thesis
        proof (cases "\<exists>rs ts. q = Inr rs \<and> order_tokens (work_producing w) rs = Inr ts")
          case False
          then show ?thesis using i3 pre
            by (auto simp: engine_step_def Let_def split: sum.splits)
        next
          case True
          then obtain rs ts where q: "q = Inr rs" and ts: "order_tokens (work_producing w) rs = Inr ts" by blast
          have k: "batch_kind_of b \<noteq> VerifyBatch" using kind by simp
          have n: "length ts = length (filter produces_token (batch_items b))"
            using order_tokens_length [OF ts] g(1) by simp
          obtain s2 where c: "complete_step (block_hash H) ts (sched ?e3) = (Inr [], s2)"
            and s4: "serves H (map_of (meta ?e3)) [] (pending (zip (work_producing w) ts)) (?e3\<lparr>sched := s2\<rparr>)"
            using serves_complete_step [OF s3 _ k _ _ n] mb [OF k] e2(3) g(1) by auto
          let ?e4 = "?e3\<lparr>sched := s2\<rparr>"
          have started: "has_started ?e4 (fst x)" if "x \<in> set (zip (work_producing w) ts)" for x
          proof -
            have "fst x \<in> set (work_producing w)" using that by (metis prod.collapse set_zip_leftD)
            then obtain it where it: "it \<in> set (batch_items b)" "produces_token it" "fst x = item_seq_id it"
              by (auto simp: g(1))
            have "has_started ?e1 (item_seq_id it) \<or> item_seq_id it \<in> set (map fst (work_started w))"
              using producers_have_started [OF s1 _ _ it(1,2)] mb [OF k] it(1) g(3) by auto
            then have "has_started ?e2 (fst x)" using e2(4) it(3) by simp
            then show ?thesis by (simp add: has_started_def)
          qed
          have s4': "serves H (map_of (meta ?e4)) [] (pending (zip (work_producing w) ts)) ?e4"
            using s4 by simp
          let ?e5 = "fold (emit_token H []) (zip (work_producing w) ts) ?e4"
          have s5: "serves H (map_of (meta ?e5)) [] (\<lambda>i. []) ?e5" "distinct (map fst (meta ?e5))"
            using emit_all_tokens [OF s4' _ started] e2(2) by simp_all
          have "snd (engine_step H e) = engine_drain H ?e5"
            using pre q ts c by (simp add: engine_step_def Let_def)
          then show ?thesis using engine_drain_serves [OF s5] by (simp add: engine_inv_def)
        qed
      qed
    qed
  qed
qed

end
