(* ===== verification/Batch_Runtime.thy ===== *)
theory Batch_Runtime
  imports Batch_Turn "HOL-Library.Sublist"
begin

text \<open>
  \<open>rust/crates/nv-engine/src/batch_runtime.rs\<close>: the thread that owns the engine. Clients send
  commands over an unbounded channel; the thread drains them, runs one step when there is work and
  parks otherwise. Each event of this model is one atomic action of a client, of a reader or of the
  thread, so that every interleaving of them is a run.
\<close>

section \<open>State and actions\<close>

definition REPLY_EVENTS_BESIDE_TOKENS_ARE_STARTED_ERROR_AND_DONE :: nat where
  "REPLY_EVENTS_BESIDE_TOKENS_ARE_STARTED_ERROR_AND_DONE = 3"

text \<open>\<open>tokio::sync::Semaphore::MAX_PERMITS\<close> on a 64-bit machine: \<open>usize::MAX >> 3\<close>.\<close>

definition MAX_PERMITS :: int where
  "MAX_PERMITS = 2 ^ 61 - 1"

definition reply_capacity :: "nat \<Rightarrow> nat" where
  "reply_capacity max_new =
     (let n = saturate (max_new + REPLY_EVENTS_BESIDE_TOKENS_ARE_STARTED_ERROR_AND_DONE)
      in if int n \<le> MAX_PERMITS then n else nat MAX_PERMITS)"

datatype command = Submit gen_request | AbortCommand u64 | Shutdown

text \<open>
  Where the thread is in \<open>run_loop\<close>: in the inner loop of \<open>try_recv\<close>, past it, blocked in
  \<open>blocking_recv\<close>, or out of the loop.
\<close>

datatype loop_phase = Receiving | Deciding | Parked | Stopped

record 'm runtime =
  rt_engine :: "'m engine"
  rt_queue :: "command list"
  rt_connected :: bool
  rt_phase :: loop_phase
  rt_next_reply :: nat

definition spawn :: "'m host \<Rightarrow> scheduler_config \<Rightarrow> string option \<Rightarrow> 'm \<Rightarrow> 'm runtime" where
  "spawn H cfg env m =
     \<lparr> rt_engine = new_engine H cfg env m
         (\<lambda>a. \<lparr>chan_capacity = 0, chan_log = [], chan_taken = 0, chan_open = False\<rparr>),
       rt_queue = [], rt_connected = True, rt_phase = Receiving, rt_next_reply = 0 \<rparr>"

definition submit ::
  "token list \<Rightarrow> nat \<Rightarrow> token list \<Rightarrow> sampling_config \<Rightarrow> 'm runtime \<Rightarrow> nat \<times> 'm runtime" where
  "submit prompt max_new eos sampling rt =
     (let a = rt_next_reply rt;
          c = \<lparr>chan_capacity = reply_capacity max_new, chan_log = [], chan_taken = 0, chan_open = True\<rparr>;
          e = rt_engine rt
      in (a, rt\<lparr> rt_next_reply := a + 1,
                 rt_engine := e\<lparr>channels := (channels e)(a := c)\<rparr>,
                 rt_queue := rt_queue rt @ [Submit \<lparr>req_prompt = prompt, req_max_new = max_new,
                   req_eos = eos, req_sampling = sampling, req_reply = a\<rparr>] \<rparr>))"

definition handle_abort :: "u64 \<Rightarrow> 'm runtime \<Rightarrow> 'm runtime" where
  "handle_abort i rt = rt\<lparr>rt_queue := rt_queue rt @ [AbortCommand i]\<rparr>"

text \<open>\<open>Drop\<close> of the handle sends \<open>Shutdown\<close>; the sender itself goes after the thread was joined.\<close>

definition handle_drop :: "'m runtime \<Rightarrow> 'm runtime" where
  "handle_drop rt = rt\<lparr>rt_queue := rt_queue rt @ [Shutdown]\<rparr>"

definition obey :: "'m host \<Rightarrow> command \<Rightarrow> 'm engine \<Rightarrow> 'm engine" where
  "obey H c e =
     (case c of
        Submit req \<Rightarrow> snd (admit H req e)
      | AbortCommand i \<Rightarrow> engine_abort H i e
      | Shutdown \<Rightarrow> e)"

text \<open>The body of the working branch: a failed step fails every request in flight.\<close>

definition work :: "'m host \<Rightarrow> 'm engine \<Rightarrow> 'm engine" where
  "work H e =
     (case engine_step H e of
        (Inr u, e1) \<Rightarrow> e1
      | (Inl err, e1) \<Rightarrow> snd (fail_all H (EngineFailed (render H err)) e1))"

definition loop_turn :: "'m host \<Rightarrow> 'm runtime \<Rightarrow> 'm runtime" where
  "loop_turn H rt =
     (case rt_phase rt of
        Receiving \<Rightarrow>
          (case rt_queue rt of
             [] \<Rightarrow> rt\<lparr>rt_phase := if rt_connected rt then Deciding else Stopped\<rparr>
           | Shutdown # cs \<Rightarrow> rt\<lparr>rt_queue := cs, rt_phase := Stopped\<rparr>
           | c # cs \<Rightarrow> rt\<lparr>rt_queue := cs, rt_engine := obey H c (rt_engine rt)\<rparr>)
      | Deciding \<Rightarrow>
          if engine_has_work (rt_engine rt)
          then rt\<lparr>rt_engine := work H (rt_engine rt), rt_phase := Receiving\<rparr>
          else rt\<lparr>rt_phase := Parked\<rparr>
      | Parked \<Rightarrow>
          (case rt_queue rt of
             [] \<Rightarrow> if rt_connected rt then rt else rt\<lparr>rt_phase := Stopped\<rparr>
           | Shutdown # cs \<Rightarrow> rt\<lparr>rt_queue := cs, rt_phase := Stopped\<rparr>
           | c # cs \<Rightarrow> rt\<lparr>rt_queue := cs, rt_engine := obey H c (rt_engine rt), rt_phase := Receiving\<rparr>)
      | Stopped \<Rightarrow> rt)"

text \<open>The readers: \<open>recv\<close> takes one event, dropping the \<open>Receiver\<close> closes the channel.\<close>

definition reader_takes :: "nat \<Rightarrow> 'm engine \<Rightarrow> 'm engine" where
  "reader_takes a e =
     (let c = channels e a in
      if chan_taken c < length (chan_log c)
      then e\<lparr>channels := (channels e)(a := c\<lparr>chan_taken := chan_taken c + 1\<rparr>)\<rparr> else e)"

definition reader_leaves :: "nat \<Rightarrow> 'm engine \<Rightarrow> 'm engine" where
  "reader_leaves a e = e\<lparr>channels := (channels e)(a := (channels e a)\<lparr>chan_open := False\<rparr>)\<rparr>"

datatype runtime_event =
    ClientSubmits "token list" nat "token list" sampling_config
  | ClientAborts u64
  | ClientDrops
  | SenderGone
  | LoopTurn
  | ReaderTakes nat
  | ReaderLeaves nat

definition runtime_step :: "'m host \<Rightarrow> runtime_event \<Rightarrow> 'm runtime \<Rightarrow> 'm runtime" where
  "runtime_step H ev rt =
     (case ev of
        ClientSubmits p n eos sp \<Rightarrow> snd (submit p n eos sp rt)
      | ClientAborts i \<Rightarrow> handle_abort i rt
      | ClientDrops \<Rightarrow> handle_drop rt
      | SenderGone \<Rightarrow> rt\<lparr>rt_connected := False\<rparr>
      | LoopTurn \<Rightarrow> loop_turn H rt
      | ReaderTakes a \<Rightarrow> rt\<lparr>rt_engine := reader_takes a (rt_engine rt)\<rparr>
      | ReaderLeaves a \<Rightarrow> rt\<lparr>rt_engine := reader_leaves a (rt_engine rt)\<rparr>)"

section \<open>What the engine leaves alone\<close>

definition replies :: "'m engine \<Rightarrow> nat set" where
  "replies e = (\<lambda>x. meta_reply (snd x)) ` set (meta e)"

definition within :: "'m engine \<Rightarrow> 'm engine \<Rightarrow> bool" where
  "within e e' \<longleftrightarrow>
     next_seq_id e' = next_seq_id e \<and> config (sched e') = config (sched e) \<and>
     replies e' \<subseteq> replies e \<and> (\<forall>a. a \<notin> replies e \<longrightarrow> channels e' a = channels e a) \<and>
     (\<forall>a. prefix (chan_log (channels e a)) (chan_log (channels e' a)))"

lemma try_send_appends [simp]: "prefix (chan_log c) (chan_log (snd (try_send ev c)))"
  by (simp add: try_send_def)

lemma within_refl [simp]: "within e e"
  by (simp add: within_def)

lemma within_trans: "within e e1 \<Longrightarrow> within e1 e2 \<Longrightarrow> within e e2"
  by (auto simp: within_def intro: prefix_order.trans)

lemma within_fold: "(\<And>x e. within e (f x e)) \<Longrightarrow> within e (fold f xs e)"
  by (induction xs arbitrary: e) (auto intro: within_trans)

lemma within_update:
  "next_seq_id e' = next_seq_id e \<Longrightarrow> config (sched e') = config (sched e) \<Longrightarrow> meta e' = meta e \<Longrightarrow>
   channels e' = channels e \<Longrightarrow> within e e'"
  by (simp add: within_def replies_def)

lemma reply_known: "map_of (meta e) i = Some m \<Longrightarrow> meta_reply m \<in> replies e"
  unfolding replies_def by (force dest: map_of_SomeD)

lemma replies_delete: "(\<lambda>x. meta_reply (snd x)) ` set (AList.delete i ms) \<subseteq> (\<lambda>x. meta_reply (snd x)) ` set ms"
  by (auto simp: AList.delete_eq)

lemma replies_update:
  "map_of ms i = Some m \<Longrightarrow> meta_reply m1 = meta_reply m \<Longrightarrow>
   (\<lambda>x. meta_reply (snd x)) ` set (AList.update i m1 ms) \<subseteq> (\<lambda>x. meta_reply (snd x)) ` set ms"
  by (induction ms) (auto split: if_splits)

lemma within_engine_abort: "within e (engine_abort H i e)"
  by (rule within_update) (simp_all add: config_abort)

lemma within_drain_one: "within e (drain_one H s e)"
  using reply_known [of e "seq_id s"] replies_delete [of "seq_id s" "meta e"]
  by (auto simp: drain_one_def Let_def within_def replies_def split: option.splits)

lemma within_engine_drain: "within e (engine_drain H e)"
proof -
  have "within e (e\<lparr>sched := snd (drain_finished (sched e))\<rparr>)"
    by (rule within_update) (simp_all add: drain_finished_def)
  then show ?thesis
    unfolding engine_drain_def
    by (auto simp: drain_finished_def intro: within_trans within_fold within_drain_one)
qed

lemma within_fail_one: "within e (fail_one H msg i e)"
proof -
  have "within e (case map_of (meta e) i of
      Some m \<Rightarrow> snd (send (meta_reply m) (Error i msg) e) | None \<Rightarrow> e)"
    using reply_known [of e i] by (auto simp: within_def replies_def split: option.splits)
  then show ?thesis unfolding fail_one_def by (rule within_trans) (rule within_engine_abort)
qed

lemma within_fail_all: "within e (snd (fail_all H msg e))"
proof -
  let ?e1 = "fold (fail_one H msg) (key_order H (map fst (meta e))) e"
  have "within e ?e1" by (intro within_fold within_fail_one)
  moreover have "within ?e1 (?e1\<lparr>meta := []\<rparr>)" by (simp add: within_def replies_def)
  ultimately show ?thesis
    by (auto simp: fail_all_def Let_def intro: within_trans within_engine_drain)
qed

lemma within_emit_started: "within e (emit_started st e)"
proof (cases "map_of (meta e) (fst st)")
  case (Some m)
  then show ?thesis
    using reply_known [OF Some] replies_update [OF Some, of "m\<lparr>meta_started := True\<rparr>"]
    by (auto simp: emit_started_def within_def replies_def)
qed (simp add: emit_started_def)

lemma within_emit_token: "within e (emit_token H fs x e)"
proof (cases "map_of (meta e) (fst x)")
  case None
  then show ?thesis by (simp add: emit_token_def)
next
  case (Some m)
  obtain ev m1 where em: "(case find (\<lambda>f. failed_seq_id f = fst x) fs of
      Some f \<Rightarrow> (Error (fst x) (StepFailed (failure_error f)), m)
    | None \<Rightarrow> (Token (fst x) (snd x), m\<lparr>completion_tokens := completion_tokens m + 1\<rparr>)) = (ev, m1)"
    by fastforce
  then have r: "meta_reply m1 = meta_reply m" by (auto split: option.splits)
  let ?e0 = "e\<lparr>meta := AList.update (fst x) m1 (meta e)\<rparr>"
  obtain ok e1 where s: "send (meta_reply m) ev ?e0 = (ok, e1)" by fastforce
  then have e1: "e1 = snd (send (meta_reply m) ev ?e0)" by simp
  have 1: "within e e1"
    using reply_known [OF Some] replies_update [OF Some r] by (auto simp: e1 within_def replies_def)
  have 2: "within e1 (e1\<lparr>meta := AList.delete (fst x) (meta e1)\<rparr>)"
    using replies_delete [of "fst x" "meta e1"] by (simp add: within_def replies_def)
  show ?thesis
    using 1 within_trans [OF within_trans [OF 1 2] within_engine_abort] Some em s
    by (simp add: emit_token_def split: bool.split)
qed

lemma within_engine_step:
  assumes st: "engine_step H e = (r, e')"
  shows "within e e'"
proof -
  let ?e0 = "engine_drain H e"
  have 0: "within e ?e0" by (rule within_engine_drain)
  obtain q s1 where s: "step (block_hash H) (chunk_floor H) (sched ?e0) = (q, s1)" by fastforce
  let ?e1 = "?e0\<lparr>sched := s1\<rparr>"
  have 1: "within e ?e1"
    by (rule within_trans [OF 0 within_update]) (simp_all add: config_step [OF s])
  have 2: "within e (fold emit_started sts ?e1)" for sts
    by (rule within_trans [OF 1 within_fold]) (rule within_emit_started)
  have 3: "within e ((fold emit_started sts ?e1)\<lparr>model_state := m1\<rparr>)" for sts m1
    by (rule within_trans [OF 2 within_update]) simp_all
  have 4: "within e ((fold emit_started sts ?e1)\<lparr>model_state := m1, sched := s2\<rparr>)"
    if "complete_step (block_hash H) ts (sched (fold emit_started sts ?e1)) = (q2, s2)" for sts m1 s2 ts q2
    by (rule within_trans [OF 3 within_update [of _ "(fold emit_started sts ?e1)\<lparr>model_state := m1\<rparr>" for sts m1]])
      (simp_all add: config_complete_step [OF that])
  have 5: "within e (engine_drain H (fold (emit_token H fs) its
        ((fold emit_started sts ?e1)\<lparr>model_state := m1, sched := s2\<rparr>)))"
    if "complete_step (block_hash H) ts (sched (fold emit_started sts ?e1)) = (q2, s2)"
    for sts m1 s2 ts q2 fs its
    by (rule within_trans [OF 4 [OF that] within_trans [OF within_fold within_engine_drain]])
      (rule within_emit_token)
  have 6: "within e (engine_drain H ?e1)" by (rule within_trans [OF 1 within_engine_drain])
  show ?thesis
    using st 0 s 1 2 3 4 5 6
    by (auto simp: engine_step_def Let_def split: if_splits sum.splits prod.splits)
qed

lemma within_work: "within e (work H e)"
proof (cases "engine_step H e")
  case (Pair r e1)
  have 1: "within e e1" by (rule within_engine_step [OF Pair])
  show ?thesis
    using 1 within_trans [OF 1 within_fail_all] Pair by (cases r) (simp_all add: work_def)
qed

end
