(* ===== verification/Batch_Invariant.thy ===== *)
theory Batch_Invariant
  imports Batch_Runtime
begin

text \<open>
  The engine and its thread as an event-driven component: the invariant of the runtime.
\<close>

section \<open>The invariant of the runtime\<close>

definition requests :: "command list \<Rightarrow> gen_request list" where
  "requests cs = concat (map (\<lambda>c. case c of Submit r \<Rightarrow> [r] | _ \<Rightarrow> []) cs)"

lemma requests_simps [simp]:
  "requests [] = []" "requests (Submit r # cs) = r # requests cs"
  "requests (AbortCommand i # cs) = requests cs" "requests (Shutdown # cs) = requests cs"
  "requests (cs @ ds) = requests cs @ requests ds"
  by (simp_all add: requests_def)

text \<open>\<open>HashMap::keys\<close> yields every key once, in some order.\<close>

definition fair_keys :: "'m host \<Rightarrow> bool" where
  "fair_keys H \<longleftrightarrow> (\<forall>xs. mset (key_order H xs) = mset xs)"

definition untouched :: "'m engine \<Rightarrow> nat \<Rightarrow> gen_request \<Rightarrow> bool" where
  "untouched e n r \<longleftrightarrow>
     req_reply r < n \<and> req_reply r \<notin> replies e \<and> chan_log (channels e (req_reply r)) = [] \<and>
     chan_capacity (channels e (req_reply r)) = reply_capacity (req_max_new r)"

definition runtime_inv :: "'m host \<Rightarrow> 'm runtime \<Rightarrow> bool" where
  "runtime_inv H rt \<longleftrightarrow>
     fair_keys H \<and> engine_inv H (rt_engine rt) \<and>
     int (capacity_tokens (config (sched (rt_engine rt)))) + 3 \<le> MAX_PERMITS \<and>
     (\<forall>a\<in>replies (rt_engine rt). a < rt_next_reply rt) \<and>
     distinct (map req_reply (requests (rt_queue rt))) \<and>
     (\<forall>r\<in>set (requests (rt_queue rt)). untouched (rt_engine rt) (rt_next_reply rt) r) \<and>
     uint (next_seq_id (rt_engine rt)) + int (length (requests (rt_queue rt))) < 2 ^ 64 - 1"

text \<open>The ids, \<open>u64\<close>, must not run out.\<close>

definition runtime_guard :: "runtime_event \<Rightarrow> 'm runtime \<Rightarrow> bool" where
  "runtime_guard ev rt \<longleftrightarrow>
     (case ev of
        ClientSubmits p n eos sp \<Rightarrow>
          uint (next_seq_id (rt_engine rt)) + int (length (requests (rt_queue rt))) + 1 < 2 ^ 64 - 1
      | _ \<Rightarrow> True)"

lemma runtime_invD:
  assumes "runtime_inv H rt"
  shows "fair_keys H" and "engine_inv H (rt_engine rt)"
    and "int (capacity_tokens (config (sched (rt_engine rt)))) + 3 \<le> MAX_PERMITS"
    and "a \<in> replies (rt_engine rt) \<Longrightarrow> a < rt_next_reply rt"
    and "distinct (map req_reply (requests (rt_queue rt)))"
    and "r \<in> set (requests (rt_queue rt)) \<Longrightarrow> untouched (rt_engine rt) (rt_next_reply rt) r"
    and "uint (next_seq_id (rt_engine rt)) + int (length (requests (rt_queue rt))) < 2 ^ 64 - 1"
  using assms unfolding runtime_inv_def by blast+

lemma untouched_within: "untouched e n r \<Longrightarrow> within e e' \<Longrightarrow> untouched e' n r"
  by (auto simp: untouched_def within_def)

text \<open>Whatever stays within the engine's own channels keeps the invariant.\<close>

lemma runtime_inv_within:
  assumes inv: "runtime_inv H rt" and w: "within (rt_engine rt) (rt_engine rt')"
    and e: "engine_inv H (rt_engine rt')"
    and q: "requests (rt_queue rt') = requests (rt_queue rt)" and n: "rt_next_reply rt' = rt_next_reply rt"
  shows "runtime_inv H rt'"
  using inv e untouched_within [OF _ w] w unfolding runtime_inv_def q n by (auto simp: within_def)

section \<open>Readers\<close>

lemma owed_told_mono:
  assumes "owed.all_ok (told \<mu> ch) p sch" and "\<And>i n mx ts. told \<mu> ch i n mx ts \<Longrightarrow> told \<mu> ch' i n mx ts"
  shows "owed.all_ok (told \<mu> ch') p sch"
  by (rule owed_mono [OF assms(1)]) (rule assms(2))

text \<open>What the reader does shows in \<open>chan_taken\<close> and \<open>chan_open\<close> only.\<close>

lemma reader_keeps:
  assumes inv: "engine_inv H e" and log: "chan_log c = chan_log (channels e a)"
    and cap: "chan_capacity c = chan_capacity (channels e a)"
    and op: "chan_open c \<Longrightarrow> chan_open (channels e a)"
  shows "engine_inv H (e\<lparr>channels := (channels e)(a := c)\<rparr>)"
proof -
  let ?\<mu> = "map_of (meta e)" and ?ch = "channels e" and ?ch' = "(channels e)(a := c)"
  have s: "serves H ?\<mu> [] (\<lambda>i. []) e" and dm: "distinct (map fst (meta e))"
    using inv by (simp_all add: engine_inv_def)
  note d = servesD [OF s]
  have p: "in_progress i m c" if "in_progress i m (?ch a)" for i m
    using that log cap op by (auto simp: in_progress_def dest: spoken_begun split: if_splits)
  have st: "settled_channel c" if "settled_channel (?ch a)"
    using that log op by (auto simp: settled_channel_def)
  have "books ?\<mu> ?ch'"
  proof (rule booksI)
    fix i m assume "?\<mu> i = Some m"
    then show "in_progress i m (?ch' (meta_reply m))" using booksD(1) [OF d(8), of i m] p by auto
  next
    fix i m j m' assume "?\<mu> i = Some m" "?\<mu> j = Some m'" "meta_reply m = meta_reply m'"
    then show "i = j" by (rule booksD(2) [OF d(8)])
  next
    fix b assume "\<And>i m. ?\<mu> i = Some m \<Longrightarrow> meta_reply m \<noteq> b"
    then have "settled_channel (?ch b)" by (rule booksD(3) [OF d(8)])
    then show "settled_channel (?ch' b)" using st by (cases "b = a") simp_all
  qed
  moreover have "owed.all_ok (told ?\<mu> ?ch') (\<lambda>i. []) (sched e)"
    by (rule owed_told_mono [OF d(9)]) (use log cap op in \<open>auto simp: told_def\<close>)
  ultimately show ?thesis using d(1-7) dm unfolding engine_inv_def serves_def by simp
qed

lemma runtime_inv_channel:
  assumes inv: "runtime_inv H rt" and log: "chan_log c = chan_log (channels (rt_engine rt) a)"
    and cap: "chan_capacity c = chan_capacity (channels (rt_engine rt) a)"
    and op: "chan_open c \<Longrightarrow> chan_open (channels (rt_engine rt) a)"
  shows "runtime_inv H (rt\<lparr>rt_engine := (rt_engine rt)\<lparr>channels := (channels (rt_engine rt))(a := c)\<rparr>\<rparr>)"
  using inv reader_keeps [OF runtime_invD(2) [OF inv] log cap op] log cap
  by (auto simp: runtime_inv_def untouched_def replies_def)

section \<open>Commands\<close>

lemma least_room: "int c + 3 \<le> MAX_PERMITS \<Longrightarrow> min n c + 3 \<le> reply_capacity n"
  by (auto simp: reply_capacity_def saturate_def MAX_PERMITS_def Let_def nat_le_iff
      REPLY_EVENTS_BESIDE_TOKENS_ARE_STARTED_ERROR_AND_DONE_def)

lemma untouched_fresh:
  assumes "untouched e n r" and "int (capacity_tokens (config (sched e))) + 3 \<le> MAX_PERMITS"
  shows "fresh_reply r e"
proof -
  have "min (req_max_new r) (capacity_tokens (config (sched e))) + 3 \<le> reply_capacity (req_max_new r)"
    using assms(2)
    by (rule least_room)
  then show ?thesis using assms(1) by (fastforce simp: fresh_reply_def untouched_def replies_def image_iff)
qed

text \<open>Admission uses one id and at most the channel of the request.\<close>

lemma admit_effect:
  "next_seq_id (snd (admit H req e)) = next_seq_id e + 1 \<and>
   config (sched (snd (admit H req e))) = config (sched e) \<and>
   replies (snd (admit H req e)) \<subseteq> insert (req_reply req) (replies e) \<and>
   (\<forall>a. a \<noteq> req_reply req \<longrightarrow> channels (snd (admit H req e)) a = channels e a)"
proof -
  have "replies (e\<lparr>meta := AList.update i m (meta e)\<rparr>) \<subseteq> insert (meta_reply m) (replies e)" for i m
  proof -
    have "(\<lambda>x. meta_reply (snd x)) ` set (AList.update i m ms) \<subseteq>
        insert (meta_reply m) ((\<lambda>x. meta_reply (snd x)) ` set ms)" for ms
      by (induction ms) auto
    then show ?thesis by (simp add: replies_def)
  qed
  note u = this [unfolded replies_def, simplified]
  show ?thesis using u [of _ "\<lparr>meta_reply = req_reply req, completion_tokens = 0, meta_started = False\<rparr>"]
    by (auto simp: admit_def Let_def refuse_def replies_def enqueue_with_eos_ids_def enqueue_def)
qed

lemma next_id_small: "uint (n :: u64) + int k < 2 ^ 64 - 1 \<Longrightarrow> n < - 1"
  by (simp add: word_less_def unsigned_minus_1_eq_mask mask_eq_exp_minus_1)

lemma uint_next: "(n :: u64) < - 1 \<Longrightarrow> uint (n + 1) = uint n + 1"
  by uint_arith

lemma runtime_inv_obey:
  assumes inv: "runtime_inv H rt" and q: "rt_queue rt = c # cs"
  shows "runtime_inv H (rt\<lparr>rt_queue := cs, rt_engine := obey H c (rt_engine rt), rt_phase := ph\<rparr>)"
proof (cases c)
  case (Submit r)
  note d = runtime_invD [OF inv]
  let ?e = "rt_engine rt" and ?e1 = "snd (admit H r (rt_engine rt))"
  have r: "untouched ?e (rt_next_reply rt) r" using d(6) by (simp add: q Submit)
  have n: "next_seq_id ?e < - 1" by (rule next_id_small [OF d(7)])
  have "engine_inv H ?e1" by (rule admit_inv [OF d(2) untouched_fresh [OF r d(3)] n])
  moreover note ef = admit_effect [of H r ?e]
  have "untouched ?e1 (rt_next_reply rt) x" if "x \<in> set (requests cs)" for x
  proof -
    have "req_reply x \<in> req_reply ` set (requests cs)" using that by (rule imageI)
    then have "req_reply x \<noteq> req_reply r" using d(5) by (auto simp: q Submit)
    moreover have "untouched ?e (rt_next_reply rt) x" using d(6) that by (simp add: q Submit)
    ultimately show ?thesis using ef by (auto simp: untouched_def)
  qed
  moreover have "\<forall>a\<in>replies ?e1. a < rt_next_reply rt" using ef d(4) r by (auto simp: untouched_def)
  moreover have "uint (next_seq_id ?e1) + int (length (requests cs)) < 2 ^ 64 - 1"
    using d(7) ef uint_next [OF n] by (simp add: q Submit)
  ultimately show ?thesis
    using d(1,3,5) ef by (simp add: runtime_inv_def obey_def Submit q)
next
  case (AbortCommand i)
  have "engine_inv H (engine_abort H i (rt_engine rt))"
    using runtime_invD(2) [OF inv] serves_engine_abort by (auto simp: engine_inv_def)
  then show ?thesis
    using within_engine_abort
    by (intro runtime_inv_within [OF inv]) (simp_all add: obey_def AbortCommand q)
next
  case Shutdown
  then show ?thesis
    using runtime_invD(2) [OF inv] by (intro runtime_inv_within [OF inv]) (simp_all add: obey_def q)
qed

lemma runtime_inv_work:
  assumes inv: "runtime_inv H rt"
  shows "engine_inv H (work H (rt_engine rt))"
proof (cases "engine_step H (rt_engine rt)")
  case (Pair r e1)
  have "engine_inv H e1" using engine_step_inv [OF runtime_invD(2) [OF inv]] Pair by (metis snd_conv)
  then show ?thesis
    using fail_all_inv runtime_invD(1) [OF inv] Pair
    by (cases r) (auto simp: work_def fair_keys_def)
qed

lemma runtime_inv_phase: "runtime_inv H (rt\<lparr>rt_phase := ph\<rparr>) = runtime_inv H rt"
  by (simp add: runtime_inv_def)

lemma runtime_inv_turn:
  assumes inv: "runtime_inv H rt"
  shows "runtime_inv H (loop_turn H rt)"
proof (cases "rt_phase rt")
  case Receiving
  show ?thesis
  proof (cases "rt_queue rt")
    case Nil
    then show ?thesis using inv Receiving by (simp add: loop_turn_def runtime_inv_phase)
  next
    case (Cons c cs)
    then show ?thesis
      using runtime_inv_obey [OF inv Cons, of Receiving] runtime_inv_obey [OF inv Cons, of Stopped] Receiving
      by (cases c) (simp_all add: loop_turn_def obey_def runtime_inv_def)
  qed
next
  case Deciding
  have "runtime_inv H (rt\<lparr>rt_engine := work H (rt_engine rt), rt_phase := Receiving\<rparr>)"
    using within_work by (intro runtime_inv_within [OF inv]) (simp_all add: runtime_inv_work [OF inv])
  then show ?thesis using inv Deciding by (simp add: loop_turn_def runtime_inv_phase)
next
  case Parked
  show ?thesis
  proof (cases "rt_queue rt")
    case Nil
    then show ?thesis using inv Parked by (simp add: loop_turn_def runtime_inv_phase)
  next
    case (Cons c cs)
    then show ?thesis
      using runtime_inv_obey [OF inv Cons, of Receiving] runtime_inv_obey [OF inv Cons, of Stopped] Parked
      by (cases c) (simp_all add: loop_turn_def obey_def runtime_inv_def)
  qed
next
  case Stopped
  then show ?thesis using inv by (simp add: loop_turn_def)
qed

lemma runtime_inv_submit:
  assumes inv: "runtime_inv H rt" and g: "runtime_guard (ClientSubmits p n eos sp) rt"
  shows "runtime_inv H (snd (submit p n eos sp rt))"
proof -
  note d = runtime_invD [OF inv]
  let ?e = "rt_engine rt" and ?a = "rt_next_reply rt"
  let ?c = "\<lparr>chan_capacity = reply_capacity n, chan_log = [], chan_taken = 0, chan_open = True\<rparr>"
  let ?e1 = "?e\<lparr>channels := (channels ?e)(?a := ?c)\<rparr>"
  have new: "?a \<notin> replies ?e" using d(4) by blast
  have s: "serves H (map_of (meta ?e)) [] (\<lambda>i. []) ?e" "distinct (map fst (meta ?e))"
    using d(2) by (simp_all add: engine_inv_def)
  note f = servesD [OF s(1)]
  have un: "meta_reply m \<noteq> ?a" if "map_of (meta ?e) i = Some m" for i m
    using reply_known [OF that] new by auto
  have "books (map_of (meta ?e)) ((channels ?e)(?a := ?c))"
    by (rule books_unused [OF f(8) un]) (simp_all add: settled_channel_def)
  moreover have "owed.all_ok (told (map_of (meta ?e)) ((channels ?e)(?a := ?c))) (\<lambda>i. []) (sched ?e)"
    by (rule owed_told_mono [OF f(9)]) (rule told_unused [OF _ un])
  ultimately have "engine_inv H ?e1" using f(1-7) s(2) unfolding engine_inv_def serves_def by simp
  moreover have "untouched ?e1 (?a + 1) r" if "r \<in> set (requests (rt_queue rt))" for r
    using d(6) [OF that] by (auto simp: untouched_def replies_def)
  moreover have "untouched ?e1 (?a + 1)
      \<lparr>req_prompt = p, req_max_new = n, req_eos = eos, req_sampling = sp, req_reply = ?a\<rparr>"
    using new by (auto simp: untouched_def replies_def)
  moreover have "\<forall>a\<in>replies ?e1. a < ?a + 1" using d(4) by (auto simp: replies_def less_Suc_eq)
  moreover have "req_reply r < ?a" if "r \<in> set (requests (rt_queue rt))" for r
    using d(6) [OF that] by (simp add: untouched_def)
  then have "?a \<notin> req_reply ` set (requests (rt_queue rt))" by (metis imageE less_irrefl)
  ultimately show ?thesis
    using d(1,3,5) g by (auto simp: runtime_inv_def submit_def Let_def runtime_guard_def)
qed

interpretation runtime: component "runtime_inv H" runtime_guard "runtime_step H" for H
proof
  fix rt ev assume inv: "runtime_inv H rt" and g: "runtime_guard ev rt"
  show "runtime_inv H (runtime_step H ev rt)"
  proof (cases ev)
    case (ClientSubmits p n eos sp)
    then show ?thesis using runtime_inv_submit [OF inv] g by (simp add: runtime_step_def)
  next
    case (ReaderTakes a)
    then show ?thesis
      using runtime_inv_channel [OF inv, of "(channels (rt_engine rt) a)\<lparr>chan_taken := chan_taken (channels (rt_engine rt) a) + 1\<rparr>" a]
        inv by (simp add: runtime_step_def reader_takes_def Let_def)
  next
    case (ReaderLeaves a)
    then show ?thesis
      using runtime_inv_channel [OF inv, of "(channels (rt_engine rt) a)\<lparr>chan_open := False\<rparr>" a]
      by (simp add: runtime_step_def reader_leaves_def)
  next
    case LoopTurn
    then show ?thesis using runtime_inv_turn [OF inv] by (simp add: runtime_step_def)
  qed (use inv in \<open>simp_all add: runtime_step_def handle_abort_def handle_drop_def runtime_inv_def\<close>)
qed

lemma spawn_inv:
  assumes "cfg_num_blocks cfg < 2 ^ 32" and "0 < cfg_block_size cfg"
    and "int (capacity_tokens cfg) + 3 \<le> MAX_PERMITS" and "fair_keys H"
  shows "runtime_inv H (spawn H cfg env m)"
proof -
  let ?e = "rt_engine (spawn H cfg env m)"
  let ?b = "reuses_cached_prefix (model H) m"
  let ?s = "(new_scheduler cfg)\<lparr>prefix_cache_reuse := ?b\<rparr>"
  have sch: "sched ?e = ?s" by (simp add: spawn_def new_engine_def)
  have i: "sched_inv (block_hash H) {} [] ?s"
    by (rule sched_inv_frame [OF sched_inv_init [OF assms(1,2)]]) simp_all
  have c: "config ?s = cfg" by (simp add: new_scheduler_def)
  have "serves H (map_of (meta ?e)) [] (\<lambda>i. []) ?e"
    unfolding serves_def sch
    using i capacity.all_ok_frame [OF capacity.all_ok_new, of ?s cfg cfg] answers.all_ok_frame [OF answers.all_ok_new, of ?s cfg]
    by (simp add: spawn_def new_engine_def c new_scheduler_def census_def ids_of_def live_ids_def
        books_def settled_channel_def owed.all_ok_def)
  then have "engine_inv H ?e" by (simp add: engine_inv_def spawn_def new_engine_def)
  then show ?thesis using assms(3,4) c
    by (simp add: runtime_inv_def sch) (simp add: spawn_def new_engine_def replies_def)
qed

end
