(* ===== verification/Batch_Properties.thy ===== *)
theory Batch_Properties
  imports Batch_Invariant
begin

text \<open>
  What the clients of the engine can rely on: the shape of their streams, that the tokens they see
  are the answer, admission, ordering, failure of a step and shutdown.
\<close>

section \<open>A concrete engine for the witnesses\<close>

text \<open>A model that answers in reverse order and breaks down after three batches.\<close>

definition toy_answers :: "u64 list \<Rightarrow> token \<Rightarrow> nat \<Rightarrow> (string + step_result list) \<times> nat" where
  "toy_answers ids t n =
     (if n = 3 then (Inl ''driver error'', n)
      else (Inr (rev (map (\<lambda>i. \<lparr>res_seq_id = i, res_token = t + of_nat n\<rparr>) ids)), n + 1))"

definition toy_model :: "nat stepper" where
  "toy_model =
     \<lparr> on_admit = (\<lambda>i sp n. n), reuses_cached_prefix = (\<lambda>n. False),
       step_mixed = (\<lambda>cs ds n. toy_answers (map pc_seq_id (filter pc_is_final cs) @ map si_seq_id ds) 40 n),
       release = (\<lambda>i n. n) \<rparr>"

definition toy_host :: "nat host" where
  "toy_host = \<lparr>block_hash = toy_hash, chunk_floor = 0, model = toy_model, key_order = rev,
     render = (\<lambda>x. ''failed'')\<rparr>"

definition toy_sampling :: sampling_config where
  "toy_sampling = \<lparr>temperature = 0, top_p = None, top_k = None, min_p = None, seed = None,
     presence_penalty = None, frequency_penalty = None, repetition_penalty = None\<rparr>"

definition toy_calls :: "runtime_event list" where
  "toy_calls = [ClientSubmits [1, 2] 2 [] toy_sampling, ClientSubmits [3] 5 [] toy_sampling] @
     replicate 6 LoopTurn @ [ReaderTakes 0]"

definition toy_spawn :: "nat runtime" where
  "toy_spawn =
     \<lparr> rt_engine =
         \<lparr> sched = toy_scheduler\<lparr>prefix_cache_reuse := False\<rparr>, model_state = 0, meta = [],
           next_seq_id = 1, max_waiting = 16,
           channels = (\<lambda>a. \<lparr>chan_capacity = 0, chan_log = [], chan_taken = 0, chan_open = False\<rparr>) \<rparr>,
       rt_queue = [], rt_connected = True, rt_phase = Receiving, rt_next_reply = 0 \<rparr>"

lemma toy_spawn_eq: "spawn toy_host toy_config None 0 = toy_spawn"
  by (simp add: toy_spawn_def spawn_def new_engine_def toy_scheduler_new toy_host_def toy_model_def
      max_waiting_for_def toy_config_def)

definition toy_runtime :: "nat runtime" where
  "toy_runtime = run (runtime_step toy_host) toy_calls toy_spawn"

lemma toy_fair: "fair_keys toy_host"
  by (simp add: fair_keys_def toy_host_def)

lemma toy_room: "int (capacity_tokens toy_config) + 3 \<le> MAX_PERMITS"
  by (simp add: capacity_tokens_def saturate_def toy_config_def MAX_PERMITS_def)

lemma toy_calls_guarded: "guarded runtime_guard (runtime_step toy_host) toy_calls toy_spawn"
  unfolding toy_calls_def by code_simp

lemma toy_spawn_inv: "runtime_inv toy_host toy_spawn"
  using spawn_inv [OF toy_config_ok toy_room toy_fair] toy_spawn_eq by metis

lemma toy_runtime_inv: "runtime_inv toy_host toy_runtime"
  unfolding toy_runtime_def by (rule runtime.run_keeps [OF toy_spawn_inv toy_calls_guarded])

section \<open>Streams\<close>



text \<open>
  C20. The tokens a reader has been sent are exactly the tokens its request has produced, in order:
  between two actions of the thread the log of a queued request whose reader is there is \<open>Started\<close>
  and its output, and the count kept for \<open>Done\<close> is right.
\<close>

theorem streamed_tokens_are_the_answer:
  assumes "runtime_inv H rt"
    and "s \<in> set (waiting (sched (rt_engine rt)) @ running (sched (rt_engine rt)) @ finished (sched (rt_engine rt)))"
    and "map_of (meta (rt_engine rt)) (seq_id s) = Some m"
    and "chan_open (channels (rt_engine rt) (meta_reply m))"
  shows "chan_log (channels (rt_engine rt) (meta_reply m)) =
      (if meta_started m then [Started (seq_id s) (of_nat (length (seq_prompt s)))] else []) @
      map (Token (seq_id s)) (seq_output s) \<and>
    completion_tokens m = of_nat (length (seq_output s))"
proof -
  have "serves H (map_of (meta (rt_engine rt))) [] (\<lambda>i. []) (rt_engine rt)"
    using runtime_invD(2) [OF assms(1)] by (simp add: engine_inv_def)
  then have "owes (told (map_of (meta (rt_engine rt))) (channels (rt_engine rt))) (\<lambda>i. []) s"
    using servesD(9) assms(2) by (fastforce simp: owed.all_ok_def)
  then show ?thesis using assms(3,4) by (simp add: owes_def told_def spoken_def)
qed

lemma toy_runtime_parts:
  "map seq_id (running (sched (rt_engine toy_runtime))) = [2]"
  "map seq_output (running (sched (rt_engine toy_runtime))) = [[40, 41]]"
  "map seq_prompt (running (sched (rt_engine toy_runtime))) = [[3]]"
  "meta (rt_engine toy_runtime) = [(2, \<lparr>meta_reply = 1, completion_tokens = 2, meta_started = True\<rparr>)]"
  "chan_open (channels (rt_engine toy_runtime) 1)"
  unfolding toy_runtime_def toy_calls_def by code_simp+

theorem streamed_tokens_are_the_answer_witness:
  "chan_log (channels (rt_engine toy_runtime) 1) = [Started 2 1, Token 2 40, Token 2 41]"
proof -
  obtain s where s: "running (sched (rt_engine toy_runtime)) = [s]"
    using toy_runtime_parts(1) by (cases "running (sched (rt_engine toy_runtime))") auto
  have v: "seq_id s = 2" "seq_output s = [40, 41]" "seq_prompt s = [3]"
    using toy_runtime_parts(1-3) s by simp_all
  show ?thesis
    using streamed_tokens_are_the_answer [OF toy_runtime_inv, of s
        "\<lparr>meta_reply = 1, completion_tokens = 2, meta_started = True\<rparr>"] s v
    by (simp add: toy_runtime_parts del: One_nat_def)
qed

section \<open>Failure and shutdown\<close>

text \<open>
  C21. A failing step does not spin: after it every request has been failed, no work is left, so the
  thread parks, and the whole block pool is free again, whatever state the failure left behind.
\<close>

theorem failed_step_fails_every_request:
  assumes "engine_inv H e" and "fair_keys H" and "engine_step H e = (Inl err, e1)"
  shows "engine_inv H (work H e) \<and> \<not> engine_has_work (work H e) \<and>
    num_free (pool (sched (work H e))) = cfg_num_blocks (config (sched e))"
proof -
  have "engine_inv H e1" using engine_step_inv [OF assms(1)] assms(3) by (metis snd_conv)
  then have w: "engine_inv H (work H e)" "\<not> engine_has_work (work H e)"
    using fail_all_inv assms(2,3) by (auto simp: work_def fair_keys_def)
  then have s: "sched_inv (block_hash H) {} [] (sched (work H e))"
    unfolding engine_inv_def using servesD(1) by blast
  have "running (sched (work H e)) = []" using w(2) by (simp add: engine_has_work_def has_work_def)
  then have "pool_ok (pool (sched (work H e))) {#}"
    using sched_invD(1) [OF s] by (simp add: carrying_def)
  then have "num_free (pool (sched (work H e))) = num_blocks (pool (sched (work H e)))"
    using block_pool.conserved by fastforce
  also have "\<dots> = cfg_num_blocks (config (sched e))"
    using sched_inv_geometry(3) [OF s] within_work [of e H] by (simp add: within_def)
  finally show ?thesis using w by blast
qed

definition toy_failing :: "nat engine" where
  "toy_failing = rt_engine (run (runtime_step toy_host) (replicate 2 LoopTurn) toy_runtime)"

lemma toy_failing_inv: "engine_inv toy_host toy_failing"
  unfolding toy_failing_def
  by (rule runtime_invD(2) [OF runtime.run_keeps [OF toy_runtime_inv]])
    (simp add: runtime_guard_def numeral_2_eq_2)

lemma toy_failing_step: "fst (engine_step toy_host toy_failing) = Inl (StepperError ''driver error'')"
  unfolding toy_failing_def toy_runtime_def toy_calls_def by code_simp

theorem failed_step_fails_every_request_witness:
  "\<not> engine_has_work (work toy_host toy_failing)"
  using failed_step_fails_every_request [OF toy_failing_inv toy_fair, of "StepperError ''driver error''"]
    toy_failing_step by (metis prod.collapse)

lemma stopped_stays: "rt_phase rt = Stopped \<Longrightarrow> rt_phase ((loop_turn H ^^ n) rt) = Stopped"
  by (induction n) (simp_all add: loop_turn_def)

lemma stopped_later: "rt_phase ((loop_turn H ^^ n) rt) = Stopped \<Longrightarrow> n \<le> k \<Longrightarrow>
   rt_phase ((loop_turn H ^^ k) rt) = Stopped"
proof -
  assume s: "rt_phase ((loop_turn H ^^ n) rt) = Stopped" and le: "n \<le> k"
  have "(loop_turn H ^^ k) rt = (loop_turn H ^^ (k - n)) ((loop_turn H ^^ n) rt)"
    using le by (metis comp_apply funpow_add le_add_diff_inverse2)
  then show ?thesis using stopped_stays [OF s] by simp
qed

lemma receiving_stops:
  "rt_phase rt = Receiving \<Longrightarrow> rt_queue rt = cs @ Shutdown # ds \<Longrightarrow>
   rt_phase ((loop_turn H ^^ Suc (length cs)) rt) = Stopped"
proof (induction cs arbitrary: rt)
  case Nil
  then show ?case by (simp add: loop_turn_def)
next
  case (Cons c cs)
  show ?case
  proof (cases "c = Shutdown")
    case True
    then have "rt_phase (loop_turn H rt) = Stopped" using Cons.prems by (simp add: loop_turn_def)
    then show ?thesis using stopped_later [of 1 H rt "Suc (length (c # cs))"] by simp
  next
    case False
    then have "rt_phase (loop_turn H rt) = Receiving" "rt_queue (loop_turn H rt) = cs @ Shutdown # ds"
      using Cons.prems by (cases c; simp add: loop_turn_def)+
    then have "rt_phase ((loop_turn H ^^ Suc (length cs)) (loop_turn H rt)) = Stopped" by (rule Cons.IH)
    then show ?thesis by (simp only: funpow_Suc_right comp_apply list.size add_Suc_right add_0_right)
  qed
qed

text \<open>
  C22. Dropping the handle ends the thread: once \<open>Shutdown\<close> is in the queue the loop leaves after the
  commands before it and at most two more turns, whatever is in flight, so \<open>join\<close> returns.
\<close>

theorem shutdown_stops_the_thread:
  assumes "rt_queue rt = cs @ Shutdown # ds"
  shows "rt_phase ((loop_turn H ^^ (length cs + 3)) rt) = Stopped"
proof -
  have next_turn: "rt_phase ((loop_turn H ^^ (length cs + 3)) rt) = Stopped"
    if "rt_phase ((loop_turn H ^^ n) (loop_turn H rt)) = Stopped" "n \<le> length cs + 2" for n
    using stopped_later [of "Suc n" H rt "length cs + 3"] that by (simp add: funpow_swap1)
  have parked: "rt_phase ((loop_turn H ^^ (length cs + 1)) r) = Stopped"
    if "rt_phase r = Parked" "rt_queue r = cs @ Shutdown # ds" for r
  proof (cases "cs = [] \<or> hd cs = Shutdown")
    case True
    then have "rt_phase (loop_turn H r) = Stopped" using that by (cases cs) (auto simp: loop_turn_def)
    then show ?thesis using stopped_later [of 1 H r "length cs + 1"] by simp
  next
    case False
    then obtain c cs1 where c: "cs = c # cs1" "c \<noteq> Shutdown" by (cases cs) auto
    then have "rt_phase (loop_turn H r) = Receiving" "rt_queue (loop_turn H r) = cs1 @ Shutdown # ds"
      using that by (cases c; simp add: loop_turn_def)+
    from receiving_stops [OF this] show ?thesis by (simp add: c funpow_swap1)
  qed
  show ?thesis
  proof (cases "rt_phase rt")
    case Receiving
    then show ?thesis using stopped_later [OF receiving_stops [OF Receiving assms], of "length cs + 3"] by simp
  next
    case Deciding
    have "rt_queue (loop_turn H rt) = cs @ Shutdown # ds"
      "rt_phase (loop_turn H rt) = Receiving \<or> rt_phase (loop_turn H rt) = Parked"
      using Deciding assms by (simp_all add: loop_turn_def)
    then have "rt_phase ((loop_turn H ^^ (length cs + 1)) (loop_turn H rt)) = Stopped"
      using receiving_stops parked by auto
    then show ?thesis by (rule next_turn) simp
  next
    case Parked
    then show ?thesis using stopped_later [OF parked [OF Parked assms], of "length cs + 3"] by simp
  next
    case Stopped
    then show ?thesis by (rule stopped_stays)
  qed
qed

theorem shutdown_stops_the_thread_witness:
  "rt_phase ((loop_turn toy_host ^^ 4) (toy_runtime\<lparr>rt_queue := [AbortCommand 2, Shutdown]\<rparr>)) = Stopped"
  using shutdown_stops_the_thread [of "toy_runtime\<lparr>rt_queue := [AbortCommand 2, Shutdown]\<rparr>" "[AbortCommand 2]" "[]" toy_host]
  by simp

section \<open>Ordering and admission\<close>

lemma by_id_map_of: "by_id rs = map_of (rev (map (\<lambda>r. (res_seq_id r, res_token r)) rs))"
  by (induction rs rule: rev_induct) (simp_all add: by_id_def)

lemma look_up_all_total:
  "set is \<subseteq> dom m \<Longrightarrow> look_up_all m is = Inr (map (\<lambda>i. the (m i)) is)"
  by (induction "is") auto

text \<open>
  The model may answer a batch in any order: when it answers each sequence once, every
  permutation of its results gives the same tokens, each paired with the sequence it was sampled for.
\<close>

theorem token_order_is_the_batch_order:
  assumes "distinct ids" and "mset (map res_seq_id rs) = mset ids" and "mset rs' = mset rs"
  shows "\<exists>ts. order_tokens ids rs = Inr ts \<and> order_tokens ids rs' = Inr ts \<and>
    mset (zip ids ts) = image_mset (\<lambda>r. (res_seq_id r, res_token r)) (mset rs)"
proof -
  let ?p = "\<lambda>r. (res_seq_id r, res_token r)" and ?ts = "map (\<lambda>i. the (by_id rs i)) ids"
  have d: "distinct (map fst (rev (map ?p rs)))"
    using assms(1) mset_eq_imp_distinct_iff [OF assms(2)] by (simp add: comp_def rev_map [symmetric])
  have "mset (map res_seq_id rs') = mset (map res_seq_id rs)" using assms(3) by simp
  then have d': "distinct (map fst (rev (map ?p rs')))"
    using assms(1) mset_eq_imp_distinct_iff [OF assms(2)] mset_eq_imp_distinct_iff
    by (fastforce simp: comp_def rev_map [symmetric])
  have eq: "by_id rs' = by_id rs"
    unfolding by_id_map_of using map_of_inject_set [OF d' d] mset_eq_setD [OF assms(3)] by simp
  have val: "by_id rs (res_seq_id r) = Some (res_token r)" if "r \<in> set rs" for r
    unfolding by_id_map_of by (rule map_of_is_SomeI [OF d]) (use that in auto)
  have ids: "set ids = res_seq_id ` set rs" using mset_eq_setD [OF assms(2)] by simp
  have l: "length rs = length ids" "length rs' = length ids"
    using mset_eq_length [OF assms(2)] mset_eq_length [OF assms(3)] by simp_all
  have "order_tokens ids rs = Inr ?ts"
    using l(1) by (simp add: order_tokens_def, intro look_up_all_total) (auto simp: ids val)
  moreover from this have "order_tokens ids rs' = Inr ?ts" using l eq by (simp add: order_tokens_def)
  moreover have "mset (zip ids ?ts) = image_mset ?p (mset rs)"
  proof -
  have "mset (zip ids ?ts) = image_mset (\<lambda>i. (i, the (by_id rs i))) (mset ids)"
    by (simp add: zip_map2 zip_same_conv_map mset_map comp_def)
  then have "mset (zip ids ?ts) = mset (map (\<lambda>r. (res_seq_id r, the (by_id rs (res_seq_id r)))) rs)"
    unfolding assms(2) [symmetric] by (simp add: image_mset.compositionality comp_def)
  moreover have "map (\<lambda>r. (res_seq_id r, the (by_id rs (res_seq_id r)))) rs = map ?p rs"
    by (rule map_cong) (simp_all add: val)
  ultimately show ?thesis by simp
  qed
  ultimately show ?thesis by blast
qed

theorem token_order_is_the_batch_order_witness:
  "\<exists>ts. order_tokens [4 :: u64, 5] [\<lparr>res_seq_id = 5, res_token = 8\<rparr>, \<lparr>res_seq_id = 4, res_token = 9\<rparr>] = Inr ts \<and>
    mset (zip [4 :: u64, 5] ts) = {#(5, 8), (4, 9)#}"
  using token_order_is_the_batch_order [of "[4, 5]"
      "[\<lparr>res_seq_id = 5, res_token = 8\<rparr>, \<lparr>res_seq_id = 4, res_token = 9\<rparr>]"
      "[\<lparr>res_seq_id = 4, res_token = 9\<rparr>, \<lparr>res_seq_id = 5, res_token = 8\<rparr>]"]
  by auto

lemma send_model_state [simp]: "model_state (snd (send a ev e)) = model_state e"
  by (simp add: send_def split: prod.split)

lemma refused:
  assumes "\<not> (length (req_prompt req) < capacity_tokens (config (sched e)) \<and>
    length (waiting (sched e)) < max_waiting e)"
  shows "\<exists>msg. snd (admit H req e) =
      refuse (next_seq_id e) (req_reply req) msg (e\<lparr>next_seq_id := next_seq_id e + 1\<rparr>) \<and>
    fst (admit H req e) = next_seq_id e"
proof (cases "capacity_tokens (config (sched e)) < length (req_prompt req) + 1")
  case True
  then show ?thesis by (simp add: admit_def Let_def) blast
next
  case False
  then have "max_waiting e \<le> length (waiting (sched e))" using assms by simp
  with False show ?thesis by (simp add: admit_def Let_def) blast
qed

text \<open>
  Admission is exact: a request enters the queue, with an answer budget that fits the pool
  beside its prompt, exactly when its prompt leaves room for one more token and the queue is not full;
  otherwise its reader gets \<open>Error\<close> and \<open>Done\<close> and nothing else changes. Either way it uses one id.
\<close>

theorem admission_is_exact:
  assumes "chan_log (channels e (req_reply req)) = []" and "chan_open (channels e (req_reply req))"
    and "2 \<le> chan_capacity (channels e (req_reply req))"
  shows "let i = next_seq_id e; e' = snd (admit H req e); cfg = config (sched e) in
    fst (admit H req e) = i \<and> next_seq_id e' = i + 1 \<and>
    (if length (req_prompt req) < capacity_tokens cfg \<and> length (waiting (sched e)) < max_waiting e
     then channels e' = channels e \<and> map_of (meta e') i \<noteq> None \<and>
       (\<exists>s. waiting (sched e') = waiting (sched e) @ [s] \<and> seq_id s = i \<and> seq_prompt s = req_prompt req \<and>
         roomy cfg s \<and> max_new_tokens s \<le> req_max_new req)
     else sched e' = sched e \<and> meta e' = meta e \<and> model_state e' = model_state e \<and>
       (\<exists>msg. chan_log (channels e' (req_reply req)) = [Error i msg, Done i AbortedReason 0]))"
proof (cases "length (req_prompt req) < capacity_tokens (config (sched e)) \<and> length (waiting (sched e)) < max_waiting e")
  case True
  let ?cap = "capacity_tokens (config (sched e))"
  let ?s = "new_sequence (next_seq_id e) (req_prompt req) (min (req_max_new req) (?cap - length (req_prompt req) - 1))"
  have "length (req_prompt req) + 1 \<le> ?cap" using True by simp
  then have "length (req_prompt req) + max_new_tokens ?s \<le> ?cap" by (simp add: new_sequence_def)
  also have "\<dots> \<le> cfg_num_blocks (config (sched e)) * cfg_block_size (config (sched e))"
    by (simp add: capacity_tokens_def saturate_le)
  finally have r: "roomy (config (sched e)) ?s" by (simp add: roomy_def new_sequence_def)
  have w: "waiting (sched (snd (admit H req e))) = waiting (sched e) @ [?s]"
    using True by (simp add: admit_def Let_def not_less not_le enqueue_with_eos_ids_def enqueue_def)
  have m: "channels (snd (admit H req e)) = channels e" "map_of (meta (snd (admit H req e))) (next_seq_id e) \<noteq> None"
    "fst (admit H req e) = next_seq_id e" "next_seq_id (snd (admit H req e)) = next_seq_id e + 1"
    using True by (simp_all add: admit_def Let_def not_less not_le update_conv')
  have "\<exists>s. waiting (sched (snd (admit H req e))) = waiting (sched e) @ [s] \<and> seq_id s = next_seq_id e \<and>
      seq_prompt s = req_prompt req \<and> roomy (config (sched e)) s \<and> max_new_tokens s \<le> req_max_new req"
    by (rule exI [of _ ?s]) (use w r in \<open>simp add: new_sequence_def\<close>)
  then show ?thesis using True m by (simp add: Let_def)
next
  case False
  have "chan_log (snd (try_send (Done i AbortedReason 0) (snd (try_send (Error i msg) (channels e (req_reply req)))))) =
      [Error i msg, Done i AbortedReason 0]" for i msg
    using assms by (simp add: try_send_def)
  moreover obtain msg where "snd (admit H req e) =
      refuse (next_seq_id e) (req_reply req) msg (e\<lparr>next_seq_id := next_seq_id e + 1\<rparr>)"
    and "fst (admit H req e) = next_seq_id e"
    using refused [OF False] by blast
  ultimately show ?thesis using False unfolding Let_def refuse_def by simp
qed

theorem admission_is_exact_witness:
  "next_seq_id (snd (admit toy_host
     \<lparr>req_prompt = [1], req_max_new = 1, req_eos = [], req_sampling = toy_sampling, req_reply = 0\<rparr>
     (new_engine toy_host toy_config None 0
       (\<lambda>a. \<lparr>chan_capacity = 4, chan_log = [], chan_taken = 0, chan_open = True\<rparr>)))) = 2"
  using admission_is_exact [of "new_engine toy_host toy_config None 0
       (\<lambda>a. \<lparr>chan_capacity = 4, chan_log = [], chan_taken = 0, chan_open = True\<rparr>)"
     "\<lparr>req_prompt = [1], req_max_new = 1, req_eos = [], req_sampling = toy_sampling, req_reply = 0\<rparr>" toy_host]
  by (simp add: new_engine_def Let_def)

end
