(* ===== verification/Batch_Protocol.thy ===== *)
theory Batch_Protocol
  imports Batch_Properties
begin

text \<open>
  The client's protocol as an abstract machine, and the proof that the runtime refines it.
\<close>

section \<open>The protocol\<close>

text \<open>What a reader knows of its request: nothing yet, the number of tokens told, an error, the end.\<close>

datatype view = Quiet | Telling u64 nat | Failed u64 | Over

fun next_view :: "view \<Rightarrow> engine_event \<Rightarrow> view option" where
  "next_view Quiet (Started i n) = Some (Telling i 0)"
| "next_view Quiet (Done i r c) = (if c = 0 then Some Over else None)"
| "next_view Quiet (Error i msg) = Some (Failed i)"
| "next_view (Telling i k) (Token j t) = (if i = j then Some (Telling i (k + 1)) else None)"
| "next_view (Telling i k) (Done j r c) = (if i = j \<and> c = of_nat k then Some Over else None)"
| "next_view (Telling i k) (Error j msg) = (if i = j then Some Over else None)"
| "next_view (Failed i) (Done j r c) = (if i = j \<and> r = AbortedReason \<and> c = 0 then Some Over else None)"
| "next_view _ _ = None"

fun view_after :: "view \<Rightarrow> engine_event list \<Rightarrow> view option" where
  "view_after v [] = Some v"
| "view_after v (ev # evs) = (case next_view v ev of Some v1 \<Rightarrow> view_after v1 evs | None \<Rightarrow> None)"

lemma view_after_append:
  "view_after v (xs @ ys) = (case view_after v xs of Some v1 \<Rightarrow> view_after v1 ys | None \<Rightarrow> None)"
  by (induction xs arbitrary: v) (auto split: option.splits)

section \<open>Streams follow the protocol\<close>

lemma view_tokens: "view_after (Telling i k) (map (Token i) ts) = Some (Telling i (k + length ts))"
  by (induction ts arbitrary: k) auto

lemma view_begun:
  "begun i ts log \<Longrightarrow> view_after Quiet log = Some (if log = [] then Quiet else Telling i (length ts))"
  by (auto simp: begun_def view_tokens)

lemma view_complete: "complete_stream i log \<Longrightarrow> \<exists>v. view_after Quiet log = Some v"
proof -
  assume "complete_stream i log"
  then consider (refused) msg where "log = [Error i msg, Done i AbortedReason 0]"
    | (told) ts pre ev where "begun i ts pre" "last_event i ts ev" "log = pre @ [ev]"
    by (auto simp: complete_stream_def)
  then show ?thesis
  proof cases
    case refused
    then show ?thesis by simp
  next
    case told
    then show ?thesis
      using view_begun [OF told(1)] by (auto simp: view_after_append last_event_def begun_def)
  qed
qed

lemma books_view:
  assumes b: "books \<mu> ch"
  shows "\<exists>v. view_after Quiet (chan_log (ch a)) = Some v"
proof (cases "\<exists>i m. \<mu> i = Some m \<and> meta_reply m = a")
  case True
  then obtain i m where "in_progress i m (ch a)" using booksD(1) [OF b] by blast
  then obtain ts where "begun i ts (chan_log (ch a))"
    by (auto simp: in_progress_def dest: spoken_begun split: if_splits)
  then show ?thesis using view_begun by blast
next
  case False
  then have "settled_channel (ch a)" using booksD(3) [OF b] by blast
  then show ?thesis
    using view_complete view_begun unfolding settled_channel_def by (metis view_after.simps(1))
qed

lemma engine_view: "engine_inv H e \<Longrightarrow> \<exists>v. view_after Quiet (chan_log (channels e a)) = Some v"
  using books_view servesD(8) unfolding engine_inv_def by blast

section \<open>Logs only grow\<close>

lemma admit_appends: "prefix (chan_log (channels e a)) (chan_log (channels (snd (admit H req e)) a))"
proof -
  have two: "prefix (chan_log c) (chan_log (snd (try_send ev' (snd (try_send ev c)))))" for ev ev' c
    by (rule prefix_order.trans [OF try_send_appends try_send_appends])
  show ?thesis by (simp add: admit_def Let_def refuse_def two)
qed

lemma obey_appends: "prefix (chan_log (channels e a)) (chan_log (channels (obey H c e) a))"
  using admit_appends by (cases c) (auto simp: obey_def)

lemma turn_appends:
  "prefix (chan_log (channels (rt_engine rt) a)) (chan_log (channels (rt_engine (loop_turn H rt)) a))"
  using obey_appends [of "rt_engine rt" a H] within_work [of "rt_engine rt" H]
  by (auto simp: loop_turn_def within_def split: loop_phase.split list.split command.split)

text \<open>
  C23. The runtime refines the client's protocol: seen through the log of any reply channel, each
  action of a client, of a reader or of the thread is a sequence of protocol steps, possibly none.
\<close>

theorem runtime_refines_client_protocol:
  assumes "runtime_inv H rt" and "runtime_guard ev rt" and "a < rt_next_reply rt"
  shows "\<exists>evs v v'.
    chan_log (channels (rt_engine (runtime_step H ev rt)) a) = chan_log (channels (rt_engine rt) a) @ evs \<and>
    view_after Quiet (chan_log (channels (rt_engine rt) a)) = Some v \<and> view_after v evs = Some v'"
proof -
  have "prefix (chan_log (channels (rt_engine rt) a)) (chan_log (channels (rt_engine (runtime_step H ev rt)) a))"
    using assms(3) turn_appends [of rt a H]
    by (cases ev) (auto simp: runtime_step_def submit_def Let_def handle_abort_def handle_drop_def
        reader_takes_def reader_leaves_def)
  then obtain evs where evs: "chan_log (channels (rt_engine (runtime_step H ev rt)) a) =
      chan_log (channels (rt_engine rt) a) @ evs" by (auto simp: prefix_def)
  obtain v where v: "view_after Quiet (chan_log (channels (rt_engine rt) a)) = Some v"
    using engine_view [OF runtime_invD(2) [OF assms(1)]] by blast
  have "\<exists>v'. view_after Quiet (chan_log (channels (rt_engine (runtime_step H ev rt)) a)) = Some v'"
    using engine_view [OF runtime_invD(2) [OF runtime.step_keeps [OF assms(1,2)]]] by blast
  then show ?thesis using evs v by (auto simp: view_after_append)
qed

theorem runtime_refines_client_protocol_witness:
  "\<exists>evs v v'.
    chan_log (channels (rt_engine (runtime_step toy_host LoopTurn toy_runtime)) 1) =
      [Started 2 1, Token 2 40, Token 2 41] @ evs \<and>
    view_after Quiet [Started 2 1, Token 2 40, Token 2 41] = Some v \<and> view_after v evs = Some v'"
proof -
  have log: "chan_log (channels (rt_engine toy_runtime) 1) = [Started 2 1, Token 2 40, Token 2 41]"
    "rt_next_reply toy_runtime = 2"
    unfolding toy_runtime_def toy_calls_def by code_simp+
  show ?thesis
    using runtime_refines_client_protocol [OF toy_runtime_inv, of LoopTurn 1]
    unfolding log by (simp add: runtime_guard_def)
qed

end
