(* ===== verification/Utf8.thy ===== *)
theory Utf8
  imports Prelude
begin

text \<open>
  What the tokenizer uses of Rust's strings: a \<open>String\<close> is a list of Unicode scalar
  values, \<open>as_bytes\<close> is its UTF-8 encoding, and \<open>String::from_utf8_lossy\<close> decodes any
  bytes, with U+FFFD for every maximal ill-formed part. The lemmas show that the encoding
  is a prefix code whose words start with the only byte that is no continuation byte, and
  that the lossy decoder inverts it.
\<close>

type_synonym ustring = "nat list"

section \<open>Encoding\<close>

definition scalar :: "nat \<Rightarrow> bool" where
  "scalar c \<longleftrightarrow> c < 0xD800 \<or> (0xE000 \<le> c \<and> c \<le> 0x10FFFF)"

definition to_byte :: "nat \<Rightarrow> u8" where
  "to_byte n = word_of_nat n"

definition utf8_char :: "nat \<Rightarrow> u8 list" where
  "utf8_char c =
     (if c < 0x80 then [to_byte c]
      else if c < 0x800 then [to_byte (0xC0 + c div 64), to_byte (0x80 + c mod 64)]
      else if c < 0x10000 then
        [to_byte (0xE0 + c div 4096), to_byte (0x80 + c div 64 mod 64), to_byte (0x80 + c mod 64)]
      else
        [to_byte (0xF0 + c div 262144), to_byte (0x80 + c div 4096 mod 64),
         to_byte (0x80 + c div 64 mod 64), to_byte (0x80 + c mod 64)])"

definition as_bytes :: "ustring \<Rightarrow> u8 list" where
  "as_bytes s = concat (map utf8_char s)"

definition is_cont :: "u8 \<Rightarrow> bool" where
  "is_cont b \<longleftrightarrow> 0x80 \<le> unat b \<and> unat b \<le> 0xBF"

section \<open>Lossy decoding\<close>

definition replacement_char :: nat where
  "replacement_char = 0xFFFD"

text \<open>The range of the second byte of a three-byte and of a four-byte sequence.\<close>

definition second_of_three :: "nat \<Rightarrow> nat \<Rightarrow> bool" where
  "second_of_three n m \<longleftrightarrow>
     (if n = 0xE0 then 0xA0 \<le> m \<and> m \<le> 0xBF
      else if n = 0xED then 0x80 \<le> m \<and> m \<le> 0x9F
      else 0x80 \<le> m \<and> m \<le> 0xBF)"

definition second_of_four :: "nat \<Rightarrow> nat \<Rightarrow> bool" where
  "second_of_four n m \<longleftrightarrow>
     (if n = 0xF0 then 0x90 \<le> m \<and> m \<le> 0xBF
      else if n = 0xF4 then 0x80 \<le> m \<and> m \<le> 0x8F
      else 0x80 \<le> m \<and> m \<le> 0xBF)"

definition byte_at :: "u8 list \<Rightarrow> nat \<Rightarrow> nat" where
  "byte_at bs k = (if k < length bs then unat (bs ! k) else 0)"

definition cont_at :: "u8 list \<Rightarrow> nat \<Rightarrow> bool" where
  "cont_at bs k \<longleftrightarrow> 0x80 \<le> byte_at bs k \<and> byte_at bs k \<le> 0xBF"

text \<open>The scalar at the head of the bytes and the number of bytes it takes.\<close>

definition decode_one :: "u8 list \<Rightarrow> nat \<times> nat" where
  "decode_one bs = (let n = byte_at bs 0; m = byte_at bs 1 in
     if n < 0x80 then (n, 1)
     else if 0xC2 \<le> n \<and> n \<le> 0xDF then
       (if cont_at bs 1 then ((n - 0xC0) * 64 + (m - 0x80), 2) else (replacement_char, 1))
     else if 0xE0 \<le> n \<and> n \<le> 0xEF then
       (if second_of_three n m then
          if cont_at bs 2 then
            ((n - 0xE0) * 4096 + (m - 0x80) * 64 + (byte_at bs 2 - 0x80), 3)
          else (replacement_char, 2)
        else (replacement_char, 1))
     else if 0xF0 \<le> n \<and> n \<le> 0xF4 then
       (if second_of_four n m then
          if cont_at bs 2 then
            if cont_at bs 3 then
              ((n - 0xF0) * 262144 + (m - 0x80) * 4096 + (byte_at bs 2 - 0x80) * 64
                 + (byte_at bs 3 - 0x80), 4)
            else (replacement_char, 3)
          else (replacement_char, 2)
        else (replacement_char, 1))
     else (replacement_char, 1))"

lemma decode_one_positive: "0 < snd (decode_one bs)"
  by (simp add: decode_one_def Let_def)

function from_utf8_lossy :: "u8 list \<Rightarrow> ustring" where
  "from_utf8_lossy bs =
     (if bs = [] then []
      else fst (decode_one bs) # from_utf8_lossy (drop (snd (decode_one bs)) bs))"
  by pat_completeness auto
termination
proof (relation "measure length")
  fix bs :: "u8 list"
  assume "bs \<noteq> []"
  then show "(drop (snd (decode_one bs)) bs, bs) \<in> measure length"
    using decode_one_positive [of bs] by simp
qed simp

declare from_utf8_lossy.simps [simp del]

section \<open>The encoding is a prefix code\<close>

lemma unat_to_byte: "n < 256 \<Longrightarrow> unat (to_byte n) = n"
  by (simp add: to_byte_def unat_of_nat)

lemma to_byte_unat [simp]: "to_byte (unat b) = b"
  by (simp add: to_byte_def)

lemma as_bytes_simps [simp]:
  "as_bytes [] = []"
  "as_bytes (c # s) = utf8_char c @ as_bytes s"
  "as_bytes (s @ t) = as_bytes s @ as_bytes t"
  by (simp_all add: as_bytes_def)

lemma scalar_bound: "scalar c \<Longrightarrow> c \<le> 0x10FFFF"
  by (auto simp: scalar_def)

lemma byte_at_append: "k < length xs \<Longrightarrow> byte_at (xs @ ys) k = unat (xs ! k)"
  by (simp add: byte_at_def nth_append)

text \<open>The six-bit digits of a scalar.\<close>

lemma digits_three: "c div 4096 * 4096 + c div 64 mod 64 * 64 + c mod 64 = (c :: nat)"
proof -
  have split: "c div 4096 = c div 64 div 64"
    by (simp add: div_mult2_eq [symmetric])
  show ?thesis
    unfolding split using div_mult_mod_eq [of "c div 64" 64] div_mult_mod_eq [of c 64] by linarith
qed

lemma digits_four:
  "c div 262144 * 262144 + c div 4096 mod 64 * 4096 + c div 64 mod 64 * 64 + c mod 64 = (c :: nat)"
proof -
  have split: "c div 262144 = c div 4096 div 64"
    by (simp add: div_mult2_eq [symmetric])
  show ?thesis
    unfolding split using div_mult_mod_eq [of "c div 4096" 64] digits_three [of c] by linarith
qed

lemma decode_one_utf8:
  assumes "scalar c"
  shows "decode_one (utf8_char c @ bs) = (c, length (utf8_char c))"
proof -
  have "c < 0x80 \<or> (0x80 \<le> c \<and> c < 0x800) \<or> (0x800 \<le> c \<and> c < 0x10000)
    \<or> (0x10000 \<le> c \<and> c \<le> 0x10FFFF)"
    using scalar_bound [OF assms] by linarith
  then show ?thesis
  proof (elim disjE)
    assume "c < 0x80"
    then show ?thesis
      by (simp add: utf8_char_def decode_one_def byte_at_def unat_to_byte Let_def)
  next
    assume c: "0x80 \<le> c \<and> c < 0x800"
    define x y where "x = c div 64" and "y = c mod 64"
    have bnd: "2 \<le> x" "x \<le> 0x1F" "y < 64"
      using c unfolding x_def y_def by auto
    have sum: "x * 64 + y = c"
      unfolding x_def y_def by simp
    have "\<not> c < 0x80" "c < 0x800"
      using c by auto
    with bnd sum show ?thesis
      by (simp add: utf8_char_def decode_one_def byte_at_def unat_to_byte cont_at_def
          x_def [symmetric] y_def [symmetric])
  next
    assume c: "0x800 \<le> c \<and> c < 0x10000"
    define x y z where "x = c div 4096" and "y = c div 64 mod 64" and "z = c mod 64"
    have bnd: "x \<le> 15" "y < 64" "z < 64"
      using c unfolding x_def y_def z_def by auto
    have sum: "x * 4096 + y * 64 + z = c"
      unfolding x_def y_def z_def by (rule digits_three)
    have "second_of_three (0xE0 + x) (0x80 + y)"
      using assms c bnd sum by (auto simp: second_of_three_def scalar_def)
    with c bnd sum show ?thesis
      by (simp add: utf8_char_def decode_one_def byte_at_def unat_to_byte cont_at_def
          x_def [symmetric] y_def [symmetric] z_def [symmetric])
  next
    assume c: "0x10000 \<le> c \<and> c \<le> 0x10FFFF"
    define w x y z where "w = c div 262144" and "x = c div 4096 mod 64"
      and "y = c div 64 mod 64" and "z = c mod 64"
    have bnd: "w \<le> 4" "x < 64" "y < 64" "z < 64"
      using c unfolding w_def x_def y_def z_def by auto
    have sum: "w * 262144 + x * 4096 + y * 64 + z = c"
      unfolding w_def x_def y_def z_def by (rule digits_four)
    have "second_of_four (0xF0 + w) (0x80 + x)"
      using c bnd sum by (auto simp: second_of_four_def)
    with c bnd sum show ?thesis
      by (simp add: utf8_char_def decode_one_def byte_at_def unat_to_byte cont_at_def
          w_def [symmetric] x_def [symmetric] y_def [symmetric] z_def [symmetric])
  qed
qed

lemma utf8_char_nonempty [simp]: "utf8_char c \<noteq> []"
  by (simp add: utf8_char_def)

lemma lossy_inverts_utf8:
  "\<forall>c \<in> set s. scalar c \<Longrightarrow> from_utf8_lossy (as_bytes s) = s"
proof (induction s)
  case (Cons c s)
  then show ?case
    by (subst from_utf8_lossy.simps) (simp add: decode_one_utf8)
qed (simp add: from_utf8_lossy.simps)

lemma utf8_char_inj:
  assumes "scalar c" "scalar d" "utf8_char c = utf8_char d"
  shows "c = d"
  using decode_one_utf8 [OF assms(1), of "[]"] decode_one_utf8 [OF assms(2), of "[]"] assms(3)
  by simp

lemma utf8_head_lead: "scalar c \<Longrightarrow> \<not> is_cont (hd (utf8_char c))"
  by (auto simp: utf8_char_def is_cont_def unat_to_byte scalar_def)

lemma utf8_tail_cont: "scalar c \<Longrightarrow> b \<in> set (tl (utf8_char c)) \<Longrightarrow> is_cont b"
  by (auto simp: utf8_char_def is_cont_def unat_to_byte scalar_def split: if_splits)

text \<open>The first byte gives the length of the word.\<close>

definition word_length :: "u8 \<Rightarrow> nat" where
  "word_length b = (if unat b < 0xC0 then 1 else if unat b < 0xE0 then 2
     else if unat b < 0xF0 then 3 else 4)"

lemma word_length_hd: "scalar c \<Longrightarrow> word_length (hd (utf8_char c)) = length (utf8_char c)"
  by (auto simp: utf8_char_def word_length_def unat_to_byte scalar_def)

lemma utf8_char_prefix_code:
  assumes "scalar c" "scalar d" and eq: "utf8_char c @ xs = utf8_char d @ ys"
  shows "c = d"
proof -
  have "hd (utf8_char c) = hd (utf8_char d)"
    by (metis eq hd_append2 utf8_char_nonempty)
  then have "length (utf8_char c) = length (utf8_char d)"
    by (metis assms(1,2) word_length_hd)
  with eq have "utf8_char c = utf8_char d"
    by simp
  then show ?thesis
    by (rule utf8_char_inj [OF assms(1,2)])
qed

lemma as_bytes_prefix:
  assumes "\<forall>c \<in> set w. scalar c" "\<forall>c \<in> set s. scalar c" "as_bytes s = as_bytes w @ bs"
  shows "\<exists>s'. s = w @ s' \<and> bs = as_bytes s'"
  using assms
proof (induction w arbitrary: s)
  case (Cons c w)
  then obtain d s' where s: "s = d # s'"
    by (cases s) auto
  with Cons.prems have "d = c"
    using utf8_char_prefix_code [of d c "as_bytes s'" "as_bytes w @ bs"] by simp
  with Cons.prems s have "as_bytes s' = as_bytes w @ bs"
    by simp
  with Cons s \<open>d = c\<close> show ?case
    by simp
qed simp

end
