(* ===== verification/Byte_Map.thy ===== *)
theory Byte_Map
  imports Utf8
begin

text \<open>
  The byte table of byte-level BPE, \<open>eou/byte_map.rs\<close>: every byte gets a printable
  character, the printable Latin-1 bytes their own and the others the characters from 256
  upwards, in order. The lemmas show that the table is a bijection between the bytes and
  256 characters, so that the character form of a string loses nothing.
\<close>

section \<open>The table\<close>

definition keep_byte :: "nat \<Rightarrow> bool" where
  "keep_byte b \<longleftrightarrow> (33 \<le> b \<and> b \<le> 126) \<or> (0xA1 \<le> b \<and> b \<le> 0xAC) \<or> (0xAE \<le> b \<and> b \<le> 0xFF)"

text \<open>The second loop: every byte that is not kept is pushed with the next free character.\<close>

fun push_extra :: "nat list \<Rightarrow> nat list \<times> nat list \<times> nat \<Rightarrow> nat list \<times> nat list \<times> nat" where
  "push_extra [] st = st"
| "push_extra (b # rest) (bs, cs, n) =
     push_extra rest (if keep_byte b then (bs, cs, n) else (bs @ [b], cs @ [256 + n], n + 1))"

definition set_entries :: "(nat \<times> nat) list \<Rightarrow> nat list \<Rightarrow> nat list" where
  "set_entries bcs m = fold (\<lambda>(b, c) m. m[b := c]) bcs m"

definition build_byte_to_char :: "nat list" where
  "build_byte_to_char = (let kept = filter keep_byte [0..<256];
       (bs, cs, _) = push_extra [0..<256] (kept, kept, 0)
     in set_entries (zip bs cs) (replicate 256 0))"

definition byte_to_char :: "u8 \<Rightarrow> nat" where
  "byte_to_char b = build_byte_to_char ! unat b"

definition char_to_byte :: "nat \<Rightarrow> u8 option" where
  "char_to_byte c = map_option to_byte (position (\<lambda>ch. ch = c) build_byte_to_char)"

definition bytes_to_bpe_chars :: "ustring \<Rightarrow> ustring" where
  "bytes_to_bpe_chars s = map byte_to_char (as_bytes s)"

definition bpe_chars_to_bytes :: "ustring \<Rightarrow> ustring" where
  "bpe_chars_to_bytes s = from_utf8_lossy (List.map_filter char_to_byte s)"

section \<open>The table is a bijection\<close>

lemma push_extra_eq:
  "push_extra L (bs, cs, n) = (let E = filter (\<lambda>b. \<not> keep_byte b) L in
     (bs @ E, cs @ map (\<lambda>i. 256 + i) [n..<n + length E], n + length E))"
proof (induction L arbitrary: bs cs n)
  case (Cons b L)
  then show ?case
    by (simp add: Let_def upt_conv_Cons [of n] del: upt_Suc)
qed simp

lemma set_entries_other: "b \<notin> fst ` set bcs \<Longrightarrow> set_entries bcs m ! b = m ! b"
  unfolding set_entries_def by (induction bcs arbitrary: m) auto

lemma length_set_entries [simp]: "length (set_entries bcs m) = length m"
  unfolding set_entries_def by (induction bcs arbitrary: m) auto

lemma set_entries_nth:
  "distinct (map fst bcs) \<Longrightarrow> (b, c) \<in> set bcs \<Longrightarrow> b < length m \<Longrightarrow> set_entries bcs m ! b = c"
proof (induction bcs arbitrary: m)
  case (Cons bc bcs)
  have step: "set_entries (bc # bcs) m = set_entries bcs (m[fst bc := snd bc])"
    by (simp add: set_entries_def case_prod_beta)
  show ?case
  proof (cases "(b, c) = bc")
    case True
    with Cons.prems have "b \<notin> fst ` set bcs"
      by (metis distinct.simps(2) fst_conv list.set_map list.simps(9))
    with step True [symmetric] Cons.prems(3) show ?thesis
      by (simp add: set_entries_other)
  next
    case False
    with Cons.prems have "(b, c) \<in> set bcs"
      by auto
    with Cons.prems show ?thesis
      unfolding step by (intro Cons.IH) auto
  qed
qed simp

abbreviation kept_bytes :: "nat list" where
  "kept_bytes \<equiv> filter keep_byte [0..<256]"

abbreviation extra_bytes :: "nat list" where
  "extra_bytes \<equiv> filter (\<lambda>b. \<not> keep_byte b) [0..<256]"

definition table_entries :: "(nat \<times> nat) list" where
  "table_entries = zip kept_bytes kept_bytes
     @ zip extra_bytes (map (\<lambda>i. 256 + i) [0..<length extra_bytes])"

lemma build_byte_to_char_eq: "build_byte_to_char = set_entries table_entries (replicate 256 0)"
  by (simp only: build_byte_to_char_def push_extra_eq Let_def prod.case table_entries_def
      zip_append length_map length_upt add_0 diff_zero)

lemma length_table [simp]: "length build_byte_to_char = 256"
  by (simp add: build_byte_to_char_eq)

lemma table_entries_fst: "map fst table_entries = kept_bytes @ extra_bytes"
  by (simp only: table_entries_def map_append map_fst_zip length_map length_upt diff_zero le_refl)

lemma table_entries_snd:
  "map snd table_entries = kept_bytes @ map (\<lambda>i. 256 + i) [0..<length extra_bytes]"
  by (simp only: table_entries_def map_append map_snd_zip length_map length_upt diff_zero le_refl)

lemma distinct_entries_fst: "distinct (map fst table_entries)"
  unfolding table_entries_fst distinct_append by (intro conjI distinct_filter distinct_upt) auto

lemma distinct_entries_snd: "distinct (map snd table_entries)"
  unfolding table_entries_snd distinct_append
  by (intro conjI distinct_filter distinct_upt) (auto simp: distinct_map inj_on_def)

lemma entry_of_byte:
  assumes "b < 256"
  obtains c where "(b, c) \<in> set table_entries" "build_byte_to_char ! b = c"
proof -
  have "b \<in> set (map fst table_entries)"
    unfolding table_entries_fst using assms by auto
  then obtain c where "(b, c) \<in> set table_entries"
    by auto
  with assms show thesis
    using that set_entries_nth [OF distinct_entries_fst] by (simp add: build_byte_to_char_eq)
qed

lemma distinct_snd_unique:
  "distinct (map snd xs) \<Longrightarrow> (a, c) \<in> set xs \<Longrightarrow> (b, c) \<in> set xs \<Longrightarrow> a = b"
  by (induction xs) (auto intro: rev_image_eqI)

lemma distinct_table: "distinct build_byte_to_char"
  unfolding distinct_conv_nth
proof (intro allI impI)
  fix i j
  assume "i < length build_byte_to_char" "j < length build_byte_to_char" "i \<noteq> j"
  then show "build_byte_to_char ! i \<noteq> build_byte_to_char ! j"
    using distinct_snd_unique [OF distinct_entries_snd]
    by (metis entry_of_byte length_table)
qed

lemma table_kept:
  assumes "keep_byte b" shows "build_byte_to_char ! b = b"
proof -
  have b: "b < 256"
    using assms by (auto simp: keep_byte_def)
  then obtain c where "(b, c) \<in> set table_entries" "build_byte_to_char ! b = c"
    by (rule entry_of_byte)
  moreover have "(b, b) \<in> set table_entries"
  proof -
    have "(b, b) \<in> set (zip kept_bytes kept_bytes)"
      using assms b by (simp add: zip_same_conv_map)
    then show ?thesis
      unfolding table_entries_def by simp
  qed
  ultimately show ?thesis
    using distinct_entries_fst by (metis eq_key_imp_eq_value)
qed

lemma position_nth_distinct:
  "distinct xs \<Longrightarrow> i < length xs \<Longrightarrow> position (\<lambda>x. x = xs ! i) xs = Some i"
proof (induction xs arbitrary: i)
  case (Cons x xs)
  then show ?case
    by (cases i) auto
qed simp

lemma char_to_byte_table [simp]: "char_to_byte (byte_to_char b) = Some b"
  using unsigned_less [of b, where ?'a = nat]
  by (simp add: char_to_byte_def byte_to_char_def position_nth_distinct [OF distinct_table])

lemma char_to_byte_kept:
  assumes "keep_byte c" shows "char_to_byte c = Some (to_byte c)"
proof -
  have "unat (to_byte c) = c"
    using assms by (auto simp: keep_byte_def intro!: unat_to_byte)
  then have "byte_to_char (to_byte c) = c"
    by (simp add: byte_to_char_def table_kept [OF assms])
  then show ?thesis
    by (metis char_to_byte_table)
qed

lemma char_to_byte_SomeD:
  assumes "char_to_byte c = Some b" shows "byte_to_char b = c"
proof -
  obtain i where i: "position (\<lambda>ch. ch = c) build_byte_to_char = Some i" "b = to_byte i"
    using assms by (auto simp: char_to_byte_def)
  then have "i < 256" "build_byte_to_char ! i = c"
    using position_less [OF i(1)] position_holds [OF i(1)] by auto
  with i(2) show ?thesis
    by (simp add: byte_to_char_def unat_to_byte)
qed

lemma byte_to_char_inj: "byte_to_char a = byte_to_char b \<Longrightarrow> a = b"
  by (metis char_to_byte_table option.inject)

lemma map_filter_table [simp]: "List.map_filter char_to_byte (map byte_to_char bs) = bs"
  by (induction bs) (simp_all add: List.map_filter_simps)

lemma bpe_chars_roundtrip:
  "\<forall>c \<in> set s. scalar c \<Longrightarrow> bpe_chars_to_bytes (bytes_to_bpe_chars s) = s"
  by (simp add: bpe_chars_to_bytes_def bytes_to_bpe_chars_def lossy_inverts_utf8)

end
