(* ===== verification/Special_Trie.thy ===== *)
theory Special_Trie
  imports Utf8
begin

text \<open>
  The trie of special tokens, \<open>eou/special_trie.rs\<close>: a node keeps its children by byte and,
  when a token ends there, the token's id and content. \<open>match_at\<close> finds the longest token
  at a byte position and \<open>split\<close> cuts a text into special tokens and plain stretches. The
  loops keep the code's byte indices. The lemmas relate the byte trie to the finite map of
  its tokens and prove that splitting the bytes is splitting the characters: a match never
  starts or ends inside a character, so the lossy conversion of a plain stretch is exact.
\<close>

section \<open>Nodes\<close>

datatype special_node = Special_Node
  (children: "u8 \<Rightarrow> special_node option")
  (terminal: bool)
  (node_id: int)
  (content: ustring)

definition empty_node :: special_node where
  "empty_node = Special_Node (\<lambda>_. None) False 0 []"

fun insert_bytes :: "u8 list \<Rightarrow> int \<Rightarrow> ustring \<Rightarrow> special_node \<Rightarrow> special_node" where
  "insert_bytes [] tok s (Special_Node ch _ _ _) = Special_Node ch True tok s"
| "insert_bytes (b # bs) tok s (Special_Node ch t i c) =
     Special_Node
       (ch(b \<mapsto> insert_bytes bs tok s (case ch b of Some n \<Rightarrow> n | None \<Rightarrow> empty_node))) t i c"

definition insert_special :: "ustring \<Rightarrow> int \<Rightarrow> special_node \<Rightarrow> special_node" where
  "insert_special s tok n = insert_bytes (as_bytes s) tok s n"

section \<open>Longest match\<close>

record special_piece =
  piece_text :: ustring
  piece_id :: int
  special :: bool

text \<open>The accumulator of \<open>match_at\<close>: id, end and text of the longest match so far.\<close>

function match_loop ::
  "u8 list \<Rightarrow> special_node \<Rightarrow> nat \<Rightarrow> int \<times> nat \<times> ustring \<Rightarrow> int \<times> nat \<times> ustring" where
  "match_loop bytes cur i best =
     (if i < length bytes then
        (case children cur (bytes ! i) of
           Some nxt \<Rightarrow> match_loop bytes nxt (i + 1)
             (if terminal nxt then (node_id nxt, i + 1, content nxt) else best)
         | None \<Rightarrow> best)
      else best)"
  by pat_completeness auto
termination by (relation "measure (\<lambda>(bytes, cur, i, best). length bytes - i)") auto

declare match_loop.simps [simp del]

definition match_at :: "special_node \<Rightarrow> u8 list \<Rightarrow> nat \<Rightarrow> int \<times> nat \<times> ustring" where
  "match_at n bytes start =
     (let (mid, mend, mtext) = match_loop bytes n start (-1, 0, []) in
      if mend = 0 then (-1, 0, []) else (mid, mend - start, mtext))"

section \<open>Splitting a text\<close>

definition flush :: "u8 list \<Rightarrow> special_piece list \<Rightarrow> special_piece list" where
  "flush plain pieces =
     (if plain \<noteq> [] then
        pieces @ [\<lparr>piece_text = from_utf8_lossy plain, piece_id = -1, special = False\<rparr>]
      else pieces)"

function split_loop ::
  "special_node \<Rightarrow> u8 list \<Rightarrow> nat \<Rightarrow> u8 list \<Rightarrow> special_piece list \<Rightarrow> special_piece list" where
  "split_loop n bytes i plain pieces =
     (if i < length bytes then
        let (tok, mlen, mtext) = match_at n bytes i in
        if 0 < mlen then
          split_loop n bytes (i + mlen) []
            (flush plain pieces @ [\<lparr>piece_text = mtext, piece_id = tok, special = True\<rparr>])
        else split_loop n bytes (i + 1) (plain @ [bytes ! i]) pieces
      else flush plain pieces)"
  by pat_completeness auto
termination by (relation "measure (\<lambda>(n, bytes, i, plain, pieces). length bytes - i)") auto

declare split_loop.simps [simp del]

definition split_specials :: "special_node \<Rightarrow> ustring \<Rightarrow> special_piece list" where
  "split_specials n text = split_loop n (as_bytes text) 0 [] []"

section \<open>The trie as a map\<close>

text \<open>What \<open>insert\<close> stored: the id and content at the end of a byte path.\<close>

fun lookup :: "special_node \<Rightarrow> u8 list \<Rightarrow> (int \<times> ustring) option" where
  "lookup n [] = (if terminal n then Some (node_id n, content n) else None)"
| "lookup n (b # bs) = (case children n b of Some m \<Rightarrow> lookup m bs | None \<Rightarrow> None)"

lemma lookup_empty [simp]: "lookup empty_node bs = None"
  by (cases bs) (simp_all add: empty_node_def)

lemma lookup_insert_bytes:
  "lookup (insert_bytes bs tok s n) cs = (if cs = bs then Some (tok, s) else lookup n cs)"
proof (induction bs tok s n arbitrary: cs rule: insert_bytes.induct)
  case (1 tok s ch t i c)
  then show ?case
    by (cases cs) auto
next
  case (2 b bs tok s ch t i c)
  then show ?case
    by (cases cs) (auto split: option.split)
qed

lemma lookup_insert:
  "lookup (insert_special s tok n) cs = (if cs = as_bytes s then Some (tok, s) else lookup n cs)"
  by (simp add: insert_special_def lookup_insert_bytes)

lemma lookup_child:
  assumes "children n b = Some m" shows "lookup n (b # bs) = lookup m bs"
  using assms by simp

text \<open>
  The longest nonempty path of the trie that starts at a list of bytes, with the number of
  bytes already consumed; the specification of the matching loop.
\<close>

fun longest :: "special_node \<Rightarrow> u8 list \<Rightarrow> (nat \<times> int \<times> ustring) option" where
  "longest n [] = None"
| "longest n (b # bs) =
     (case children n b of
        None \<Rightarrow> None
      | Some m \<Rightarrow>
          (case longest m bs of
             Some (k, r) \<Rightarrow> Some (Suc k, r)
           | None \<Rightarrow> if terminal m then Some (1, node_id m, content m) else None))"

lemma match_loop_longest:
  "i \<le> length bytes \<Longrightarrow> match_loop bytes n i best =
     (case longest n (drop i bytes) of
        Some (k, tok, s) \<Rightarrow> (tok, i + k, s) | None \<Rightarrow> best)"
proof (induction bytes n i best rule: match_loop.induct)
  case (1 bytes cur i best)
  show ?case
  proof (cases "i < length bytes")
    case True
    then have d: "drop i bytes = bytes ! i # drop (i + 1) bytes"
      by (simp add: Cons_nth_drop_Suc)
    show ?thesis
    proof (cases "children cur (bytes ! i)")
      case None
      then show ?thesis
        by (subst match_loop.simps) (simp add: d True)
    next
      case (Some nxt)
      with 1 True show ?thesis
        by (subst match_loop.simps) (auto simp: d split: option.split)
    qed
  next
    case False
    with 1(2) show ?thesis
      by (subst match_loop.simps) simp
  qed
qed

lemma longest_SomeD:
  "longest n bs = Some (k, tok, s) \<Longrightarrow>
     0 < k \<and> k \<le> length bs \<and> lookup n (take k bs) = Some (tok, s)"
proof (induction n bs arbitrary: k rule: longest.induct)
  case (2 n b bs)
  then show ?case
    by (fastforce split: option.splits if_splits)
qed simp

lemma match_at_longest:
  assumes "i < length bytes"
  shows "match_at n bytes i =
    (case longest n (drop i bytes) of Some (k, tok, s) \<Rightarrow> (tok, k, s) | None \<Rightarrow> (-1, 0, []))"
  using assms by (auto simp: match_at_def match_loop_longest dest: longest_SomeD split: option.split)

lemma longest_maximal:
  "0 < j \<Longrightarrow> j \<le> length bs \<Longrightarrow> lookup n (take j bs) \<noteq> None \<Longrightarrow>
     \<exists>k r. longest n bs = Some (k, r) \<and> j \<le> k"
proof (induction n bs arbitrary: j rule: longest.induct)
  case (2 n b bs)
  then obtain i where j: "j = Suc i"
    by (cases j) auto
  with 2 obtain m where m: "children n b = Some m" "lookup m (take i bs) \<noteq> None"
    by (auto split: option.splits)
  show ?case
  proof (cases i)
    case 0
    with j m show ?thesis
      by (cases "longest m bs") (auto split: if_splits)
  next
    case (Suc i')
    with 2 j m obtain k r where "longest m bs = Some (k, r)" "i \<le> k"
      by (metis Suc_le_mono length_Cons zero_less_Suc)
    with j m show ?thesis
      by (cases r) auto
  qed
qed simp

section \<open>Splitting at the level of characters\<close>

text \<open>The longest nonempty prefix of at most \<open>k\<close> characters that is a token.\<close>

fun longest_prefix :: "(ustring \<Rightarrow> int option) \<Rightarrow> ustring \<Rightarrow> nat \<Rightarrow> (nat \<times> int) option" where
  "longest_prefix m s 0 = None"
| "longest_prefix m s (Suc k) =
     (case m (take (Suc k) s) of Some tok \<Rightarrow> Some (Suc k, tok) | None \<Rightarrow> longest_prefix m s k)"

lemma longest_prefix_SomeD:
  "longest_prefix m s n = Some (k, tok) \<Longrightarrow>
     0 < k \<and> k \<le> n \<and> m (take k s) = Some tok \<and> (\<forall>j. k < j \<longrightarrow> j \<le> n \<longrightarrow> m (take j s) = None)"
proof (induction m s n rule: longest_prefix.induct)
  case (2 m s n)
  then show ?case
    by (auto split: option.splits simp: le_Suc_eq)
qed simp

lemma longest_prefix_positive: "longest_prefix m s n = Some (k, tok) \<Longrightarrow> 0 < k"
  by (simp add: longest_prefix_SomeD)

lemma longest_prefix_NoneD:
  "longest_prefix m s n = None \<Longrightarrow> 0 < j \<Longrightarrow> j \<le> n \<Longrightarrow> m (take j s) = None"
proof (induction m s n rule: longest_prefix.induct)
  case (2 m s n)
  then show ?case
    by (auto split: option.splits simp: le_Suc_eq)
qed simp

definition plain_piece :: "ustring \<Rightarrow> special_piece list" where
  "plain_piece s =
     (if s = [] then [] else [\<lparr>piece_text = s, piece_id = -1, special = False\<rparr>])"

function split_reference ::
  "(ustring \<Rightarrow> int option) \<Rightarrow> ustring \<Rightarrow> ustring \<Rightarrow> special_piece list" where
  "split_reference m plain s =
     (case s of
        [] \<Rightarrow> plain_piece plain
      | c # rest \<Rightarrow>
          (case longest_prefix m s (length s) of
             Some (k, tok) \<Rightarrow>
               plain_piece plain @ \<lparr>piece_text = take k s, piece_id = tok, special = True\<rparr>
                 # split_reference m [] (drop k s)
           | None \<Rightarrow> split_reference m (plain @ [c]) rest))"
  by pat_completeness auto
termination
  by (relation "measure (\<lambda>(m, plain, s). length s)")
    (auto simp del: longest_prefix.simps dest: longest_prefix_positive)

declare split_reference.simps [simp del]

definition represents :: "special_node \<Rightarrow> (ustring \<Rightarrow> int option) \<Rightarrow> bool" where
  "represents n m \<longleftrightarrow> (\<forall>s \<in> dom m. \<forall>c \<in> set s. scalar c) \<and>
     (\<forall>bs tok s. lookup n bs = Some (tok, s) \<longleftrightarrow> m s = Some tok \<and> bs = as_bytes s)"

lemma representsD:
  assumes "represents n m"
  shows "lookup n bs = Some (tok, s) \<Longrightarrow> m s = Some tok \<and> bs = as_bytes s"
    and "m s = Some tok \<Longrightarrow> lookup n (as_bytes s) = Some (tok, s)"
    and "m s = Some tok \<Longrightarrow> \<forall>c \<in> set s. scalar c"
  using assms by (auto simp: represents_def)

lemma as_bytes_inj:
  assumes "\<forall>c \<in> set s. scalar c" "\<forall>c \<in> set t. scalar c" "as_bytes s = as_bytes t"
  shows "s = t"
  by (metis assms lossy_inverts_utf8)

lemma represents_empty: "represents empty_node Map.empty"
  by (simp add: represents_def)

lemma represents_insert:
  assumes "represents n m" "\<forall>c \<in> set s. scalar c"
  shows "represents (insert_special s tok n) (m(s \<mapsto> tok))"
  using assms as_bytes_inj [OF assms(2)] unfolding represents_def
  by (auto simp: lookup_insert split: if_splits)

lemma length_as_bytes_less:
  assumes "i < j" "j \<le> length s"
  shows "length (as_bytes (take i s)) < length (as_bytes (take j s))"
proof -
  have "take j s = take i s @ drop i (take j s)"
    by (metis append_take_drop_id assms(1) less_imp_le min.absorb1 take_take)
  moreover have "as_bytes (drop i (take j s)) \<noteq> []"
    using assms by (cases "drop i (take j s)") auto
  ultimately show ?thesis
    by (metis append_eq_conv_conj as_bytes_simps(3) length_append length_greater_0_conv
        less_add_same_cancel1)
qed

lemma as_bytes_take: "take (length (as_bytes (take k s))) (as_bytes s) = as_bytes (take k s)"
  by (metis append_eq_conv_conj append_take_drop_id as_bytes_simps(3))

lemma as_bytes_take_le: "length (as_bytes (take k s)) \<le> length (as_bytes s)"
  by (metis as_bytes_take length_take min.bounded_iff order_refl)

lemma scalars_take: "\<forall>c \<in> set s. scalar c \<Longrightarrow> \<forall>c \<in> set (take k s). scalar c"
  by (blast dest: in_set_takeD)

lemma longest_on_chars:
  assumes rep: "represents n m" and sc: "\<forall>c \<in> set s. scalar c"
  shows "longest n (as_bytes s) = map_option
    (\<lambda>(k, tok). (length (as_bytes (take k s)), tok, take k s)) (longest_prefix m s (length s))"
proof (cases "longest n (as_bytes s)")
  case None
  have "longest_prefix m s (length s) = None"
  proof (cases "longest_prefix m s (length s)")
    case (Some kt)
    then obtain k tok where "longest_prefix m s (length s) = Some (k, tok)"
      by (cases kt) auto
    then have k: "0 < k" "k \<le> length s" and tok: "m (take k s) = Some tok"
      by (auto dest!: longest_prefix_SomeD)
    let ?j = "length (as_bytes (take k s))"
    have "lookup n (take ?j (as_bytes s)) \<noteq> None"
      using representsD(2) [OF rep tok] by (simp add: as_bytes_take)
    then show ?thesis
      using None longest_maximal [of ?j "as_bytes s" n] length_as_bytes_less [OF k] as_bytes_take_le
      by auto
  qed
  with None show ?thesis
    by simp
next
  case (Some a)
  then obtain j tok t where long: "longest n (as_bytes s) = Some (j, tok, t)"
    by (cases a) auto
  then have j: "0 < j" "j \<le> length (as_bytes s)" "lookup n (take j (as_bytes s)) = Some (tok, t)"
    using longest_SomeD by blast+
  then have t: "m t = Some tok" "take j (as_bytes s) = as_bytes t"
    using representsD(1) [OF rep] by blast+
  then have "as_bytes s = as_bytes t @ drop j (as_bytes s)"
    by (metis append_take_drop_id)
  then obtain u where u: "s = t @ u"
    using as_bytes_prefix representsD(3) [OF rep t(1)] sc by blast
  have jt: "j = length (as_bytes t)"
    by (metis t(2) j(2) length_take min.absorb2)
  have "longest_prefix m s (length s) = Some (length t, tok)"
  proof (cases "longest_prefix m s (length s)")
    case None
    have "0 < length t" "length t \<le> length s"
      using j(1) jt u by (auto simp: as_bytes_def)
    then show ?thesis
      using longest_prefix_NoneD [OF None, of "length t"] t(1) u by simp
  next
    case (Some b)
    then obtain k tk where k: "longest_prefix m s (length s) = Some (k, tk)"
      by (cases b) auto
    then have kk: "0 < k" "k \<le> length s" "m (take k s) = Some tk"
      and up: "\<And>i. k < i \<Longrightarrow> i \<le> length s \<Longrightarrow> m (take i s) = None"
      by (auto dest!: longest_prefix_SomeD)
    have "\<not> k < length t"
      using up [of "length t"] t(1) u by auto
    moreover have "\<not> length t < k"
    proof
      assume less: "length t < k"
      let ?i = "length (as_bytes (take k s))"
      have "lookup n (take ?i (as_bytes s)) \<noteq> None"
        using representsD(2) [OF rep kk(3)] by (simp add: as_bytes_take)
      moreover have "j < ?i"
        using length_as_bytes_less [OF less kk(2)] u jt by simp
      moreover have "?i \<le> length (as_bytes s)"
        by (rule as_bytes_take_le)
      moreover have "0 < ?i"
        using \<open>j < ?i\<close> by linarith
      ultimately obtain l r where "longest n (as_bytes s) = Some (l, r)" "?i \<le> l"
        using longest_maximal by blast
      with long \<open>j < ?i\<close> show False
        by simp
    qed
    ultimately have "k = length t"
      by simp
    with k kk(3) t(1) u show ?thesis
      by simp
  qed
  with long jt u show ?thesis
    by simp
qed

lemma longest_at_cont:
  assumes rep: "represents n m" and b: "is_cont b"
  shows "longest n (b # bs) = None"
proof (cases "longest n (b # bs)")
  case (Some a)
  then obtain j tok t where "longest n (b # bs) = Some (j, tok, t)"
    by (cases a) auto
  then have j: "0 < j" and look: "lookup n (take j (b # bs)) = Some (tok, t)"
    using longest_SomeD by blast+
  then have t: "m t = Some tok" "take j (b # bs) = as_bytes t"
    using representsD(1) [OF rep] by blast+
  then obtain c u where cu: "t = c # u"
    using j by (cases t) (auto simp: take_Cons split: nat.splits)
  have "hd (utf8_char c) = hd (as_bytes t)"
    by (simp add: cu)
  also have "\<dots> = b"
    unfolding t(2) [symmetric] using j by (cases j) auto
  finally show ?thesis
    using utf8_head_lead [of c] representsD(3) [OF rep t(1)] b cu by simp
qed

section \<open>Splitting bytes is splitting characters\<close>

lemma flush_chars:
  assumes "\<forall>c \<in> set plain. scalar c"
  shows "flush (as_bytes plain) pieces = pieces @ plain_piece plain"
proof -
  have "as_bytes plain = [] \<longleftrightarrow> plain = []"
    by (cases plain) auto
  then show ?thesis
    by (simp add: flush_def plain_piece_def lossy_inverts_utf8 [OF assms])
qed

text \<open>Inside a character nothing matches: its remaining bytes are pushed one by one.\<close>

lemma split_loop_conts:
  assumes rep: "represents n m" and conts: "\<forall>b \<in> set bs. is_cont b"
  shows "split_loop n (pre @ bs @ post) (length pre) plain pieces
    = split_loop n (pre @ bs @ post) (length pre + length bs) (plain @ bs) pieces"
  using conts
proof (induction bs arbitrary: pre plain)
  case (Cons b bs)
  have "match_at n (pre @ (b # bs) @ post) (length pre) = (-1, 0, [])"
    using longest_at_cont [OF rep] Cons.prems by (simp add: match_at_longest)
  then have "split_loop n (pre @ (b # bs) @ post) (length pre) plain pieces
      = split_loop n ((pre @ [b]) @ bs @ post) (length (pre @ [b])) (plain @ [b]) pieces"
    by (subst split_loop.simps) simp
  also have "\<dots> = split_loop n ((pre @ [b]) @ bs @ post) (length (pre @ [b]) + length bs)
      ((plain @ [b]) @ bs) pieces"
    using Cons by (intro Cons.IH) simp
  finally show ?case
    by simp
qed simp

lemma split_loop_char:
  assumes rep: "represents n m" and sc: "\<forall>c \<in> set (c # s). scalar c"
    and none: "longest_prefix m (c # s) (length (c # s)) = None"
  shows "split_loop n (pre @ as_bytes (c # s)) (length pre) plain pieces
    = split_loop n (pre @ as_bytes (c # s)) (length pre + length (utf8_char c))
        (plain @ utf8_char c) pieces"
proof -
  obtain b bs where cb: "utf8_char c = b # bs"
    by (cases "utf8_char c") auto
  have conts: "\<forall>b \<in> set bs. is_cont b"
    using utf8_tail_cont [of c] sc cb by simp
  have "longest n (as_bytes (c # s)) = None"
    using longest_on_chars [OF rep sc] none by simp
  then have "match_at n (pre @ as_bytes (c # s)) (length pre) = (-1, 0, [])"
    by (simp add: match_at_longest)
  then have "split_loop n (pre @ as_bytes (c # s)) (length pre) plain pieces
      = split_loop n ((pre @ [b]) @ bs @ as_bytes s) (length (pre @ [b])) (plain @ [b]) pieces"
    by (subst split_loop.simps) (simp add: cb)
  also have "\<dots> = split_loop n ((pre @ [b]) @ bs @ as_bytes s) (length (pre @ [b]) + length bs)
      ((plain @ [b]) @ bs) pieces"
    by (rule split_loop_conts [OF rep conts])
  finally show ?thesis
    by (simp add: cb)
qed

lemma split_loop_reference:
  "represents n m \<Longrightarrow> \<forall>c \<in> set plain. scalar c \<Longrightarrow> \<forall>c \<in> set s. scalar c \<Longrightarrow>
    split_loop n (pre @ as_bytes s) (length pre) (as_bytes plain) pieces
      = pieces @ split_reference m plain s"
proof (induction m plain s arbitrary: pre pieces rule: split_reference.induct)
  case (1 m plain s)
  show ?case
  proof (cases s)
    case Nil
    then show ?thesis
      by (subst split_loop.simps, subst split_reference.simps) (simp add: flush_chars 1)
  next
    case (Cons c rest)
    show ?thesis
    proof (cases "longest_prefix m s (length s)")
      case None
      then have "split_loop n (pre @ as_bytes s) (length pre) (as_bytes plain) pieces
          = split_loop n ((pre @ utf8_char c) @ as_bytes rest) (length (pre @ utf8_char c))
              (as_bytes (plain @ [c])) pieces"
        using split_loop_char [OF 1(3) 1(5) [unfolded Cons] None [unfolded Cons],
            of pre "as_bytes plain" pieces]
        by (simp add: Cons)
      also have "\<dots> = pieces @ split_reference m (plain @ [c]) rest"
        using 1(3,4,5) unfolding Cons by (intro 1(1) [OF Cons None]) simp_all
      also have "split_reference m (plain @ [c]) rest = split_reference m plain s"
        by (subst (2) split_reference.simps) (use Cons None in \<open>simp del: longest_prefix.simps\<close>)
      finally show ?thesis .
    next
      case (Some kt)
      then obtain k tok where k: "longest_prefix m s (length s) = Some (k, tok)"
        by (cases kt) auto
      let ?piece = "\<lparr>piece_text = take k s, piece_id = tok, special = True\<rparr>"
      have len: "0 < length (as_bytes (take k s))"
        using length_as_bytes_less [of 0 k s] longest_prefix_SomeD [OF k] by simp
      have "match_at n (pre @ as_bytes s) (length pre)
          = (tok, length (as_bytes (take k s)), take k s)"
        using longest_on_chars [OF 1(3) 1(5)] k Cons by (simp add: match_at_longest)
      then have "split_loop n (pre @ as_bytes s) (length pre) (as_bytes plain) pieces
          = split_loop n (pre @ as_bytes s) (length pre + length (as_bytes (take k s)))
              (as_bytes []) (pieces @ plain_piece plain @ [?piece])"
        using len Cons by (subst split_loop.simps) (simp add: flush_chars 1(4))
      also have "\<dots> = split_loop n ((pre @ as_bytes (take k s)) @ as_bytes (drop k s))
          (length (pre @ as_bytes (take k s))) (as_bytes []) (pieces @ plain_piece plain @ [?piece])"
        by (simp flip: as_bytes_simps(3))
      also have "\<dots> = (pieces @ plain_piece plain @ [?piece]) @ split_reference m [] (drop k s)"
        using 1(3,5) by (intro 1(2) [OF Cons k refl]) (auto dest: in_set_dropD)
      also have "\<dots> = pieces @ split_reference m plain s"
        by (subst (2) split_reference.simps) (use Cons k in \<open>simp del: longest_prefix.simps\<close>)
      finally show ?thesis .
    qed
  qed
qed

lemma split_specials_reference:
  assumes "represents n m" "\<forall>c \<in> set s. scalar c"
  shows "split_specials n s = split_reference m [] s"
  using split_loop_reference [OF assms(1) _ assms(2), of "[]" "[]" "[]"]
  by (simp add: split_specials_def)

text \<open>Nothing is lost: the pieces spell the text.\<close>

lemma split_reference_lossless:
  "concat (map piece_text (split_reference m plain s)) = plain @ s"
proof (induction m plain s rule: split_reference.induct)
  case (1 m plain s)
  have plain: "concat (map piece_text (plain_piece plain)) = plain"
    by (simp add: plain_piece_def)
  show ?case
  proof (cases s)
    case Nil
    then show ?thesis
      by (subst split_reference.simps) (simp add: plain)
  next
    case (Cons c rest)
    then show ?thesis
      using 1 by (subst split_reference.simps)
        (auto simp: plain simp del: longest_prefix.simps split: option.split)
  qed
qed

lemma split_reference_pieces:
  "p \<in> set (split_reference m plain s) \<Longrightarrow>
     if special p then m (piece_text p) = Some (piece_id p) else piece_text p \<noteq> []"
proof (induction m plain s rule: split_reference.induct)
  case (1 m plain s)
  show ?case
  proof (cases s)
    case Nil
    with 1(3) show ?thesis
      by (subst (asm) split_reference.simps) (auto simp: plain_piece_def split: if_splits)
  next
    case (Cons c rest)
    show ?thesis
    proof (cases "longest_prefix m s (length s)")
      case None
      with 1(3) Cons have "p \<in> set (split_reference m (plain @ [c]) rest)"
        by (subst (asm) split_reference.simps) (simp del: longest_prefix.simps)
      then show ?thesis
        by (rule 1(1) [OF Cons None])
    next
      case (Some kt)
      then obtain k tok where k: "longest_prefix m s (length s) = Some (k, tok)"
        by (cases kt) auto
      with 1(3) Cons have "p \<in> set (plain_piece plain)
          \<or> p = \<lparr>piece_text = take k s, piece_id = tok, special = True\<rparr>
          \<or> p \<in> set (split_reference m [] (drop k s))"
        by (subst (asm) split_reference.simps) (auto simp del: longest_prefix.simps)
      then show ?thesis
        using 1(2) [OF Cons k refl] longest_prefix_SomeD [OF k]
        by (auto simp: plain_piece_def split: if_splits)
    qed
  qed
qed

end
