(* ===== verification/Pre_Split.thy ===== *)
theory Pre_Split
  imports Utf8
begin

text \<open>
  The pre-tokenizer \<open>gpt2_pre_split\<close> of \<open>eou/bpe.rs\<close>: contractions, words, numbers and
  runs of symbols with one optional leading space, and runs of whitespace. The Unicode
  classes \<open>is_alphabetic\<close> and \<open>is_numeric\<close> are the parameters \<open>al\<close> and \<open>nu\<close>; White_Space is
  written out. A turn of the loop yields the index ranges it pushes and the next index, so
  that the bounds of every slice are part of the model. The lemmas show that the ranges
  tile the text.
\<close>

definition is_whitespace :: "nat \<Rightarrow> bool" where
  "is_whitespace c \<longleftrightarrow> (9 \<le> c \<and> c \<le> 13) \<or> c = 0x20 \<or> c = 0x85 \<or> c = 0xA0 \<or> c = 0x1680
     \<or> (0x2000 \<le> c \<and> c \<le> 0x200A) \<or> c = 0x2028 \<or> c = 0x2029 \<or> c = 0x202F \<or> c = 0x205F
     \<or> c = 0x3000"

definition slice :: "'a list \<Rightarrow> nat \<Rightarrow> nat \<Rightarrow> 'a list" where
  "slice xs a b = take (b - a) (drop a xs)"

text \<open>\<open>while j < n && p(chars[j]) { j += 1 }\<close>\<close>

function scan :: "(nat \<Rightarrow> bool) \<Rightarrow> ustring \<Rightarrow> nat \<Rightarrow> nat" where
  "scan p cs j = (if j < length cs \<and> p (cs ! j) then scan p cs (j + 1) else j)"
  by pat_completeness auto
termination by (relation "measure (\<lambda>(p, cs, j). length cs - j)") auto

declare scan.simps [simp del]

text \<open>The length of a contraction at \<open>i\<close>: 's 'd 'm 't, and 'll 've 're.\<close>

definition contraction :: "ustring \<Rightarrow> nat \<Rightarrow> nat option" where
  "contraction cs i =
     (if cs ! i = 39 \<and> i + 1 < length cs then
        if cs ! (i + 1) \<in> {115, 100, 109, 116} then Some 2
        else if i + 2 < length cs
            \<and> (cs ! (i + 1), cs ! (i + 2)) \<in> {(108, 108), (118, 101), (114, 101)} then Some 3
        else None
      else None)"

definition advanced :: "nat \<Rightarrow> nat \<Rightarrow> nat option" where
  "advanced probe j = (if probe < j then Some j else None)"

definition is_symbol :: "(nat \<Rightarrow> bool) \<Rightarrow> (nat \<Rightarrow> bool) \<Rightarrow> nat \<Rightarrow> bool" where
  "is_symbol al nu c \<longleftrightarrow> \<not> is_whitespace c \<and> \<not> al c \<and> \<not> nu c"

definition or_else :: "'a option \<Rightarrow> 'a option \<Rightarrow> 'a option" where
  "or_else x y = (case x of Some v \<Rightarrow> Some v | None \<Rightarrow> y)"

text \<open>The end of a run of letters, digits or symbols from \<open>probe\<close>, tried in this order.\<close>

definition run_end :: "(nat \<Rightarrow> bool) \<Rightarrow> (nat \<Rightarrow> bool) \<Rightarrow> ustring \<Rightarrow> nat \<Rightarrow> nat option" where
  "run_end al nu cs probe =
     (let c = cs ! probe in
      or_else (if al c then advanced probe (scan al cs probe) else None)
        (or_else (if nu c then advanced probe (scan nu cs probe) else None)
          (if is_symbol al nu c then advanced probe (scan (is_symbol al nu) cs probe) else None)))"

definition pre_split_step ::
  "(nat \<Rightarrow> bool) \<Rightarrow> (nat \<Rightarrow> bool) \<Rightarrow> ustring \<Rightarrow> nat \<Rightarrow> (nat \<times> nat) list \<times> nat" where
  "pre_split_step al nu cs i =
     (case contraction cs i of
        Some k \<Rightarrow> ([(i, i + k)], i + k)
      | None \<Rightarrow>
          (let probe = if cs ! i = 32 then i + 1 else i in
           case (if probe < length cs then run_end al nu cs probe else None) of
             Some j \<Rightarrow> ([(i, j)], j)
           | None \<Rightarrow>
               if is_whitespace (cs ! i) then
                 let j = scan is_whitespace cs i in
                 if j < length cs then
                   ((if i < j - 1 then [(i, j - 1)] else []) @ [(j - 1, j + 1)], j + 1)
                 else ([(i, j)], j)
               else ([(i, i + 1)], i + 1)))"

lemma contraction_SomeD: "contraction cs i = Some k \<Longrightarrow> 0 < k \<and> i + k \<le> length cs"
  by (auto simp: contraction_def split: if_splits)

lemma scan_bounds: "j \<le> length cs \<Longrightarrow> j \<le> scan p cs j \<and> scan p cs j \<le> length cs"
proof (induction p cs j rule: scan.induct)
  case (1 p cs j)
  then show ?case
    by (subst (1 2) scan.simps) auto
qed

lemma scan_Suc: "j < length cs \<Longrightarrow> p (cs ! j) \<Longrightarrow> scan p cs j = scan p cs (j + 1)"
  by (subst scan.simps) simp

lemma run_end_SomeD:
  assumes "run_end al nu cs probe = Some j" "probe < length cs"
  shows "probe < j \<and> j \<le> length cs"
  using assms scan_bounds [of probe cs]
  by (auto simp: run_end_def or_else_def advanced_def Let_def split: if_splits option.splits)

fun tiles :: "nat \<Rightarrow> (nat \<times> nat) list \<Rightarrow> nat \<Rightarrow> bool" where
  "tiles a [] b \<longleftrightarrow> a = b"
| "tiles a ((x, y) # rs) b \<longleftrightarrow> x = a \<and> x < y \<and> tiles y rs b"

lemma tiles_append: "tiles a rs b \<Longrightarrow> tiles b ss c \<Longrightarrow> tiles a (rs @ ss) c"
  by (induction a rs b rule: tiles.induct) auto

lemma tiles_le: "tiles a rs b \<Longrightarrow> a \<le> b"
  by (induction a rs b rule: tiles.induct) auto

lemma pre_split_step_tiles:
  assumes "i < length cs" "pre_split_step al nu cs i = (rs, i')"
  shows "tiles i rs i' \<and> i < i' \<and> i' \<le> length cs"
proof (cases "contraction cs i")
  case (Some k)
  with assms contraction_SomeD [OF Some] show ?thesis
    by (auto simp: pre_split_step_def)
next
  case None
  define probe where "probe = (if cs ! i = 32 then i + 1 else i)"
  show ?thesis
  proof (cases "if probe < length cs then run_end al nu cs probe else None")
    case (Some j)
    then have "probe < j" "j \<le> length cs"
      using run_end_SomeD by (metis option.distinct(1))+
    moreover have "i \<le> probe"
      by (simp add: probe_def)
    moreover have "(rs, i') = ([(i, j)], j)"
      using assms(2) None Some by (auto simp: pre_split_step_def Let_def probe_def [symmetric])
    ultimately show ?thesis
      by auto
  next
    case none: None
    have step: "(rs, i') = (if is_whitespace (cs ! i) then
        let j = scan is_whitespace cs i in
        if j < length cs then
          ((if i < j - 1 then [(i, j - 1)] else []) @ [(j - 1, j + 1)], j + 1)
        else ([(i, j)], j)
      else ([(i, i + 1)], i + 1))"
      using assms(2) None none by (simp add: pre_split_step_def Let_def probe_def [symmetric])
    show ?thesis
    proof (cases "is_whitespace (cs ! i)")
      case True
      then have "i < scan is_whitespace cs i" "scan is_whitespace cs i \<le> length cs"
        using scan_Suc [OF assms(1), of is_whitespace] scan_bounds [of "i + 1" cs is_whitespace]
          assms(1) by auto
      with step True show ?thesis
        by (auto simp: Let_def split: if_splits)
    next
      case False
      with step assms(1) show ?thesis
        by simp
    qed
  qed
qed

function pre_split_ranges ::
  "(nat \<Rightarrow> bool) \<Rightarrow> (nat \<Rightarrow> bool) \<Rightarrow> ustring \<Rightarrow> nat \<Rightarrow> (nat \<times> nat) list" where
  "pre_split_ranges al nu cs i =
     (if i < length cs then
        fst (pre_split_step al nu cs i)
          @ pre_split_ranges al nu cs (snd (pre_split_step al nu cs i))
      else [])"
  by pat_completeness auto
termination
proof (relation "measure (\<lambda>(al, nu, cs, i). length cs - i)", goal_cases)
  case (2 al nu cs i)
  then show ?case
    using pre_split_step_tiles [OF 2 prod.collapse [symmetric], of al nu]
    by (auto intro: diff_less_mono2)
qed simp

declare pre_split_ranges.simps [simp del]

definition gpt2_pre_split :: "(nat \<Rightarrow> bool) \<Rightarrow> (nat \<Rightarrow> bool) \<Rightarrow> ustring \<Rightarrow> ustring list" where
  "gpt2_pre_split al nu cs = map (\<lambda>(a, b). slice cs a b) (pre_split_ranges al nu cs 0)"

lemma pre_split_ranges_tile:
  "i \<le> length cs \<Longrightarrow> tiles i (pre_split_ranges al nu cs i) (length cs)"
proof (induction al nu cs i rule: pre_split_ranges.induct)
  case (1 al nu cs i)
  show ?case
  proof (cases "i < length cs")
    case True
    let ?st = "pre_split_step al nu cs i"
    have st: "tiles i (fst ?st) (snd ?st)" "snd ?st \<le> length cs"
      using pre_split_step_tiles [OF True prod.collapse [symmetric], of al nu] by simp_all
    have "tiles (snd ?st) (pre_split_ranges al nu cs (snd ?st)) (length cs)"
      by (rule 1(1) [OF True st(2)])
    then show ?thesis
      using True tiles_append [OF st(1)] by (subst pre_split_ranges.simps) simp
  next
    case False
    with 1(2) show ?thesis
      by (subst pre_split_ranges.simps) simp
  qed
qed

lemma slice_append:
  assumes "a \<le> y" "y \<le> b" shows "slice cs a y @ slice cs y b = slice cs a b"
proof -
  have "slice cs a b = take ((y - a) + (b - y)) (drop a cs)"
    using assms by (simp add: slice_def)
  also have "\<dots> = slice cs a y @ slice cs y b"
    unfolding take_add slice_def using assms by simp
  finally show ?thesis ..
qed

lemma tiles_slices:
  "tiles a rs b \<Longrightarrow> b \<le> length cs \<Longrightarrow> concat (map (\<lambda>(a, b). slice cs a b) rs) = slice cs a b"
proof (induction a rs b rule: tiles.induct)
  case (2 a x y rs b)
  then have "slice cs a y @ slice cs y b = slice cs a b"
    using tiles_le [of y rs b] by (intro slice_append) auto
  with 2 show ?case
    by simp
qed (simp add: slice_def)

lemma pre_split_lossless: "concat (gpt2_pre_split al nu cs) = cs"
  using tiles_slices [OF pre_split_ranges_tile [of 0 cs al nu], of cs]
  by (simp add: gpt2_pre_split_def slice_def)

lemma tiles_bounds: "tiles a rs b \<Longrightarrow> (x, y) \<in> set rs \<Longrightarrow> a \<le> x \<and> x < y \<and> y \<le> b"
proof (induction a rs b rule: tiles.induct)
  case (2 a u v rs b)
  then show ?case
    using tiles_le [of v rs b] by auto
qed simp

end
