(* ===== verification/Bpe.thy ===== *)
theory Bpe
  imports Byte_Map Special_Trie Pre_Split
begin

text \<open>
  The byte-level BPE tokenizer of \<open>eou/bpe.rs\<close>: building it from a parsed
  \<open>tokenizer.json\<close>, encoding a text and decoding ids. Hash maps are finite maps; the
  entries of the vocabulary arrive as the list in which the loader iterates over them.
  Token ids are \<open>i64\<close> values that are only stored and compared.
\<close>

section \<open>The tokenizer\<close>

record tokenizer =
  vocab :: "ustring \<Rightarrow> int option"
  id_to_token :: "int \<Rightarrow> ustring option"
  merges :: "ustring \<times> ustring \<Rightarrow> nat option"
  added_tokens :: "ustring \<Rightarrow> int option"
  special_trie :: special_node
  im_start_id :: int
  im_end_id :: int
  has_im_tokens :: bool

text \<open>The parsed file: the part of \<open>serde_json::Value\<close> that \<open>parse_merge\<close> distinguishes.\<close>

datatype json_value = Json_String ustring | Json_Array "json_value list" | Json_Other

record added_token_json =
  at_id :: int
  at_content :: ustring

record model_json =
  ty :: ustring
  model_vocab :: "(ustring \<times> int) list"
  model_merges :: "json_value list"

record tokenizer_json =
  json_added :: "added_token_json list"
  json_model :: model_json

datatype load_error = Unsupported_Model ustring

definition im_start :: ustring where
  "im_start = [60, 124, 105, 109, 95, 115, 116, 97, 114, 116, 124, 62]"

definition im_end :: ustring where
  "im_end = [60, 124, 105, 109, 95, 101, 110, 100, 124, 62]"

definition bpe_name :: ustring where
  "bpe_name = [66, 80, 69]"

section \<open>Loading\<close>

fun as_str :: "json_value \<Rightarrow> ustring option" where
  "as_str (Json_String s) = Some s"
| "as_str _ = None"

fun parse_merge :: "json_value \<Rightarrow> (ustring \<times> ustring) option" where
  "parse_merge (Json_String s) =
     (case position (\<lambda>c. c = 32) s of
        None \<Rightarrow> None
      | Some i \<Rightarrow>
          if i = 0 \<or> length s - 1 \<le> i then None else Some (take i s, drop (i + 1) s))"
| "parse_merge (Json_Array a) =
     (if length a \<noteq> 2 then None
      else case as_str (a ! 0) of
        None \<Rightarrow> None
      | Some l \<Rightarrow> (case as_str (a ! 1) of None \<Rightarrow> None | Some r \<Rightarrow> Some (l, r)))"
| "parse_merge Json_Other = None"

definition add_vocab_entry :: "ustring \<times> int \<Rightarrow> tokenizer \<Rightarrow> tokenizer" where
  "add_vocab_entry e t = t\<lparr>vocab := (vocab t)(fst e \<mapsto> snd e),
     id_to_token := (id_to_token t)(snd e \<mapsto> fst e)\<rparr>"

definition add_merge :: "nat \<times> json_value \<Rightarrow> tokenizer \<Rightarrow> tokenizer" where
  "add_merge e t = (case parse_merge (snd e) of
     Some lr \<Rightarrow> t\<lparr>merges := (merges t)(lr \<mapsto> fst e)\<rparr>
   | None \<Rightarrow> t)"

definition add_added_token :: "added_token_json \<Rightarrow> tokenizer \<Rightarrow> tokenizer" where
  "add_added_token a t =
     (let t1 = t\<lparr>added_tokens := (added_tokens t)(at_content a \<mapsto> at_id a),
        id_to_token := (id_to_token t)(at_id a \<mapsto> at_content a),
        vocab := (if vocab t (at_content a) = None then (vocab t)(at_content a \<mapsto> at_id a)
                  else vocab t),
        special_trie := insert_special (at_content a) (at_id a) (special_trie t)\<rparr> in
      if at_content a = im_start then t1\<lparr>im_start_id := at_id a\<rparr>
      else if at_content a = im_end then t1\<lparr>im_end_id := at_id a\<rparr>
      else t1)"

definition empty_tokenizer :: tokenizer where
  "empty_tokenizer = \<lparr>vocab = Map.empty, id_to_token = Map.empty, merges = Map.empty,
     added_tokens = Map.empty, special_trie = empty_node, im_start_id = -1, im_end_id = -1,
     has_im_tokens = False\<rparr>"

definition resolve_im_ids :: "tokenizer \<Rightarrow> tokenizer" where
  "resolve_im_ids t =
     (let t1 = (if im_end_id t < 0 then
          (case vocab t im_end of Some i \<Rightarrow> t\<lparr>im_end_id := i\<rparr> | None \<Rightarrow> t) else t);
        t2 = (if im_start_id t1 < 0 then
          (case vocab t1 im_start of Some i \<Rightarrow> t1\<lparr>im_start_id := i\<rparr> | None \<Rightarrow> t1) else t1)
      in t2\<lparr>has_im_tokens := 0 \<le> im_end_id t2\<rparr>)"

definition load_from_json :: "tokenizer_json \<Rightarrow> load_error + tokenizer" where
  "load_from_json tj =
     (let m = json_model tj in
      if ty m \<noteq> [] \<and> ty m \<noteq> bpe_name then Inl (Unsupported_Model (ty m))
      else
        let t1 = fold add_vocab_entry (model_vocab m) empty_tokenizer;
            t2 = fold add_merge (List.enumerate 0 (model_merges m)) t1;
            t3 = fold add_added_token (json_added tj) t2
        in Inr (resolve_im_ids t3))"

section \<open>Merging\<close>

definition best_step ::
  "(ustring \<times> ustring \<Rightarrow> nat option) \<Rightarrow> ustring list \<Rightarrow> nat \<Rightarrow> nat \<times> int \<Rightarrow> nat \<times> int" where
  "best_step m tokens i best =
     (case m (tokens ! i, tokens ! (i + 1)) of
        Some rank \<Rightarrow> if rank < fst best then (rank, int i) else best
      | None \<Rightarrow> best)"

definition best_pair ::
  "(ustring \<times> ustring \<Rightarrow> nat option) \<Rightarrow> ustring list \<Rightarrow> nat \<times> int" where
  "best_pair m tokens = fold (best_step m tokens) [0..<length tokens - 1] (usize_max, -1)"

text \<open>What the scan knows after \<open>k\<close> pairs: the leftmost pair of least rank below the start.\<close>

definition best_upto ::
  "(ustring \<times> ustring \<Rightarrow> nat option) \<Rightarrow> ustring list \<Rightarrow> nat \<Rightarrow> nat \<times> int \<Rightarrow> bool" where
  "best_upto m tokens k best \<longleftrightarrow>
     (if snd best < 0 then fst best = usize_max
      else nat (snd best) < k \<and> fst best < usize_max
        \<and> m (tokens ! nat (snd best), tokens ! (nat (snd best) + 1)) = Some (fst best))
     \<and> (\<forall>i<k. \<forall>r. m (tokens ! i, tokens ! (i + 1)) = Some r \<longrightarrow> fst best \<le> r
          \<and> (0 \<le> snd best \<longrightarrow> i < nat (snd best) \<longrightarrow> fst best < r))"

lemma best_upto_fold:
  "best_upto m tokens k (fold (best_step m tokens) [0..<k] (usize_max, -1))"
proof (induction k)
  case (Suc k)
  let ?b = "fold (best_step m tokens) [0..<k] (usize_max, -1)"
  have "best_upto m tokens (Suc k) (best_step m tokens k ?b)"
    using Suc unfolding best_upto_def best_step_def
    by (auto simp: less_Suc_eq split: option.split if_splits)
  then show ?case
    by simp
qed (simp add: best_upto_def)

lemma best_pair_best: "best_upto m tokens (length tokens - 1) (best_pair m tokens)"
  unfolding best_pair_def by (rule best_upto_fold)

lemma best_pair_bound:
  assumes "\<not> snd (best_pair m tokens) < 0"
  shows "nat (snd (best_pair m tokens)) + 1 < length tokens"
  using best_pair_best [of m tokens] assms by (auto simp: best_upto_def)

definition splice_merge :: "ustring list \<Rightarrow> nat \<Rightarrow> ustring list" where
  "splice_merge tokens i = take i tokens @ [tokens ! i @ tokens ! (i + 1)] @ drop (i + 2) tokens"

lemma length_splice_merge:
  "i + 1 < length tokens \<Longrightarrow> length (splice_merge tokens i) < length tokens"
  by (simp add: splice_merge_def)

function merge_loop ::
  "(ustring \<times> ustring \<Rightarrow> nat option) \<Rightarrow> ustring list \<Rightarrow> ustring list" where
  "merge_loop m tokens =
     (if snd (best_pair m tokens) < 0 then tokens
      else merge_loop m (splice_merge tokens (nat (snd (best_pair m tokens)))))"
  by pat_completeness auto
termination
  by (relation "measure (\<lambda>(m, tokens). length tokens)")
    (auto intro!: length_splice_merge dest: best_pair_bound simp del: One_nat_def)

declare merge_loop.simps [simp del]

definition bpe_merges :: "tokenizer \<Rightarrow> ustring \<Rightarrow> ustring list" where
  "bpe_merges t s = (if s = [] then [] else merge_loop (merges t) (map (\<lambda>c. [c]) s))"

section \<open>Encoding and decoding\<close>

definition token_ids :: "tokenizer \<Rightarrow> ustring \<Rightarrow> int list" where
  "token_ids t tok =
     (case vocab t tok of
        Some i \<Rightarrow> [i]
      | None \<Rightarrow> List.map_filter (\<lambda>r. vocab t [r]) tok)"

definition encode_plain ::
  "(nat \<Rightarrow> bool) \<Rightarrow> (nat \<Rightarrow> bool) \<Rightarrow> tokenizer \<Rightarrow> ustring \<Rightarrow> int list" where
  "encode_plain al nu t text =
     (if text = [] then []
      else concat (map (\<lambda>s. concat (map (token_ids t) (bpe_merges t (bytes_to_bpe_chars s))))
             (gpt2_pre_split al nu text)))"

definition encode ::
  "(nat \<Rightarrow> bool) \<Rightarrow> (nat \<Rightarrow> bool) \<Rightarrow> tokenizer \<Rightarrow> ustring \<Rightarrow> int list" where
  "encode al nu t text =
     (if text = [] then []
      else concat (map (\<lambda>p. if special p then [piece_id p] else encode_plain al nu t (piece_text p))
             (split_specials (special_trie t) text)))"

definition decode :: "tokenizer \<Rightarrow> int list \<Rightarrow> ustring" where
  "decode t ids = bpe_chars_to_bytes
     (concat (map (\<lambda>i. case id_to_token t i of Some tok \<Rightarrow> tok | None \<Rightarrow> []) ids))"

end
