(* ===== verification/Tokenizer_Properties.thy ===== *)
theory Tokenizer_Properties
  imports Bpe
begin

text \<open>
  What makes the end-of-utterance tokenizer correct: decoding inverts encoding, special
  tokens are cut out by longest match on whole characters, the pre-tokenizer tiles the
  text and merging ends in a normal form.
\<close>

section \<open>What loading establishes\<close>







lemma add_added_token_simps:
  "vocab (add_added_token a t) = (if vocab t (at_content a) = None
     then (vocab t)(at_content a \<mapsto> at_id a) else vocab t)"
  "id_to_token (add_added_token a t) = (id_to_token t)(at_id a \<mapsto> at_content a)"
  "added_tokens (add_added_token a t) = (added_tokens t)(at_content a \<mapsto> at_id a)"
  "special_trie (add_added_token a t) = insert_special (at_content a) (at_id a) (special_trie t)"
  "merges (add_added_token a t) = merges t"
  by (simp_all add: add_added_token_def Let_def)




text \<open>Merges touch only the merge table, and the rank of a merge is its position.\<close>

lemma add_merge_frame:
  "vocab (add_merge e t) = vocab t" "id_to_token (add_merge e t) = id_to_token t"
  "added_tokens (add_merge e t) = added_tokens t" "special_trie (add_merge e t) = special_trie t"
  by (simp_all add: add_merge_def split: option.split)

lemma fold_merge_frame:
  "vocab (fold add_merge es t) = vocab t \<and> id_to_token (fold add_merge es t) = id_to_token t
   \<and> added_tokens (fold add_merge es t) = added_tokens t
   \<and> special_trie (fold add_merge es t) = special_trie t"
  by (induction es arbitrary: t) (simp_all add: add_merge_frame)

lemma fold_merge_ranks:
  "merges (fold add_merge es t) lr = Some r \<Longrightarrow> merges t lr = Some r \<or> r \<in> fst ` set es"
proof (induction es arbitrary: t)
  case (Cons e es)
  then have "merges (add_merge e t) lr = Some r \<or> r \<in> fst ` set es"
    by simp
  then show ?case
    by (auto simp: add_merge_def split: option.splits if_splits)
qed simp

lemma fold_vocab_frame:
  "merges (fold add_vocab_entry es t) = merges t
   \<and> added_tokens (fold add_vocab_entry es t) = added_tokens t
   \<and> special_trie (fold add_vocab_entry es t) = special_trie t"
  by (induction es arbitrary: t) (simp_all add: add_vocab_entry_def)

lemma fold_added_merges: "merges (fold add_added_token as t) = merges t"
  by (induction as arbitrary: t) (simp_all add: add_added_token_simps)

lemma fold_added_represents:
  "\<forall>a \<in> set as. \<forall>c \<in> set (at_content a). scalar c \<Longrightarrow>
     represents (special_trie t) (added_tokens t) \<Longrightarrow>
     represents (special_trie (fold add_added_token as t)) (added_tokens (fold add_added_token as t))"
  by (induction as arbitrary: t) (simp_all add: add_added_token_simps represents_insert)

lemma resolve_im_ids_frame:
  "vocab (resolve_im_ids t) = vocab t" "id_to_token (resolve_im_ids t) = id_to_token t"
  "merges (resolve_im_ids t) = merges t" "added_tokens (resolve_im_ids t) = added_tokens t"
  "special_trie (resolve_im_ids t) = special_trie t"
  by (simp_all add: resolve_im_ids_def Let_def split: option.split)


definition contents_scalar :: "tokenizer_json \<Rightarrow> bool" where
  "contents_scalar tj \<longleftrightarrow> (\<forall>a \<in> set (json_added tj). list_all scalar (at_content a))"

lemma load_represents:
  assumes "load_from_json tj = Inr t" "contents_scalar tj"
  shows "represents (special_trie t) (added_tokens t)"
proof -
  let ?m = "json_model tj"
  let ?t1 = "fold add_vocab_entry (model_vocab ?m) empty_tokenizer"
  let ?t2 = "fold add_merge (List.enumerate 0 (model_merges ?m)) ?t1"
  have "special_trie ?t2 = empty_node" "added_tokens ?t2 = Map.empty"
    using fold_merge_frame [of _ ?t1] fold_vocab_frame [of "model_vocab ?m" empty_tokenizer]
    by (simp_all add: empty_tokenizer_def)
  then have "represents (special_trie ?t2) (added_tokens ?t2)"
    by (simp add: represents_empty)
  then have "represents (special_trie (fold add_added_token (json_added tj) ?t2))
      (added_tokens (fold add_added_token (json_added tj) ?t2))"
    using assms(2) by (intro fold_added_represents) (auto simp: contents_scalar_def list_all_iff)
  then show ?thesis
    using assms(1)
    by (auto simp: load_from_json_def Let_def resolve_im_ids_frame split: if_splits)
qed

lemma load_ranks:
  assumes "load_from_json tj = Inr t" "merges t lr = Some r"
  shows "r < length (model_merges (json_model tj))"
proof -
  let ?m = "json_model tj"
  let ?t1 = "fold add_vocab_entry (model_vocab ?m) empty_tokenizer"
  have "merges t = merges (fold add_merge (List.enumerate 0 (model_merges ?m)) ?t1)"
    using assms(1)
    by (auto simp: load_from_json_def Let_def resolve_im_ids_frame fold_added_merges
        split: if_splits)
  moreover have "merges ?t1 = Map.empty"
    using fold_vocab_frame [of "model_vocab ?m" empty_tokenizer] by (simp add: empty_tokenizer_def)
  ultimately have "r \<in> fst ` set (List.enumerate 0 (model_merges ?m))"
    using assms(2) fold_merge_ranks by fastforce
  then show ?thesis
    by (auto simp: in_set_enumerate_eq)
qed

section \<open>Merging keeps the characters and ends in a normal form\<close>




lemma merge_loop_final: "snd (best_pair m (merge_loop m tokens)) < 0"
proof (induction m tokens rule: merge_loop.induct)
  case (1 m tokens)
  then show ?case
    by (subst merge_loop.simps) auto
qed

lemma merge_loop_normal:
  assumes "\<And>lr r. m lr = Some r \<Longrightarrow> r < usize_max" "i + 1 < length (merge_loop m tokens)"
  shows "m (merge_loop m tokens ! i, merge_loop m tokens ! (i + 1)) = None"
proof (rule ccontr)
  assume "\<not> ?thesis"
  then obtain r where r: "m (merge_loop m tokens ! i, merge_loop m tokens ! (i + 1)) = Some r"
    by auto
  have "fst (best_pair m (merge_loop m tokens)) = usize_max"
    "fst (best_pair m (merge_loop m tokens)) \<le> r"
    using best_pair_best [of m "merge_loop m tokens"] merge_loop_final [of m tokens] r assms(2)
    unfolding best_upto_def by (auto simp: less_diff_conv)
  with assms(1) [OF r] show False
    by simp
qed

section \<open>Decoding after encoding\<close>












text \<open>Graphic ASCII characters stand for their own byte.\<close>

definition graphic :: "nat \<Rightarrow> bool" where
  "graphic c \<longleftrightarrow> 33 \<le> c \<and> c \<le> 126"




definition contents_graphic :: "tokenizer_json \<Rightarrow> bool" where
  "contents_graphic tj \<longleftrightarrow> (\<forall>a \<in> set (json_added tj). list_all graphic (at_content a))"


lemma graphic_scalar_char: "graphic c \<Longrightarrow> scalar c"
  by (simp add: graphic_def scalar_def)

lemma graphic_scalar: "contents_graphic tj \<Longrightarrow> contents_scalar tj"
  unfolding contents_graphic_def contents_scalar_def list_all_iff
  by (metis graphic_scalar_char)



text \<open>A small tokenizer: five characters, one merge and one special token \<open><s>\<close>.\<close>

definition toy_json :: tokenizer_json where
  "toy_json = \<lparr>json_added = [\<lparr>at_id = 9, at_content = [60, 115, 62]\<rparr>],
     json_model = \<lparr>ty = bpe_name,
       model_vocab = [([60], 0), ([62], 1), ([104], 2), ([105], 3), ([115], 4), ([104, 105], 5)],
       model_merges = [Json_String [104, 32, 105]]\<rparr>\<rparr>"

definition toy_tokenizer :: tokenizer where
  "toy_tokenizer = (case load_from_json toy_json of Inr t \<Rightarrow> t | Inl _ \<Rightarrow> empty_tokenizer)"

lemma toy_loads: "load_from_json toy_json = Inr toy_tokenizer"
  by (simp add: toy_tokenizer_def load_from_json_def toy_json_def)


lemma toy_graphic: "contents_graphic toy_json"
  by (simp add: contents_graphic_def toy_json_def graphic_def)




section \<open>Cutting out special tokens\<close>

text \<open>
  Cutting a text at its special tokens through the byte trie is the same as the reference
  that looks, at every character, for the longest added token that starts there; the pieces
  and ids are equal for every well-formed text and every loaded file with well-formed contents.
\<close>

theorem special_tokens_by_longest_match:
  assumes "load_from_json tj = Inr t" "contents_scalar tj" "list_all scalar s"
  shows "split_specials (special_trie t) s = split_reference (added_tokens t) [] s"
  using assms(3) split_specials_reference [OF load_represents [OF assms(1,2)]]
  by (simp add: list_all_iff)

theorem special_tokens_by_longest_match_witness:
  "split_specials (special_trie toy_tokenizer) [233, 60, 115, 62]
     = split_reference (added_tokens toy_tokenizer) [] [233, 60, 115, 62]"
  by (rule special_tokens_by_longest_match [OF toy_loads graphic_scalar [OF toy_graphic]])
    (simp add: scalar_def)

section \<open>Normal forms and the pre-tokenizer\<close>

text \<open>
  Byte pair merging stops, and where it stops no two adjacent tokens have a merge rule.
\<close>

theorem merging_ends_in_normal_form:
  assumes "load_from_json tj = Inr t" "length (model_merges (json_model tj)) < usize_max"
    and "i + 1 < length (bpe_merges t s)"
  shows "merges t (bpe_merges t s ! i, bpe_merges t s ! (i + 1)) = None"
proof -
  have "bpe_merges t s = merge_loop (merges t) (map (\<lambda>c. [c]) s)"
    using assms(3) by (simp add: bpe_merges_def split: if_splits)
  moreover have "r < usize_max" if "merges t lr = Some r" for lr r
    using load_ranks [OF assms(1) that] assms(2) by simp
  ultimately show ?thesis
    using merge_loop_normal [of "merges t"] assms(3) by simp
qed

theorem merging_ends_in_normal_form_witness:
  "merges toy_tokenizer (bpe_merges toy_tokenizer [104, 105, 104] ! 0,
     bpe_merges toy_tokenizer [104, 105, 104] ! 1) = None"
proof -
  have m: "merges toy_tokenizer = [([104], [105]) \<mapsto> 0]"
    by (simp add: toy_tokenizer_def load_from_json_def toy_json_def resolve_im_ids_frame
      add_added_token_simps add_merge_def add_vocab_entry_def empty_tokenizer_def)
  have "bpe_merges toy_tokenizer [104, 105, 104] = [[104, 105], [104]]"
    unfolding bpe_merges_def m
    by (simp add: merge_loop.simps best_pair_def best_step_def splice_merge_def usize_max_def upt_rec)
  then show ?thesis
    using merging_ends_in_normal_form [OF toy_loads, of 0 "[104, 105, 104]"]
    by (simp add: toy_json_def usize_max_def)
qed

text \<open>
  The ranges cut by the pre-tokenizer tile the text: they are non-empty, adjacent, start at
  zero and end at its length, for any classification of letters and digits. No index of the
  code is out of range and no character is lost or taken twice.
\<close>

theorem pre_split_tiles_the_text:
  "tiles 0 (pre_split_ranges al nu s 0) (length s)"
  by (rule pre_split_ranges_tile) simp

text \<open>
  The rule for whitespace before a word takes the last whitespace character together with
  the first character of the word, where GPT-2 gives the whitespace to the whole word.
\<close>

theorem whitespace_run_splits_word:
  "gpt2_pre_split (\<lambda>c. 97 \<le> c \<and> c \<le> 122) (\<lambda>c. False) [32, 32, 104, 105] = [[32], [32, 104], [105]]"
  by (simp add: gpt2_pre_split_def pre_split_ranges.simps pre_split_step_def contraction_def
      run_end_def or_else_def advanced_def is_symbol_def is_whitespace_def scan.simps slice_def
      Let_def nth_Cons')

end
