(* ===== verification/Ranges.thy ===== *)
theory Ranges
  imports Utf8
begin

text \<open>
  Numeric ranges as regular expressions, \<open>nv-grammar/src/ranges.rs\<close>: \<open>same_len\<close> for
  numerals of equal length, \<open>uint_range\<close>, \<open>int_range\<close>, \<open>magnitude\<close> and \<open>number_range\<close>. The
  code formats regex text; the model builds the expression, \<open>render\<close> is the text the code
  formats, and \<open>lang\<close> is what the expression matches. Strings are lists of ASCII codes.
  The \<open>u128\<close> and \<open>i128\<close> values stay below \<open>10 ^ 20\<close>, so they are \<open>nat\<close> and \<open>int\<close>.
\<close>

section \<open>Expressions\<close>

datatype rx =
  Lit ustring
| Dot
| Class nat nat
| Times_Range rx nat nat
| Times_Exact rx nat
| Opt rx
| Seq rx rx
| Group "rx list"

definition ascii :: "string \<Rightarrow> ustring" where
  "ascii s = map of_char s"

fun decimal :: "nat \<Rightarrow> ustring" where
  "decimal n = (if n < 10 then [48 + n] else decimal (n div 10) @ [48 + n mod 10])"

declare decimal.simps [simp del]

fun join :: "ustring list \<Rightarrow> ustring" where
  "join [] = []"
| "join [s] = s"
| "join (s # ss) = s @ ascii ''|'' @ join ss"

fun render :: "rx \<Rightarrow> ustring" where
  "render (Lit s) = s"
| "render Dot = [92, 46]"
| "render (Class a b) = ascii ''['' @ [a] @ ascii ''-'' @ [b] @ ascii '']''"
| "render (Times_Range r m n) = render r @ ascii ''{'' @ decimal m @ ascii '','' @ decimal n @ ascii ''}''"
| "render (Times_Exact r n) = render r @ ascii ''{'' @ decimal n @ ascii ''}''"
| "render (Opt r) = render r @ ascii ''?''"
| "render (Seq r s) = render r @ render s"
| "render (Group rs) = ascii ''(?:'' @ join (map render rs) @ ascii '')''"

fun power_lang :: "ustring set \<Rightarrow> nat \<Rightarrow> ustring set" where
  "power_lang L 0 = {[]}"
| "power_lang L (Suc n) = {s @ t | s t. s \<in> L \<and> t \<in> power_lang L n}"

text \<open>An alternation without branches is the empty expression.\<close>

fun lang :: "rx \<Rightarrow> ustring set" where
  "lang (Lit s) = {s}"
| "lang Dot = {[46]}"
| "lang (Class a b) = {[c] | c. a \<le> c \<and> c \<le> b}"
| "lang (Times_Range r m n) = (\<Union>k \<in> {m..n}. power_lang (lang r) k)"
| "lang (Times_Exact r n) = power_lang (lang r) n"
| "lang (Opt r) = insert [] (lang r)"
| "lang (Seq r s) = {u @ v | u v. u \<in> lang r \<and> v \<in> lang s}"
| "lang (Group rs) = (if rs = [] then {[]} else \<Union>r \<in> set rs. lang r)"

section \<open>The program\<close>

definition max_int_digits :: nat where
  "max_int_digits = 20"

definition any_frac :: rx where
  "any_frac = Opt (Group [Seq Dot (Times_Range (Class 48 57) 1 17)])"

definition nonzero_frac :: rx where
  "nonzero_frac =
     Seq Dot (Seq (Times_Range (Lit [48]) 0 16) (Seq (Class 49 57) (Times_Range (Class 48 57) 0 16)))"

definition zero_frac :: rx where
  "zero_frac = Opt (Group [Seq Dot (Times_Range (Lit [48]) 1 17)])"

definition uint_max :: nat where
  "uint_max = 10 ^ max_int_digits - 1"

function same_len :: "ustring \<Rightarrow> ustring \<Rightarrow> rx" where
  "same_len a b =
     (if a = b \<or> a = [] \<or> b = [] then Lit a
      else
        let a0 = hd a; ar = tl a; b0 = hd b; br = tl b; k = length ar in
        if ar = [] then Class a0 b0
        else if a0 = b0 then Seq (Lit [a0]) (same_len ar br)
        else if list_all (\<lambda>c. c = 48) ar \<and> list_all (\<lambda>c. c = 57) br then
          Seq (Class a0 b0) (Times_Exact (Class 48 57) k)
        else
          Group ([Seq (Lit [a0]) (same_len ar (replicate k 57))]
            @ (if 1 < b0 - a0 then [Seq (Class (a0 + 1) (b0 - 1)) (Times_Exact (Class 48 57) k)] else [])
            @ [Seq (Lit [b0]) (same_len (replicate k 48) br)]))"
  by pat_completeness auto
termination
  by (relation "measure (\<lambda>(a, b). length a)") auto

declare same_len.simps [simp del]

lemma decimal_bound: "n < 10 ^ length (decimal n)"
proof (induction n rule: decimal.induct)
  case (1 n)
  show ?case
  proof (cases "n < 10")
    case True
    then show ?thesis
      by (simp add: decimal.simps [of n])
  next
    case False
    then have "n div 10 < 10 ^ length (decimal (n div 10))"
      by (rule 1)
    then have "n < 10 * 10 ^ length (decimal (n div 10))"
      by (metis mult.commute nat_mult_less_cancel_disj div_less_iff_less_mult zero_less_numeral)
    with False show ?thesis
      by (subst decimal.simps) simp
  qed
qed

function uint_alts :: "nat \<Rightarrow> nat \<Rightarrow> rx list" where
  "uint_alts lo b =
     (if lo \<le> b then
        let hi = min b (10 ^ length (decimal lo) - 1) in
        same_len (decimal lo) (decimal hi) # uint_alts (hi + 1) b
      else [])"
  by pat_completeness auto
termination
proof (relation "measure (\<lambda>(lo, b). b + 1 - lo)", goal_cases)
  case (2 lo b hi)
  then show ?case
    using decimal_bound [of lo] by (auto simp: min_def)
qed simp

declare uint_alts.simps [simp del]

definition uint_range :: "nat \<Rightarrow> nat \<Rightarrow> rx" where
  "uint_range a b = Group (uint_alts a (min b uint_max))"

datatype range_error = No_Integer int int | No_Number

definition int_range :: "int option \<Rightarrow> int option \<Rightarrow> range_error + rx" where
  "int_range lo0 hi0 =
     (let mx = int uint_max;
          lo = max (case lo0 of Some l \<Rightarrow> l | None \<Rightarrow> - mx) (- mx);
          hi = min (case hi0 of Some h \<Rightarrow> h | None \<Rightarrow> mx) mx in
      if hi < lo then Inl (No_Integer lo hi)
      else Inr (Group
        ((if lo < 0 then
            [Seq (Lit [45]) (uint_range (nat (if hi < 0 then - hi else 1)) (nat (- lo)))] else [])
         @ (if 0 \<le> hi then [uint_range (nat (max lo 0)) (nat hi)] else []))))"

record bound =
  at :: int
  exclusive :: bool

definition magnitude :: "nat \<Rightarrow> bool \<Rightarrow> (nat \<times> bool) option \<Rightarrow> rx option" where
  "magnitude a a_excl bd =
     (let body = Some (Group (
            [if a_excl then Seq (Lit (decimal a)) nonzero_frac else Seq (Lit (decimal a)) any_frac]
            @ (case (case bd of
                  Some (b, _) \<Rightarrow> if b = 0 then None else Some (b - 1)
                | None \<Rightarrow> Some uint_max) of
                 Some mid_hi \<Rightarrow> if a < mid_hi then [Seq (uint_range (a + 1) mid_hi) any_frac] else []
               | None \<Rightarrow> [])
            @ (case bd of Some (b, False) \<Rightarrow> [Seq (Lit (decimal b)) zero_frac] | _ \<Rightarrow> []))) in
      case bd of
        Some (b, b_excl) \<Rightarrow>
          if b < a then None
          else if b = a then
            (if \<not> a_excl \<and> \<not> b_excl then Some (Seq (Lit (decimal a)) zero_frac) else None)
          else body
      | None \<Rightarrow> body)"

definition number_range :: "bound option \<Rightarrow> bound option \<Rightarrow> range_error + rx" where
  "number_range lo hi =
     (let mx = int uint_max;
          has_nonneg = (case hi of Some h \<Rightarrow> 0 < at h \<or> (at h = 0 \<and> \<not> exclusive h) | None \<Rightarrow> True);
          nonneg = (if has_nonneg then
            (let a = (case lo of
                 Some l \<Rightarrow> if 0 \<le> at l then (nat (min (at l) mx), exclusive l) else (0, False)
               | None \<Rightarrow> (0, False));
                 b = map_option (\<lambda>h. (nat (min (at h) mx), exclusive h)) hi in
             case magnitude (fst a) (snd a) b of Some m \<Rightarrow> [m] | None \<Rightarrow> [])
            else []);
          has_neg = (case lo of Some l \<Rightarrow> at l < 0 | None \<Rightarrow> True);
          neg = (if has_neg then
            (let a = (case hi of
                 Some h \<Rightarrow> if at h < 0 then (nat (min (- at h) mx), exclusive h) else (0, True)
               | None \<Rightarrow> (0, True));
                 b = map_option (\<lambda>l. (nat (min (- at l) mx), exclusive l)) lo in
             case magnitude (fst a) (snd a) b of Some m \<Rightarrow> [Seq (Lit [45]) m] | None \<Rightarrow> [])
            else []) in
      if nonneg @ neg = [] then Inl No_Number else Inr (Group (nonneg @ neg)))"

end
