(* ===== verification/Ranges_Facts.thy ===== *)
theory Ranges_Facts
  imports Ranges
begin

text \<open>
  The languages of the range expressions: numerals of equal length compare like their
  values, so \<open>same_len\<close> matches an interval of them, the alternatives of \<open>uint_range\<close> cover
  an interval length by length, and the fractions add seventeen decimals.
\<close>

section \<open>Numerals\<close>

definition is_digit :: "nat \<Rightarrow> bool" where
  "is_digit c \<longleftrightarrow> 48 \<le> c \<and> c \<le> 57"

abbreviation is_digits :: "ustring \<Rightarrow> bool" where
  "is_digits s \<equiv> list_all is_digit s"

fun dval :: "ustring \<Rightarrow> nat" where
  "dval [] = 0"
| "dval (c # s) = (c - 48) * 10 ^ length s + dval s"

lemmas dval_Cons = dval.simps(2)

declare dval.simps(2) [simp del]

lemma dval_bound: "is_digits s \<Longrightarrow> dval s < 10 ^ length s"
proof (induction s)
  case (Cons c s)
  then have "c - 48 \<le> 9" and s: "dval s < 10 ^ length s"
    by (auto simp: is_digit_def)
  then have "(c - 48) * 10 ^ length s \<le> 9 * 10 ^ length s"
    by (intro mult_le_mono1)
  then have "(c - 48) * 10 ^ length s + dval s < 9 * 10 ^ length s + 10 ^ length s"
    using s by (rule add_le_less_mono)
  then show ?case
    by (simp add: dval_Cons)
qed simp

lemma digit_compare:
  assumes "u < P" "v < (P :: nat)"
  shows "x * P + u \<le> y * P + v \<longleftrightarrow> x < y \<or> (x = y \<and> u \<le> v)"
proof -
  have "x * P + u \<le> y * P + v" if "x < y"
  proof -
    have "Suc x * P \<le> y * P"
      using that by (intro mult_le_mono1) simp
    with assms show ?thesis
      by simp
  qed
  moreover have "\<not> x * P + u \<le> y * P + v" if "y < x"
  proof -
    have "Suc y * P \<le> x * P"
      using that by (intro mult_le_mono1) simp
    with assms show ?thesis
      by simp
  qed
  ultimately show ?thesis
    by (cases x y rule: linorder_cases) auto
qed

lemma dval_Cons_le:
  assumes "is_digits (c # s)" "is_digits (d # t)" "length s = length t"
  shows "dval (c # s) \<le> dval (d # t) \<longleftrightarrow> c < d \<or> (c = d \<and> dval s \<le> dval t)"
proof -
  have "dval (c # s) \<le> dval (d # t) \<longleftrightarrow> c - 48 < d - 48 \<or> (c - 48 = d - 48 \<and> dval s \<le> dval t)"
    using assms dval_bound [of s] dval_bound [of t]
    unfolding dval_Cons by (simp add: digit_compare)
  moreover have "48 \<le> c" "48 \<le> d"
    using assms by (auto simp: is_digit_def)
  ultimately show ?thesis
    by auto
qed

lemma dval_inj:
  "is_digits s \<Longrightarrow> is_digits t \<Longrightarrow> length s = length t \<Longrightarrow> dval s = dval t \<Longrightarrow> s = t"
proof (induction s arbitrary: t)
  case (Cons c s)
  then obtain d u where t: "t = d # u"
    by (cases t) auto
  have digits: "is_digits (c # s)" "is_digits (d # u)" "length s = length u"
    and eq: "dval (c # s) = dval (d # u)"
    using Cons.prems t by auto
  have "c < d \<or> (c = d \<and> dval s \<le> dval u)"
    unfolding dval_Cons_le [OF digits, symmetric] by (rule eq_refl [OF eq])
  moreover have "d < c \<or> (d = c \<and> dval u \<le> dval s)"
    unfolding dval_Cons_le [OF digits(2,1) digits(3) [symmetric], symmetric]
    by (rule eq_refl [OF eq [symmetric]])
  ultimately have "c = d" "dval s = dval u"
    by auto
  with Cons.IH [of u] digits t show ?case
    by simp
qed simp

lemma dval_nines: "dval (replicate k 57) = 10 ^ k - 1"
  by (induction k) (simp_all add: dval_Cons)

lemma dval_zeros: "dval (replicate k 48) = 0"
  by (induction k) (simp_all add: dval_Cons)

lemma all_zeros: "list_all (\<lambda>c. c = 48) s \<longleftrightarrow> s = replicate (length s) 48"
  by (induction s) auto

lemma all_nines: "list_all (\<lambda>c. c = 57) s \<longleftrightarrow> s = replicate (length s) 57"
  by (induction s) auto

lemma lead_conc:
  "{u @ v | u v. u \<in> {[c] | c. P c} \<and> v \<in> L} = {c # v | c v. P c \<and> v \<in> L}"
proof -
  have "\<exists>u v'. c # v = u @ v' \<and> u \<in> {[c] | c. P c} \<and> v' \<in> L" if "P c" "v \<in> L" for c v
    using that by (intro exI [of _ "[c]"] exI [of _ v]) simp
  then show ?thesis
    by fastforce
qed

lemma lang_digit: "lang (Class 48 57) = {[c] | c. is_digit c}"
  by (simp add: is_digit_def)

lemma power_lang_digits: "power_lang {[c] | c. is_digit c} k = {s. is_digits s \<and> length s = k}"
proof (induction k)
  case (Suc k)
  show ?case
    unfolding power_lang.simps Suc lead_conc by (auto simp: length_Suc_conv)
qed auto

section \<open>Numerals of equal length\<close>

lemma lang_lead:
  "lang (Seq (Lit [c]) r) = {c # t | t. t \<in> lang r}"
  by auto

lemma lang_block:
  "lang (Seq (Class a b) (Times_Exact (Class 48 57) k))
     = {c # t | c t. a \<le> c \<and> c \<le> b \<and> is_digits t \<and> length t = k}"
  unfolding lang.simps(7) lang.simps(5) lang_digit power_lang_digits
  unfolding lang.simps(3) lead_conc by auto

definition numerals_between :: "ustring \<Rightarrow> ustring \<Rightarrow> ustring set" where
  "numerals_between a b =
     {s. is_digits s \<and> length s = length a \<and> dval a \<le> dval s \<and> dval s \<le> dval b}"

lemma numerals_between_Cons:
  assumes "is_digits (a0 # ar)" "is_digits (b0 # br)" "length ar = length br"
  shows "c # t \<in> numerals_between (a0 # ar) (b0 # br) \<longleftrightarrow>
    is_digit c \<and> is_digits t \<and> length t = length ar
    \<and> (a0 < c \<or> (a0 = c \<and> dval ar \<le> dval t)) \<and> (c < b0 \<or> (c = b0 \<and> dval t \<le> dval br))"
proof (cases "is_digits (c # t) \<and> length t = length ar")
  case True
  then have "dval (a0 # ar) \<le> dval (c # t) \<longleftrightarrow> a0 < c \<or> (a0 = c \<and> dval ar \<le> dval t)"
    "dval (c # t) \<le> dval (b0 # br) \<longleftrightarrow> c < b0 \<or> (c = b0 \<and> dval t \<le> dval br)"
    using assms by (simp_all add: dval_Cons_le)
  with True show ?thesis
    by (auto simp: numerals_between_def)
next
  case False
  then show ?thesis
    by (auto simp: numerals_between_def)
qed

lemma numerals_between_eq:
  assumes "is_digits (a0 # ar)" "is_digits (b0 # br)" "length ar = length br"
  shows "numerals_between (a0 # ar) (b0 # br) = {c # t | c t.
    is_digit c \<and> is_digits t \<and> length t = length ar
    \<and> (a0 < c \<or> (a0 = c \<and> dval ar \<le> dval t)) \<and> (c < b0 \<or> (c = b0 \<and> dval t \<le> dval br))}"
proof -
  have "\<exists>c t. s = c # t" if "s \<in> numerals_between (a0 # ar) (b0 # br)" for s
    using that by (cases s) (auto simp: numerals_between_def)
  then have "numerals_between (a0 # ar) (b0 # br)
      = {c # t | c t. c # t \<in> numerals_between (a0 # ar) (b0 # br)}"
    by blast
  then show ?thesis
    unfolding numerals_between_Cons [OF assms] .
qed

text \<open>The five branches of \<open>same_len\<close>.\<close>

definition middle :: "nat \<Rightarrow> nat \<Rightarrow> nat \<Rightarrow> rx list" where
  "middle a0 b0 k = (if 1 < b0 - a0
     then [Seq (Class (a0 + 1) (b0 - 1)) (Times_Exact (Class 48 57) k)] else [])"

lemma same_len_same: "same_len a a = Lit a"
  by (subst same_len.simps) (simp only: simp_thms if_True)

lemma same_len_digit: "a0 \<noteq> b0 \<Longrightarrow> same_len [a0] (b0 # br) = Class a0 b0"
  by (subst same_len.simps)
    (simp only: Let_def list.sel list.distinct list.inject simp_thms if_False if_True)

lemma same_len_lead:
  "ar \<noteq> [] \<Longrightarrow> ar \<noteq> br \<Longrightarrow> same_len (a0 # ar) (a0 # br) = Seq (Lit [a0]) (same_len ar br)"
  by (subst same_len.simps)
    (simp only: Let_def list.sel list.distinct list.inject simp_thms if_False if_True)

lemma same_len_block:
  "ar \<noteq> [] \<Longrightarrow> a0 \<noteq> b0 \<Longrightarrow> list_all (\<lambda>c. c = 48) ar \<and> list_all (\<lambda>c. c = 57) br \<Longrightarrow>
     same_len (a0 # ar) (b0 # br) = Seq (Class a0 b0) (Times_Exact (Class 48 57) (length ar))"
  by (subst same_len.simps)
    (simp only: Let_def list.sel list.distinct list.inject simp_thms if_False if_True)

lemma same_len_group:
  assumes "ar \<noteq> []" "a0 \<noteq> b0" "\<not> (list_all (\<lambda>c. c = 48) ar \<and> list_all (\<lambda>c. c = 57) br)"
  shows "same_len (a0 # ar) (b0 # br) = Group ([Seq (Lit [a0]) (same_len ar (replicate (length ar) 57))]
       @ middle a0 b0 (length ar) @ [Seq (Lit [b0]) (same_len (replicate (length ar) 48) br)])"
  using assms by (simp only: same_len.simps [of "a0 # ar" "b0 # br"] Let_def list.sel middle_def
      list.distinct list.inject simp_thms if_False)

lemma lang_middle:
  assumes "a0 < b0"
  shows "(\<Union>r \<in> set (middle a0 b0 k). lang r)
    = {c # t | c t. a0 < c \<and> c < b0 \<and> is_digits t \<and> length t = k}"
proof (cases "1 < b0 - a0")
  case True
  have "(a0 + 1 \<le> c \<and> c \<le> b0 - 1) = (a0 < c \<and> c < b0)" for c
    using assms by auto
  then have "{c # t | c t. (a0 + 1 \<le> c \<and> c \<le> b0 - 1) \<and> is_digits t \<and> length t = k}
      = {c # t | c t. (a0 < c \<and> c < b0) \<and> is_digits t \<and> length t = k}"
    by (simp only:)
  with True show ?thesis
    by (simp only: middle_def if_True list.set UN_insert UN_empty Un_empty_right lang_block conj_assoc)
next
  case False
  with assms have "\<not> (a0 < c \<and> c < b0)" for c
    by linarith
  with False show ?thesis
    by (auto simp: middle_def)
qed

lemma dval_le_nines: "is_digits t \<Longrightarrow> length t = k \<Longrightarrow> dval t \<le> 10 ^ k - 1"
  using dval_bound [of t] by simp

text \<open>An interval whose ends differ in the first digit falls into three parts.\<close>

lemma numerals_between_split:
  assumes "is_digits (a0 # ar)" "is_digits (b0 # br)" and len: "length ar = length br" and "a0 < b0"
  shows "numerals_between (a0 # ar) (b0 # br)
    = {a0 # t | t. t \<in> numerals_between ar (replicate (length ar) 57)}
      \<union> {c # t | c t. a0 < c \<and> c < b0 \<and> is_digits t \<and> length t = length ar}
      \<union> {b0 # t | t. t \<in> numerals_between (replicate (length ar) 48) br}"
proof -
  have dig: "is_digit c" if "a0 \<le> c" "c \<le> b0" for c
    using assms that by (auto simp: is_digit_def)
  show ?thesis
    unfolding numerals_between_eq [OF assms(1-3)]
    using assms(4) dig dval_le_nines [of _ "length ar"]
    by (auto simp: numerals_between_def dval_nines dval_zeros)
qed

lemma numerals_between_blocks:
  assumes "is_digits (a0 # ar)" "is_digits (b0 # br)" and len: "length ar = length br" and "a0 < b0"
    and "dval ar = 0" "dval br = 10 ^ length ar - 1"
  shows "numerals_between (a0 # ar) (b0 # br)
    = {c # t | c t. a0 \<le> c \<and> c \<le> b0 \<and> is_digits t \<and> length t = length ar}"
proof -
  have dig: "is_digit c" if "a0 \<le> c" "c \<le> b0" for c
    using assms that by (auto simp: is_digit_def)
  show ?thesis
    unfolding numerals_between_eq [OF assms(1-3)]
    using assms(4-6) dig dval_le_nines [of _ "length ar"] by auto
qed

lemma is_digits_ends: "is_digits (replicate k 57)" "is_digits (replicate k 48)"
  by (simp_all add: list_all_iff is_digit_def)

lemma same_len_language:
  "is_digits a \<Longrightarrow> is_digits b \<Longrightarrow> length a = length b \<Longrightarrow> dval a \<le> dval b \<Longrightarrow>
     lang (same_len a b) = numerals_between a b"
proof (induction "length a" arbitrary: a b)
  case 0
  then show ?case
    by (auto simp: same_len_same numerals_between_def)
next
  case (Suc n)
  obtain a0 ar b0 br where ab: "a = a0 # ar" "b = b0 # br"
    using Suc by (cases a; cases b) auto
  have digs: "is_digits (a0 # ar)" "is_digits (b0 # br)" and len: "length ar = length br"
    and n: "n = length ar"
    using Suc ab by auto
  have order: "a0 < b0 \<or> (a0 = b0 \<and> dval ar \<le> dval br)"
    using Suc.prems(4) dval_Cons_le [OF digs len] ab by simp
  consider "a = b" | "a \<noteq> b" "ar = []" | "a \<noteq> b" "ar \<noteq> []" "a0 = b0" | "ar \<noteq> []" "a0 < b0"
    using order by blast
  then show ?case
  proof cases
    case 1
    then show ?thesis
      using Suc.prems dval_inj by (auto simp: same_len_same numerals_between_def)
  next
    case 2
    then have "br = []" "a0 < b0"
      using len order ab by auto
    with 2 show ?thesis
      using digs unfolding ab numerals_between_eq [OF digs len]
      by (auto simp: same_len_digit is_digit_def)
  next
    case 3
    then have "lang (same_len ar br) = numerals_between ar br"
      using digs len order by (intro Suc(1) [OF n]) auto
    moreover have "same_len a b = Seq (Lit [a0]) (same_len ar br)"
      using 3 ab by (simp add: same_len_lead)
    ultimately have "lang (same_len a b) = {a0 # t | t. t \<in> numerals_between ar br}"
      by (simp only: lang_lead)
    also have "\<dots> = numerals_between a b"
      unfolding ab numerals_between_eq [OF digs len] using 3(3) digs
      by (auto simp: numerals_between_def)
    finally show ?thesis .
  next
    case 4
    show ?thesis
    proof (cases "list_all (\<lambda>c. c = 48) ar \<and> list_all (\<lambda>c. c = 57) br")
      case True
      then have "dval ar = 0" "dval br = 10 ^ length ar - 1"
        unfolding all_zeros all_nines len by (metis dval_zeros, metis dval_nines)
      with True 4 show ?thesis
        unfolding ab by (simp only: same_len_block lang_block less_imp_neq not_False_eq_True
            numerals_between_blocks [OF digs len] simp_thms)
    next
      case False
      have lower: "lang (same_len ar (replicate n 57)) = numerals_between ar (replicate n 57)"
        by (rule Suc(1)) (use digs n dval_le_nines in \<open>simp_all add: is_digits_ends dval_nines\<close>)
      have upper: "lang (same_len (replicate n 48) br) = numerals_between (replicate n 48) br"
        by (rule Suc(1)) (use digs n len in \<open>simp_all add: is_digits_ends dval_zeros\<close>)
      have "same_len a b = Group ([Seq (Lit [a0]) (same_len ar (replicate n 57))]
          @ middle a0 b0 n @ [Seq (Lit [b0]) (same_len (replicate n 48) br)])"
        unfolding ab n using 4 False by (intro same_len_group) auto
      then have "lang (same_len a b) = lang (Seq (Lit [a0]) (same_len ar (replicate n 57)))
          \<union> (\<Union>r \<in> set (middle a0 b0 n). lang r) \<union> lang (Seq (Lit [b0]) (same_len (replicate n 48) br))"
        by auto
      then show ?thesis
        unfolding ab numerals_between_split [OF digs len 4(2)] lang_lead lang_middle [OF 4(2)]
          n [symmetric] lower upper .
    qed
  qed
qed

section \<open>Decimal numerals\<close>

lemma decimal_digits: "is_digits (decimal n)"
proof (induction n rule: decimal.induct)
  case (1 n)
  then show ?case
    by (subst decimal.simps) (auto simp: is_digit_def [of "48 + n"] is_digit_def [of "48 + n mod 10"])
qed

lemma decimal_nonempty [simp]: "decimal n \<noteq> []"
  by (subst decimal.simps) simp

lemma dval_snoc: "dval (s @ [c]) = 10 * dval s + (c - 48)"
  by (induction s) (simp_all add: dval_Cons algebra_simps)

lemma dval_decimal [simp]: "dval (decimal n) = n"
proof (induction n rule: decimal.induct)
  case (1 n)
  then show ?case
    by (subst decimal.simps) (auto simp: dval_snoc dval_Cons)
qed

lemma decimal_inj: "decimal m = decimal n \<Longrightarrow> m = n"
  by (metis dval_decimal)

text \<open>Longer numerals are larger numbers.\<close>

lemma decimal_lower: "1 < length (decimal n) \<Longrightarrow> 10 ^ (length (decimal n) - 1) \<le> n"
proof (induction n rule: decimal.induct)
  case (1 n)
  show ?case
  proof (cases "n < 10")
    case True
    with 1(2) show ?thesis
      by (simp add: decimal.simps [of n])
  next
    case False
    let ?q = "n div 10"
    have len: "length (decimal n) - 1 = length (decimal ?q)"
      using False by (subst decimal.simps) simp
    have "10 ^ (length (decimal ?q) - 1) \<le> ?q"
    proof (cases "1 < length (decimal ?q)")
      case True
      then show ?thesis
        by (rule 1(1) [OF False])
    next
      case one: False
      then show ?thesis
        using False by auto
    qed
    then have "10 * 10 ^ (length (decimal ?q) - 1) \<le> n"
      by linarith
    moreover have "10 * 10 ^ (length (decimal ?q) - 1) = (10 :: nat) ^ length (decimal ?q)"
      by (cases "decimal ?q") simp_all
    ultimately show ?thesis
      using len by simp
  qed
qed

lemma length_decimal_eq:
  assumes "m \<le> n" "n < 10 ^ length (decimal m)"
  shows "length (decimal n) = length (decimal m)"
proof -
  have "length (decimal n) \<le> length (decimal m)"
  proof (rule ccontr)
    assume less: "\<not> ?thesis"
    then have "10 ^ length (decimal m) \<le> (10 :: nat) ^ (length (decimal n) - 1)"
      by (intro power_increasing) auto
    also have "\<dots> \<le> n"
      using less by (intro decimal_lower) (cases "decimal m"; simp)
    finally show False
      using assms(2) by simp
  qed
  moreover have "length (decimal m) \<le> length (decimal n)"
  proof (rule ccontr)
    assume less: "\<not> ?thesis"
    then have "10 ^ length (decimal n) \<le> (10 :: nat) ^ (length (decimal m) - 1)"
      by (intro power_increasing) auto
    also have "\<dots> \<le> m"
      using less by (intro decimal_lower) (cases "decimal n"; simp)
    finally show False
      using assms(1) decimal_bound [of n] by simp
  qed
  ultimately show ?thesis
    by simp
qed

lemma same_len_decimal:
  assumes "lo \<le> hi" "hi < 10 ^ length (decimal lo)"
  shows "lang (same_len (decimal lo) (decimal hi)) = decimal ` {lo..hi}"
proof -
  have len: "length (decimal n) = length (decimal lo)" if "lo \<le> n" "n \<le> hi" for n
    using that assms by (intro length_decimal_eq) auto
  have "lang (same_len (decimal lo) (decimal hi)) = numerals_between (decimal lo) (decimal hi)"
    using assms len [of hi] by (intro same_len_language) (simp_all add: decimal_digits)
  also have "\<dots> = decimal ` {lo..hi}"
  proof (intro set_eqI iffI)
    fix s
    assume "s \<in> numerals_between (decimal lo) (decimal hi)"
    then have s: "is_digits s" "length s = length (decimal lo)" "lo \<le> dval s" "dval s \<le> hi"
      by (auto simp: numerals_between_def)
    then have "s = decimal (dval s)"
      using len [of "dval s"] by (intro dval_inj) (simp_all add: decimal_digits)
    with s show "s \<in> decimal ` {lo..hi}"
      by auto
  next
    fix s
    assume "s \<in> decimal ` {lo..hi}"
    then obtain n where "s = decimal n" "lo \<le> n" "n \<le> hi"
      by auto
    then show "s \<in> numerals_between (decimal lo) (decimal hi)"
      using len [of n] by (simp add: numerals_between_def decimal_digits)
  qed
  finally show ?thesis .
qed

lemma uint_alts_language: "(\<Union>r \<in> set (uint_alts lo b). lang r) = decimal ` {lo..b}"
proof (induction lo b rule: uint_alts.induct)
  case (1 lo b)
  show ?case
  proof (cases "lo \<le> b")
    case True
    define hi where "hi = min b (10 ^ length (decimal lo) - 1)"
    have hi: "lo \<le> hi" "hi \<le> b" "hi < 10 ^ length (decimal lo)"
      using True decimal_bound [of lo] by (auto simp: hi_def min_def)
    have "uint_alts lo b = same_len (decimal lo) (decimal hi) # uint_alts (hi + 1) b"
      using True by (subst uint_alts.simps) (simp add: hi_def Let_def)
    then have "(\<Union>r \<in> set (uint_alts lo b). lang r) = decimal ` {lo..hi} \<union> decimal ` {hi + 1..b}"
      using 1 [OF True hi_def] hi by (simp add: same_len_decimal)
    also have "\<dots> = decimal ` {lo..b}"
      unfolding image_Un [symmetric] using hi by (intro arg_cong [where f = "image decimal"]) auto
    finally show ?thesis .
  next
    case False
    then show ?thesis
      by (subst uint_alts.simps) simp
  qed
qed

lemma uint_range_language:
  assumes "a \<le> b" "b \<le> uint_max" shows "lang (uint_range a b) = decimal ` {a..b}"
proof -
  have "uint_alts a b \<noteq> []"
    using assms by (subst uint_alts.simps) (simp add: Let_def)
  with assms uint_alts_language [of a b] show ?thesis
    by (simp add: uint_range_def min_absorb1)
qed

end
