(* ===== verification/Ranges_Decimals.thy ===== *)
theory Ranges_Decimals
  imports Ranges_Facts
begin

text \<open>
  The languages of the fractions and of \<open>magnitude\<close>. A magnitude is a whole part and a list
  of decimals; its value is scaled by \<open>10 ^ 33\<close>, because the fraction after an exclusive
  bound may have sixteen zeros, a digit and sixteen more digits.
\<close>

section \<open>Fractions\<close>

definition places :: nat where
  "places = 33"

definition frac_text :: "ustring \<Rightarrow> ustring" where
  "frac_text f = (if f = [] then [] else 46 # f)"

definition mag_text :: "nat \<Rightarrow> ustring \<Rightarrow> ustring" where
  "mag_text n f = decimal n @ frac_text f"

definition scaled :: "nat \<Rightarrow> ustring \<Rightarrow> nat" where
  "scaled n f = n * 10 ^ places + dval f * 10 ^ (places - length f)"

text \<open>A fraction of at most \<open>k\<close> digits.\<close>

definition fraction :: "nat \<Rightarrow> ustring \<Rightarrow> bool" where
  "fraction k f \<longleftrightarrow> is_digits f \<and> length f \<le> k"

definition is_zeros :: "ustring \<Rightarrow> bool" where
  "is_zeros f \<longleftrightarrow> list_all (\<lambda>c. c = 48) f"

lemma dval_zero_iff: "is_digits f \<Longrightarrow> dval f = 0 \<longleftrightarrow> is_zeros f"
  by (induction f) (auto simp: dval_Cons is_zeros_def is_digit_def)

lemma scaled_fraction_bound:
  assumes "fraction places f" shows "dval f * 10 ^ (places - length f) < 10 ^ places"
proof -
  have "dval f * 10 ^ (places - length f) < 10 ^ length f * 10 ^ (places - length f)"
    using assms by (intro mult_strict_right_mono dval_bound) (auto simp: fraction_def)
  also have "\<dots> = 10 ^ places"
    using assms by (simp add: fraction_def flip: power_add)
  finally show ?thesis .
qed

lemma scaled_compare:
  assumes "fraction places f"
  shows "b * 10 ^ places \<le> scaled n f \<longleftrightarrow> b \<le> n"
    and "b * 10 ^ places < scaled n f \<longleftrightarrow> b < n \<or> (b = n \<and> \<not> is_zeros f)"
    and "scaled n f < b * 10 ^ places \<longleftrightarrow> n < b"
    and "scaled n f \<le> b * 10 ^ places \<longleftrightarrow> n < b \<or> (n = b \<and> is_zeros f)"
    and "scaled n f = 0 \<longleftrightarrow> n = 0 \<and> is_zeros f"
proof -
  define S :: nat where "S = 10 ^ places"
  define r where "r = dval f * 10 ^ (places - length f)"
  have r: "r < S" "r = 0 \<longleftrightarrow> is_zeros f"
    using scaled_fraction_bound [OF assms] dval_zero_iff [of f] assms
    by (auto simp: fraction_def S_def r_def)
  have sc: "scaled n f = n * S + r"
    by (simp add: scaled_def S_def r_def)
  have up: "b * S \<le> scaled n f \<longleftrightarrow> b \<le> n"
    using digit_compare [of 0 S r b n] r(1) unfolding sc by auto
  have down: "scaled n f \<le> b * S \<longleftrightarrow> n < b \<or> (n = b \<and> is_zeros f)"
    using digit_compare [of r S 0 n b] r unfolding sc by auto
  show "b * 10 ^ places \<le> scaled n f \<longleftrightarrow> b \<le> n"
    using up by (simp only: S_def)
  show "scaled n f \<le> b * 10 ^ places \<longleftrightarrow> n < b \<or> (n = b \<and> is_zeros f)"
    using down by (simp only: S_def)
  show "b * 10 ^ places < scaled n f \<longleftrightarrow> b < n \<or> (b = n \<and> \<not> is_zeros f)"
    by (subst not_le [symmetric]) (auto simp: down [unfolded S_def])
  show "scaled n f < b * 10 ^ places \<longleftrightarrow> n < b"
    by (subst not_le [symmetric]) (auto simp: up [unfolded S_def])
  show "scaled n f = 0 \<longleftrightarrow> n = 0 \<and> is_zeros f"
    unfolding sc using r by auto
qed

lemma lang_dot: "lang (Seq Dot r) = Cons 46 ` lang r"
  by auto

lemma lang_digits: "lang (Times_Range (Class 48 57) m n) = {f. is_digits f \<and> m \<le> length f \<and> length f \<le> n}"
  unfolding lang.simps(4) lang_digit power_lang_digits by auto

lemma power_lang_single: "power_lang {[c]} k = {replicate k c}"
  by (induction k) auto

lemma lang_zeros:
  "lang (Times_Range (Lit [48]) m n) = {f. is_zeros f \<and> m \<le> length f \<and> length f \<le> n}"
  unfolding lang.simps(4) lang.simps(1) power_lang_single
  by (auto simp: is_zeros_def all_zeros)

lemma any_frac_language: "lang any_frac = frac_text ` {f. fraction 17 f}"
proof -
  have "lang any_frac = insert [] (Cons 46 ` {f. is_digits f \<and> 1 \<le> length f \<and> length f \<le> 17})"
    unfolding any_frac_def lang.simps(6) lang.simps(8) by (simp add: lang_dot lang_digits del: lang.simps)
  also have "\<dots> = frac_text ` {f. fraction 17 f}"
    by (auto simp: frac_text_def fraction_def image_iff Suc_le_eq intro: exI [of _ "[]"])
  finally show ?thesis .
qed

lemma zero_frac_language: "lang zero_frac = frac_text ` {f. fraction 17 f \<and> is_zeros f}"
proof -
  have digits: "is_zeros f \<Longrightarrow> is_digits f" for f
    by (auto simp: is_zeros_def list_all_iff is_digit_def)
  have "lang zero_frac = insert [] (Cons 46 ` {f. is_zeros f \<and> 1 \<le> length f \<and> length f \<le> 17})"
    unfolding zero_frac_def lang.simps(6) lang.simps(8) by (simp add: lang_dot lang_zeros del: lang.simps)
  also have "\<dots> = frac_text ` {f. fraction 17 f \<and> is_zeros f}"
    using digits
    by (auto simp: frac_text_def fraction_def image_iff Suc_le_eq is_zeros_def intro: exI [of _ "[]"])
  finally show ?thesis .
qed

lemma nonzero_frac_language:
  "lang nonzero_frac = {46 # z @ d # g | z d g. is_zeros z \<and> length z \<le> 16 \<and> 49 \<le> d \<and> d \<le> 57
     \<and> is_digits g \<and> length g \<le> 16}"
proof -
  let ?Z = "{f. is_zeros f \<and> 0 \<le> length f \<and> length f \<le> 16}"
  let ?W = "{d # g | d g. (49 \<le> d \<and> d \<le> 57) \<and> g \<in> {f. is_digits f \<and> 0 \<le> length f \<and> length f \<le> 16}}"
  have "lang nonzero_frac = Cons 46 ` {u @ v | u v. u \<in> ?Z \<and> v \<in> ?W}"
    unfolding nonzero_frac_def lang_dot
    unfolding lang.simps(7) lang_zeros lang_digits
    unfolding lang.simps(3) lead_conc ..
  also have "{u @ v | u v. u \<in> ?Z \<and> v \<in> ?W} = {z @ d # g | z d g. is_zeros z \<and> length z \<le> 16
      \<and> 49 \<le> d \<and> d \<le> 57 \<and> is_digits g \<and> length g \<le> 16}"
    by blast
  finally show ?thesis
    by blast
qed

lemma nonzero_frac_sound:
  assumes "s \<in> lang nonzero_frac"
  shows "\<exists>f. s = frac_text f \<and> fraction places f \<and> \<not> is_zeros f"
proof -
  obtain z d g where "s = 46 # z @ d # g" "is_zeros z" "length z \<le> 16" "49 \<le> d" "d \<le> 57"
    "is_digits g" "length g \<le> 16"
    using assms unfolding nonzero_frac_language by blast
  then show ?thesis
    by (intro exI [of _ "z @ d # g"])
      (auto simp: frac_text_def fraction_def places_def is_zeros_def list_all_iff is_digit_def)
qed

lemma nonzero_frac_complete:
  assumes "fraction 17 f" "\<not> is_zeros f" shows "frac_text f \<in> lang nonzero_frac"
proof -
  obtain z d g where f: "f = z @ d # g" and z: "is_zeros z" and d: "d \<noteq> 48"
    using split_list_first_prop [of f "\<lambda>c. c \<noteq> 48"] assms(2)
    by (auto simp: is_zeros_def list_all_iff)
  then have "49 \<le> d" "d \<le> 57" "is_digits g" "length z \<le> 16" "length g \<le> 16"
    using assms(1) by (auto simp: fraction_def is_digit_def)
  with z have "46 # z @ d # g \<in> lang nonzero_frac"
    unfolding nonzero_frac_language by blast
  then show ?thesis
    by (simp add: frac_text_def f)
qed

section \<open>Magnitudes\<close>

definition above :: "nat \<Rightarrow> bool \<Rightarrow> nat \<Rightarrow> bool" where
  "above a excl v \<longleftrightarrow> (if excl then a * 10 ^ places < v else a * 10 ^ places \<le> v)"

definition below :: "(nat \<times> bool) option \<Rightarrow> nat \<Rightarrow> bool" where
  "below bd v = (case bd of Some (b, excl) \<Rightarrow> if excl then v < b * 10 ^ places else v \<le> b * 10 ^ places
     | None \<Rightarrow> v < (uint_max + 1) * 10 ^ places)"

definition magnitudes :: "rx option \<Rightarrow> ustring set" where
  "magnitudes r = (case r of Some e \<Rightarrow> lang e | None \<Rightarrow> {})"

lemma lang_numeral: "lang (Seq (Lit (decimal n)) r) = {decimal n @ t | t. t \<in> lang r}"
  by auto

lemma mag_in_numeral: "t \<in> lang r \<Longrightarrow> decimal n @ t \<in> lang (Seq (Lit (decimal n)) r)"
  by auto

text \<open>The parts of the expression: the lower bound, the whole parts between, the upper bound.\<close>

definition lower_part :: "nat \<Rightarrow> bool \<Rightarrow> rx" where
  "lower_part a excl =
     (if excl then Seq (Lit (decimal a)) nonzero_frac else Seq (Lit (decimal a)) any_frac)"

definition upto_whole :: "(nat \<times> bool) option \<Rightarrow> nat" where
  "upto_whole bd = (case bd of Some (b, _) \<Rightarrow> b - 1 | None \<Rightarrow> uint_max)"

definition mid_part :: "nat \<Rightarrow> (nat \<times> bool) option \<Rightarrow> rx list" where
  "mid_part a bd = (if a < upto_whole bd
     then [Seq (uint_range (a + 1) (upto_whole bd)) any_frac] else [])"

definition upper_part :: "(nat \<times> bool) option \<Rightarrow> rx list" where
  "upper_part bd = (case bd of Some (b, False) \<Rightarrow> [Seq (Lit (decimal b)) zero_frac] | _ \<Rightarrow> [])"

definition beyond :: "nat \<Rightarrow> (nat \<times> bool) option \<Rightarrow> bool" where
  "beyond a bd = (case bd of Some (b, _) \<Rightarrow> a < b | None \<Rightarrow> True)"

lemma magnitude_body:
  assumes "beyond a bd"
  shows "magnitude a excl bd = Some (Group ([lower_part a excl] @ mid_part a bd @ upper_part bd))"
proof (cases bd)
  case None
  then show ?thesis
    by (simp add: magnitude_def lower_part_def mid_part_def upto_whole_def upper_part_def)
next
  case (Some p)
  then obtain b e where "bd = Some (b, e)"
    by (cases p) auto
  with assms show ?thesis
    by (auto simp: magnitude_def lower_part_def mid_part_def upto_whole_def upper_part_def Let_def
        beyond_def split: bool.split)
qed

lemma in_lower_part:
  "s \<in> lang (lower_part a excl) \<Longrightarrow>
     \<exists>f. s = mag_text a f \<and> fraction places f \<and> (excl \<longrightarrow> \<not> is_zeros f)"
  unfolding lower_part_def mag_text_def
  by (cases excl) (auto simp: any_frac_language fraction_def places_def dest!: nonzero_frac_sound)

lemma conc_images:
  "{u @ v | u v. u \<in> f ` A \<and> v \<in> g ` B} = {f x @ g y | x y. x \<in> A \<and> y \<in> B}"
  by blast

lemma mid_language:
  assumes "upto_whole bd \<le> uint_max"
  shows "(\<Union>r \<in> set (mid_part a bd). lang r)
    = {mag_text n f | n f. a < n \<and> n \<le> upto_whole bd \<and> fraction 17 f}"
proof (cases "a < upto_whole bd")
  case True
  then have "lang (uint_range (a + 1) (upto_whole bd)) = decimal ` {a + 1..upto_whole bd}"
    using assms by (intro uint_range_language) auto
  with True have "(\<Union>r \<in> set (mid_part a bd). lang r)
      = {u @ v | u v. u \<in> decimal ` {a + 1..upto_whole bd} \<and> v \<in> frac_text ` {f. fraction 17 f}}"
    by (simp only: mid_part_def if_True list.set UN_insert UN_empty Un_empty_right
        lang.simps(7) any_frac_language)
  also have "\<dots> = {mag_text n f | n f. a < n \<and> n \<le> upto_whole bd \<and> fraction 17 f}"
    unfolding conc_images mag_text_def by (simp add: Suc_le_eq)
  finally show ?thesis .
qed (auto simp: mid_part_def)

lemma upper_language:
  "(\<Union>r \<in> set (upper_part bd). lang r)
    = {mag_text b f | b f. bd = Some (b, False) \<and> fraction 17 f \<and> is_zeros f}"
  by (auto simp: upper_part_def mag_text_def zero_frac_language split: option.split bool.split)

definition bound_ok :: "(nat \<times> bool) option \<Rightarrow> bool" where
  "bound_ok bd = (case bd of Some (b, _) \<Rightarrow> b \<le> uint_max | None \<Rightarrow> True)"

lemma magnitude_language:
  assumes "beyond a bd" "bound_ok bd"
  shows "magnitudes (magnitude a excl bd) = lang (lower_part a excl)
    \<union> {mag_text n f | n f. a < n \<and> n \<le> upto_whole bd \<and> fraction 17 f}
    \<union> {mag_text b f | b f. bd = Some (b, False) \<and> fraction 17 f \<and> is_zeros f}"
proof -
  have "upto_whole bd \<le> uint_max"
    using assms(2) by (auto simp: upto_whole_def bound_ok_def split: option.split)
  moreover have "magnitude a excl bd = Some (Group ([lower_part a excl] @ mid_part a bd @ upper_part bd))"
    using assms(1) by (rule magnitude_body)
  ultimately show ?thesis
    unfolding upper_language [symmetric]
    by (simp add: magnitudes_def mid_language [symmetric] Un_assoc)
qed

lemma fraction_mono: "fraction 17 f \<Longrightarrow> fraction places f"
  by (simp add: fraction_def places_def)

text \<open>The same in terms of values; equal and crossing bounds are the first branches of the code.\<close>

lemma below_iff:
  assumes "fraction places f"
  shows "below bd (scaled n f) \<longleftrightarrow> (case bd of
      Some (b, excl) \<Rightarrow> n < b \<or> (\<not> excl \<and> n = b \<and> is_zeros f) | None \<Rightarrow> n \<le> uint_max)"
  using scaled_compare(3) [OF assms, of n "uint_max + 1"] scaled_compare(3,4) [OF assms]
  by (auto simp only: below_def less_Suc_eq_le Suc_eq_plus1 [symmetric] split: option.split prod.split if_split)

lemma above_iff:
  assumes "fraction places f"
  shows "above a excl (scaled n f) \<longleftrightarrow> a < n \<or> (a = n \<and> (excl \<longrightarrow> \<not> is_zeros f))"
  using scaled_compare [OF assms] by (auto simp: above_def)

lemma magnitude_equal:
  "magnitudes (magnitude a excl (Some (a, e))) = (if excl \<or> e then {} else {mag_text a f | f.
     fraction 17 f \<and> is_zeros f})"
  by (auto simp: magnitudes_def magnitude_def mag_text_def zero_frac_language)

lemma magnitude_crossing: "b < a \<Longrightarrow> magnitudes (magnitude a excl (Some (b, e))) = {}"
  by (simp add: magnitudes_def magnitude_def)

lemma magnitude_sound:
  assumes "a \<le> uint_max" "bound_ok bd" "s \<in> magnitudes (magnitude a excl bd)"
  shows "\<exists>n f. s = mag_text n f \<and> fraction places f \<and> n \<le> uint_max
    \<and> above a excl (scaled n f) \<and> below bd (scaled n f)"
proof -
  consider b e where "bd = Some (b, e)" "b \<le> a" | "beyond a bd"
    by (cases bd) (auto simp: beyond_def not_less [symmetric])
  then show ?thesis
  proof cases
    case 1
    then have "b = a"
      using assms(3) magnitude_crossing [of b a] by (auto simp: le_less)
    with 1 assms(3) obtain f where "s = mag_text a f" "fraction 17 f" "is_zeros f" "\<not> excl" "\<not> e"
      by (auto simp: magnitude_equal split: if_splits)
    with 1 \<open>b = a\<close> assms(1) show ?thesis
      by (intro exI [of _ a] exI [of _ f]) (simp add: above_iff below_iff fraction_mono)
  next
    case 2
    then consider "s \<in> lang (lower_part a excl)"
      | n f where "s = mag_text n f" "a < n" "n \<le> upto_whole bd" "fraction 17 f"
      | b f where "s = mag_text b f" "bd = Some (b, False)" "fraction 17 f" "is_zeros f"
      using assms(3) unfolding magnitude_language [OF 2 assms(2)] by blast
    then show ?thesis
    proof cases
      case lower: 1
      then obtain f where "s = mag_text a f" "fraction places f" "excl \<longrightarrow> \<not> is_zeros f"
        using in_lower_part by blast
      with 2 assms(1) show ?thesis
        by (intro exI [of _ a] exI [of _ f]) (auto simp: above_iff below_iff beyond_def split: option.splits)
    next
      case mid: 2
      then have "n \<le> uint_max" "\<And>b e. bd = Some (b, e) \<Longrightarrow> n < b"
        using assms(2) 2 by (auto simp: beyond_def upto_whole_def bound_ok_def split: option.splits)
      with mid show ?thesis
        by (intro exI [of _ n] exI [of _ f])
          (auto simp: above_iff below_iff fraction_mono split: option.split)
    next
      case upper: 3
      with 2 assms(2) show ?thesis
        by (intro exI [of _ b] exI [of _ f])
          (auto simp: above_iff below_iff fraction_mono bound_ok_def beyond_def)
    qed
  qed
qed

lemma magnitude_complete:
  assumes "bound_ok bd" "fraction 17 f" "n \<le> uint_max"
    and "above a excl (scaled n f)" "below bd (scaled n f)"
  shows "mag_text n f \<in> magnitudes (magnitude a excl bd)"
proof -
  have up: "a < n \<or> (a = n \<and> (excl \<longrightarrow> \<not> is_zeros f))"
    using assms(2,4) by (simp add: above_iff fraction_mono)
  have down: "case bd of Some (b, e) \<Rightarrow> n < b \<or> (\<not> e \<and> n = b \<and> is_zeros f) | None \<Rightarrow> n \<le> uint_max"
    using assms(2,5) by (simp add: below_iff fraction_mono)
  consider b e where "bd = Some (b, e)" "b \<le> a" | "beyond a bd"
    by (cases bd) (auto simp: beyond_def not_less [symmetric])
  then show ?thesis
  proof cases
    case 1
    with up down have "b = a" "n = a" "\<not> e" "\<not> excl" "is_zeros f"
      by auto
    with 1 assms(2) show ?thesis
      by (auto simp: magnitude_equal)
  next
    case 2
    consider "a = n" | "a < n" "n \<le> upto_whole bd" | "bd = Some (n, False)" "is_zeros f"
      using up down assms(3) by (auto simp: upto_whole_def split: option.splits)
    then show ?thesis
    proof cases
      case lower: 1
      with up assms(2) have "mag_text n f \<in> lang (lower_part a excl)"
        using nonzero_frac_complete [of f]
        by (auto simp: lower_part_def mag_text_def any_frac_language)
      then show ?thesis
        unfolding magnitude_language [OF 2 assms(1)] by blast
    qed (use assms(2) in \<open>unfold magnitude_language [OF 2 assms(1)], blast+\<close>)
  qed
qed

text \<open>A text has one whole part and one fraction, so membership is exact for short fractions.\<close>

lemma takeWhile_mag_text: "takeWhile is_digit (mag_text n f) = decimal n"
proof -
  have "takeWhile is_digit (frac_text f) = []"
    by (simp add: frac_text_def is_digit_def)
  then show ?thesis
    using decimal_digits [of n] by (simp add: mag_text_def list_all_iff)
qed

lemma frac_text_inj: "frac_text f = frac_text g \<Longrightarrow> f = g"
  by (auto simp: frac_text_def split: if_splits)

lemma mag_text_inj: "mag_text m f = mag_text n g \<Longrightarrow> m = n \<and> f = g"
  by (metis append_same_eq decimal_inj frac_text_inj mag_text_def same_append_eq takeWhile_mag_text)

lemma magnitude_iff:
  assumes "a \<le> uint_max" "bound_ok bd" "fraction 17 f" "n \<le> uint_max"
  shows "mag_text n f \<in> magnitudes (magnitude a excl bd)
    \<longleftrightarrow> above a excl (scaled n f) \<and> below bd (scaled n f)"
  using magnitude_sound [OF assms(1,2), of "mag_text n f" excl]
    magnitude_complete [OF assms(2,3,4), of a excl] mag_text_inj by metis

end
