(* ===== verification/Ranges_Properties.thy ===== *)
theory Ranges_Properties
  imports Ranges_Decimals
begin

text \<open>
  The range expressions are exact: \<open>int_range\<close> matches the decimal form of the integers in
  the interval and nothing else, and \<open>number_range\<close> matches a decimal with at most seventeen
  places exactly when its value is within the bounds. Values of decimals are scaled by
  \<open>10 ^ 33\<close>, so that they are integers.
\<close>

section \<open>Integers\<close>

definition render_int :: "int \<Rightarrow> ustring" where
  "render_int v = (if v < 0 then 45 # decimal (nat (- v)) else decimal (nat v))"

definition within :: "int option \<Rightarrow> int option \<Rightarrow> int \<Rightarrow> bool" where
  "within lo hi v \<longleftrightarrow> (case lo of Some l \<Rightarrow> l \<le> v | None \<Rightarrow> True)
     \<and> (case hi of Some h \<Rightarrow> v \<le> h | None \<Rightarrow> True)"

definition language :: "range_error + rx \<Rightarrow> ustring set" where
  "language r = (case r of Inl _ \<Rightarrow> {} | Inr e \<Rightarrow> lang e)"

lemma lang_minus: "lang (Seq (Lit [45]) r) = Cons 45 ` lang r"
  by auto

lemma nat_image:
  assumes "0 \<le> a" "0 \<le> b" shows "{nat a..nat b} = nat ` {a..b}"
proof (intro set_eqI iffI)
  fix x
  assume "x \<in> {nat a..nat b}"
  then have "int x \<in> {a..b}"
    using assms by auto
  then show "x \<in> nat ` {a..b}"
    by (metis image_eqI nat_int)
qed (use assms in auto)

lemma image_decimal_nat:
  assumes "0 \<le> a" "0 \<le> b" shows "decimal ` {nat a..nat b} = render_int ` {a..b}"
  unfolding nat_image [OF assms] image_image
  by (rule image_cong) (use assms in \<open>auto simp: render_int_def\<close>)

lemma image_minus:
  assumes "0 < a" "0 \<le> b" shows "Cons 45 ` decimal ` {nat a..nat b} = render_int ` {- b..- a}"
proof -
  have "{- b..- a} = uminus ` {a..b}"
    by simp
  then have "render_int ` {- b..- a} = (\<lambda>v. render_int (- v)) ` {a..b}"
    by (simp only: image_image)
  also have "\<dots> = (\<lambda>v. 45 # decimal (nat v)) ` {a..b}"
    by (rule image_cong) (use assms in \<open>auto simp: render_int_def\<close>)
  finally show ?thesis
    using assms nat_image [of a b] by (simp add: image_image)
qed

text \<open>
  C37. The regular expression built for an integer range has as its language exactly the canonical
  decimal numerals (no leading zero, no minus zero) of the integers between the bounds and of
  at most twenty digits; it is an error, here the empty language, exactly when there is none.
\<close>

theorem integer_range_is_exact:
  "language (int_range lo hi)
     = render_int ` {v. - int uint_max \<le> v \<and> v \<le> int uint_max \<and> within lo hi v}"
proof -
  define mx where "mx = int uint_max"
  define l where "l = max (case lo of Some l \<Rightarrow> l | None \<Rightarrow> - mx) (- mx)"
  define h where "h = min (case hi of Some h \<Rightarrow> h | None \<Rightarrow> mx) mx"
  have "0 < mx"
    by (simp add: mx_def uint_max_def max_int_digits_def)
  have set: "{v. - mx \<le> v \<and> v \<le> mx \<and> within lo hi v} = {l..h}"
    using \<open>0 < mx\<close> by (auto simp: within_def l_def h_def split: option.splits)
  have bounds: "- mx \<le> l" "h \<le> mx"
    by (simp_all add: l_def h_def)
  show ?thesis
  proof (cases "h < l")
    case True
    then have "int_range lo hi = Inl (No_Integer l h)"
      by (simp only: int_range_def l_def [symmetric] h_def [symmetric] mx_def [symmetric] Let_def if_True)
    with True set show ?thesis
      by (simp add: language_def mx_def)
  next
    case False
    let ?neg = "if l < 0 then [Seq (Lit [45]) (uint_range (nat (if h < 0 then - h else 1)) (nat (- l)))] else []"
    let ?pos = "if 0 \<le> h then [uint_range (nat (max l 0)) (nat h)] else []"
    have range: "int_range lo hi = Inr (Group (?neg @ ?pos))"
      using False by (simp only: int_range_def l_def [symmetric] h_def [symmetric] mx_def [symmetric] Let_def if_False)
    have nonempty: "?neg @ ?pos \<noteq> []"
      using False by auto
    have neg: "(\<Union>r \<in> set ?neg. lang r) = render_int ` {v. v < 0 \<and> l \<le> v \<and> v \<le> h}"
    proof (cases "l < 0")
      case True
      let ?m = "if h < 0 then - h else 1"
      have "lang (uint_range (nat ?m) (nat (- l))) = decimal ` {nat ?m..nat (- l)}"
        using True False bounds by (intro uint_range_language) (auto simp: mx_def)
      then have "(\<Union>r \<in> set ?neg. lang r) = render_int ` {- (- l)..- ?m}"
        using True image_minus [of ?m "- l"] by (auto simp: lang_minus simp del: lang.simps)
      also have "{- (- l)..- ?m} = {v. v < 0 \<and> l \<le> v \<and> v \<le> h}"
        by auto
      finally show ?thesis .
    qed auto
    have pos: "(\<Union>r \<in> set ?pos. lang r) = render_int ` {v. 0 \<le> v \<and> l \<le> v \<and> v \<le> h}"
    proof (cases "0 \<le> h")
      case True
      have "lang (uint_range (nat (max l 0)) (nat h)) = decimal ` {nat (max l 0)..nat h}"
        using True False bounds by (intro uint_range_language) (auto simp: mx_def)
      then have "(\<Union>r \<in> set ?pos. lang r) = render_int ` {max l 0..h}"
        using True image_decimal_nat [of "max l 0" h] by simp
      also have "{max l 0..h} = {v. 0 \<le> v \<and> l \<le> v \<and> v \<le> h}"
        by auto
      finally show ?thesis .
    qed auto
    have "language (int_range lo hi) = (\<Union>r \<in> set ?neg. lang r) \<union> (\<Union>r \<in> set ?pos. lang r)"
      unfolding language_def range sum.case lang.simps(8) using nonempty by (simp only: if_False set_append UN_Un)
    also have "\<dots> = render_int ` {l..h}"
      unfolding neg pos image_Un [symmetric] by (intro arg_cong [where f = "image render_int"]) auto
    finally show ?thesis
      unfolding set [symmetric] mx_def .
  qed
qed

section \<open>Decimals\<close>

definition number_text :: "bool \<Rightarrow> nat \<Rightarrow> ustring \<Rightarrow> ustring" where
  "number_text neg n f = (if neg then [45] else []) @ mag_text n f"





definition nonneg_start :: "bound option \<Rightarrow> nat \<times> bool" where
  "nonneg_start lo = (case lo of
     Some l \<Rightarrow> if 0 \<le> at l then (nat (min (at l) (int uint_max)), exclusive l) else (0, False)
   | None \<Rightarrow> (0, False))"

definition neg_start :: "bound option \<Rightarrow> nat \<times> bool" where
  "neg_start hi = (case hi of
     Some h \<Rightarrow> if at h < 0 then (nat (min (- at h) (int uint_max)), exclusive h) else (0, True)
   | None \<Rightarrow> (0, True))"

definition nonneg_language :: "bound option \<Rightarrow> bound option \<Rightarrow> ustring set" where
  "nonneg_language lo hi =
     (if case hi of Some h \<Rightarrow> 0 < at h \<or> (at h = 0 \<and> \<not> exclusive h) | None \<Rightarrow> True then
        magnitudes (magnitude (fst (nonneg_start lo)) (snd (nonneg_start lo))
          (map_option (\<lambda>h. (nat (min (at h) (int uint_max)), exclusive h)) hi))
      else {})"

definition neg_language :: "bound option \<Rightarrow> bound option \<Rightarrow> ustring set" where
  "neg_language lo hi =
     (if case lo of Some l \<Rightarrow> at l < 0 | None \<Rightarrow> True then
        magnitudes (magnitude (fst (neg_start hi)) (snd (neg_start hi))
          (map_option (\<lambda>l. (nat (min (- at l) (int uint_max)), exclusive l)) lo))
      else {})"

lemma language_group:
  "language (if rs = [] then Inl e else Inr (Group rs)) = (\<Union>r \<in> set rs. lang r)"
  by (simp add: language_def)

lemma part_language:
  "(\<Union>r \<in> set (if c then (case m of Some e \<Rightarrow> [e] | None \<Rightarrow> []) else []). lang r)
     = (if c then magnitudes m else {})"
  "(\<Union>r \<in> set (if c then (case m of Some e \<Rightarrow> [Seq (Lit [45]) e] | None \<Rightarrow> []) else []). lang r)
     = Cons 45 ` (if c then magnitudes m else {})"
  by (cases c; cases m; auto simp: magnitudes_def)+

lemma number_range_parts:
  "language (number_range lo hi) = nonneg_language lo hi \<union> Cons 45 ` neg_language lo hi"
proof -
  let ?P = "if case hi of Some h \<Rightarrow> 0 < at h \<or> (at h = 0 \<and> \<not> exclusive h) | None \<Rightarrow> True then
    (case magnitude (fst (nonneg_start lo)) (snd (nonneg_start lo))
      (map_option (\<lambda>h. (nat (min (at h) (int uint_max)), exclusive h)) hi) of Some m \<Rightarrow> [m] | None \<Rightarrow> [])
    else []"
  let ?N = "if case lo of Some l \<Rightarrow> at l < 0 | None \<Rightarrow> True then
    (case magnitude (fst (neg_start hi)) (snd (neg_start hi))
      (map_option (\<lambda>l. (nat (min (- at l) (int uint_max)), exclusive l)) lo) of
      Some m \<Rightarrow> [Seq (Lit [45]) m] | None \<Rightarrow> []) else []"
  define P where "P = ?P"
  define N where "N = ?N"
  have "number_range lo hi = (if P @ N = [] then Inl No_Number else Inr (Group (P @ N)))"
    unfolding P_def N_def number_range_def nonneg_start_def neg_start_def Let_def by (rule refl)
  then have "language (number_range lo hi) = (\<Union>r \<in> set P. lang r) \<union> (\<Union>r \<in> set N. lang r)"
    by (simp only: language_group set_append UN_Un)
  moreover have "(\<Union>r \<in> set P. lang r) = nonneg_language lo hi"
    unfolding P_def nonneg_language_def by (rule part_language(1))
  moreover have "(\<Union>r \<in> set N. lang r) = Cons 45 ` neg_language lo hi"
    unfolding N_def neg_language_def by (rule part_language(2))
  ultimately show ?thesis
    by simp
qed














text \<open>
  Beyond twenty digits a lower bound is clamped instead of refused: the largest numeral of the
  language is accepted although it is below the bound.
\<close>

theorem large_minimum_is_clamped:
  "number_text False uint_max [] \<in> language (number_range (Some \<lparr>at = 10 ^ 21, exclusive = False\<rparr>) None)"
proof -
  have "nonneg_start (Some \<lparr>at = 10 ^ 21, exclusive = False\<rparr>) = (uint_max, False)"
    by (simp add: nonneg_start_def uint_max_def max_int_digits_def)
  then have "nonneg_language (Some \<lparr>at = 10 ^ 21, exclusive = False\<rparr>) None
      = magnitudes (magnitude uint_max False None)"
    by (simp add: nonneg_language_def)
  moreover have "mag_text uint_max [] \<in> magnitudes (magnitude uint_max False None)"
    by (rule magnitude_complete)
      (simp_all add: bound_ok_def fraction_def above_iff below_iff is_zeros_def)
  ultimately show ?thesis
    by (simp add: number_range_parts number_text_def)
qed

end
