(* ===== verification/Factors.thy ===== *)
theory Factors
  imports Main "HOL-Library.Sublist"
begin

text \<open>
  Combinatorics on words for the suffix automaton: the end positions of a factor of a text,
  the factors that cannot be extended to the left without losing an occurrence, and how
  both change when the text grows by one letter.
\<close>

section \<open>End positions\<close>

definition ends :: "'a list \<Rightarrow> 'a list \<Rightarrow> nat set" where
  "ends s w = {e. e \<le> length w \<and> suffix s (take e w)}"

lemma endsI: "e \<le> length w \<Longrightarrow> suffix s (take e w) \<Longrightarrow> e \<in> ends s w"
  by (simp add: ends_def)

lemma endsD: "e \<in> ends s w \<Longrightarrow> e \<le> length w \<and> suffix s (take e w) \<and> length s \<le> e"
  by (auto simp: ends_def dest: suffix_length_le)

lemma finite_ends: "finite (ends s w)"
  by (rule finite_subset [of _ "{..length w}"]) (auto simp: ends_def)

lemma ends_Nil: "ends [] w = {..length w}"
  by (auto simp: ends_def)

lemma ends_empty_iff: "ends s w \<noteq> {} \<longleftrightarrow> sublist s w"
proof
  assume "ends s w \<noteq> {}"
  then obtain e where "suffix s (take e w)"
    by (auto simp: ends_def)
  then show "sublist s w"
    by (meson sublist_order.order_trans sublist_take suffix_imp_sublist)
next
  assume "sublist s w"
  then obtain u v where "w = u @ s @ v"
    by (auto simp: sublist_def)
  then have "length (u @ s) \<in> ends s w"
    by (intro endsI) (auto simp: suffix_def)
  then show "ends s w \<noteq> {}"
    by blast
qed

lemma ends_mono: "suffix t s \<Longrightarrow> ends s w \<subseteq> ends t w"
  by (auto simp: ends_def intro: suffix_order.order_trans)

lemma common_end:
  "e \<in> ends s w \<Longrightarrow> e \<in> ends t w \<Longrightarrow> length t \<le> length s \<Longrightarrow> suffix t s"
  by (auto simp: ends_def intro: suffix_length_suffix)

lemma ends_self: "length w \<in> ends s w \<longleftrightarrow> suffix s w"
  by (simp add: ends_def)

lemma ends_whole: "ends w w = {length w}"
  by (auto simp: ends_def dest: suffix_length_le)

lemma ends_snoc_text:
  "ends s (w @ [c]) = ends s w \<union> (if suffix s (w @ [c]) then {Suc (length w)} else {})"
  by (auto simp: ends_def le_Suc_eq)

lemma ends_snoc:
  "ends (s @ [c]) w = {Suc e | e. e \<in> ends s w \<and> e < length w \<and> w ! e = c}"
proof (intro set_eqI iffI)
  fix k
  assume k: "k \<in> ends (s @ [c]) w"
  then obtain e where e: "k = Suc e" "e < length w"
    using endsD [OF k] by (cases k) auto
  then have "take k w = take e w @ [w ! e]"
    by (simp add: take_Suc_conv_app_nth)
  with k have "suffix (s @ [c]) (take e w @ [w ! e])"
    by (auto simp: ends_def)
  then have "suffix s (take e w)" "w ! e = c"
    by (auto simp: suffix_def)
  with e show "k \<in> {Suc e | e. e \<in> ends s w \<and> e < length w \<and> w ! e = c}"
    by (auto simp: ends_def)
next
  fix k
  assume "k \<in> {Suc e | e. e \<in> ends s w \<and> e < length w \<and> w ! e = c}"
  then obtain e where "k = Suc e" "suffix s (take e w)" "e < length w" "w ! e = c"
    by (auto simp: ends_def)
  then show "k \<in> ends (s @ [c]) w"
    by (auto simp: ends_def take_Suc_conv_app_nth suffix_def)
qed

lemma ends_snoc_cong: "ends s w = ends t w \<Longrightarrow> ends (s @ [c]) w = ends (t @ [c]) w"
  by (simp add: ends_snoc)

lemma ends_snoc_mono: "ends s w \<subseteq> ends t w \<Longrightarrow> ends (s @ [c]) w \<subseteq> ends (t @ [c]) w"
  by (auto simp: ends_snoc)

lemma suffix_snoc_iff: "suffix (s @ [c]) (w @ [d]) \<longleftrightarrow> suffix s w \<and> c = d"
  by (auto simp: suffix_def)

section \<open>Left-maximal factors\<close>

definition left_max :: "'a list \<Rightarrow> 'a list \<Rightarrow> bool" where
  "left_max s w \<longleftrightarrow> ends s w \<noteq> {} \<and> (\<forall>a. ends (a # s) w \<noteq> ends s w)"

lemma suffix_Cons_trans: "suffix (a # s) t \<Longrightarrow> suffix s t"
  by (auto simp: suffix_def)

lemma strict_suffix_Cons:
  assumes "suffix s t" "s \<noteq> t" obtains a where "suffix (a # s) t"
proof -
  obtain u where u: "t = u @ s" "u \<noteq> []"
    using assms by (auto simp: suffix_def)
  then have "t = butlast u @ last u # s"
    by simp
  then show thesis
    using that by (metis suffix_def)
qed

lemma left_max_unique:
  assumes "left_max s w" "left_max t w" "ends s w = ends t w"
  shows "s = t"
proof -
  have "s = t" if prems: "left_max s w" "left_max t w"
    "ends s w = ends t w" "length s \<le> length t" for s t
  proof (rule ccontr)
    assume "s \<noteq> t"
    obtain e where "e \<in> ends s w"
      using prems(1) by (auto simp: left_max_def)
    then have "e \<in> ends s w" "e \<in> ends t w"
      using prems(3) by simp_all
    then have "suffix s t"
      using prems(4) common_end by blast
    then obtain a where "suffix (a # s) t"
      using \<open>s \<noteq> t\<close> by (rule strict_suffix_Cons)
    then have "ends t w \<subseteq> ends (a # s) w" "ends (a # s) w \<subseteq> ends s w"
      using ends_mono [of "a # s" t w] ends_mono [of s "a # s" w] by (simp_all add: suffix_ConsI)
    with prems show False
      by (auto simp: left_max_def)
  qed
  then show ?thesis
    using assms by (metis nat_le_linear)
qed

text \<open>Every factor has a left-maximal extension with the same occurrences.\<close>

lemma left_max_exists:
  assumes "ends s w \<noteq> {}"
  obtains t where "left_max t w" "ends t w = ends s w" "suffix s t"
  using assms
proof (induction "length w - length s" arbitrary: s thesis rule: less_induct)
  case less
  show ?case
  proof (cases "left_max s w")
    case True
    then show ?thesis
      using less.prems(1) by blast
  next
    case False
    then obtain a where a: "ends (a # s) w = ends s w"
      using less.prems(2) by (auto simp: left_max_def)
    then obtain e where "e \<in> ends (a # s) w"
      using less.prems(2) by auto
    then have "length (a # s) \<le> length w"
      using endsD [of e "a # s" w] by simp
    then have "length w - length (a # s) < length w - length s"
      by simp
    then obtain t where "left_max t w" "ends t w = ends (a # s) w" "suffix (a # s) t"
      using less.hyps [of "a # s"] less.prems(2) a by blast
    then show ?thesis
      using less.prems(1) [of t] a suffix_Cons_trans by metis
  qed
qed

text \<open>The left-maximal factor with the occurrences of \<open>s\<close>.\<close>

definition canon :: "'a list \<Rightarrow> 'a list \<Rightarrow> 'a list \<Rightarrow> bool" where
  "canon w s t \<longleftrightarrow> left_max t w \<and> ends t w = ends s w"

lemma canon_unique: "canon w s t \<Longrightarrow> canon w s u \<Longrightarrow> t = u"
  by (auto simp: canon_def intro: left_max_unique)

lemma canon_suffix:
  assumes "canon w s t" shows "suffix s t"
proof -
  have "ends s w \<noteq> {}"
    using assms by (auto simp: canon_def left_max_def)
  then obtain u where "left_max u w" "ends u w = ends s w" "suffix s u"
    by (rule left_max_exists)
  with assms show ?thesis
    using left_max_unique by (metis canon_def)
qed

lemma canon_exists: "ends s w \<noteq> {} \<Longrightarrow> \<exists>t. canon w s t"
  by (metis left_max_exists canon_def)

lemma canon_self: "left_max s w \<Longrightarrow> canon w s s"
  by (simp add: canon_def)

lemma left_max_Nil: "left_max [] w"
proof -
  have "0 \<in> ends [] w"
    by (simp add: ends_Nil)
  moreover have "0 \<notin> ends [a] w" for a
    by (simp add: ends_def)
  ultimately show ?thesis
    unfolding left_max_def by blast
qed

lemma left_max_whole: "left_max w w"
proof -
  have "ends (a # w) w = {}" for a
    by (auto simp: ends_def dest: suffix_length_le)
  then show ?thesis
    by (simp add: left_max_def ends_whole)
qed

section \<open>The suffix link\<close>

text \<open>The longest proper suffix that is left-maximal.\<close>

definition parent :: "'a list \<Rightarrow> 'a list \<Rightarrow> 'a list \<Rightarrow> bool" where
  "parent w s t \<longleftrightarrow> strict_suffix t s \<and> left_max t w
     \<and> (\<forall>u. strict_suffix u s \<longrightarrow> left_max u w \<longrightarrow> suffix u t)"

lemma parent_suffixes:
  assumes "parent w s t" "left_max u w"
  shows "suffix u s \<longleftrightarrow> u = s \<or> suffix u t"
  using assms unfolding parent_def
  by (meson suffix_order.less_le suffix_order.less_imp_le suffix_order.order_trans suffix_order.order_refl)

text \<open>Suffixes longer than the parent have the same occurrences.\<close>

lemma between_parent:
  assumes "parent w s t" "left_max s w" "suffix u s" "length t < length u"
  shows "ends u w = ends s w"
proof -
  have "ends u w \<noteq> {}"
    using assms(2,3) ends_mono [of u s w] by (auto simp: left_max_def)
  then obtain v where v: "canon w u v"
    using canon_exists by blast
  have "v = s"
  proof (rule ccontr)
    assume "v \<noteq> s"
    obtain e where e: "e \<in> ends s w"
      using assms(2) by (auto simp: left_max_def)
    then have "e \<in> ends v w"
      using v ends_mono [OF assms(3)] by (auto simp: canon_def)
    have "\<not> suffix s v"
    proof
      assume "suffix s v"
      then have "ends v w = ends s w"
        using ends_mono [of s v w] ends_mono [OF assms(3)] v by (auto simp: canon_def)
      then show False
        using v assms(2) \<open>v \<noteq> s\<close> left_max_unique [of v w s] by (simp add: canon_def)
    qed
    then have "length v < length s"
      using common_end [OF \<open>e \<in> ends v w\<close> e] by (meson not_le)
    then have "suffix v s"
      using common_end [OF e \<open>e \<in> ends v w\<close>] by simp
    then have "suffix v t"
      using assms(1) v \<open>v \<noteq> s\<close> by (auto simp: parent_def canon_def suffix_order.less_le)
    then show False
      using suffix_length_le [OF canon_suffix [OF v]] suffix_length_le [OF \<open>suffix v t\<close>] assms(4)
      by linarith
  qed
  with v show ?thesis
    by (simp add: canon_def)
qed

section \<open>One more letter\<close>

text \<open>The longest suffix of the new text that already occurs in the old one.\<close>

definition longest_old :: "'a list \<Rightarrow> 'a \<Rightarrow> 'a list \<Rightarrow> bool" where
  "longest_old w c t \<longleftrightarrow> suffix t (w @ [c]) \<and> ends t w \<noteq> {}
     \<and> (\<forall>u. suffix u (w @ [c]) \<longrightarrow> ends u w \<noteq> {} \<longrightarrow> suffix u t)"

lemma ends_old: "e \<le> length w \<Longrightarrow> e \<in> ends s (w @ [c]) \<longleftrightarrow> e \<in> ends s w"
  by (simp add: ends_def)

lemma ends_new: "Suc (length w) \<in> ends s (w @ [c]) \<longleftrightarrow> suffix s (w @ [c])"
  by (simp add: ends_def)

lemma ends_le: "e \<in> ends s w \<Longrightarrow> e \<le> length w"
  by (simp add: ends_def)

lemma ends_whole_old: "ends (w @ [c]) w = {}"
  by (auto simp: ends_def dest: suffix_length_le)

lemma left_max_grows:
  assumes "left_max s w" shows "left_max s (w @ [c])"
proof -
  have "ends (a # s) (w @ [c]) \<noteq> ends s (w @ [c])" for a
  proof -
    have "ends (a # s) w \<subseteq> ends s w" "ends (a # s) w \<noteq> ends s w"
      using assms ends_mono [of s "a # s"] by (auto simp: left_max_def suffix_ConsI)
    then obtain e where "e \<in> ends s w" "e \<notin> ends (a # s) w"
      by blast
    then show ?thesis
      using ends_old [OF ends_le] by metis
  qed
  moreover have "ends s (w @ [c]) \<noteq> {}"
    using assms by (auto simp: left_max_def ends_snoc_text)
  ultimately show ?thesis
    by (simp add: left_max_def)
qed

lemma left_max_longest_old:
  assumes "longest_old w c t" shows "left_max t (w @ [c])"
proof -
  obtain e where e: "e \<in> ends t w"
    using assms by (auto simp: longest_old_def)
  have "ends (a # t) (w @ [c]) \<noteq> ends t (w @ [c])" for a
  proof
    assume eq: "ends (a # t) (w @ [c]) = ends t (w @ [c])"
    have "suffix t (w @ [c])"
      using assms by (simp add: longest_old_def)
    then have "suffix (a # t) (w @ [c])"
      using eq ends_new by metis
    moreover have "e \<in> ends (a # t) w"
      using e eq ends_old [OF ends_le [OF e]] by metis
    ultimately have "suffix (a # t) t"
      using assms unfolding longest_old_def by blast
    then show False
      by (auto dest: suffix_length_le)
  qed
  moreover have "ends t (w @ [c]) \<noteq> {}"
    using e by (auto simp: ends_snoc_text)
  ultimately show ?thesis
    by (simp add: left_max_def)
qed

lemma left_max_shrinks:
  assumes t: "longest_old w c t" and s: "left_max s (w @ [c])" and "s \<noteq> w @ [c]" "s \<noteq> t"
  shows "left_max s w"
proof (cases "suffix s (w @ [c])")
  case False
  then have "\<not> suffix (a # s) (w @ [c])" for a
    using suffix_Cons_trans [of a s "w @ [c]"] by auto
  moreover have "ends u (w @ [c]) = ends u w" if "\<not> suffix u (w @ [c])" for u
    using that by (simp only: ends_snoc_text if_False Un_empty_right)
  ultimately show ?thesis
    using False s unfolding left_max_def by metis
next
  case True
  then obtain a where a: "suffix (a # s) (w @ [c])"
    using \<open>s \<noteq> w @ [c]\<close> by (rule strict_suffix_Cons)
  have same: "ends (a # s) (w @ [c]) = ends s (w @ [c])" if "ends (a # s) w = ends s w"
    using True a that by (simp add: ends_snoc_text)
  have "ends s w \<noteq> {}"
  proof
    assume "ends s w = {}"
    then have "ends (a # s) w = ends s w"
      using ends_mono [of s "a # s" w] by (simp add: suffix_ConsI)
    with same s show False
      by (auto simp: left_max_def)
  qed
  then have "suffix s t"
    using t True \<open>ends s w \<noteq> {}\<close> unfolding longest_old_def by blast
  then obtain a' where a': "suffix (a' # s) t"
    using \<open>s \<noteq> t\<close> by (rule strict_suffix_Cons)
  then have "suffix (a' # s) (w @ [c])"
    using t by (auto simp: longest_old_def intro: suffix_order.order_trans)
  then have "a' = a"
    using a suffix_length_suffix [of "a' # s" "w @ [c]" "a # s"] by (auto simp: suffix_def)
  then obtain e where e: "e \<in> ends (a # s) w"
    using t ends_mono [OF a', of w] by (auto simp: longest_old_def)
  have "ends (b # s) w \<noteq> ends s w" for b
  proof
    assume b: "ends (b # s) w = ends s w"
    then have "e \<in> ends (b # s) w"
      using e ends_mono [of s "a # s" w] by (auto simp: suffix_ConsI)
    then have "suffix (a # s) (b # s)"
      using common_end [of e "b # s" w "a # s"] e by simp
    then have "a = b"
      by (auto simp: suffix_def)
    with b same s show False
      by (auto simp: left_max_def)
  qed
  with \<open>ends s w \<noteq> {}\<close> show ?thesis
    by (simp add: left_max_def)
qed

lemma left_max_snoc:
  assumes "longest_old w c t"
  shows "left_max s (w @ [c]) \<longleftrightarrow> left_max s w \<or> s = w @ [c] \<or> s = t"
  using left_max_shrinks [OF assms, of s] left_max_longest_old [OF assms] left_max_grows [of s w c]
    left_max_whole [of "w @ [c]"] by auto

text \<open>Representatives of old factors: the class of \<open>t\<close> is split at \<open>t\<close>.\<close>

lemma canon_snoc_old:
  assumes t: "longest_old w c t" and r: "canon w s r"
  shows "canon (w @ [c]) s (if ends s w = ends t w \<and> length s \<le> length t then t else r)"
proof -
  have occ: "ends s w \<noteq> {}"
    using r by (auto simp: canon_def left_max_def)
  show ?thesis
  proof (cases "ends s w = ends t w \<and> length s \<le> length t")
    case True
    then have "suffix s t"
      using occ common_end [of _ t w s] by auto
    then have "suffix s (w @ [c])"
      using t by (auto simp: longest_old_def intro: suffix_order.order_trans)
    then show ?thesis
      using True t left_max_longest_old [OF t] by (simp add: canon_def ends_snoc_text longest_old_def)
  next
    case False
    have "suffix r (w @ [c])" if s: "suffix s (w @ [c])"
    proof -
      have st: "suffix s t"
        using t s occ unfolding longest_old_def by blast
      then have neq: "ends s w \<noteq> ends t w"
        using False suffix_length_le by blast
      obtain e where e: "e \<in> ends t w"
        using t by (auto simp: longest_old_def)
      then have er: "e \<in> ends r w"
        using ends_mono [OF st] r by (auto simp: canon_def)
      have "\<not> suffix t r"
        using ends_mono [of t r w] ends_mono [OF st, of w] r neq by (auto simp: canon_def)
      then have "suffix r t"
        using common_end [OF e er] common_end [OF er e] by (meson nat_le_linear)
      then show ?thesis
        using t by (auto simp: longest_old_def intro: suffix_order.order_trans)
    qed
    then have "suffix r (w @ [c]) \<longleftrightarrow> suffix s (w @ [c])"
      using suffix_order.order_trans [OF canon_suffix [OF r], of "w @ [c]"] by blast
    moreover have "ends r w = ends s w" "left_max r w"
      using r by (simp_all add: canon_def)
    ultimately have "ends r (w @ [c]) = ends s (w @ [c])"
      by (simp only: ends_snoc_text)
    with False show ?thesis
      using left_max_grows [OF \<open>left_max r w\<close>] by (auto simp: canon_def)
  qed
qed

lemma canon_snoc_new:
  assumes "suffix s (w @ [c])" "ends s w = {}" shows "canon (w @ [c]) s (w @ [c])"
  using assms left_max_whole [of "w @ [c]"] ends_whole [of "w @ [c]"] by (simp add: canon_def ends_snoc_text)

section \<open>Parents after one more letter\<close>

lemma parent_whole:
  assumes t: "longest_old w c t" shows "parent (w @ [c]) (w @ [c]) t"
  unfolding parent_def
proof (intro conjI allI impI)
  show "strict_suffix t (w @ [c])"
    using t ends_whole_old [of w c] by (auto simp: longest_old_def suffix_order.less_le)
  show "left_max t (w @ [c])"
    using t by (rule left_max_longest_old)
  fix u
  assume "strict_suffix u (w @ [c])" "left_max u (w @ [c])"
  then show "suffix u t"
    using left_max_snoc [OF t] t by (auto simp: longest_old_def left_max_def suffix_order.less_le)
qed

lemma parent_class_of_t:
  assumes t: "longest_old w c t" and s: "canon w t s" "t \<noteq> s" and u: "parent w s u"
  shows "parent (w @ [c]) s t" and "parent (w @ [c]) t u"
proof -
  have ts: "strict_suffix t s"
    using canon_suffix [OF s(1)] s(2) by (simp add: suffix_order.less_le)
  have lm: "left_max s w" and ends: "ends s w = ends t w"
    using s(1) by (simp_all add: canon_def)
  obtain e where e: "e \<in> ends s w"
    using lm by (auto simp: left_max_def)
  then have "length s \<le> length w"
    using endsD by fastforce
  then have short: "v \<noteq> w @ [c]" if "suffix v s" for v
    using that suffix_length_le by fastforce
  have shorter: "length v < length t" if v: "strict_suffix v s" "left_max v w" for v
  proof (rule ccontr)
    assume "\<not> ?thesis"
    then have "suffix t v"
      using v(1) ts by (meson not_less suffix_length_suffix suffix_order.less_imp_le)
    then have "ends v w = ends s w"
      using ends_mono [of t v w] ends_mono [of v s w] ends v(1) by (auto simp: suffix_order.less_le)
    then show False
      using left_max_unique [OF v(2) lm] v(1) by (simp add: suffix_order.less_le)
  qed
  have into: "suffix v t" if "strict_suffix v s" "left_max v w" for v
    using shorter [OF that] that(1) ts
    by (meson less_imp_le suffix_length_suffix suffix_order.less_imp_le)
  show "parent (w @ [c]) s t"
    unfolding parent_def
    using ts left_max_longest_old [OF t] left_max_snoc [OF t] short into
    by (auto simp: suffix_order.less_le)
  show "parent (w @ [c]) t u"
    unfolding parent_def
  proof (intro conjI allI impI)
    have "strict_suffix u s" "left_max u w"
      using u by (simp_all add: parent_def)
    then show "strict_suffix u t" "left_max u (w @ [c])"
      using into shorter left_max_grows by (auto simp: suffix_order.less_le)
    fix v
    assume v: "strict_suffix v t" "left_max v (w @ [c])"
    then have "strict_suffix v s"
      using ts by (meson suffix_order.less_trans)
    moreover have "left_max v w"
      using v left_max_snoc [OF t] short [of v] calculation by (auto simp: suffix_order.less_le)
    ultimately show "suffix v u"
      using u by (simp add: parent_def)
  qed
qed

lemma parent_other:
  assumes t: "longest_old w c t" and s: "left_max s w" "\<not> (canon w t s \<and> t \<noteq> s)" and u: "parent w s u"
  shows "parent (w @ [c]) s u"
  unfolding parent_def
proof (intro conjI allI impI)
  show us: "strict_suffix u s" and "left_max u (w @ [c])"
    using u left_max_grows by (auto simp: parent_def)
  fix v
  assume v: "strict_suffix v s" "left_max v (w @ [c])"
  obtain e where "e \<in> ends s w"
    using s(1) by (auto simp: left_max_def)
  then have "length s \<le> length w"
    using endsD by fastforce
  then have "v \<noteq> w @ [c]"
    using v(1) suffix_length_le [of v s] by (auto simp: suffix_order.less_le)
  then consider "left_max v w" | "v = t"
    using v(2) left_max_snoc [OF t] by blast
  then show "suffix v u"
  proof cases
    case 1
    then show ?thesis
      using u v(1) by (simp add: parent_def)
  next
    case 2
    have "\<not> length u < length t"
    proof
      assume "length u < length t"
      then have "ends t w = ends s w"
        using between_parent [OF u s(1), of t] v(1) 2 by (simp add: suffix_order.less_le)
      then show False
        using s v(1) 2 by (auto simp: canon_def suffix_order.less_le)
    qed
    then show ?thesis
      using 2 v(1) us by (meson not_less suffix_length_suffix suffix_order.less_imp_le)
  qed
qed

end
