(* ===== verification/Suffix_Automaton.thy ===== *)
theory Suffix_Automaton
  imports Prelude
begin

text \<open>
  The suffix automaton that drafts tokens by lookup, \<open>nv-lookup/src/suffix_automaton.rs\<close>:
  states with transitions sorted by token, the online construction \<open>extend\<close> with its two
  walks along the suffix links, and \<open>propose\<close>. A result \<^term>\<open>None\<close> of a walk, of \<open>extend\<close> and
  the outer \<^term>\<open>None\<close> of \<open>propose\<close> stand for an index out of range or for a walk that does
  not end. Lengths, positions and state numbers are \<open>u32\<close> and \<open>i32\<close> in the code; they are
  natural numbers and integers here, and the theory of its properties bounds them by twice
  the number of tokens.
\<close>

section \<open>States\<close>

record sam_state =
  len :: nat
  link :: int
  firstpos :: nat
  nexts :: "(token \<times> nat) list"

text \<open>
  \<open>binary_search_by_key\<close> on a vector sorted by distinct keys: the index of the key, or the
  index at which it would be inserted.
\<close>

fun find_key :: "token \<Rightarrow> (token \<times> nat) list \<Rightarrow> nat + nat" where
  "find_key tok [] = Inl 0"
| "find_key tok ((t, d) # rest) =
     (if t = tok then Inr 0
      else if tok < t then Inl 0
      else case find_key tok rest of Inl i \<Rightarrow> Inl (Suc i) | Inr i \<Rightarrow> Inr (Suc i))"

definition get_tok :: "token \<Rightarrow> sam_state \<Rightarrow> nat option" where
  "get_tok tok s = (case find_key tok (nexts s) of
     Inr i \<Rightarrow> Some (snd (nexts s ! i))
   | Inl _ \<Rightarrow> None)"

definition set_tok :: "token \<Rightarrow> nat \<Rightarrow> sam_state \<Rightarrow> sam_state" where
  "set_tok tok dst s = (case find_key tok (nexts s) of
     Inr i \<Rightarrow> s\<lparr>nexts := (nexts s)[i := (fst (nexts s ! i), dst)]\<rparr>
   | Inl i \<Rightarrow> s\<lparr>nexts := insert_at i (tok, dst) (nexts s)\<rparr>)"

section \<open>The automaton\<close>

record sam =
  states :: "sam_state list"
  last_state :: nat
  toks :: "token list"

definition u32_max :: nat where
  "u32_max = 4294967295"

definition new_sam :: sam where
  "new_sam = \<lparr>states = [\<lparr>len = 0, link = -1, firstpos = u32_max, nexts = []\<rparr>],
     last_state = 0, toks = []\<rparr>"

text \<open>\<open>while p >= 0 && states[p].get(tok).is_none() { states[p].set(tok, cur); p = states[p].link }\<close>\<close>

partial_function (option) link_missing ::
  "token \<Rightarrow> nat \<Rightarrow> sam_state list \<Rightarrow> int \<Rightarrow> (sam_state list \<times> int) option" where
  "link_missing tok cur st p =
     (if p < 0 then Some (st, p)
      else if length st \<le> nat p then None
      else if get_tok tok (st ! nat p) \<noteq> None then Some (st, p)
      else link_missing tok cur (st[nat p := set_tok tok cur (st ! nat p)]) (link (st ! nat p)))"

text \<open>\<open>while p >= 0 && states[p].get(tok) == Some(q) { states[p].set(tok, clone); p = states[p].link }\<close>\<close>

partial_function (option) redirect ::
  "token \<Rightarrow> nat \<Rightarrow> nat \<Rightarrow> sam_state list \<Rightarrow> int \<Rightarrow> sam_state list option" where
  "redirect tok q clone st p =
     (if p < 0 then Some st
      else if length st \<le> nat p then None
      else if get_tok tok (st ! nat p) \<noteq> Some q then Some st
      else redirect tok q clone (st[nat p := set_tok tok clone (st ! nat p)]) (link (st ! nat p)))"

definition set_link :: "nat \<Rightarrow> nat \<Rightarrow> sam_state list \<Rightarrow> sam_state list" where
  "set_link i k st = st[i := (st ! i)\<lparr>link := int k\<rparr>]"

definition sam_extend :: "token \<Rightarrow> sam \<Rightarrow> sam option" where
  "sam_extend tok a =
     (let pos = length (toks a); tokens = toks a @ [tok]; cur = length (states a) in
      if length (states a) \<le> last_state a then None
      else
        let fresh = \<lparr>len = len (states a ! last_state a) + 1, link = -1, firstpos = pos, nexts = []\<rparr> in
        case link_missing tok cur (states a @ [fresh]) (int (last_state a)) of
          None \<Rightarrow> None
        | Some (st, p) \<Rightarrow>
            if p < 0 then
              Some \<lparr>states = set_link cur 0 st, last_state = cur, toks = tokens\<rparr>
            else
              (case get_tok tok (st ! nat p) of
                 None \<Rightarrow> None
               | Some q \<Rightarrow>
                   if length st \<le> q then None
                   else if len (st ! nat p) + 1 = len (st ! q) then
                     Some \<lparr>states = set_link cur q st, last_state = cur, toks = tokens\<rparr>
                   else
                     let clone = length st;
                         cloned = \<lparr>len = len (st ! nat p) + 1, link = link (st ! q),
                           firstpos = firstpos (st ! q), nexts = nexts (st ! q)\<rparr> in
                     (case redirect tok q clone (st @ [cloned]) p of
                        None \<Rightarrow> None
                      | Some st2 \<Rightarrow>
                          Some \<lparr>states = set_link cur clone (set_link q clone st2),
                            last_state = cur, toks = tokens\<rparr>)))"

fun sam_extend_slice :: "token list \<Rightarrow> sam \<Rightarrow> sam option" where
  "sam_extend_slice [] a = Some a"
| "sam_extend_slice (t # ts) a =
     (case sam_extend t a of None \<Rightarrow> None | Some b \<Rightarrow> sam_extend_slice ts b)"

section \<open>Proposals\<close>

record suffix_proposal =
  match_len :: nat
  proposed :: "token list"

definition sam_propose :: "nat \<Rightarrow> nat \<Rightarrow> sam \<Rightarrow> suffix_proposal option option" where
  "sam_propose max_len min_match a =
     (if max_len = 0 \<or> length (toks a) < 2 then Some None
      else if length (states a) \<le> last_state a then None
      else
        let n = length (toks a); lk = link (states a ! last_state a) in
        if lk \<le> 0 then Some None
        else
          let u = nat lk in
          if length (states a) \<le> u then None
          else
            let mlen = len (states a ! u) in
            if mlen < max min_match 1 then Some None
            else
              let start = firstpos (states a ! u) + 1 in
              if n \<le> start then Some None
              else
                let k = min (n - start) max_len in
                Some (Some \<lparr>match_len = mlen, proposed = take k (drop start (toks a))\<rparr>))"

text \<open>
  The reference of the unit tests: for every suffix length, longest first, the first
  earlier end at which the suffix occurs.
\<close>

definition first_earlier_end :: "token list \<Rightarrow> nat \<Rightarrow> nat option" where
  "first_earlier_end ts l =
     (let n = length ts in
      find (\<lambda>e. take l (drop (e + 1 - l) ts) = drop (n - l) ts) [l - 1..<n - 1])"

fun naive_search :: "token list \<Rightarrow> nat \<Rightarrow> nat \<Rightarrow> nat \<Rightarrow> suffix_proposal option" where
  "naive_search ts max_len min_match 0 = None"
| "naive_search ts max_len min_match (Suc l) =
     (case first_earlier_end ts (Suc l) of
        Some e \<Rightarrow>
          if Suc l < max min_match 1 then None
          else Some \<lparr>match_len = Suc l,
            proposed = take (min (length ts - (e + 1)) max_len) (drop (e + 1) ts)\<rparr>
      | None \<Rightarrow> naive_search ts max_len min_match l)"

definition naive_propose :: "token list \<Rightarrow> nat \<Rightarrow> nat \<Rightarrow> suffix_proposal option" where
  "naive_propose ts max_len min_match =
     (if length ts < 2 \<or> max_len = 0 then None
      else naive_search ts max_len min_match (length ts - 1))"

section \<open>Sorted transitions\<close>

definition sorted_nexts :: "sam_state \<Rightarrow> bool" where
  "sorted_nexts s \<longleftrightarrow> sorted_wrt (<) (map fst (nexts s))"

lemma find_key_Inr:
  "find_key tok xs = Inr i \<Longrightarrow> i < length xs \<and> fst (xs ! i) = tok"
  by (induction tok xs arbitrary: i rule: find_key.induct) (auto split: if_splits sum.splits)

lemma find_key_map_of:
  "sorted_wrt (<) (map fst xs) \<Longrightarrow>
     (case find_key tok xs of Inr i \<Rightarrow> Some (snd (xs ! i)) | Inl _ \<Rightarrow> None) = map_of xs tok"
proof (induction tok xs rule: find_key.induct)
  case (2 tok t d rest)
  have "map_of rest tok = None" if "tok < t"
    using 2(2) that by (force simp: map_of_eq_None_iff)
  with 2 show ?case
    by (auto split: sum.splits)
qed simp

lemma get_tok_map_of: "sorted_nexts s \<Longrightarrow> get_tok tok s = map_of (nexts s) tok"
  unfolding get_tok_def sorted_nexts_def by (rule find_key_map_of)

lemma set_tok_fields [simp]:
  "len (set_tok tok d s) = len s" "link (set_tok tok d s) = link s"
  "firstpos (set_tok tok d s) = firstpos s"
  by (simp_all add: set_tok_def split: sum.split)

lemma find_key_Inl:
  assumes "sorted_wrt (<) (map fst xs)" "find_key tok xs = Inl i"
  shows "sorted_wrt (<) (map fst (insert_at i (tok, d) xs))
    \<and> map_of (insert_at i (tok, d) xs) = (map_of xs)(tok \<mapsto> d)"
  using assms
proof (induction tok xs arbitrary: i rule: find_key.induct)
  case (2 tok t e rest)
  show ?case
  proof (cases "tok < t")
    case True
    with 2(3) have "i = 0"
      by (auto split: if_splits)
    with True 2(2) show ?thesis
      by (auto simp: insert_at_def intro: less_trans)
  next
    case False
    with 2 obtain j where j: "i = Suc j" "find_key tok rest = Inl j" "t < tok"
      by (auto split: if_splits sum.splits)
    have step: "insert_at i (tok, d) ((t, e) # rest) = (t, e) # insert_at j (tok, d) rest"
      by (simp add: insert_at_def j)
    have "sorted_wrt (<) (map fst (insert_at j (tok, d) rest))"
      "map_of (insert_at j (tok, d) rest) = (map_of rest)(tok \<mapsto> d)"
      using 2 False j by (auto split: if_splits)
    with 2(2) j show ?thesis
      unfolding step by (auto simp: set_insert_at fun_upd_twist)
  qed
qed (simp add: insert_at_def)

lemma find_key_update:
  assumes "sorted_wrt (<) (map fst xs)" "find_key tok xs = Inr i"
  shows "map fst (xs[i := (fst (xs ! i), d)]) = map fst xs
    \<and> map_of (xs[i := (fst (xs ! i), d)]) = (map_of xs)(tok \<mapsto> d)"
  using assms
proof (induction tok xs arbitrary: i rule: find_key.induct)
  case (2 tok t e rest)
  then show ?case
    by (auto split: if_splits sum.splits simp: fun_upd_twist)
qed simp

lemma set_tok_map_of:
  assumes "sorted_nexts s"
  shows "map_of (nexts (set_tok tok d s)) = (map_of (nexts s))(tok \<mapsto> d)"
  using assms find_key_Inl [of "nexts s" tok _ d] find_key_update [of "nexts s" tok _ d]
  by (auto simp: set_tok_def sorted_nexts_def split: sum.split)

lemma set_tok_sorted: "sorted_nexts s \<Longrightarrow> sorted_nexts (set_tok tok d s)"
  using find_key_Inl [of "nexts s" tok _ d] find_key_update [of "nexts s" tok _ d]
  by (auto simp: set_tok_def sorted_nexts_def split: sum.split)

end
