(* ===== verification/Sam_Walks.thy ===== *)
theory Sam_Walks
  imports Factors Suffix_Automaton
begin

text \<open>
  The automaton of a text names every left-maximal factor by a state. This theory states
  that correspondence, shows what the two walks along the suffix links change, and that
  both walks end.
\<close>

section \<open>The correspondence\<close>

text \<open>\<open>N ! i\<close> is the factor of state \<open>i\<close>: the longest string that leads to it.\<close>

definition link_ok :: "token list list \<Rightarrow> token list \<Rightarrow> token list \<Rightarrow> int \<Rightarrow> bool" where
  "link_ok N w s l \<longleftrightarrow> (if s = [] then l = -1
     else \<exists>k < length N. l = int k \<and> parent w s (N ! k))"

definition trans_ok :: "token list list \<Rightarrow> token list \<Rightarrow> token list \<Rightarrow> (token \<Rightarrow> nat option) \<Rightarrow> bool" where
  "trans_ok N w s m \<longleftrightarrow> (\<forall>c. case m c of
     None \<Rightarrow> ends (s @ [c]) w = {}
   | Some j \<Rightarrow> j < length N \<and> canon w (s @ [c]) (N ! j))"

definition state_ok :: "token list list \<Rightarrow> token list \<Rightarrow> token list \<Rightarrow> sam_state \<Rightarrow> bool" where
  "state_ok N w s x \<longleftrightarrow> len x = length s \<and> sorted_nexts x \<and> link_ok N w s (link x)
     \<and> trans_ok N w s (map_of (nexts x))
     \<and> (s \<noteq> [] \<longrightarrow> Suc (firstpos x) = Min (ends s w))"

definition names_ok :: "token list list \<Rightarrow> token list \<Rightarrow> bool" where
  "names_ok N w \<longleftrightarrow> distinct N \<and> set N = {s. left_max s w} \<and> N \<noteq> [] \<and> N ! 0 = []"

definition sam_ok :: "token list list \<Rightarrow> sam \<Rightarrow> bool" where
  "sam_ok N a \<longleftrightarrow> names_ok N (toks a) \<and> length (states a) = length N
     \<and> last_state a < length N \<and> N ! last_state a = toks a
     \<and> (\<forall>i < length N. state_ok N (toks a) (N ! i) (states a ! i))"

lemma names_left_max: "names_ok N w \<Longrightarrow> i < length N \<Longrightarrow> left_max (N ! i) w"
  by (auto simp: names_ok_def)

lemma names_inj: "names_ok N w \<Longrightarrow> i < length N \<Longrightarrow> j < length N \<Longrightarrow> N ! i = N ! j \<longleftrightarrow> i = j"
  by (simp add: names_ok_def nth_eq_iff_index_eq)

lemma names_index:
  assumes "names_ok N w" "left_max s w" obtains i where "i < length N" "N ! i = s"
proof -
  have "s \<in> set N"
    using assms by (simp add: names_ok_def)
  then show thesis
    using that by (auto simp: in_set_conv_nth)
qed

lemma canon_nonempty: "canon w s t \<Longrightarrow> ends s w \<noteq> {}"
  by (auto simp: canon_def left_max_def)

lemma trans_NoneD: "trans_ok N w s m \<Longrightarrow> m c = None \<Longrightarrow> ends (s @ [c]) w = {}"
  unfolding trans_ok_def by (drule spec [of _ c]) simp

lemma trans_SomeD: "trans_ok N w s m \<Longrightarrow> m c = Some j \<Longrightarrow> j < length N \<and> canon w (s @ [c]) (N ! j)"
  unfolding trans_ok_def by (drule spec [of _ c]) simp

lemma trans_None: "trans_ok N w s m \<Longrightarrow> m c = None \<longleftrightarrow> ends (s @ [c]) w = {}"
  using trans_NoneD trans_SomeD canon_nonempty by (metis option.exhaust)

lemma trans_Some:
  assumes "names_ok N w" "trans_ok N w s m" "q < length N"
  shows "m c = Some q \<longleftrightarrow> canon w (s @ [c]) (N ! q)"
proof
  assume "m c = Some q"
  then show "canon w (s @ [c]) (N ! q)"
    using trans_SomeD [OF assms(2)] by blast
next
  assume canon: "canon w (s @ [c]) (N ! q)"
  then obtain j where j: "m c = Some j"
    using trans_None [OF assms(2), of c] canon_nonempty [OF canon] by auto
  then have "j < length N" "canon w (s @ [c]) (N ! j)"
    using trans_SomeD [OF assms(2)] by blast+
  then have "j = q"
    using canon_unique [OF canon] names_inj [OF assms(1) _ assms(3), of j] by metis
  with j show "m c = Some q"
    by simp
qed

section \<open>The first walk\<close>

text \<open>What a walk needs of the states it visits: their links and their transitions on the letter.\<close>

definition walk_ok :: "token list list \<Rightarrow> token list \<Rightarrow> token \<Rightarrow> token list \<Rightarrow> sam_state list \<Rightarrow> bool" where
  "walk_ok N w tok y st \<longleftrightarrow> length N \<le> length st \<and> (\<forall>i < length N. link_ok N w (N ! i) (link (st ! i)))
     \<and> (\<forall>i < length N. suffix (N ! i) y \<longrightarrow> sorted_nexts (st ! i)
          \<and> trans_ok N w (N ! i) (map_of (nexts (st ! i))))"

lemma walk_update:
  assumes names: "names_ok N w" and ok: "walk_ok N w tok y st" and k: "k < length N" "N ! k = y"
    and z: "strict_suffix z y" and x: "link x = link (st ! k)"
  shows "walk_ok N w tok z (st[k := x])"
proof -
  have "N ! i \<noteq> y" if "suffix (N ! i) z" for i
    using that z by (auto simp: suffix_order.less_le_not_le)
  moreover have "suffix (N ! i) y" if "suffix (N ! i) z" for i
    using that z suffix_order.order_trans suffix_order.less_imp_le by blast
  ultimately show ?thesis
    using ok k x by (auto simp: walk_ok_def nth_list_update)
qed

definition linked :: "token list list \<Rightarrow> token list \<Rightarrow> token \<Rightarrow> token list \<Rightarrow> nat \<Rightarrow> sam_state list \<Rightarrow> sam_state list" where
  "linked N w tok y cur st = map (\<lambda>i. if i < length N \<and> suffix (N ! i) y \<and> ends (N ! i @ [tok]) w = {}
     then set_tok tok cur (st ! i) else st ! i) [0..<length st]"

text \<open>Where the first walk stops: at the longest suffix that the letter extends, or below the root.\<close>

definition stops :: "token list list \<Rightarrow> token list \<Rightarrow> token \<Rightarrow> token list \<Rightarrow> int \<Rightarrow> bool" where
  "stops N w tok y p \<longleftrightarrow>
     (if p < 0 then p = -1 \<and> (\<forall>i < length N. suffix (N ! i) y \<longrightarrow> ends (N ! i @ [tok]) w = {})
      else nat p < length N \<and> suffix (N ! nat p) y \<and> ends (N ! nat p @ [tok]) w \<noteq> {}
        \<and> (\<forall>i < length N. suffix (N ! i) y \<longrightarrow> ends (N ! i @ [tok]) w \<noteq> {} \<longrightarrow> suffix (N ! i) (N ! nat p)))"

lemma ends_snoc_suffix: "suffix z y \<Longrightarrow> ends (y @ [c]) w \<subseteq> ends (z @ [c]) w"
  by (intro ends_snoc_mono ends_mono)

lemma link_missing_correct:
  assumes names: "names_ok N w"
  shows "walk_ok N w tok y st \<Longrightarrow> k < length N \<Longrightarrow> N ! k = y \<Longrightarrow>
    \<exists>p. link_missing tok cur st (int k) = Some (linked N w tok y cur st, p) \<and> stops N w tok y p"
proof (induction "length y" arbitrary: y st k rule: less_induct)
  case less
  note ok = less.prems(1) and k = less.prems(2) and y = less.prems(3)
  have lm: "left_max y w"
    using names_left_max [OF names k] y by simp
  have len: "k < length st" and sorted: "sorted_nexts (st ! k)"
    and tr: "trans_ok N w y (map_of (nexts (st ! k)))" and lk: "link_ok N w y (link (st ! k))"
    using ok k y by (auto simp: walk_ok_def)
  have get: "get_tok tok (st ! k) = None \<longleftrightarrow> ends (y @ [tok]) w = {}"
    by (simp add: get_tok_map_of [OF sorted] trans_None [OF tr])
  show ?case
  proof (cases "ends (y @ [tok]) w = {}")
    case False
    then have none: "ends (N ! i @ [tok]) w \<noteq> {}" if "suffix (N ! i) y" for i
      using ends_snoc_suffix [OF that, of tok w] by blast
    then have "linked N w tok y cur st = st"
      by (intro nth_equalityI) (auto simp: linked_def)
    moreover have "stops N w tok y (int k)"
      using False k y by (simp add: stops_def)
    moreover have "link_missing tok cur st (int k) = Some (st, int k)"
      using False get len by (subst link_missing.simps) auto
    ultimately show ?thesis
      by simp
  next
    case True
    let ?st = "st[k := set_tok tok cur (st ! k)]"
    have step: "link_missing tok cur st (int k) = link_missing tok cur ?st (link (st ! k))"
      using True get len by (subst link_missing.simps) auto
    show ?thesis
    proof (cases "y = []")
      case nil: True
      then have "link (st ! k) = -1"
        using lk by (simp add: link_ok_def)
      moreover have "linked N w tok y cur st = ?st"
        using nil True k y len names_inj [OF names _ k]
        by (intro nth_equalityI) (auto simp: linked_def nth_list_update)
      moreover have "stops N w tok y (-1)"
        using nil True by (simp add: stops_def)
      ultimately show ?thesis
        unfolding step by (subst link_missing.simps) auto
    next
      case cons: False
      then obtain j where j: "j < length N" "link (st ! k) = int j" and par: "parent w y (N ! j)"
        using lk by (auto simp: link_ok_def)
      have strict: "strict_suffix (N ! j) y"
        using par by (simp add: parent_def)
      have suffs: "suffix (N ! i) y \<longleftrightarrow> i = k \<or> suffix (N ! i) (N ! j)" if "i < length N" for i
        using parent_suffixes [OF par names_left_max [OF names that]] names_inj [OF names that k] y by simp
      have "walk_ok N w tok (N ! j) ?st"
        using walk_update [OF names ok k y strict] by simp
      then obtain p where p: "link_missing tok cur ?st (int j) = Some (linked N w tok (N ! j) cur ?st, p)"
        "stops N w tok (N ! j) p"
        using less.hyps [of "N ! j" ?st j] j(1) suffix_length_le [of "N ! j" y] strict
        by (metis strict_suffix_def suffix_length_less)
      have notk: "\<not> suffix (N ! k) (N ! j)"
        using strict y by (auto simp: suffix_order.less_le_not_le)
      have "linked N w tok (N ! j) cur ?st = linked N w tok y cur st"
        using suffs True y notk k len
        by (intro nth_equalityI) (auto simp: linked_def nth_list_update)
      moreover have "stops N w tok y p"
        using p(2) suffs True y j(1) strict suffix_order.order_trans [of _ "N ! j" y]
        unfolding stops_def by (auto simp: suffix_order.less_le split: if_splits)
      ultimately show ?thesis
        using p(1) j(2) step by auto
    qed
  qed
qed

section \<open>The second walk\<close>

definition redirected ::
  "token list list \<Rightarrow> token list \<Rightarrow> token \<Rightarrow> token list \<Rightarrow> nat \<Rightarrow> nat \<Rightarrow> sam_state list \<Rightarrow> sam_state list" where
  "redirected N w tok y q clone st = map (\<lambda>i. if i < length N \<and> suffix (N ! i) y
     \<and> canon w (N ! i @ [tok]) (N ! q) then set_tok tok clone (st ! i) else st ! i) [0..<length st]"

lemma redirect_correct:
  assumes names: "names_ok N w" and q: "q < length N"
  shows "walk_ok N w tok y st \<Longrightarrow> k < length N \<Longrightarrow> N ! k = y \<Longrightarrow> ends (N ! q) w \<subseteq> ends (y @ [tok]) w \<Longrightarrow>
    redirect tok q clone st (int k) = Some (redirected N w tok y q clone st)"
proof (induction "length y" arbitrary: y st k rule: less_induct)
  case less
  note ok = less.prems(1) and k = less.prems(2) and y = less.prems(3) and sub = less.prems(4)
  have len: "k < length st" and sorted: "sorted_nexts (st ! k)"
    and tr: "trans_ok N w y (map_of (nexts (st ! k)))" and lk: "link_ok N w y (link (st ! k))"
    using ok k y by (auto simp: walk_ok_def)
  have get: "get_tok tok (st ! k) = Some q \<longleftrightarrow> canon w (y @ [tok]) (N ! q)"
    by (simp add: get_tok_map_of [OF sorted] trans_Some [OF names tr q])
  show ?case
  proof (cases "canon w (y @ [tok]) (N ! q)")
    case False
    have none: "\<not> canon w (N ! i @ [tok]) (N ! q)" if "suffix (N ! i) y" for i
    proof
      assume c: "canon w (N ! i @ [tok]) (N ! q)"
      then have "ends (y @ [tok]) w = ends (N ! q) w"
        using sub ends_snoc_suffix [OF that, of tok w] by (auto simp: canon_def)
      with c False show False
        by (simp add: canon_def)
    qed
    then have "redirected N w tok y q clone st = st"
      by (intro nth_equalityI) (auto simp: redirected_def)
    moreover have "redirect tok q clone st (int k) = Some st"
      using False get len by (subst redirect.simps) auto
    ultimately show ?thesis
      by simp
  next
    case True
    let ?st = "st[k := set_tok tok clone (st ! k)]"
    have step: "redirect tok q clone st (int k) = redirect tok q clone ?st (link (st ! k))"
      using True get len by (subst redirect.simps) auto
    show ?thesis
    proof (cases "y = []")
      case nil: True
      then have "link (st ! k) = -1"
        using lk by (simp add: link_ok_def)
      moreover have "redirected N w tok y q clone st = ?st"
        using nil True k y len names_inj [OF names _ k]
        by (intro nth_equalityI) (auto simp: redirected_def nth_list_update)
      ultimately show ?thesis
        unfolding step by (subst redirect.simps) auto
    next
      case cons: False
      then obtain j where j: "j < length N" "link (st ! k) = int j" and par: "parent w y (N ! j)"
        using lk by (auto simp: link_ok_def)
      have strict: "strict_suffix (N ! j) y"
        using par by (simp add: parent_def)
      then have suff: "suffix (N ! j) y"
        by (simp add: suffix_order.less_le)
      have suffs: "suffix (N ! i) y \<longleftrightarrow> i = k \<or> suffix (N ! i) (N ! j)" if "i < length N" for i
        using parent_suffixes [OF par names_left_max [OF names that]] names_inj [OF names that k] y by simp
      have "walk_ok N w tok (N ! j) ?st"
        using walk_update [OF names ok k y strict] by simp
      moreover have "ends (N ! q) w \<subseteq> ends (N ! j @ [tok]) w"
        using sub ends_snoc_suffix [OF suff, of tok w] by blast
      ultimately have rec: "redirect tok q clone ?st (int j) = Some (redirected N w tok (N ! j) q clone ?st)"
        using less.hyps [of "N ! j" ?st j] j(1) suffix_length_less [OF strict] by simp
      have notk: "\<not> suffix (N ! k) (N ! j)"
        using strict y by (auto simp: suffix_order.less_le_not_le)
      have "redirected N w tok (N ! j) q clone ?st = redirected N w tok y q clone st"
        using suffs True y notk k len
        by (intro nth_equalityI) (auto simp: redirected_def nth_list_update)
      then show ?thesis
        using rec j(2) step by simp
    qed
  qed
qed

end
