(* ===== verification/Sam_Correct.thy ===== *)
theory Sam_Correct
  imports Sam_Walks
begin

text \<open>
  The construction keeps the correspondence between states and left-maximal factors when
  the text grows by a token.
\<close>

section \<open>Where the first walk stops\<close>

lemma extended_suffix:
  assumes "suffix z w" "ends (z @ [c]) w \<noteq> {}"
  obtains y where "left_max y w" "suffix y w" "suffix z y" "ends (y @ [c]) w \<noteq> {}"
proof -
  have "length w \<in> ends z w"
    using assms(1) by (simp add: ends_self)
  then obtain y where y: "canon w z y"
    using canon_exists by blast
  then have same: "ends y w = ends z w"
    by (simp add: canon_def)
  then have "suffix y w"
    using \<open>length w \<in> ends z w\<close> by (simp flip: ends_self)
  moreover have "ends (y @ [c]) w \<noteq> {}"
    using assms(2) ends_snoc_cong [OF same] by simp
  ultimately show thesis
    using that canon_suffix [OF y] y by (auto simp: canon_def)
qed

lemma stops_longest_old:
  assumes names: "names_ok N w" and stop: "stops N w c w p"
  shows "longest_old w c (if p < 0 then [] else N ! nat p @ [c])"
  unfolding longest_old_def
proof (intro conjI allI impI)
  let ?t = "if p < 0 then [] else N ! nat p @ [c]"
  show "suffix ?t (w @ [c])"
    using stop by (auto simp: stops_def suffix_snoc_iff)
  show "ends ?t w \<noteq> {}"
    using stop by (auto simp: stops_def ends_Nil)
  fix u
  assume u: "suffix u (w @ [c])" "ends u w \<noteq> {}"
  show "suffix u ?t"
  proof (cases "u = []")
    case False
    then obtain z where z: "u = z @ [c]" "suffix z w"
      using u(1) by (auto simp: suffix_snoc)
    then obtain y where y: "left_max y w" "suffix y w" "suffix z y" "ends (y @ [c]) w \<noteq> {}"
      using extended_suffix [OF z(2), of c] u(2) z(1) by blast
    then obtain i where "i < length N" "N ! i = y"
      using names_index [OF names] by blast
    with y stop have "\<not> p < 0" "suffix y (N ! nat p)"
      by (auto simp: stops_def split: if_splits)
    with y(3) z(1) show ?thesis
      by (auto simp: suffix_snoc_iff intro: suffix_order.order_trans)
  qed simp
qed

section \<open>Transitions, links and first positions after one more letter\<close>

definition extends :: "token list list \<Rightarrow> token list list \<Rightarrow> bool" where
  "extends N N' \<longleftrightarrow> length N \<le> length N' \<and> (\<forall>j < length N. N' ! j = N ! j)"

lemma trans_grow:
  assumes t: "longest_old w tok t" and tr: "trans_ok N w s m" and ext: "extends N N'"
    and cur: "cur < length N'" "N' ! cur = w @ [tok]" and ti: "ti < length N'" "N' ! ti = t"
  shows "trans_ok N' (w @ [tok]) s (\<lambda>c.
    if c = tok \<and> suffix s w \<and> ends (s @ [tok]) w = {} then Some cur
    else if c = tok \<and> ends (s @ [tok]) w = ends t w \<and> length s < length t then Some ti
    else m c)" (is "trans_ok _ _ _ ?m")
  unfolding trans_ok_def
proof
  fix c
  have occ_t: "ends t w \<noteq> {}"
    using t by (simp add: longest_old_def)
  show "case ?m c of None \<Rightarrow> ends (s @ [c]) (w @ [tok]) = {}
    | Some j \<Rightarrow> j < length N' \<and> canon (w @ [tok]) (s @ [c]) (N' ! j)"
  proof (cases "ends (s @ [c]) w = {}")
    case True
    then have none: "m c = None"
      by (simp add: trans_None [OF tr])
    show ?thesis
    proof (cases "c = tok \<and> suffix s w")
      case suff: True
      then have "canon (w @ [tok]) (s @ [c]) (w @ [tok])"
        using True by (intro canon_snoc_new) (simp_all add: suffix_snoc_iff)
      with suff True cur show ?thesis
        by simp
    next
      case False
      then have "\<not> suffix (s @ [c]) (w @ [tok])"
        by (auto simp: suffix_snoc_iff)
      then have "ends (s @ [c]) (w @ [tok]) = {}"
        using True by (simp only: ends_snoc_text if_False Un_empty_right)
      with False True none occ_t show ?thesis
        by auto
    qed
  next
    case False
    then obtain j where j: "m c = Some j" "j < length N" "canon w (s @ [c]) (N ! j)"
      using trans_None [OF tr, of c] trans_SomeD [OF tr, of c] by auto
    let ?split = "ends (s @ [c]) w = ends t w \<and> length (s @ [c]) \<le> length t"
    have canon: "canon (w @ [tok]) (s @ [c]) (if ?split then t else N ! j)"
      by (rule canon_snoc_old [OF t j(3)])
    have split_tok: "c = tok" if ?split
    proof -
      have "suffix (s @ [c]) t"
        using that False common_end [of _ t w "s @ [c]"] by auto
      then have "suffix (s @ [c]) (w @ [tok])"
        using t suffix_order.order_trans unfolding longest_old_def by blast
      then show ?thesis
        by (simp add: suffix_snoc_iff)
    qed
    have m: "?m c = (if ?split then Some ti else Some j)"
    proof (cases "c = tok")
      case True
      with False j(1) show ?thesis
        by (simp add: Suc_le_eq)
    next
      case other: False
      then have "\<not> ?split"
        using split_tok by blast
      then show ?thesis
        using other j(1) by (simp only: if_False simp_thms)
    qed
    show ?thesis
    proof (cases ?split)
      case True
      then have "?m c = Some ti"
        unfolding m by (rule if_P)
      moreover have "canon (w @ [tok]) (s @ [c]) (N' ! ti)"
        using canon unfolding if_P [OF True] ti(2) .
      ultimately show ?thesis
        using ti(1) by (simp only: option.case)
    next
      case nosplit: False
      then have "?m c = Some j"
        unfolding m by (rule if_not_P)
      moreover have "canon (w @ [tok]) (s @ [c]) (N' ! j)" "j < length N'"
        using canon j(2) ext unfolding if_not_P [OF nosplit] extends_def by auto
      ultimately show ?thesis
        by (simp only: option.case)
    qed
  qed
qed

lemma Min_ends_grow:
  assumes "ends s w \<noteq> {}" shows "Min (ends s (w @ [c])) = Min (ends s w)"
proof -
  obtain e where "e \<in> ends s w"
    using assms by auto
  then have "Min (ends s w) \<le> length w"
    using Min_le [OF finite_ends, of e s w] ends_le [of e s w] by linarith
  moreover have "ends s (w @ [c]) = (if suffix s (w @ [c]) then insert (Suc (length w)) (ends s w) else ends s w)"
    by (simp only: ends_snoc_text if_distrib [of "\<lambda>x. ends s w \<union> x"] Un_insert_right Un_empty_right)
  ultimately show ?thesis
    using assms finite_ends [of s w] by simp
qed

lemma link_grow:
  assumes "longest_old w c t" "link_ok N w s l" "left_max s w" "\<not> (canon w t s \<and> t \<noteq> s)" "extends N N'"
  shows "link_ok N' (w @ [c]) s l"
proof (cases "s = []")
  case False
  then obtain k where "k < length N" "l = int k" "parent w s (N ! k)"
    using assms(2) by (auto simp: link_ok_def)
  then show ?thesis
    using False assms(5) parent_other [OF assms(1,3,4)] by (auto simp: link_ok_def extends_def)
qed (use assms(2) in \<open>simp add: link_ok_def\<close>)

lemma state_grow:
  assumes x: "state_ok N w s x" and s: "left_max s w"
    and fields: "len x' = len x" "firstpos x' = firstpos x" "sorted_nexts x'"
    and tr: "trans_ok N' (w @ [c]) s (map_of (nexts x'))" and lk: "link_ok N' (w @ [c]) s (link x')"
  shows "state_ok N' (w @ [c]) s x'"
  using x fields tr lk s by (auto simp: state_ok_def left_max_def Min_ends_grow)

text \<open>The new state of the whole text.\<close>

lemma whole_state:
  assumes t: "longest_old w tok t" and ti: "ti < length N'" "N' ! ti = t"
  shows "state_ok N' (w @ [tok]) (w @ [tok])
    \<lparr>len = Suc (length w), link = int ti, firstpos = length w, nexts = []\<rparr>"
proof -
  have "ends ((w @ [tok]) @ [c]) (w @ [tok]) = {}" for c
    by (auto simp: ends_def dest: suffix_length_le)
  moreover have "parent (w @ [tok]) (w @ [tok]) (N' ! ti)"
    using parent_whole [OF t] ti by simp
  ultimately show ?thesis
    using ti by (auto simp: state_ok_def sorted_nexts_def link_ok_def trans_ok_def ends_whole)
qed

section \<open>The names of the new states\<close>

lemma names_whole:
  assumes "names_ok N w" "longest_old w c t" "left_max t w"
  shows "names_ok (N @ [w @ [c]]) (w @ [c])"
proof -
  have "\<not> left_max (w @ [c]) w"
    by (simp add: left_max_def ends_whole_old)
  then show ?thesis
    using assms left_max_snoc [OF assms(2)] by (auto simp: names_ok_def nth_append)
qed

lemma names_clone:
  assumes "names_ok N w" "longest_old w c t" "\<not> left_max t w"
  shows "names_ok (N @ [w @ [c], t]) (w @ [c])"
proof -
  have "\<not> left_max (w @ [c]) w" "t \<noteq> w @ [c]"
    using assms(2) by (auto simp: left_max_def ends_whole_old longest_old_def)
  then show ?thesis
    using assms left_max_snoc [OF assms(2)] by (auto simp: names_ok_def nth_append)
qed

section \<open>One step of the construction\<close>

lemma length_linked [simp]: "length (linked N w tok y cur st) = length st"
  by (simp add: linked_def)

lemma linked_nth:
  "i < length st \<Longrightarrow> linked N w tok y cur st ! i =
    (if i < length N \<and> suffix (N ! i) y \<and> ends (N ! i @ [tok]) w = {} then set_tok tok cur (st ! i) else st ! i)"
  by (simp add: linked_def)

lemma length_redirected [simp]: "length (redirected N w tok y q clone st) = length st"
  by (simp add: redirected_def)

lemma redirected_nth:
  "i < length st \<Longrightarrow> redirected N w tok y q clone st ! i =
    (if i < length N \<and> suffix (N ! i) y \<and> canon w (N ! i @ [tok]) (N ! q)
     then set_tok tok clone (st ! i) else st ! i)"
  by (simp add: redirected_def)

text \<open>The states after the first walk, as the construction makes them.\<close>

definition fresh_state :: "sam \<Rightarrow> sam_state" where
  "fresh_state a = \<lparr>len = len (states a ! last_state a) + 1, link = -1,
     firstpos = length (toks a), nexts = []\<rparr>"

definition walked :: "token list list \<Rightarrow> sam \<Rightarrow> token \<Rightarrow> sam_state list" where
  "walked N a tok = linked N (toks a) tok (toks a) (length N) (states a @ [fresh_state a])"

lemma walked_facts:
  assumes "sam_ok N a"
  shows "length (walked N a tok) = Suc (length N)"
    and "walked N a tok ! length N = fresh_state a"
    and "i < length N \<Longrightarrow> walked N a tok ! i =
      (if suffix (N ! i) (toks a) \<and> ends (N ! i @ [tok]) (toks a) = {}
       then set_tok tok (length N) (states a ! i) else states a ! i)"
  using assms by (auto simp: walked_def sam_ok_def linked_nth nth_append)

lemma sam_okD:
  assumes "sam_ok N a" "i < length N"
  shows "state_ok N (toks a) (N ! i) (states a ! i)" and "left_max (N ! i) (toks a)"
  using assms names_left_max by (auto simp: sam_ok_def)

lemma state_okD:
  assumes "state_ok N w s x"
  shows "len x = length s" "sorted_nexts x" "link_ok N w s (link x)" "trans_ok N w s (map_of (nexts x))"
  using assms by (simp_all add: state_ok_def)

lemma walked_state:
  assumes "sam_ok N a" "i < length N"
  shows "len (walked N a tok ! i) = len (states a ! i)" "link (walked N a tok ! i) = link (states a ! i)"
    "firstpos (walked N a tok ! i) = firstpos (states a ! i)" "sorted_nexts (walked N a tok ! i)"
    "map_of (nexts (walked N a tok ! i)) = (\<lambda>c.
       if c = tok \<and> suffix (N ! i) (toks a) \<and> ends (N ! i @ [tok]) (toks a) = {} then Some (length N)
       else map_of (nexts (states a ! i)) c)"
  using walked_facts(3) [OF assms] state_okD(2) [OF sam_okD(1) [OF assms]]
  by (auto simp: set_tok_sorted set_tok_map_of fun_eq_iff)

lemma extends_append: "extends N (N @ M)"
  by (simp add: extends_def nth_append)

lemma nth_set_link:
  "i < length st \<Longrightarrow> set_link j k st ! i = (if i = j then (st ! i)\<lparr>link := int k\<rparr> else st ! i)"
  by (simp add: set_link_def nth_list_update)

lemma fresh_state_eq:
  "sam_ok N a \<Longrightarrow> (fresh_state a)\<lparr>link := l\<rparr> = \<lparr>len = Suc (length (toks a)), link = l,
     firstpos = length (toks a), nexts = []\<rparr>"
  using state_okD(1) [OF sam_okD(1), of N a "last_state a"] by (simp add: fresh_state_def sam_ok_def)

text \<open>The branches without a clone: the longest old suffix already has a state.\<close>

lemma extend_whole:
  assumes ok: "sam_ok N a" and t: "longest_old (toks a) tok t" and ti: "ti < length N" "N ! ti = t"
  shows "sam_ok (N @ [toks a @ [tok]]) \<lparr>states = set_link (length N) ti (walked N a tok),
    last_state = length N, toks = toks a @ [tok]\<rparr>"
proof -
  let ?w = "toks a" and ?N = "N @ [toks a @ [tok]]" and ?st = "set_link (length N) ti (walked N a tok)"
  have names: "names_ok N ?w"
    using ok by (simp add: sam_ok_def)
  have lm: "left_max t ?w"
    using names_left_max [OF names ti(1)] ti(2) by simp
  have "state_ok ?N (?w @ [tok]) (?N ! i) (?st ! i)" if i: "i < length ?N" for i
  proof (cases "i = length N")
    case True
    have "?st ! i = \<lparr>len = Suc (length ?w), link = int ti, firstpos = length ?w, nexts = []\<rparr>"
      using walked_facts(1,2) [OF ok, of tok] True by (simp add: nth_set_link fresh_state_eq [OF ok])
    then show ?thesis
      using whole_state [OF t, of ti ?N] ti True by (simp add: nth_append)
  next
    case False
    then have i: "i < length N"
      using i by simp
    have st: "?st ! i = walked N a tok ! i"
      using walked_facts(1) [OF ok, of tok] i by (simp add: nth_set_link)
    note old = sam_okD [OF ok i] and x = walked_state [OF ok i, of tok]
    let ?m = "map_of (nexts (states a ! i))"
    have same: "?m tok = Some ti" if "ends (N ! i @ [tok]) ?w = ends t ?w"
      using that lm ti by (simp add: trans_Some [OF names state_okD(4) [OF old(1)] ti(1)] canon_def)
    have "trans_ok ?N (?w @ [tok]) (N ! i) (\<lambda>c.
        if c = tok \<and> suffix (N ! i) ?w \<and> ends (N ! i @ [tok]) ?w = {} then Some (length N)
        else if c = tok \<and> ends (N ! i @ [tok]) ?w = ends t ?w \<and> length (N ! i) < length t then Some ti
        else ?m c)"
      using ti by (intro trans_grow [OF t state_okD(4) [OF old(1)] extends_append]) (auto simp: nth_append)
    also have "(\<lambda>c. if c = tok \<and> suffix (N ! i) ?w \<and> ends (N ! i @ [tok]) ?w = {} then Some (length N)
        else if c = tok \<and> ends (N ! i @ [tok]) ?w = ends t ?w \<and> length (N ! i) < length t then Some ti
        else ?m c) = map_of (nexts (walked N a tok ! i))"
      unfolding x(5) using same by (auto simp: fun_eq_iff)
    finally have tr: "trans_ok ?N (?w @ [tok]) (N ! i) (map_of (nexts (walked N a tok ! i)))" .
    have "\<not> (canon ?w t (N ! i) \<and> t \<noteq> N ! i)"
      using canon_unique [OF canon_self [OF lm], of "N ! i"] by blast
    then have "link_ok ?N (?w @ [tok]) (N ! i) (link (walked N a tok ! i))"
      using link_grow [OF t state_okD(3) [OF old(1)] old(2) _ extends_append] x(2) by simp
    then have "state_ok ?N (?w @ [tok]) (N ! i) (walked N a tok ! i)"
      using state_grow [OF old x(1,3,4) tr] by simp
    then show ?thesis
      using i st by (simp add: nth_append)
  qed
  then show ?thesis
    using names_whole [OF names t lm] walked_facts(1) [OF ok, of tok]
    by (simp add: sam_ok_def set_link_def nth_append)
qed

text \<open>The branch with a clone: the class of the longest old suffix is split.\<close>

definition cloned_state :: "token list list \<Rightarrow> sam \<Rightarrow> token \<Rightarrow> nat \<Rightarrow> nat \<Rightarrow> sam_state" where
  "cloned_state N a tok p q = \<lparr>len = len (walked N a tok ! p) + 1, link = link (walked N a tok ! q),
     firstpos = firstpos (walked N a tok ! q), nexts = nexts (walked N a tok ! q)\<rparr>"

definition split_states :: "token list list \<Rightarrow> sam \<Rightarrow> token \<Rightarrow> nat \<Rightarrow> nat \<Rightarrow> sam_state list" where
  "split_states N a tok p q = redirected N (toks a) tok (N ! p) q (Suc (length N))
     (walked N a tok @ [cloned_state N a tok p q])"

text \<open>What both halves of the branch assume: \<open>p\<close> is where the first walk stopped and \<open>q\<close> its target.\<close>

definition splits :: "token list list \<Rightarrow> sam \<Rightarrow> token \<Rightarrow> nat \<Rightarrow> nat \<Rightarrow> bool" where
  "splits N a tok p q \<longleftrightarrow> sam_ok N a \<and> p < length N \<and> q < length N
     \<and> longest_old (toks a) tok (N ! p @ [tok]) \<and> canon (toks a) (N ! p @ [tok]) (N ! q)
     \<and> N ! q \<noteq> N ! p @ [tok]"

lemma splits_occurs:
  assumes "splits N a tok p q" "suffix (N ! i) (N ! p)"
  shows "ends (N ! i @ [tok]) (toks a) \<noteq> {}"
  using assms ends_snoc_suffix [OF assms(2), of tok "toks a"] by (auto simp: splits_def longest_old_def)

lemma splits_redirect:
  assumes "splits N a tok p q"
  shows "redirect tok q (Suc (length N)) (walked N a tok @ [cloned_state N a tok p q]) (int p)
    = Some (split_states N a tok p q)"
  unfolding split_states_def
proof (rule redirect_correct)
  have ok: "sam_ok N a"
    using assms by (simp add: splits_def)
  show "names_ok N (toks a)"
    using ok by (simp add: sam_ok_def)
  show "walk_ok N (toks a) tok (N ! p) (walked N a tok @ [cloned_state N a tok p q])"
    using walked_facts(1,3) [OF ok] splits_occurs [OF assms] state_okD [OF sam_okD(1) [OF ok]]
      walked_state(2) [OF ok]
    by (auto simp: walk_ok_def nth_append)
  show "ends (N ! q) (toks a) \<subseteq> ends (N ! p @ [tok]) (toks a)"
    using assms by (simp add: splits_def canon_def)
qed (use assms in \<open>simp_all add: splits_def\<close>)

lemma splits_old_state:
  assumes sp: "splits N a tok p q" and i: "i < length N"
  defines "x \<equiv> split_states N a tok p q ! i"
  shows "len x = len (states a ! i)" "link x = link (states a ! i)"
    "firstpos x = firstpos (states a ! i)" "sorted_nexts x"
    "map_of (nexts x) = (\<lambda>c.
       if c = tok \<and> suffix (N ! i) (toks a) \<and> ends (N ! i @ [tok]) (toks a) = {} then Some (length N)
       else if c = tok \<and> ends (N ! i @ [tok]) (toks a) = ends (N ! p @ [tok]) (toks a)
         \<and> length (N ! i) < length (N ! p @ [tok]) then Some (Suc (length N))
       else map_of (nexts (states a ! i)) c)"
proof -
  have ok: "sam_ok N a" and q: "canon (toks a) (N ! p @ [tok]) (N ! q)" and occ: "ends (N ! p @ [tok]) (toks a) \<noteq> {}"
    using sp by (auto simp: splits_def longest_old_def)
  let ?hit = "suffix (N ! i) (N ! p) \<and> canon (toks a) (N ! i @ [tok]) (N ! q)"
  have x: "x = (if ?hit then set_tok tok (Suc (length N)) (walked N a tok ! i) else walked N a tok ! i)"
    using i walked_facts(1) [OF ok, of tok] by (simp add: x_def split_states_def redirected_nth nth_append)
  have hit: "?hit \<longleftrightarrow> ends (N ! i @ [tok]) (toks a) = ends (N ! p @ [tok]) (toks a)
      \<and> length (N ! i) < length (N ! p @ [tok])"
  proof
    assume ?hit
    then show "ends (N ! i @ [tok]) (toks a) = ends (N ! p @ [tok]) (toks a) \<and> length (N ! i) < length (N ! p @ [tok])"
      using q suffix_length_le [of "N ! i" "N ! p"] by (auto simp: canon_def)
  next
    assume same: "ends (N ! i @ [tok]) (toks a) = ends (N ! p @ [tok]) (toks a) \<and> length (N ! i) < length (N ! p @ [tok])"
    then have "suffix (N ! i @ [tok]) (N ! p @ [tok])"
      using occ common_end [of _ "N ! p @ [tok]" "toks a" "N ! i @ [tok]"] by auto
    then show ?hit
      using same q by (simp add: suffix_snoc_iff canon_def)
  qed
  have miss: "ends (N ! i @ [tok]) (toks a) \<noteq> {}" if ?hit
    using splits_occurs [OF sp] that by blast
  note old = walked_state [OF ok i, of tok]
  show "len x = len (states a ! i)" "link x = link (states a ! i)"
    "firstpos x = firstpos (states a ! i)" "sorted_nexts x"
    using old x by (auto simp: set_tok_sorted)
  show "map_of (nexts x) = (\<lambda>c.
       if c = tok \<and> suffix (N ! i) (toks a) \<and> ends (N ! i @ [tok]) (toks a) = {} then Some (length N)
       else if c = tok \<and> ends (N ! i @ [tok]) (toks a) = ends (N ! p @ [tok]) (toks a)
         \<and> length (N ! i) < length (N ! p @ [tok]) then Some (Suc (length N))
       else map_of (nexts (states a ! i)) c)"
    unfolding hit [symmetric] using x old(4,5) miss by (auto simp: set_tok_map_of fun_eq_iff)
qed

text \<open>The transitions and the first position of the clone.\<close>

lemma clone_state_ok:
  assumes sp: "splits N a tok p q"
  defines "N' \<equiv> N @ [toks a @ [tok], N ! p @ [tok]]"
  shows "state_ok N' (toks a @ [tok]) (N ! p @ [tok]) (cloned_state N a tok p q)"
proof -
  let ?w = "toks a" and ?t = "N ! p @ [tok]"
  have ok: "sam_ok N a" and p: "p < length N" and q: "q < length N" and t: "longest_old ?w tok ?t"
    and canon: "canon ?w ?t (N ! q)" and neq: "?t \<noteq> N ! q"
    using sp by (auto simp: splits_def)
  have same: "ends (N ! q) ?w = ends ?t ?w"
    using canon by (simp add: canon_def)
  note old = sam_okD [OF ok q] and x = walked_state [OF ok q, of tok]
  note cl = state_okD [OF old(1)]
  have "trans_ok N ?w ?t (map_of (nexts (states a ! q)))"
    using cl(4) unfolding trans_ok_def canon_def ends_snoc_cong [OF same] .
  then have "trans_ok N' (?w @ [tok]) ?t (\<lambda>c.
      if c = tok \<and> suffix ?t ?w \<and> ends (?t @ [tok]) ?w = {} then Some (length N)
      else if c = tok \<and> ends (?t @ [tok]) ?w = ends ?t ?w \<and> length ?t < length ?t then Some (Suc (length N))
      else map_of (nexts (states a ! q)) c)"
    unfolding N'_def by (intro trans_grow [OF t _ extends_append]) (simp_all add: nth_append)
  also have "(\<lambda>c. if c = tok \<and> suffix ?t ?w \<and> ends (?t @ [tok]) ?w = {} then Some (length N)
      else if c = tok \<and> ends (?t @ [tok]) ?w = ends ?t ?w \<and> length ?t < length ?t then Some (Suc (length N))
      else map_of (nexts (states a ! q)) c) = map_of (nexts (walked N a tok ! q))"
    unfolding x(5) using ends_snoc_cong [OF same, of tok] same ends_self [of ?w ?t] ends_self [of ?w "N ! q"]
    by (auto simp: fun_eq_iff)
  finally have tr: "trans_ok N' (?w @ [tok]) ?t (map_of (nexts (walked N a tok ! q)))" .
  have "N ! q \<noteq> []"
    using canon_suffix [OF canon] by auto
  then obtain k where k: "k < length N" "link (states a ! q) = int k" "parent ?w (N ! q) (N ! k)"
    using cl(3) by (auto simp: link_ok_def)
  have "link_ok N' (?w @ [tok]) ?t (link (walked N a tok ! q))"
    using parent_class_of_t(2) [OF t canon neq k(3)] k x(2) by (auto simp: link_ok_def N'_def nth_append)
  moreover have "Suc (firstpos (states a ! q)) = Min (ends ?t (?w @ [tok]))"
    using old(1) \<open>N ! q \<noteq> []\<close> Min_ends_grow [of ?t ?w tok] t same by (simp add: state_ok_def longest_old_def)
  moreover have "len (states a ! p) = length (N ! p)"
    using state_okD(1) [OF sam_okD(1) [OF ok p]] .
  ultimately show ?thesis
    using tr x walked_state(1,4) [OF ok p, of tok] by (simp add: state_ok_def cloned_state_def sorted_nexts_def)
qed

lemma extend_clone:
  assumes sp: "splits N a tok p q"
  shows "sam_ok (N @ [toks a @ [tok], N ! p @ [tok]])
    \<lparr>states = set_link (length N) (Suc (length N)) (set_link q (Suc (length N)) (split_states N a tok p q)),
     last_state = length N, toks = toks a @ [tok]\<rparr>"
proof -
  let ?w = "toks a" and ?t = "N ! p @ [tok]" and ?c = "Suc (length N)"
  let ?N = "N @ [toks a @ [tok], ?t]"
  let ?st = "set_link (length N) ?c (set_link q ?c (split_states N a tok p q))"
  have ok: "sam_ok N a" and p: "p < length N" and q: "q < length N" and t: "longest_old ?w tok ?t"
    and canon: "canon ?w ?t (N ! q)" and neq: "?t \<noteq> N ! q"
    using sp by (auto simp: splits_def)
  have names: "names_ok N ?w"
    using ok by (simp add: sam_ok_def)
  have notlm: "\<not> left_max ?t ?w"
    using canon_unique [OF canon_self canon] neq by blast
  have len: "length (split_states N a tok p q) = Suc ?c"
    using walked_facts(1) [OF ok, of tok] by (simp add: split_states_def)
  have "state_ok ?N (?w @ [tok]) (?N ! i) (?st ! i)" if i: "i < length ?N" for i
  proof -
    consider "i = length N" | "i = ?c" | "i < length N"
      using i by (auto simp: less_Suc_eq)
    then show ?thesis
    proof cases
      case 1
      have "split_states N a tok p q ! length N = fresh_state a"
        using walked_facts(1,2) [OF ok, of tok] by (simp add: split_states_def redirected_nth nth_append)
      then have "?st ! i = \<lparr>len = Suc (length ?w), link = int ?c, firstpos = length ?w, nexts = []\<rparr>"
        using len q 1 by (simp add: nth_set_link set_link_def fresh_state_eq [OF ok, simplified])
      then show ?thesis
        using whole_state [OF t, of ?c ?N] 1 by (simp add: nth_append)
    next
      case 2
      have "split_states N a tok p q ! ?c = cloned_state N a tok p q"
        using walked_facts(1) [OF ok, of tok] by (simp add: split_states_def redirected_nth nth_append)
      then have "?st ! i = cloned_state N a tok p q"
        using len q 2 by (simp add: nth_set_link set_link_def)
      then show ?thesis
        using clone_state_ok [OF sp] 2 by (simp add: nth_append)
    next
      case 3
      let ?x = "split_states N a tok p q ! i"
      note old = sam_okD [OF ok 3] and x = splits_old_state [OF sp 3]
      have st: "?st ! i = (if i = q then ?x\<lparr>link := int ?c\<rparr> else ?x)"
        using len 3 q by (simp add: nth_set_link set_link_def nth_list_update)
      have tr: "trans_ok ?N (?w @ [tok]) (N ! i) (map_of (nexts ?x))"
        unfolding x(5) by (intro trans_grow [OF t state_okD(4) [OF old(1)] extends_append])
          (simp_all add: nth_append)
      have "link_ok ?N (?w @ [tok]) (N ! i) (link (?st ! i))"
      proof (cases "i = q")
        case True
        have "N ! q \<noteq> []"
          using canon_suffix [OF canon] by auto
        then obtain k where "parent ?w (N ! q) (N ! k)"
          using state_okD(3) [OF sam_okD(1) [OF ok q]] by (auto simp: link_ok_def)
        then have "parent (?w @ [tok]) (N ! i) (?N ! ?c)"
          using parent_class_of_t(1) [OF t canon neq] True by (simp add: nth_append)
        moreover have "link (?st ! i) = int ?c" "?c < length ?N" "N ! i \<noteq> []"
          using st True \<open>N ! q \<noteq> []\<close> by simp_all
        ultimately show ?thesis
          unfolding link_ok_def by (metis (no_types))
      next
        case False
        then have "\<not> (canon ?w ?t (N ! i) \<and> ?t \<noteq> N ! i)"
          using canon_unique [OF canon, of "N ! i"] names_inj [OF names 3 q] by auto
        then show ?thesis
          using link_grow [OF t state_okD(3) [OF old(1)] old(2) _ extends_append] x(2) st False by simp
      qed
      then have "state_ok ?N (?w @ [tok]) (N ! i) (?st ! i)"
        using x(1,3,4) tr st by (intro state_grow [OF old]) (auto simp: sorted_nexts_def)
      then show ?thesis
        using 3 by (simp add: nth_append)
    qed
  qed
  then show ?thesis
    using names_clone [OF names t notlm] len by (simp add: sam_ok_def set_link_def nth_append)
qed

section \<open>The whole operation\<close>

lemma first_walk:
  assumes ok: "sam_ok N a"
  shows "\<exists>p. link_missing tok (length N) (states a @ [fresh_state a]) (int (last_state a))
    = Some (walked N a tok, p) \<and> stops N (toks a) tok (toks a) p"
  unfolding walked_def
proof (rule link_missing_correct)
  show "names_ok N (toks a)" "last_state a < length N" "N ! last_state a = toks a"
    using ok by (simp_all add: sam_ok_def)
  show "walk_ok N (toks a) tok (toks a) (states a @ [fresh_state a])"
    using ok state_okD [OF sam_okD(1) [OF ok]] by (auto simp: walk_ok_def sam_ok_def nth_append)
qed

lemma sam_extend_ok:
  assumes ok: "sam_ok N a"
  shows "\<exists>b M. sam_extend tok a = Some b \<and> sam_ok (N @ M) b \<and> toks b = toks a @ [tok] \<and> length M \<le> 2"
proof -
  let ?w = "toks a" and ?st = "walked N a tok"
  have names: "names_ok N ?w" and n: "length (states a) = length N" "last_state a < length N"
    using ok by (simp_all add: sam_ok_def)
  obtain p where walk: "link_missing tok (length N) (states a @ [fresh_state a]) (int (last_state a)) = Some (?st, p)"
    and stop: "stops N ?w tok ?w p"
    using first_walk [OF ok] by blast
  note unfold = sam_extend_def Let_def n(1) fresh_state_def [symmetric] walk option.case prod.case
  have guard: "\<not> length N \<le> last_state a"
    using n(2) by simp
  show ?thesis
  proof (cases "p < 0")
    case True
    then have "longest_old ?w tok []"
      using stops_longest_old [OF names stop] by simp
    moreover have "0 < length N" "N ! 0 = []"
      using names by (simp_all add: names_ok_def)
    ultimately have "sam_ok (N @ [?w @ [tok]]) \<lparr>states = set_link (length N) 0 ?st,
        last_state = length N, toks = ?w @ [tok]\<rparr>"
      by (rule extend_whole [OF ok])
    moreover have "sam_extend tok a = Some \<lparr>states = set_link (length N) 0 ?st,
        last_state = length N, toks = ?w @ [tok]\<rparr>"
      unfolding unfold if_not_P [OF guard] using True by (simp only: if_True)
    ultimately show ?thesis
      by (intro exI [of _ "\<lparr>states = set_link (length N) 0 ?st, last_state = length N, toks = ?w @ [tok]\<rparr>"]
          exI [of _ "[?w @ [tok]]"]) simp
  next
    case False
    let ?p = "nat p" and ?t = "N ! nat p @ [tok]"
    have t: "longest_old ?w tok ?t"
      using stops_longest_old [OF names stop] False by simp
    have p: "?p < length N" and occ: "ends ?t ?w \<noteq> {}"
      using stop False by (simp_all add: stops_def)
    note x = walked_state [OF ok p, of tok]
    have tr: "trans_ok N ?w (N ! ?p) (map_of (nexts (states a ! ?p)))"
      using state_okD(4) [OF sam_okD(1) [OF ok p]] .
    obtain q where q: "map_of (nexts (states a ! ?p)) tok = Some q"
      using trans_None [OF tr] occ by fastforce
    then have qN: "q < length N" and canon: "canon ?w ?t (N ! q)"
      using trans_SomeD [OF tr] by blast+
    have get: "get_tok tok (?st ! ?p) = Some q"
      using get_tok_map_of [OF x(4)] x(5) q occ by simp
    have lens: "len (?st ! ?p) = length (N ! ?p)" "len (?st ! q) = length (N ! q)"
      using x(1) walked_state(1) [OF ok qN] state_okD(1) [OF sam_okD(1) [OF ok]] p qN by simp_all
    have q_guard: "\<not> length ?st \<le> q" "\<not> Suc (length N) \<le> q"
      using walked_facts(1) [OF ok, of tok] qN by simp_all
    have same: "len (?st ! ?p) + 1 = len (?st ! q) \<longleftrightarrow> N ! q = ?t"
    proof
      assume "len (?st ! ?p) + 1 = len (?st ! q)"
      then have "length ?t = length (N ! q)"
        using lens by simp
      then show "N ! q = ?t"
        using canon_suffix [OF canon] by (auto simp: suffix_def)
    qed (use lens in simp)
    show ?thesis
    proof (cases "N ! q = ?t")
      case True
      have "sam_ok (N @ [?w @ [tok]]) \<lparr>states = set_link (length N) q ?st,
          last_state = length N, toks = ?w @ [tok]\<rparr>"
        by (rule extend_whole [OF ok t qN True])
      moreover have "sam_extend tok a = Some \<lparr>states = set_link (length N) q ?st,
          last_state = length N, toks = ?w @ [tok]\<rparr>"
        unfolding unfold if_not_P [OF guard] if_not_P [OF False] get if_not_P [OF q_guard(1)]
        using same True by (simp only: if_True simp_thms)
      ultimately show ?thesis
        by (intro exI [of _ "\<lparr>states = set_link (length N) q ?st, last_state = length N, toks = ?w @ [tok]\<rparr>"]
            exI [of _ "[?w @ [tok]]"]) simp
    next
      case neq: False
      then have sp: "splits N a tok ?p q"
        using ok p qN t canon by (simp add: splits_def)
      let ?b = "\<lparr>states = set_link (length N) (Suc (length N)) (set_link q (Suc (length N)) (split_states N a tok ?p q)),
        last_state = length N, toks = ?w @ [tok]\<rparr>"
      have red: "redirect tok q (Suc (length N)) (?st @ [cloned_state N a tok ?p q]) p = Some (split_states N a tok ?p q)"
        using splits_redirect [OF sp] False by simp
      have "sam_extend tok a = Some ?b"
        unfolding unfold if_not_P [OF guard] if_not_P [OF False] get if_not_P [OF q_guard(2)]
          walked_facts(1) [OF ok] cloned_state_def [symmetric] red
        using same neq by (simp only: if_False)
      then show ?thesis
        using extend_clone [OF sp]
        by (intro exI [of _ ?b] exI [of _ "[?w @ [tok], ?t]"]) simp
    qed
  qed
qed

lemma left_max_Nil_text: "left_max s [] \<longleftrightarrow> s = []"
  using left_max_Nil [of "[]"] by (auto simp: left_max_def ends_def)

lemma new_sam_ok: "sam_ok [[]] new_sam"
proof -
  have "ends ([] @ [c]) [] = {}" for c :: token
    by (simp add: ends_def)
  then show ?thesis
    by (simp add: sam_ok_def new_sam_def names_ok_def left_max_Nil_text state_ok_def sorted_nexts_def
        link_ok_def trans_ok_def)
qed

lemma sam_extend_slice_ok:
  "sam_ok N a \<Longrightarrow> \<exists>b M. sam_extend_slice ts a = Some b \<and> sam_ok (N @ M) b \<and> toks b = toks a @ ts
     \<and> length M \<le> 2 * length ts"
proof (induction ts arbitrary: N a)
  case Nil
  then show ?case
    by (intro exI [of _ a] exI [of _ "[]"]) simp
next
  case (Cons t ts)
  then obtain b M where b: "sam_extend t a = Some b" "sam_ok (N @ M) b" "toks b = toks a @ [t]" "length M \<le> 2"
    using sam_extend_ok by blast
  then obtain c L where "sam_extend_slice ts b = Some c" "sam_ok ((N @ M) @ L) c" "toks c = toks b @ ts"
    "length L \<le> 2 * length ts"
    using Cons.IH by blast
  with b show ?case
    by (intro exI [of _ c] exI [of _ "M @ L"]) simp
qed

end
