(* ===== verification/Suffix_Properties.thy ===== *)
theory Suffix_Properties
  imports Sam_Correct
begin

text \<open>
  What makes draft lookup correct: building the automaton always succeeds and leaves a
  well-typed automaton of linear size, and a proposal is the one of the quadratic reference.
\<close>

section \<open>Typing\<close>



lemma sam_ok_len: "sam_ok N a \<Longrightarrow> i < length N \<Longrightarrow> len (states a ! i) = length (N ! i)"
  using state_okD(1) [OF sam_okD(1)] .





section \<open>Proposals\<close>

lemma find_upt:
  "a \<le> m \<Longrightarrow> m < b \<Longrightarrow> P m \<Longrightarrow> (\<And>i. a \<le> i \<Longrightarrow> i < m \<Longrightarrow> \<not> P i) \<Longrightarrow> find P [a..<b] = Some m"
proof (induction "m - a" arbitrary: a)
  case 0
  then show ?case
    by (simp add: upt_conv_Cons)
next
  case (Suc d)
  then have "find P [Suc a..<b] = Some m" "\<not> P a" "a < b"
    by auto
  then show ?case
    by (simp add: upt_conv_Cons)
qed

lemma earlier_end_iff:
  assumes "0 < l" "l < length ts" "l - 1 \<le> e" "e < length ts - 1"
  shows "take l (drop (e + 1 - l) ts) = drop (length ts - l) ts
    \<longleftrightarrow> e + 1 \<in> ends (drop (length ts - l) ts) ts"
proof -
  have "take l (drop (e + 1 - l) ts) = drop (e + 1 - l) (take (e + 1) ts)"
    using assms by (simp add: drop_take)
  moreover have "suffix u (take (e + 1) ts) \<longleftrightarrow> drop (e + 1 - l) (take (e + 1) ts) = u" if "length u = l" for u
  proof -
    have "length (take (e + 1) ts) = e + 1"
      using assms by simp
    then show ?thesis
      using that by (metis suffix_drop suffix_length_suffix suffix_order.dual_order.refl
          suffix_order.eq_iff length_drop append_eq_conv_conj suffix_def diff_diff_cancel length_append
          add_diff_cancel_right')
  qed
  moreover have "length (drop (length ts - l) ts) = l" "e + 1 \<le> length ts"
    using assms by simp_all
  ultimately show ?thesis
    unfolding ends_def mem_Collect_eq by metis
qed

lemma first_earlier_end_None:
  assumes "0 < l" "l < length ts" "ends (drop (length ts - l) ts) ts = {length ts}"
  shows "first_earlier_end ts l = None"
  using assms earlier_end_iff [OF assms(1,2)]
  by (auto simp: first_earlier_end_def Let_def find_None_iff)

lemma first_earlier_end_Some:
  assumes "0 < l" "l < length ts" "Suc m = Min (ends (drop (length ts - l) ts) ts)" "Suc m < length ts"
  shows "first_earlier_end ts l = Some m"
proof -
  let ?u = "drop (length ts - l) ts"
  have "length ts \<in> ends ?u ts"
    by (simp add: ends_self suffix_drop)
  then have in_m: "Suc m \<in> ends ?u ts"
    using assms(3) Min_in [OF finite_ends, of ?u ts] by auto
  then have "l \<le> Suc m"
    using endsD [OF in_m] assms(2) by simp
  have least: "Suc i \<notin> ends ?u ts" if "i < m" for i
    using that assms(3) Min_le [OF finite_ends, of "Suc i" ?u ts] by auto
  show ?thesis
    unfolding first_earlier_end_def Let_def
    using earlier_end_iff [OF assms(1,2)] in_m least assms(1,4) \<open>l \<le> Suc m\<close>
    by (intro find_upt) auto
qed

lemma naive_search_skips:
  "(\<And>l. L < l \<Longrightarrow> l \<le> K \<Longrightarrow> first_earlier_end ts l = None) \<Longrightarrow> L \<le> K \<Longrightarrow>
     naive_search ts max_len min_match K = naive_search ts max_len min_match L"
proof (induction K)
  case (Suc K)
  show ?case
  proof (cases "L = Suc K")
    case False
    then have "naive_search ts max_len min_match K = naive_search ts max_len min_match L"
      using Suc.prems by (intro Suc.IH) auto
    with Suc.prems False show ?thesis
      by simp
  qed simp
qed simp

text \<open>In an automaton for \<open>ts\<close> the link of the last state names the longest repeated suffix.\<close>

lemma repeated_suffix:
  assumes par: "parent w w t" and "suffix u w" "u \<noteq> w"
  shows "ends u w = {length w} \<longleftrightarrow> length t < length u"
proof
  assume single: "ends u w = {length w}"
  show "length t < length u"
  proof (rule ccontr)
    assume "\<not> ?thesis"
    then have "suffix u t"
      using assms(2) par by (meson not_less parent_def suffix_length_suffix suffix_order.less_imp_le)
    then have "ends t w \<subseteq> ends w w"
      using ends_mono [of u t w] single by (simp add: ends_whole)
    moreover have "ends w w \<subseteq> ends t w"
      using par by (intro ends_mono) (simp add: parent_def suffix_order.less_imp_le)
    ultimately have "t = w"
      using par left_max_unique [of t w w] left_max_whole by (auto simp: parent_def)
    then show False
      using par by (simp add: parent_def)
  qed
next
  assume "length t < length u"
  then show "ends u w = {length w}"
    using between_parent [OF par left_max_whole assms(2)] by (simp add: ends_whole)
qed

lemma propose_is_naive:
  assumes ok: "sam_ok N a"
  shows "sam_propose max_len min_match a = Some (naive_propose (toks a) max_len min_match)"
proof (cases "max_len = 0 \<or> length (toks a) < 2")
  case True
  then show ?thesis
    by (auto simp: sam_propose_def naive_propose_def)
next
  case False
  let ?w = "toks a" and ?n = "length (toks a)"
  have names: "names_ok N ?w" and n: "length (states a) = length N"
    and last: "last_state a < length N" "N ! last_state a = ?w"
    using ok by (simp_all add: sam_ok_def)
  have "?w \<noteq> []"
    using False by auto
  then obtain k where k: "k < length N" "link (states a ! last_state a) = int k" and par: "parent ?w ?w (N ! k)"
    using state_okD(3) [OF sam_okD(1) [OF ok last(1)]] last(2) by (auto simp: link_ok_def)
  let ?t = "N ! k"
  have short: "length ?t < ?n" and suff: "suffix ?t ?w"
    using par suffix_length_less by (auto simp: parent_def suffix_order.less_imp_le)
  have t_drop: "drop (?n - length ?t) ?w = ?t"
    using suff by (auto simp: suffix_def)
  have "first_earlier_end ?w l = None" if "length ?t < l" "l \<le> ?n - 1" for l
  proof (rule first_earlier_end_None)
    have "drop (?n - l) ?w \<noteq> ?w"
      using that short by (metis diff_diff_cancel diff_is_0_eq drop_eq_Nil length_drop less_imp_le_nat
          not_less diff_le_self le_antisym nat_less_le Suc_diff_1 Suc_le_eq length_greater_0_conv \<open>?w \<noteq> []\<close>)
    then show "ends (drop (?n - l) ?w) ?w = {?n}"
      using repeated_suffix [OF par suffix_drop] that by auto
  qed (use that \<open>?w \<noteq> []\<close> in auto)
  then have naive: "naive_propose ?w max_len min_match = naive_search ?w max_len min_match (length ?t)"
    using False short naive_search_skips [of "length ?t" "?n - 1" ?w] by (auto simp: naive_propose_def)
  show ?thesis
  proof (cases "?t = []")
    case True
    then have "k = 0"
      using names names_inj [OF names k(1), of 0] by (auto simp: names_ok_def)
    then show ?thesis
      using False naive True k(2) last n by (simp add: sam_propose_def Let_def)
  next
    case long: False
    let ?m = "firstpos (states a ! k)"
    have m: "Suc ?m = Min (ends ?t ?w)"
      using sam_okD(1) [OF ok k(1)] long by (simp add: state_ok_def)
    have "ends ?t ?w \<noteq> {?n}"
      using repeated_suffix [OF par suff] short by fastforce
    moreover have "?n \<in> ends ?t ?w"
      using suff by (simp add: ends_self)
    ultimately obtain e where e: "e \<in> ends ?t ?w" "e \<noteq> ?n"
      by blast
    then have "e < ?n"
      using ends_le [OF e(1)] by simp
    then have m_less: "Suc ?m < ?n"
      using m Min_le [OF finite_ends e(1)] by linarith
    obtain l where l: "length ?t = Suc l"
      using long by (cases ?t) auto
    have first: "first_earlier_end ?w (Suc l) = Some ?m"
      using first_earlier_end_Some [of "length ?t" ?w ?m] short m m_less t_drop l by simp
    have "0 < k"
      using long names by (cases k) (auto simp: names_ok_def)
    then show ?thesis
      using False naive first l m_less k n last sam_ok_len [OF ok k(1)]
      by (simp add: sam_propose_def Let_def max_def)
  qed
qed

text \<open>
  C36. The draft proposed from the automaton is the one of the exhaustive search: the continuation
  of the first earlier occurrence of the longest suffix that occurs earlier, for every token
  sequence, draft length and least match length.
\<close>

theorem proposals_match_the_naive_search:
  "Option.bind (sam_extend_slice ts new_sam) (sam_propose max_len min_match)
     = Some (naive_propose ts max_len min_match)"
proof -
  obtain a M where a: "sam_extend_slice ts new_sam = Some a" "sam_ok ([[]] @ M) a" "toks a = toks new_sam @ ts"
    using sam_extend_slice_ok [OF new_sam_ok] by blast
  moreover have "toks a = ts"
    using a(3) by (simp add: new_sam_def)
  ultimately show ?thesis
    using propose_is_naive [OF a(2)] by simp
qed

end
