(* ===== verification/Spec_Chain.thy ===== *)
theory Spec_Chain
  imports Prelude
begin

text \<open>
  Linear speculative decoding, \<open>nv-specdecode/src/chain.rs\<close>: the batch a verifier runs, how
  much of it is accepted, the row bookkeeping around it, and the reference it is compared
  with, greedy decoding one token at a time. \<open>usize\<close> values are natural numbers.
\<close>

section \<open>Greedy decoding\<close>

text \<open>The reference: \<open>n\<close> tokens after the context \<open>c\<close>, each the choice for all before it.\<close>

primrec greedy_run :: "(token list \<Rightarrow> token) \<Rightarrow> token list \<Rightarrow> nat \<Rightarrow> token list" where
  "greedy_run nxt c 0 = []"
| "greedy_run nxt c (Suc n) = nxt c # greedy_run nxt (c @ [nxt c]) n"

lemma length_greedy_run [simp]: "length (greedy_run nxt c n) = n"
  by (induction n arbitrary: c) auto

lemma greedy_run_add:
  "greedy_run nxt c (m + n) = greedy_run nxt c m @ greedy_run nxt (c @ greedy_run nxt c m) n"
  by (induction m arbitrary: c) auto

lemma greedy_runI:
  "(\<And>i. i < length xs \<Longrightarrow> xs ! i = nxt (c @ take i xs)) \<Longrightarrow> xs = greedy_run nxt c (length xs)"
proof (induction xs arbitrary: c)
  case (Cons x xs)
  have "x = nxt c"
    using Cons.prems [of 0] by simp
  moreover have "xs = greedy_run nxt (c @ [x]) (length xs)"
    using Cons.prems [of "Suc i" for i] by (intro Cons.IH) simp
  ultimately show ?case
    by simp
qed simp

section \<open>Errors\<close>

text \<open>One constructor per \<open>ensure!\<close>; \<open>Target_Failed\<close> is an error of the device,
  \<open>Panicked\<close> an index out of range.\<close>

datatype spec_error =
  Empty_Batch
| Short_Draft nat nat
| Row_Count nat nat
| Aux_Size nat nat
| Aux_Index nat nat
| Empty_Prompt
| Zero_Fc_In
| Aux_Row nat nat
| Desync nat nat
| Aux_Lockstep nat nat
| Cache_Overflow nat nat nat
| Zero_Capacity
| Draft_Exceeds nat nat
| No_Multi_Row
| Batch_Length nat nat
| Rollback_Beyond nat nat
| Multi_Row_Commit nat
| Logit_Count nat nat
| Empty_Context
| Mask_Size nat nat
| Target_Failed
| Panicked

text \<open>The \<open>?\<close> operator.\<close>

definition and_then :: "'e + 'a \<Rightarrow> ('a \<Rightarrow> 'e + 'b) \<Rightarrow> 'e + 'b" where
  "and_then r f = (case r of Inl e \<Rightarrow> Inl e | Inr x \<Rightarrow> f x)"

lemma and_then_simps [simp]:
  "and_then (Inl e) f = Inl e"
  "and_then (Inr x) f = f x"
  by (simp_all add: and_then_def)

lemma and_then_Inr: "and_then r f = Inr y \<longleftrightarrow> (\<exists>x. r = Inr x \<and> f x = Inr y)"
  by (cases r) auto

lemma and_then_Inl: "and_then r f = Inl e \<longleftrightarrow> r = Inl e \<or> (\<exists>x. r = Inr x \<and> f x = Inl e)"
  by (cases r) auto

lemma and_then_cong [fundef_cong]:
  "r = r' \<Longrightarrow> (\<And>x. r' = Inr x \<Longrightarrow> f x = g x) \<Longrightarrow> and_then r f = and_then r' g"
  by (cases r') auto

section \<open>Masks, positions and batches\<close>

definition lower_tri_mask :: "nat \<Rightarrow> nat list" where
  "lower_tri_mask n =
     fold (\<lambda>i m. fold (\<lambda>j m. m[i * n + j := 1]) [0..<Suc i] m) [0..<n] (replicate (n * n) 0)"

text \<open>\<open>(committed as i32..(committed + k) as i32)\<close>\<close>

definition chain_positions :: "nat \<Rightarrow> nat \<Rightarrow> int list" where
  "chain_positions committed k = [as_i32 committed..as_i32 (committed + k) - 1]"

definition build_chain_batch ::
  "token \<Rightarrow> token list \<Rightarrow> nat \<Rightarrow> bool \<Rightarrow> spec_error + token list" where
  "build_chain_batch bonus draft k shift =
     (if k < 1 then Inl Empty_Batch
      else if shift then
        (if length draft < k - 1 then Inl (Short_Draft (k - 1) (length draft))
         else Inr (bonus # take (k - 1) draft))
      else
        (if length draft < k then Inl (Short_Draft k (length draft))
         else Inr (bonus # drop 1 (take k draft))))"

definition aux_row_extract ::
  "'f list \<Rightarrow> nat \<Rightarrow> nat \<Rightarrow> nat \<Rightarrow> nat \<Rightarrow> spec_error + 'f list" where
  "aux_row_extract gaux n_layers k hidden j =
     (if length gaux \<noteq> n_layers * k * hidden then Inl (Aux_Size (length gaux) (n_layers * k * hidden))
      else if k \<le> j then Inl (Aux_Index j k)
      else Inr (fold (\<lambda>l r. let base = l * k * hidden + j * hidden in
             r @ take hidden (drop base gaux)) [0..<n_layers] []))"

section \<open>Drafter cache bounds\<close>

definition drafter_kv_cap_from_env ::
  "nat option \<Rightarrow> nat option \<Rightarrow> nat \<Rightarrow> (nat \<times> nat) option" where
  "drafter_kv_cap_from_env window sink default_sink =
     (case window of
        Some w \<Rightarrow>
          if 0 < w then Some (case sink of Some s \<Rightarrow> s | None \<Rightarrow> default_sink, w) else None
      | None \<Rightarrow> None)"

definition effective_drafter_kv_rows :: "nat \<Rightarrow> (nat \<times> nat) option \<Rightarrow> nat \<Rightarrow> nat" where
  "effective_drafter_kv_rows kv_max_seq_len kv_cap slack =
     (case kv_cap of
        Some (sink, window) \<Rightarrow>
          if 0 < window
          then min kv_max_seq_len (saturating_add (saturating_add sink window) slack)
          else kv_max_seq_len
      | None \<Rightarrow> kv_max_seq_len)"

definition chain_graph_cap :: "nat \<Rightarrow> nat \<Rightarrow> (nat \<times> nat) option \<Rightarrow> nat \<Rightarrow> nat" where
  "chain_graph_cap kv_max_seq_len k kv_cap slack =
     saturating_add (effective_drafter_kv_rows kv_max_seq_len kv_cap slack) k"

section \<open>Acceptance\<close>

record chain_accept =
  commit_len :: nat
  draft_accepted :: nat
  next_bonus :: token

text \<open>The replacement token of slot \<open>i\<close>, when the verifier disagrees with what was proposed.\<close>

definition judge_slot_argmax :: "token list \<Rightarrow> token list \<Rightarrow> nat \<Rightarrow> token option" where
  "judge_slot_argmax batch amax i =
     (if i = 0 then None
      else if length batch \<le> i then None
      else if length amax \<le> i - 1 then None
      else if batch ! i = amax ! (i - 1) then None
      else Some (amax ! (i - 1)))"

function accept_loop :: "token list \<Rightarrow> token list \<Rightarrow> nat \<Rightarrow> nat \<times> token" where
  "accept_loop batch amax i =
     (if i < length batch then
        (case judge_slot_argmax batch amax i of
           Some repl \<Rightarrow> (i, repl)
         | None \<Rightarrow> accept_loop batch amax (i + 1))
      else (length batch, amax ! (length batch - 1)))"
  by pat_completeness auto
termination
  by (relation "measure (\<lambda>(batch, amax, i). length batch - i)") auto

declare accept_loop.simps [simp del]

definition accept_prefix_argmax :: "token list \<Rightarrow> token list \<Rightarrow> spec_error + chain_accept" where
  "accept_prefix_argmax batch amax =
     (let k = length batch in
      if k < 1 then Inl Empty_Batch
      else if length amax \<noteq> k then Inl (Row_Count (length amax) k)
      else let (n, bonus) = accept_loop batch amax 1 in
        Inr \<lparr>commit_len = n, draft_accepted = n - 1, next_bonus = bonus\<rparr>)"

section \<open>Chain state\<close>

record chain_state =
  context_tokens :: "token list"
  cs_committed :: nat
  aux_rows :: nat
  fc_in :: nat

definition new_chain_state :: "token list \<Rightarrow> nat \<Rightarrow> spec_error + chain_state" where
  "new_chain_state prompt_ids fc =
     (if prompt_ids = [] then Inl Empty_Prompt
      else if fc = 0 then Inl Zero_Fc_In
      else Inr \<lparr>context_tokens = prompt_ids, cs_committed = length prompt_ids,
        aux_rows = length prompt_ids, fc_in = fc\<rparr>)"

definition commit_token :: "token \<Rightarrow> 'f list \<Rightarrow> chain_state \<Rightarrow> spec_error + chain_state" where
  "commit_token tok aux_row st =
     (if length aux_row \<noteq> fc_in st then Inl (Aux_Row (length aux_row) (fc_in st))
      else Inr (st\<lparr>context_tokens := context_tokens st @ [tok],
        cs_committed := cs_committed st + 1, aux_rows := aux_rows st + 1\<rparr>))"

definition assert_round_start :: "nat \<Rightarrow> nat \<Rightarrow> chain_state \<Rightarrow> spec_error + unit" where
  "assert_round_start k cache_capacity st =
     (if cs_committed st \<noteq> length (context_tokens st) then
        Inl (Desync (cs_committed st) (length (context_tokens st)))
      else if aux_rows st \<noteq> cs_committed st then Inl (Aux_Lockstep (aux_rows st) (cs_committed st))
      else if cache_capacity < cs_committed st + k then
        Inl (Cache_Overflow (cs_committed st) k cache_capacity)
      else Inr ())"

section \<open>What is accepted\<close>

lemma accept_loop_spec:
  assumes "accept_loop batch amax i = (n, r)" "length amax = length batch" "1 \<le> i" "i \<le> length batch"
  shows "i \<le> n \<and> n \<le> length batch \<and> r = amax ! (n - 1)
    \<and> (\<forall>j. i \<le> j \<and> j < n \<longrightarrow> batch ! j = amax ! (j - 1))
    \<and> (n < length batch \<longrightarrow> batch ! n \<noteq> amax ! (n - 1))"
  using assms
proof (induction batch amax i rule: accept_loop.induct)
  case (1 batch amax i)
  show ?case
  proof (cases "i < length batch \<and> judge_slot_argmax batch amax i = None")
    case True
    then have "batch ! i = amax ! (i - 1)"
      using "1.prems"(2,3) by (auto simp: judge_slot_argmax_def split: if_splits)
    moreover have "accept_loop batch amax (i + 1) = (n, r)"
      using True "1.prems"(1) by (simp add: accept_loop.simps [of batch amax i])
    ultimately show ?thesis
      using "1.IH" True "1.prems"(2) by (metis Suc_eq_plus1 Suc_leI le_SucI le_add2 le_antisym not_less_eq_eq Suc_leD)
  next
    case False
    then show ?thesis
      using "1.prems" by (auto simp: accept_loop.simps [of batch amax i] judge_slot_argmax_def split: if_splits)
  qed
qed

lemma accept_prefix_argmax_Inl:
  "accept_prefix_argmax batch amax = Inl e \<longleftrightarrow>
     (batch = [] \<and> e = Empty_Batch)
     \<or> (batch \<noteq> [] \<and> length amax \<noteq> length batch \<and> e = Row_Count (length amax) (length batch))"
  by (auto simp: accept_prefix_argmax_def Let_def Suc_le_eq split: prod.splits)

lemma accept_prefix_argmax_ok:
  assumes "batch \<noteq> []" "length amax = length batch"
  shows "\<exists>acc. accept_prefix_argmax batch amax = Inr acc"
  using assms by (simp add: accept_prefix_argmax_def Let_def Suc_le_eq split: prod.splits)

lemma accept_prefix_argmax_Inr:
  assumes "accept_prefix_argmax batch amax = Inr acc"
  shows "1 \<le> commit_len acc \<and> commit_len acc \<le> length batch
    \<and> draft_accepted acc = commit_len acc - 1 \<and> next_bonus acc = amax ! (commit_len acc - 1)
    \<and> (\<forall>j. 1 \<le> j \<and> j < commit_len acc \<longrightarrow> batch ! j = amax ! (j - 1))
    \<and> (commit_len acc < length batch \<longrightarrow> batch ! commit_len acc \<noteq> amax ! (commit_len acc - 1))"
proof -
  obtain n r where nr: "accept_loop batch amax 1 = (n, r)"
    by fastforce
  have "length amax = length batch" "1 \<le> length batch"
    and "acc = \<lparr>commit_len = n, draft_accepted = n - 1, next_bonus = r\<rparr>"
    using assms nr by (auto simp: accept_prefix_argmax_def Let_def Suc_le_eq split: if_splits)
  with accept_loop_spec [OF nr] show ?thesis
    by simp
qed

text \<open>The rows a verifier answers for a batch after the context \<open>c\<close>: one choice per slot.\<close>

definition verify_rows :: "(token list \<Rightarrow> token) \<Rightarrow> token list \<Rightarrow> token list \<Rightarrow> token list" where
  "verify_rows nxt c batch = map (\<lambda>i. nxt (c @ take (Suc i) batch)) [0..<length batch]"

lemma length_verify_rows [simp]: "length (verify_rows nxt c batch) = length batch"
  by (simp add: verify_rows_def)

text \<open>The accepted drafts and the bonus are what greedy decoding yields after the first token.\<close>

definition emitted_tokens :: "token list \<Rightarrow> chain_accept \<Rightarrow> token list" where
  "emitted_tokens batch acc = drop 1 (take (commit_len acc) batch) @ [next_bonus acc]"

lemma accepted_is_greedy:
  assumes "accept_prefix_argmax batch (verify_rows nxt c batch) = Inr acc"
  shows "emitted_tokens batch acc = greedy_run nxt (c @ [hd batch]) (commit_len acc)"
proof -
  let ?n = "commit_len acc" and ?xs = "emitted_tokens batch acc"
  have n: "1 \<le> ?n" "?n \<le> length batch" and bonus: "next_bonus acc = verify_rows nxt c batch ! (?n - 1)"
    and agree: "\<And>j. 1 \<le> j \<Longrightarrow> j < ?n \<Longrightarrow> batch ! j = verify_rows nxt c batch ! (j - 1)"
    using accept_prefix_argmax_Inr [OF assms] by auto
  have len: "length ?xs = ?n"
    using n by (simp add: emitted_tokens_def)
  have row: "verify_rows nxt c batch ! i = nxt (c @ take (Suc i) batch)" if "i < length batch" for i
    using that by (simp add: verify_rows_def)
  have split: "take (Suc i) batch = hd batch # take i ?xs" if "i < ?n" for i
    using that n by (cases batch; cases ?n) (auto simp: emitted_tokens_def min_def)
  have "?xs ! i = nxt ((c @ [hd batch]) @ take i ?xs)" if i: "i < ?n" for i
  proof (cases "Suc i < ?n")
    case True
    then have "i < ?n - 1"
      by simp
    then have "?xs ! i = batch ! Suc i"
      using n by (simp add: emitted_tokens_def nth_append)
    also have "\<dots> = nxt (c @ take (Suc i) batch)"
      using agree [of "Suc i"] row [of i] True n by simp
    finally show ?thesis
      using split [OF i] by simp
  next
    case False
    then have "i = ?n - 1"
      using i by simp
    then show ?thesis
      using bonus row [of i] split [OF i] n by (simp add: emitted_tokens_def nth_append)
  qed
  then show ?thesis
    using greedy_runI [of ?xs nxt "c @ [hd batch]"] len by simp
qed

lemma accepted_batch_is_greedy:
  assumes "accept_prefix_argmax batch (verify_rows nxt c batch) = Inr acc" "hd batch = nxt c"
  shows "take (commit_len acc) batch = greedy_run nxt c (commit_len acc)"
    and "next_bonus acc = nxt (c @ take (commit_len acc) batch)"
proof -
  let ?n = "commit_len acc"
  have n: "1 \<le> ?n" "?n \<le> length batch" and bonus: "next_bonus acc = verify_rows nxt c batch ! (?n - 1)"
    and agree: "\<And>j. 1 \<le> j \<Longrightarrow> j < ?n \<Longrightarrow> batch ! j = verify_rows nxt c batch ! (j - 1)"
    using accept_prefix_argmax_Inr [OF assms(1)] by auto
  have row: "verify_rows nxt c batch ! i = nxt (c @ take (Suc i) batch)" if "i < length batch" for i
    using that by (simp add: verify_rows_def)
  show "next_bonus acc = nxt (c @ take ?n batch)"
    using bonus row [of "?n - 1"] n by simp
  have "batch ! i = nxt (c @ take i batch)" if "i < ?n" for i
    using agree [of i] row [of "i - 1"] n that assms(2) by (cases batch; cases i) auto
  then have "take ?n batch ! i = nxt (c @ take i (take ?n batch))" if "i < length (take ?n batch)" for i
    using that by (simp add: min_absorb1)
  from greedy_runI [OF this] show "take ?n batch = greedy_run nxt c ?n"
    using n by simp
qed

section \<open>Small facts\<close>

lemma build_shift:
  "build_chain_batch bonus draft (length draft + 1) True = Inr (bonus # draft)"
  by (simp add: build_chain_batch_def)

lemma chain_positions_exact:
  assumes "committed + k < 2 ^ 31"
  shows "chain_positions committed k = map int [committed..<committed + k]"
proof -
  have "chain_positions committed k = [int committed..int (committed + k) - 1]"
    using assms by (simp add: chain_positions_def as_i32_exact)
  also have "\<dots> = map int [committed..<committed + k]"
    by (induction k) (simp_all add: upto_rec2)
  finally show ?thesis .
qed

lemma chain_state_lockstep:
  assumes "assert_round_start k cap st = Inr ()" "commit_token tok row st = Inr st'"
    and "1 \<le> k"
  shows "assert_round_start (k - 1) cap st' = Inr ()"
  using assms by (auto simp: assert_round_start_def commit_token_def split: if_splits)

end
