(* ===== verification/Spec_Model.thy ===== *)
theory Spec_Model
  imports Spec_Chain
begin

text \<open>
  The draft-and-verify generator of \<open>nv-specdecode/src/wgpu_spec.rs\<close>: the host side of
  \<open>WgpuSpecModel\<close> (how many rows of its KV cache are committed, and the guards of its
  operations) and the loop \<open>WgpuChainSpec::generate\<close> over a drafter and a verifier.

  The device arithmetic is a parameter. A row of the cache is a value of any type, computed
  by \<open>row_of\<close> from the rows before it and a token; \<open>pick\<close> is the argmax of the last row. The
  kernels write row \<open>committed + i\<close> for slot \<open>i\<close> of a batch and read the rows up to it
  (\<open>sp_kvwrite\<close>, \<open>sp_attn\<close>), so a batch is the same as its slots in order.
\<close>

section \<open>The model\<close>

record 'row device =
  row_of :: "'row list \<Rightarrow> token \<Rightarrow> 'row"
  pick :: "'row list \<Rightarrow> token"

record 'row spec_model =
  kv :: "'row list"
  committed :: nat
  k_max :: nat
  max_seq :: nat

fun replay_rows ::
  "'row device \<Rightarrow> nat \<Rightarrow> token list \<Rightarrow> 'row list \<Rightarrow> 'row list \<times> token list" where
  "replay_rows dev c [] rows = (rows, [])"
| "replay_rows dev c (t # ts) rows =
     (let rows1 = rows[c := row_of dev (take c rows) t];
          (rows2, amax) = replay_rows dev (c + 1) ts rows1
      in (rows2, pick dev (take (c + 1) rows1) # amax))"

definition reset_model :: "'row spec_model \<Rightarrow> 'row spec_model" where
  "reset_model m = m\<lparr>committed := 0\<rparr>"

definition decode1 ::
  "'row device \<Rightarrow> token \<Rightarrow> 'row spec_model \<Rightarrow> spec_error + (token \<times> 'row spec_model)" where
  "decode1 dev tok m =
     (if max_seq m \<le> committed m then Inl (Cache_Overflow (committed m) 1 (max_seq m))
      else let (rows, amax) = replay_rows dev (committed m) [tok] (kv m) in
        Inr (hd amax, m\<lparr>kv := rows, committed := committed m + 1\<rparr>))"

fun prefill_loop ::
  "'row device \<Rightarrow> token list \<Rightarrow> token \<Rightarrow> 'row spec_model \<Rightarrow> spec_error + (token \<times> 'row spec_model)"
where
  "prefill_loop dev [] prev m = Inr (prev, m)"
| "prefill_loop dev (t # ts) prev m =
     and_then (decode1 dev t m) (\<lambda>(nxt, m1). prefill_loop dev ts nxt m1)"

definition prefill ::
  "'row device \<Rightarrow> token list \<Rightarrow> 'row spec_model \<Rightarrow> spec_error + (token \<times> 'row spec_model)" where
  "prefill dev tokens m = (if tokens = [] then Inl Empty_Prompt else prefill_loop dev tokens 0 m)"

definition verify_chain ::
  "'row device \<Rightarrow> token list \<Rightarrow> 'row spec_model \<Rightarrow> spec_error + (token list \<times> 'row spec_model)"
where
  "verify_chain dev batch m =
     (if k_max m \<le> 1 then Inl No_Multi_Row
      else if length batch \<noteq> k_max m then Inl (Batch_Length (length batch) (k_max m))
      else if max_seq m < committed m + k_max m then
        Inl (Cache_Overflow (committed m) (k_max m) (max_seq m))
      else let (rows, amax) = replay_rows dev (committed m) batch (kv m) in
        Inr (amax, m\<lparr>kv := rows\<rparr>))"

definition advance_model :: "nat \<Rightarrow> 'row spec_model \<Rightarrow> spec_error + 'row spec_model" where
  "advance_model n m =
     (if max_seq m < committed m + n then Inl (Cache_Overflow (committed m) n (max_seq m))
      else Inr (m\<lparr>committed := committed m + n\<rparr>))"

definition rollback_to :: "nat \<Rightarrow> 'row spec_model \<Rightarrow> spec_error + 'row spec_model" where
  "rollback_to n m =
     (if committed m < n then Inl (Rollback_Beyond n (committed m))
      else Inr (m\<lparr>committed := n\<rparr>))"

section \<open>What the cache holds\<close>

definition rows_for :: "'row device \<Rightarrow> token list \<Rightarrow> 'row list" where
  "rows_for dev ts = foldl (\<lambda>rs t. rs @ [row_of dev rs t]) [] ts"

definition next_token :: "'row device \<Rightarrow> token list \<Rightarrow> token" where
  "next_token dev ts = pick dev (rows_for dev ts)"

lemma rows_for_Nil [simp]: "rows_for dev [] = []"
  by (simp add: rows_for_def)

lemma rows_for_snoc: "rows_for dev (ts @ [t]) = rows_for dev ts @ [row_of dev (rows_for dev ts) t]"
  by (simp add: rows_for_def)

lemma length_rows_for [simp]: "length (rows_for dev ts) = length ts"
  by (induction ts rule: rev_induct) (simp_all add: rows_for_snoc)

lemma take_rows_for: "n \<le> length ts \<Longrightarrow> take n (rows_for dev ts) = rows_for dev (take n ts)"
proof (induction ts rule: rev_induct)
  case (snoc t ts)
  then show ?case
    by (cases "n = Suc (length ts)") (simp_all add: rows_for_snoc)
qed simp

definition holds :: "'row device \<Rightarrow> token list \<Rightarrow> 'row spec_model \<Rightarrow> bool" where
  "holds dev ts m \<longleftrightarrow> committed m = length ts \<and> length ts \<le> max_seq m
     \<and> length (kv m) = max_seq m \<and> take (length ts) (kv m) = rows_for dev ts"

lemma replay_rows_for:
  assumes "take (length ts) rows = rows_for dev ts" "length ts + length batch \<le> length rows"
  shows "snd (replay_rows dev (length ts) batch rows) = verify_rows (next_token dev) ts batch
    \<and> length (fst (replay_rows dev (length ts) batch rows)) = length rows
    \<and> take (length ts + length batch) (fst (replay_rows dev (length ts) batch rows))
        = rows_for dev (ts @ batch)"
  using assms
proof (induction batch arbitrary: ts rows)
  case (Cons t batch)
  define rows1 where "rows1 = rows[length ts := row_of dev (take (length ts) rows) t]"
  have "take (Suc (length ts)) rows1 = rows_for dev ts @ [row_of dev (rows_for dev ts) t]"
    using Cons.prems by (simp add: rows1_def take_Suc_conv_app_nth)
  then have one: "take (length (ts @ [t])) rows1 = rows_for dev (ts @ [t])"
    by (simp add: rows_for_snoc)
  have len: "length rows1 = length rows"
    by (simp add: rows1_def)
  have "length (ts @ [t]) + length batch \<le> length rows1"
    using Cons.prems len by simp
  note IH = Cons.IH [OF one this]
  obtain rows2 amax where r: "replay_rows dev (Suc (length ts)) batch rows1 = (rows2, amax)"
    by fastforce
  have step: "replay_rows dev (length ts) (t # batch) rows = (rows2, next_token dev (ts @ [t]) # amax)"
    using r one by (simp add: rows1_def [symmetric] next_token_def)
  have rows: "verify_rows (next_token dev) ts (t # batch)
      = next_token dev (ts @ [t]) # verify_rows (next_token dev) (ts @ [t]) batch"
    by (simp add: verify_rows_def upt_conv_Cons map_Suc_upt [symmetric] del: upt_Suc)
  show ?case
    unfolding step rows using IH r len by simp
qed (simp add: verify_rows_def)

lemma holds_reset: "length (kv m) = max_seq m \<Longrightarrow> holds dev [] (reset_model m)"
  by (simp add: holds_def reset_model_def)

lemma decode1_holds:
  assumes "holds dev ts m" "length ts < max_seq m"
  shows "\<exists>m'. decode1 dev t m = Inr (next_token dev (ts @ [t]), m') \<and> holds dev (ts @ [t]) m'
    \<and> max_seq m' = max_seq m \<and> k_max m' = k_max m"
proof -
  obtain rows amax where r: "replay_rows dev (committed m) [t] (kv m) = (rows, amax)"
    by fastforce
  have "amax = verify_rows (next_token dev) ts [t]" "length rows = max_seq m"
    "take (Suc (length ts)) rows = rows_for dev (ts @ [t])"
    using replay_rows_for [of ts "kv m" dev "[t]"] assms r by (auto simp: holds_def)
  then show ?thesis
    using assms r by (simp add: decode1_def holds_def verify_rows_def del: replay_rows.simps)
qed

lemma verify_chain_holds:
  assumes "holds dev ts m" "length batch = k_max m" "1 < k_max m" "length ts + k_max m \<le> max_seq m"
  shows "\<exists>m'. verify_chain dev batch m = Inr (verify_rows (next_token dev) ts batch, m')
    \<and> holds dev ts m' \<and> max_seq m' = max_seq m \<and> k_max m' = k_max m
    \<and> take (length ts + length batch) (kv m') = rows_for dev (ts @ batch)"
proof -
  obtain rows amax where r: "replay_rows dev (committed m) batch (kv m) = (rows, amax)"
    by fastforce
  have *: "amax = verify_rows (next_token dev) ts batch" "length rows = max_seq m"
    "take (length ts + length batch) rows = rows_for dev (ts @ batch)"
    using replay_rows_for [of ts "kv m" dev batch] assms r by (auto simp: holds_def)
  have "take (length ts) rows = take (length ts) (take (length ts + length batch) rows)"
    by simp
  also have "\<dots> = rows_for dev ts"
    unfolding *(3) by (simp add: take_rows_for)
  finally have "holds dev ts (m\<lparr>kv := rows\<rparr>)"
    using assms(1) *(2) by (simp add: holds_def)
  moreover have "verify_chain dev batch m = Inr (amax, m\<lparr>kv := rows\<rparr>)"
    using assms r by (simp add: verify_chain_def holds_def)
  ultimately show ?thesis
    using * by (intro exI [of _ "m\<lparr>kv := rows\<rparr>"]) simp
qed

lemma advance_holds:
  assumes "holds dev ts m" "take (length ts + length batch) (kv m) = rows_for dev (ts @ batch)"
    and "n \<le> length batch" "length ts + length batch \<le> max_seq m"
  shows "\<exists>m'. advance_model n m = Inr m' \<and> holds dev (ts @ take n batch) m'
    \<and> max_seq m' = max_seq m \<and> k_max m' = k_max m"
proof -
  have "take (length ts + n) (kv m) = take (length ts + n) (take (length ts + length batch) (kv m))"
    using assms(3) by (simp add: min_def)
  also have "\<dots> = take (length ts + n) (rows_for dev (ts @ batch))"
    by (simp only: assms(2))
  also have "\<dots> = rows_for dev (ts @ take n batch)"
    using assms(3) by (simp add: take_rows_for)
  finally show ?thesis
    using assms by (simp add: advance_model_def holds_def min_def)
qed

lemma rollback_holds:
  assumes "holds dev ts m" "n \<le> length ts"
  shows "\<exists>m'. rollback_to n m = Inr m' \<and> holds dev (take n ts) m'
    \<and> max_seq m' = max_seq m \<and> k_max m' = k_max m"
proof -
  have "take n (kv m) = take n (take (length ts) (kv m))"
    using assms(2) by (simp add: min_def)
  also have "\<dots> = rows_for dev (take n ts)"
    using assms by (simp add: holds_def take_rows_for)
  finally show ?thesis
    using assms by (simp add: rollback_to_def holds_def min_def)
qed

lemma prefill_loop_holds:
  assumes "holds dev ts m" "length ts + length us \<le> max_seq m" "us = [] \<Longrightarrow> prev = next_token dev ts"
  shows "\<exists>m'. prefill_loop dev us prev m = Inr (next_token dev (ts @ us), m') \<and> holds dev (ts @ us) m'
    \<and> max_seq m' = max_seq m \<and> k_max m' = k_max m"
  using assms
proof (induction us arbitrary: ts m prev)
  case (Cons u us)
  obtain m1 where m1: "decode1 dev u m = Inr (next_token dev (ts @ [u]), m1)" "holds dev (ts @ [u]) m1"
    "max_seq m1 = max_seq m" "k_max m1 = k_max m"
    using decode1_holds [of dev ts m u] Cons.prems by auto
  then show ?case
    using Cons.IH [of "ts @ [u]" m1 "next_token dev (ts @ [u])"] Cons.prems(2) by simp
qed simp

lemma prefill_holds:
  assumes "length (kv m) = max_seq m" "ts \<noteq> []" "length ts \<le> max_seq m"
  shows "\<exists>m'. prefill dev ts (reset_model m) = Inr (next_token dev ts, m') \<and> holds dev ts m'
    \<and> max_seq m' = max_seq m \<and> k_max m' = k_max m"
  using prefill_loop_holds [OF holds_reset [OF assms(1)], where dev = dev and us = ts and prev = 0] assms
  by (simp add: prefill_def reset_model_def)

end
