(* ===== verification/Spec_Generate.thy ===== *)
theory Spec_Generate
  imports Spec_Model
begin

text \<open>
  \<open>WgpuChainSpec::generate\<close>: a drafter proposes \<open>k - 1\<close> tokens after the pending one, the
  verifier checks the batch in one pass, the accepted prefix is committed on both. The
  drafter may be any model; it only changes how many tokens a round yields.
\<close>

section \<open>The loop\<close>

record ('d, 'v) chain_spec =
  drafter :: "'d spec_model"
  verifier :: "'v spec_model"
  chain_k :: nat

record generate_stats =
  emitted :: "token list"
  rounds :: nat
  drafted :: nat
  accepted_drafts :: nat

record ('d, 'v) generate_state =
  gs_spec :: "('d, 'v) chain_spec"
  gs_context :: "token list"
  gs_bonus :: token
  gs_stats :: generate_stats

lemma decode1_committed: "decode1 dev t m = Inr (u, m') \<Longrightarrow> committed m' = Suc (committed m)"
  by (auto simp: decode1_def Let_def split: if_splits prod.splits)

text \<open>\<open>while drafter.committed() < context.len()\<close>\<close>

function catch_up ::
  "'row device \<Rightarrow> token list \<Rightarrow> 'row spec_model \<Rightarrow> spec_error + 'row spec_model" where
  "catch_up dev ctx m =
     (if committed m < length ctx then
        and_then (decode1 dev (ctx ! committed m) m) (\<lambda>p. catch_up dev ctx (snd p))
      else Inr m)"
  by pat_completeness auto
termination
  by (relation "measure (\<lambda>(dev, ctx, m). length ctx - committed m)")
    (auto dest: decode1_committed)

declare catch_up.simps [simp del]

fun draft_tokens ::
  "'row device \<Rightarrow> nat \<Rightarrow> token \<Rightarrow> 'row spec_model \<Rightarrow> spec_error + (token list \<times> 'row spec_model)"
where
  "draft_tokens dev 0 cur m = Inr ([], m)"
| "draft_tokens dev (Suc n) cur m =
     and_then (decode1 dev cur m) (\<lambda>(t, m1).
       and_then (draft_tokens dev n t m1) (\<lambda>(ts, m2). Inr (t # ts, m2)))"

definition generate_round ::
  "'d device \<Rightarrow> 'v device \<Rightarrow> ('d, 'v) generate_state \<Rightarrow> spec_error + ('d, 'v) generate_state" where
  "generate_round dd dv st =
     (let sp = gs_spec st; context = gs_context st; bonus = gs_bonus st; s = gs_stats st;
          k = chain_k sp; base = length context in
      and_then (catch_up dd context (drafter sp)) (\<lambda>d1.
      and_then (draft_tokens dd (k - 1) bonus d1) (\<lambda>(drafts, d2).
      and_then (build_chain_batch bonus drafts k True) (\<lambda>batch.
      and_then (verify_chain dv batch (verifier sp)) (\<lambda>(amax, v1).
      and_then (accept_prefix_argmax batch amax) (\<lambda>acc.
      and_then (advance_model (commit_len acc) v1) (\<lambda>v2.
      and_then (rollback_to (base + min (commit_len acc) (k - 1)) d2) (\<lambda>d3.
        Inr \<lparr>gs_spec = sp\<lparr>drafter := d3, verifier := v2\<rparr>,
          gs_context = context @ take (commit_len acc) batch,
          gs_bonus = next_bonus acc,
          gs_stats = \<lparr>emitted = emitted s @ take (commit_len acc) batch,
            rounds = rounds s + 1, drafted = drafted s + (k - 1),
            accepted_drafts = accepted_drafts s + draft_accepted acc\<rparr>\<rparr>))))))))"

lemma generate_round_emits:
  assumes "generate_round dd dv st = Inr st'"
  shows "length (emitted (gs_stats st)) < length (emitted (gs_stats st'))"
proof -
  obtain batch amax acc where acc: "accept_prefix_argmax batch amax = Inr acc"
    and e: "emitted (gs_stats st') = emitted (gs_stats st) @ take (commit_len acc) batch"
    using assms by (auto simp: generate_round_def Let_def and_then_Inr split: prod.splits)
  have "0 < length (take (commit_len acc) batch)"
    using accept_prefix_argmax_Inr [OF acc] by auto
  then show ?thesis
    by (simp add: e)
qed

function generate_loop ::
  "'d device \<Rightarrow> 'v device \<Rightarrow> nat \<Rightarrow> ('d, 'v) generate_state \<Rightarrow> spec_error + ('d, 'v) generate_state"
where
  "generate_loop dd dv n st =
     (if length (emitted (gs_stats st)) < n then
        if max_seq (verifier (gs_spec st)) < committed (verifier (gs_spec st)) + chain_k (gs_spec st)
        then Inr st
        else and_then (generate_round dd dv st) (generate_loop dd dv n)
      else Inr st)"
  by pat_completeness auto
termination
  by (relation "measure (\<lambda>(dd, dv, n, st). n - length (emitted (gs_stats st)))")
    (auto dest: generate_round_emits)

declare generate_loop.simps [simp del]

definition generate ::
  "'d device \<Rightarrow> 'v device \<Rightarrow> token list \<Rightarrow> nat \<Rightarrow> ('d, 'v) chain_spec
     \<Rightarrow> spec_error + (generate_stats \<times> ('d, 'v) chain_spec)" where
  "generate dd dv prompt n sp =
     (if prompt = [] then Inl Empty_Prompt
      else
        and_then (prefill dv prompt (reset_model (verifier sp))) (\<lambda>(bonus, v1).
        and_then (prefill dd prompt (reset_model (drafter sp))) (\<lambda>(_, d1).
        and_then (generate_loop dd dv n
          \<lparr>gs_spec = sp\<lparr>verifier := v1, drafter := d1\<rparr>, gs_context = prompt, gs_bonus = bonus,
           gs_stats = \<lparr>emitted = [], rounds = 0, drafted = 0, accepted_drafts = 0\<rparr>\<rparr>) (\<lambda>st.
        Inr (gs_stats st, gs_spec st)))))"

section \<open>The invariant of the loop\<close>

definition round_ok ::
  "'d device \<Rightarrow> 'v device \<Rightarrow> token list \<Rightarrow> ('d, 'v) generate_state \<Rightarrow> bool" where
  "round_ok dd dv prompt st \<longleftrightarrow>
     (let sp = gs_spec st; context = gs_context st; out = emitted (gs_stats st) in
        context = prompt @ out
      \<and> out = greedy_run (next_token dv) prompt (length out)
      \<and> holds dv context (verifier sp) \<and> gs_bonus st = next_token dv context
      \<and> (\<exists>j \<le> length context. holds dd (take j context) (drafter sp))
      \<and> 2 \<le> chain_k sp \<and> k_max (verifier sp) = chain_k sp
      \<and> max_seq (drafter sp) = max_seq (verifier sp))"

lemma catch_up_holds:
  assumes "holds dd (take j ctx) d" "j \<le> length ctx" "length ctx \<le> max_seq d"
  shows "\<exists>d1. catch_up dd ctx d = Inr d1 \<and> holds dd ctx d1
    \<and> max_seq d1 = max_seq d \<and> k_max d1 = k_max d"
  using assms
proof (induction dd ctx d arbitrary: j rule: catch_up.induct)
  case (1 dd ctx d)
  have c: "committed d = j"
    using "1.prems"(1,2) by (simp add: holds_def)
  show ?case
  proof (cases "j < length ctx")
    case True
    obtain d1 where d1: "decode1 dd (ctx ! j) d = Inr (next_token dd (take j ctx @ [ctx ! j]), d1)"
      "holds dd (take j ctx @ [ctx ! j]) d1" "max_seq d1 = max_seq d" "k_max d1 = k_max d"
      using decode1_holds [OF "1.prems"(1), of "ctx ! j"] True "1.prems"(3) by (auto simp: min_def)
    then have "holds dd (take (Suc j) ctx) d1"
      using True by (simp add: take_Suc_conv_app_nth)
    then have "\<exists>d2. catch_up dd ctx d1 = Inr d2 \<and> holds dd ctx d2
        \<and> max_seq d2 = max_seq d1 \<and> k_max d2 = k_max d1"
      using "1.IH" [of "(next_token dd (take j ctx @ [ctx ! j]), d1)" "Suc j"] True d1 "1.prems"(3)
      by (simp add: c)
    then show ?thesis
      using True d1 by (simp add: catch_up.simps [of dd ctx d] c)
  next
    case False
    then show ?thesis
      using "1.prems" by (simp add: catch_up.simps [of dd ctx d] c)
  qed
qed

lemma draft_tokens_holds:
  assumes "holds dd ts d" "length ts + n \<le> max_seq d"
  shows "\<exists>drafts d1. draft_tokens dd n cur d = Inr (drafts, d1) \<and> length drafts = n
    \<and> holds dd (ts @ take n (cur # drafts)) d1 \<and> max_seq d1 = max_seq d \<and> k_max d1 = k_max d"
  using assms
proof (induction n arbitrary: ts cur d)
  case (Suc n)
  obtain d1 where d1: "decode1 dd cur d = Inr (next_token dd (ts @ [cur]), d1)"
    "holds dd (ts @ [cur]) d1" "max_seq d1 = max_seq d" "k_max d1 = k_max d"
    using decode1_holds [OF Suc.prems(1), of cur] Suc.prems(2) by auto
  then show ?case
    using Suc.IH [of "ts @ [cur]" d1 "next_token dd (ts @ [cur])"] Suc.prems(2) by auto
qed simp

lemma generate_round_ok:
  assumes ok: "round_ok dd dv prompt st"
    and room: "committed (verifier (gs_spec st)) + chain_k (gs_spec st) \<le> max_seq (verifier (gs_spec st))"
  shows "\<exists>st'. generate_round dd dv st = Inr st' \<and> round_ok dd dv prompt st'
    \<and> chain_k (gs_spec st') = chain_k (gs_spec st)
    \<and> max_seq (verifier (gs_spec st')) = max_seq (verifier (gs_spec st))"
proof -
  define sp where "sp = gs_spec st"
  define c where "c = gs_context st"
  define k where "k = chain_k sp"
  define nxt where "nxt = next_token dv"
  have v: "holds dv c (verifier sp)" "k_max (verifier sp) = k" "gs_bonus st = nxt c"
    and k: "2 \<le> k" and seq: "max_seq (drafter sp) = max_seq (verifier sp)"
    and ctx: "c = prompt @ emitted (gs_stats st)"
    and out: "emitted (gs_stats st) = greedy_run nxt prompt (length (emitted (gs_stats st)))"
    using ok by (auto simp: round_ok_def Let_def sp_def c_def k_def nxt_def)
  have fits: "length c + k \<le> max_seq (verifier sp)"
    using room v(1) by (simp add: sp_def k_def holds_def)
  obtain j where j: "j \<le> length c" "holds dd (take j c) (drafter sp)"
    using ok by (auto simp: round_ok_def Let_def sp_def c_def)
  obtain d1 where d1: "catch_up dd c (drafter sp) = Inr d1" "holds dd c d1"
    "max_seq d1 = max_seq (drafter sp)" "k_max d1 = k_max (drafter sp)"
    using catch_up_holds [OF j(2,1)] fits seq by auto
  obtain drafts d2 where d2: "draft_tokens dd (k - 1) (nxt c) d1 = Inr (drafts, d2)"
    "length drafts = k - 1" "holds dd (c @ take (k - 1) (nxt c # drafts)) d2" "max_seq d2 = max_seq d1"
  proof -
    have "length c + (k - 1) \<le> max_seq d1"
      using fits seq d1(3) by simp
    then show thesis
      using draft_tokens_holds [OF d1(2)] that by blast
  qed
  define batch where "batch = nxt c # drafts"
  have len: "length batch = k"
    using d2(2) k by (simp add: batch_def)
  have build: "build_chain_batch (nxt c) drafts k True = Inr batch"
    using d2(2) k by (simp add: build_chain_batch_def batch_def)
  obtain v1 where v1: "verify_chain dv batch (verifier sp) = Inr (verify_rows nxt c batch, v1)"
    "holds dv c v1" "max_seq v1 = max_seq (verifier sp)" "k_max v1 = k_max (verifier sp)"
    "take (length c + length batch) (kv v1) = rows_for dv (c @ batch)"
    using verify_chain_holds [OF v(1), of batch] len k v(2) fits by (auto simp: nxt_def)
  obtain acc where acc: "accept_prefix_argmax batch (verify_rows nxt c batch) = Inr acc"
    using accept_prefix_argmax_ok [of batch "verify_rows nxt c batch"] by (auto simp: batch_def)
  define n where "n = commit_len acc"
  have n: "1 \<le> n" "n \<le> k"
    using accept_prefix_argmax_Inr [OF acc] len by (auto simp: n_def)
  note greedy = accepted_batch_is_greedy [OF acc, folded n_def]
  obtain v2 where v2: "advance_model n v1 = Inr v2" "holds dv (c @ take n batch) v2"
    "max_seq v2 = max_seq v1" "k_max v2 = k_max v1"
    using advance_holds [OF v1(2,5), of n] n len fits v1(3) by auto
  have hold2: "holds dd (c @ take (k - 1) batch) d2"
    using d2(3) by (simp add: batch_def)
  obtain d3 where d3: "rollback_to (length c + min n (k - 1)) d2 = Inr d3"
    "holds dd (take (length c + min n (k - 1)) (c @ take (k - 1) batch)) d3" "max_seq d3 = max_seq d2"
    using rollback_holds [OF hold2, of "length c + min n (k - 1)"] len by auto
  have pre: "take (length c + min n (k - 1)) (c @ take (k - 1) batch)
      = take (length c + min n (k - 1)) (c @ take n batch)"
    by (simp add: min_def)
  define st' where "st' = \<lparr>gs_spec = sp\<lparr>drafter := d3, verifier := v2\<rparr>,
    gs_context = c @ take n batch, gs_bonus = next_bonus acc,
    gs_stats = \<lparr>emitted = emitted (gs_stats st) @ take n batch, rounds = rounds (gs_stats st) + 1,
      drafted = drafted (gs_stats st) + (k - 1),
      accepted_drafts = accepted_drafts (gs_stats st) + draft_accepted acc\<rparr>\<rparr>"
  have "generate_round dd dv st = Inr st'"
    using d1(1) d2(1) build v1(1) acc v2(1) d3(1) v(3)
    by (simp add: generate_round_def Let_def sp_def [symmetric] c_def [symmetric] k_def [symmetric]
        n_def [symmetric] st'_def)
  moreover have "emitted (gs_stats st) @ take n batch
      = greedy_run nxt prompt (length (emitted (gs_stats st)) + length (take n batch))"
    using greedy(1) out ctx n len by (simp add: greedy_run_add batch_def min_def)
  moreover have "\<exists>j \<le> length (c @ take n batch). holds dd (take j (c @ take n batch)) d3"
    using d3(2) n len unfolding pre by (intro exI [of _ "length c + min n (k - 1)"]) auto
  ultimately show ?thesis
    using greedy(2) v2 v1 v(2) d3(3) d2(4) d1(3) seq k ctx
    by (simp add: round_ok_def Let_def st'_def sp_def [symmetric] k_def [symmetric] nxt_def [symmetric] batch_def)
qed

lemma generate_loop_ok:
  assumes "round_ok dd dv prompt st"
  shows "\<exists>st'. generate_loop dd dv n st = Inr st' \<and> round_ok dd dv prompt st'
    \<and> chain_k (gs_spec st') = chain_k (gs_spec st)
    \<and> max_seq (verifier (gs_spec st')) = max_seq (verifier (gs_spec st))
    \<and> (n \<le> length (emitted (gs_stats st'))
        \<or> max_seq (verifier (gs_spec st')) < committed (verifier (gs_spec st')) + chain_k (gs_spec st'))"
  using assms
proof (induction dd dv n st rule: generate_loop.induct)
  case (1 dd dv n st)
  show ?case
  proof (cases "length (emitted (gs_stats st)) < n
      \<and> committed (verifier (gs_spec st)) + chain_k (gs_spec st) \<le> max_seq (verifier (gs_spec st))")
    case True
    then obtain st1 where st1: "generate_round dd dv st = Inr st1" "round_ok dd dv prompt st1"
      "chain_k (gs_spec st1) = chain_k (gs_spec st)"
      "max_seq (verifier (gs_spec st1)) = max_seq (verifier (gs_spec st))"
      using generate_round_ok [OF "1.prems"] by auto
    have "generate_loop dd dv n st = generate_loop dd dv n st1"
      using True st1(1) by (simp add: generate_loop.simps [of dd dv n st])
    then show ?thesis
      using "1.IH" [OF _ _ st1(1,2)] True st1(3,4) by simp
  next
    case False
    then show ?thesis
      using "1.prems" by (auto simp: generate_loop.simps [of dd dv n st])
  qed
qed

end
