(* ===== verification/Spec_Loop.thy ===== *)
theory Spec_Loop
  imports Spec_Generate Suffix_Automaton
begin

text \<open>
  The speculative rounds of the serving loop: \<open>chat_engine_wgpu/spec.rs\<close> (one round over a
  verify target, and the loop that drafts with the suffix automaton), the adapter
  \<open>DecoderChainTarget\<close> of \<open>chat_engine_wgpu.rs\<close> that makes a target of a decoder, the round of
  \<open>nv-specdecode/src/qwen38_mtp.rs\<close> whose target rolls back and runs the accepted prefix again,
  and the suffix arm of \<open>nv-specdecode/src/qwen38_sufspec.rs\<close>.

  A target is a record of the operations of the Rust trait on a state of any type. The moving
  average of accepted drafts is floating point and read by nobody here; it is left out, as are
  the hidden rows the adapter copies for a learned drafter.
\<close>

section \<open>Rounds over a verify target\<close>

definition chain_capacity :: "nat \<Rightarrow> nat \<Rightarrow> nat \<Rightarrow> nat \<Rightarrow> nat" where
  "chain_capacity verify_rows_max pos chunk_span mx =
     (if verify_rows_max < 2 then 1
      else if mx < pos + max verify_rows_max chunk_span then 1
      else verify_rows_max)"

record 't verify_target =
  tv_verify :: "'t \<Rightarrow> token list \<Rightarrow> spec_error + (token list \<times> 't)"
  tv_advance :: "'t \<Rightarrow> nat \<Rightarrow> spec_error + 't"
  tv_capacity :: "'t \<Rightarrow> nat"

definition run_spec_round ::
  "'t verify_target \<Rightarrow> 't \<Rightarrow> token \<Rightarrow> token list \<Rightarrow> spec_error + (chain_accept \<times> token list \<times> 't)"
where
  "run_spec_round T t bonus draft =
     (let cap = tv_capacity T t in
      if cap < 1 then Inl Zero_Capacity
      else if cap \<le> length draft then Inl (Draft_Exceeds (length draft) cap)
      else let k = length draft + 1 in
        and_then (build_chain_batch bonus draft k True) (\<lambda>batch.
        and_then (tv_verify T t batch) (\<lambda>(amax, t1).
        and_then (accept_prefix_argmax batch amax) (\<lambda>acc.
        and_then (tv_advance T t1 (commit_len acc)) (\<lambda>t2.
        Inr (acc, take (commit_len acc - 1) draft @ [next_bonus acc], t2))))))"

section \<open>The loop with its own drafts\<close>

record spec_knobs =
  knob_k :: nat
  knob_min_match :: nat

definition spec_k_max :: nat where
  "spec_k_max = 8"

definition spec_k_default :: nat where
  "spec_k_default = 8"

definition spec_min_match_default :: nat where
  "spec_min_match_default = 3"

text \<open>The arguments are the numbers parsed from the environment, if they parse.\<close>

definition parse_knobs :: "nat option \<Rightarrow> nat option \<Rightarrow> spec_knobs" where
  "parse_knobs k min_match =
     \<lparr>knob_k = min (max (case k of Some v \<Rightarrow> v | None \<Rightarrow> spec_k_default) 1) spec_k_max,
      knob_min_match = max (case min_match of Some v \<Rightarrow> v | None \<Rightarrow> spec_min_match_default) 1\<rparr>"

record loop_stats =
  ls_rounds :: nat
  ls_rounds_with_draft :: nat
  ls_drafted :: nat
  ls_accepted :: nat
  ls_emitted :: nat

record spec_loop =
  sl_suffix :: sam
  knobs :: spec_knobs
  stats :: loop_stats

definition new_spec_loop :: "spec_knobs \<Rightarrow> spec_loop" where
  "new_spec_loop kn = \<lparr>sl_suffix = new_sam, knobs = kn,
     stats = \<lparr>ls_rounds = 0, ls_rounds_with_draft = 0, ls_drafted = 0, ls_accepted = 0, ls_emitted = 0\<rparr>\<rparr>"

definition extend_suffix :: "token list \<Rightarrow> spec_loop \<Rightarrow> spec_error + spec_loop" where
  "extend_suffix ts sl = (case sam_extend_slice ts (sl_suffix sl) of
     None \<Rightarrow> Inl Panicked
   | Some a \<Rightarrow> Inr (sl\<lparr>sl_suffix := a\<rparr>))"

definition prime :: "token list \<Rightarrow> spec_loop \<Rightarrow> spec_error + spec_loop" where
  "prime ts sl = extend_suffix ts sl"

definition propose_draft_min :: "nat \<Rightarrow> nat \<Rightarrow> spec_loop \<Rightarrow> spec_error + token list" where
  "propose_draft_min cap min_match sl =
     (let limit = min (knob_k (knobs sl)) (cap - 1) in
      if limit = 0 then Inr []
      else case sam_propose limit min_match (sl_suffix sl) of
        None \<Rightarrow> Inl Panicked
      | Some (Some p) \<Rightarrow> Inr (proposed p)
      | Some None \<Rightarrow> Inr [])"

definition propose_draft :: "nat \<Rightarrow> spec_loop \<Rightarrow> spec_error + token list" where
  "propose_draft cap sl = propose_draft_min cap (knob_min_match (knobs sl)) sl"

definition count_round :: "token list \<Rightarrow> chain_accept \<Rightarrow> token list \<Rightarrow> loop_stats \<Rightarrow> loop_stats" where
  "count_round draft acc out s =
     (let s1 = s\<lparr>ls_rounds := ls_rounds s + 1\<rparr>;
          s2 = (if draft \<noteq> [] then
            s1\<lparr>ls_rounds_with_draft := ls_rounds_with_draft s1 + 1,
               ls_drafted := ls_drafted s1 + length draft,
               ls_accepted := ls_accepted s1 + draft_accepted acc\<rparr> else s1)
      in s2\<lparr>ls_emitted := ls_emitted s2 + length out\<rparr>)"

definition round_with_draft ::
  "'t verify_target \<Rightarrow> token \<Rightarrow> token list \<Rightarrow> spec_loop \<Rightarrow> 't
     \<Rightarrow> spec_error + (token list \<times> spec_loop \<times> 't)" where
  "round_with_draft T bonus draft0 sl t =
     (let draft = take (tv_capacity T t - 1) draft0 in
      and_then (run_spec_round T t bonus draft) (\<lambda>(acc, out, t1).
      and_then (extend_suffix out (sl\<lparr>stats := count_round draft acc out (stats sl)\<rparr>)) (\<lambda>sl1.
      Inr (out, sl1, t1))))"

definition round_own ::
  "'t verify_target \<Rightarrow> token \<Rightarrow> spec_loop \<Rightarrow> 't \<Rightarrow> spec_error + (token list \<times> spec_loop \<times> 't)"
where
  "round_own T bonus sl t =
     and_then (propose_draft (tv_capacity T t) sl) (\<lambda>draft. round_with_draft T bonus draft sl t)"

text \<open>
  A run of rounds as the decode loop makes them: each with its own draft (\<^term>\<open>None\<close>) or one
  from a learned drafter, each starting at the last token of the round before.
\<close>

fun spec_rounds ::
  "'t verify_target \<Rightarrow> token list option list \<Rightarrow> token \<Rightarrow> spec_loop \<Rightarrow> 't
     \<Rightarrow> spec_error + (token list \<times> spec_loop \<times> 't)" where
  "spec_rounds T [] bonus sl t = Inr ([], sl, t)"
| "spec_rounds T (d # ds) bonus sl t =
     and_then (case d of None \<Rightarrow> round_own T bonus sl t | Some x \<Rightarrow> round_with_draft T bonus x sl t)
       (\<lambda>(out, sl1, t1). and_then (spec_rounds T ds (last out) sl1 t1)
         (\<lambda>(outs, sl2, t2). Inr (out @ outs, sl2, t2)))"

section \<open>A decoder as a target\<close>

record 'd decoder_ops =
  do_step :: "'d \<Rightarrow> token \<Rightarrow> spec_error + (token \<times> 'd)"
  do_verify :: "'d \<Rightarrow> token list \<Rightarrow> spec_error + (token list \<times> 'd)"
  do_advance :: "'d \<Rightarrow> nat \<Rightarrow> spec_error + 'd"
  do_geometry :: "'d \<Rightarrow> nat \<times> nat"
  do_pos :: "'d \<Rightarrow> nat"

record 'd decoder_target =
  dt_decoder :: 'd
  dt_max_seq :: nat
  dt_stepped :: bool

definition dt_verify ::
  "'d decoder_ops \<Rightarrow> 'd decoder_target \<Rightarrow> token list \<Rightarrow> spec_error + (token list \<times> 'd decoder_target)"
where
  "dt_verify D t batch =
     (if length batch = 1 then
        and_then (do_step D (dt_decoder t) (batch ! 0)) (\<lambda>(a, d).
          Inr ([a], t\<lparr>dt_decoder := d, dt_stepped := True\<rparr>))
      else
        and_then (do_verify D (dt_decoder t) batch) (\<lambda>(rows, d). Inr (rows, t\<lparr>dt_decoder := d\<rparr>)))"

definition dt_advance ::
  "'d decoder_ops \<Rightarrow> 'd decoder_target \<Rightarrow> nat \<Rightarrow> spec_error + 'd decoder_target" where
  "dt_advance D t n =
     (if dt_stepped t then
        (if n \<noteq> 1 then Inl (Multi_Row_Commit n) else Inr (t\<lparr>dt_stepped := False\<rparr>))
      else and_then (do_advance D (dt_decoder t) n) (\<lambda>d. Inr (t\<lparr>dt_decoder := d\<rparr>)))"

definition dt_capacity :: "'d decoder_ops \<Rightarrow> 'd decoder_target \<Rightarrow> nat" where
  "dt_capacity D t = (let (rows, span) = do_geometry D (dt_decoder t) in
     chain_capacity rows (do_pos D (dt_decoder t)) span (dt_max_seq t))"

definition decoder_chain_target :: "'d decoder_ops \<Rightarrow> 'd decoder_target verify_target" where
  "decoder_chain_target D =
     \<lparr>tv_verify = dt_verify D, tv_advance = dt_advance D, tv_capacity = dt_capacity D\<rparr>"

section \<open>Rounds that run the accepted prefix again\<close>

record 't mtp_target =
  mt_verify :: "'t \<Rightarrow> token list \<Rightarrow> spec_error + (token list \<times> 't)"
  mt_commit_only :: "'t \<Rightarrow> token list \<Rightarrow> spec_error + 't"
  mt_advance :: "'t \<Rightarrow> nat \<Rightarrow> spec_error + 't"
  mt_scan_replay :: "'t \<Rightarrow> bool"

text \<open>The default methods of the trait.\<close>

definition default_commit_only ::
  "('t \<Rightarrow> token list \<Rightarrow> spec_error + (token list \<times> 't)) \<Rightarrow> 't \<Rightarrow> token list \<Rightarrow> spec_error + 't"
where
  "default_commit_only verify t batch = and_then (verify t batch) (\<lambda>(_, t1). Inr t1)"

definition default_scan_replay :: "'t \<Rightarrow> bool" where
  "default_scan_replay t = False"

record mtp_round =
  mr_batch :: "token list"
  mr_accept :: chain_accept
  mr_emitted :: "token list"
  mr_reforwarded :: bool

text \<open>
  A full accept, or a target that replays its scan, advances in place; otherwise the batch is
  rolled back and the accepted prefix runs again.
\<close>

definition mtp_commit ::
  "'t mtp_target \<Rightarrow> 't \<Rightarrow> nat \<Rightarrow> token list \<Rightarrow> spec_error + 't" where
  "mtp_commit T t1 n batch =
     (let full = (n = length batch); scan_replay = (\<not> full \<and> mt_scan_replay T t1) in
      if full \<or> scan_replay then mt_advance T t1 n
      else
        and_then (mt_advance T t1 0) (\<lambda>t2.
        and_then (mt_commit_only T t2 (take n batch)) (\<lambda>t3.
        mt_advance T t3 n)))"

definition run_mtp_verify_round ::
  "'t mtp_target \<Rightarrow> 't \<Rightarrow> token \<Rightarrow> token list \<Rightarrow> spec_error + (mtp_round \<times> 't)" where
  "run_mtp_verify_round T t anchor drafts =
     and_then (build_chain_batch anchor drafts (length drafts + 1) True) (\<lambda>batch.
     and_then (mt_verify T t batch) (\<lambda>(amax, t1).
     and_then (accept_prefix_argmax batch amax) (\<lambda>acc.
     and_then (mtp_commit T t1 (commit_len acc) batch) (\<lambda>t2.
       let full = (commit_len acc = length batch); scan_replay = (\<not> full \<and> mt_scan_replay T t1) in
       Inr (\<lparr>mr_batch = batch, mr_accept = acc,
          mr_emitted = take (draft_accepted acc) drafts @ [next_bonus acc],
          mr_reforwarded = (\<not> full \<and> \<not> scan_replay)\<rparr>, t2)))))"

section \<open>The suffix arm\<close>

definition suffix_draft_ceiling :: nat where
  "suffix_draft_ceiling = 7"

definition suffix_min_draft :: nat where
  "suffix_min_draft = 4"

definition suffix_token_cap :: nat where
  "suffix_token_cap = 262144"

record suffix_arm =
  arm_sam :: sam
  arm_draft_max :: nat
  arm_min_draft :: nat
  arm_min_match :: nat
  arm_rounds :: nat
  arm_drafted :: nat
  arm_accepted :: nat

text \<open>\<open>min_match\<close> is read from the environment; a draft bound outside the band panics.\<close>

definition with_draft_max :: "nat \<Rightarrow> nat \<Rightarrow> spec_error + suffix_arm" where
  "with_draft_max min_match draft_max =
     (if \<not> (1 \<le> draft_max \<and> draft_max \<le> suffix_draft_ceiling) then Inl Panicked
      else Inr \<lparr>arm_sam = new_sam, arm_draft_max = draft_max, arm_min_draft = suffix_min_draft,
        arm_min_match = min_match, arm_rounds = 0, arm_drafted = 0, arm_accepted = 0\<rparr>)"

definition arm_extend_capped :: "token list \<Rightarrow> suffix_arm \<Rightarrow> spec_error + suffix_arm" where
  "arm_extend_capped ts arm =
     (let room = suffix_token_cap - length (toks (arm_sam arm)) in
      case sam_extend_slice (take (min (length ts) room) ts) (arm_sam arm) of
        None \<Rightarrow> Inl Panicked
      | Some a \<Rightarrow> Inr (arm\<lparr>arm_sam := a\<rparr>))"

definition arm_at_cap :: "suffix_arm \<Rightarrow> bool" where
  "arm_at_cap arm \<longleftrightarrow> suffix_token_cap \<le> length (toks (arm_sam arm))"

definition arm_propose :: "nat \<Rightarrow> suffix_arm \<Rightarrow> spec_error + token list option" where
  "arm_propose headroom arm =
     (if arm_at_cap arm then Inr None
      else let cap = min (arm_draft_max arm) headroom in
        if cap < arm_min_draft arm then Inr None
        else case sam_propose cap (arm_min_match arm) (arm_sam arm) of
          None \<Rightarrow> Inl Panicked
        | Some (Some p) \<Rightarrow>
            Inr (if arm_min_draft arm \<le> length (proposed p) then Some (proposed p) else None)
        | Some None \<Rightarrow> Inr None)"

end
