(* ===== verification/Spec_Seam.thy ===== *)
theory Spec_Seam
  imports Spec_Loop Suffix_Properties
begin

text \<open>
  The contract between a speculative round and what it verifies on, as the source states it
  (\<open>CHAIN_VERIFY_SEAM\<close>): \<open>verify\<close> answers one greedy choice per slot of the batch and commits
  nothing, \<open>advance n\<close> leaves the state that \<open>n\<close> decode steps would have left. The laws speak of
  the operations that return; whatever fails stops the round with the error of the target.
\<close>

section \<open>Interfaces\<close>

locale chain_seam =
  fixes T :: "'t verify_target"
    and stands :: "'t \<Rightarrow> token list \<Rightarrow> bool"
    and verified :: "'t \<Rightarrow> token list \<Rightarrow> token list \<Rightarrow> bool"
    and nxt :: "token list \<Rightarrow> token"
    and fails :: "spec_error \<Rightarrow> bool"
  assumes capacity_law: "stands t c \<Longrightarrow> 1 \<le> tv_capacity T t"
    and verify_error: "stands t c \<Longrightarrow> batch \<noteq> [] \<Longrightarrow> tv_verify T t batch = Inl e \<Longrightarrow> fails e"
    and advance_error: "verified t c batch \<Longrightarrow> 1 \<le> n \<Longrightarrow> n \<le> length batch \<Longrightarrow>
      tv_advance T t n = Inl e \<Longrightarrow> fails e"
    and verify_law: "stands t c \<Longrightarrow> batch \<noteq> [] \<Longrightarrow> tv_verify T t batch = Inr (rows, t1) \<Longrightarrow>
      rows = verify_rows nxt c batch \<and> verified t1 c batch"
    and advance_law: "verified t c batch \<Longrightarrow> 1 \<le> n \<Longrightarrow> n \<le> length batch \<Longrightarrow>
      tv_advance T t n = Inr t1 \<Longrightarrow> stands t1 (c @ take n batch)"

locale decoder_seam =
  fixes D :: "'d decoder_ops"
    and stands :: "'d \<Rightarrow> token list \<Rightarrow> bool"
    and verified :: "'d \<Rightarrow> token list \<Rightarrow> token list \<Rightarrow> bool"
    and nxt :: "token list \<Rightarrow> token"
  assumes step_law: "stands d c \<Longrightarrow> do_step D d a = Inr (b, d1) \<Longrightarrow>
      b = nxt (c @ [a]) \<and> stands d1 (c @ [a])"
    and verify_law: "stands d c \<Longrightarrow> batch \<noteq> [] \<Longrightarrow> do_verify D d batch = Inr (rows, d1) \<Longrightarrow>
      rows = verify_rows nxt c batch \<and> verified d1 c batch"
    and advance_law: "verified d c batch \<Longrightarrow> 1 \<le> n \<Longrightarrow> n \<le> length batch \<Longrightarrow>
      do_advance D d n = Inr d1 \<Longrightarrow> stands d1 (c @ take n batch)"

locale mtp_seam =
  fixes T :: "'t mtp_target"
    and stands :: "'t \<Rightarrow> token list \<Rightarrow> bool"
    and verified :: "'t \<Rightarrow> token list \<Rightarrow> token list \<Rightarrow> bool"
    and nxt :: "token list \<Rightarrow> token"
  assumes verify_law: "stands t c \<Longrightarrow> batch \<noteq> [] \<Longrightarrow> mt_verify T t batch = Inr (rows, t1) \<Longrightarrow>
      rows = verify_rows nxt c batch \<and> verified t1 c batch"
    and commit_only_law: "stands t c \<Longrightarrow> batch \<noteq> [] \<Longrightarrow> mt_commit_only T t batch = Inr t1 \<Longrightarrow>
      verified t1 c batch"
    and roll_back_law: "verified t c batch \<Longrightarrow> mt_advance T t 0 = Inr t1 \<Longrightarrow> stands t1 c"
    and commit_law: "verified t c batch \<Longrightarrow> 1 \<le> n \<Longrightarrow> n = length batch \<or> n < length batch \<and> mt_scan_replay T t \<Longrightarrow>
      mt_advance T t n = Inr t1 \<Longrightarrow> stands t1 (c @ take n batch)"

text \<open>The errors of a decoder.\<close>

definition decoder_error :: "'d decoder_ops \<Rightarrow> spec_error \<Rightarrow> bool" where
  "decoder_error D e \<longleftrightarrow> (\<exists>d a. do_step D d a = Inl e) \<or> (\<exists>d batch. do_verify D d batch = Inl e)
     \<or> (\<exists>d n. do_advance D d n = Inl e)"

section \<open>The suffix automaton of the loop\<close>

definition tracks :: "spec_loop \<Rightarrow> token list \<Rightarrow> bool" where
  "tracks sl ts \<longleftrightarrow> sam_extend_slice ts new_sam = Some (sl_suffix sl)"

lemma sam_extend_slice_append:
  "sam_extend_slice (ts @ us) a = Option.bind (sam_extend_slice ts a) (sam_extend_slice us)"
  by (induction ts arbitrary: a) (auto split: option.splits)

lemma sam_extend_slice_total: "\<exists>a. sam_extend_slice ts new_sam = Some a \<and> toks a = ts"
  using sam_extend_slice_ok [OF new_sam_ok, of ts] by (auto simp: new_sam_def)

lemma extend_tracked:
  assumes "sam_extend_slice ts new_sam = Some a"
  shows "\<exists>b. sam_extend_slice us a = Some b \<and> sam_extend_slice (ts @ us) new_sam = Some b"
  using sam_extend_slice_total [of "ts @ us"] assms by (auto simp: sam_extend_slice_append)

lemma propose_tracked:
  assumes "sam_extend_slice ts new_sam = Some a"
  shows "sam_propose max_len min_match a = Some (naive_propose ts max_len min_match)"
proof -
  obtain b M where "sam_extend_slice ts new_sam = Some b" "sam_ok ([[]] @ M) b" "toks b = ts"
    using sam_extend_slice_ok [OF new_sam_ok, of ts] by (auto simp: new_sam_def)
  then show ?thesis
    using propose_is_naive assms by fastforce
qed

lemma extend_suffix_tracks:
  assumes "tracks sl ts"
  shows "\<exists>sl1. extend_suffix us sl = Inr sl1 \<and> tracks sl1 (ts @ us) \<and> knobs sl1 = knobs sl \<and> stats sl1 = stats sl"
  using extend_tracked [of ts "sl_suffix sl" us] assms by (auto simp: tracks_def extend_suffix_def)

text \<open>What the loop drafts after the tokens \<open>ts\<close>, by exhaustive search.\<close>

definition naive_draft :: "token list \<Rightarrow> nat \<Rightarrow> nat \<Rightarrow> token list" where
  "naive_draft ts limit min_match =
     (if limit = 0 then [] else case naive_propose ts limit min_match of
        Some p \<Rightarrow> proposed p
      | None \<Rightarrow> [])"

lemma propose_draft_naive:
  "tracks sl ts \<Longrightarrow> propose_draft cap sl
     = Inr (naive_draft ts (min (knob_k (knobs sl)) (cap - 1)) (knob_min_match (knobs sl)))"
  using propose_tracked [of ts "sl_suffix sl"]
  by (auto simp: propose_draft_def propose_draft_min_def naive_draft_def tracks_def Let_def split: option.splits)

section \<open>One round\<close>

context chain_seam
begin

lemma spec_round_greedy:
  assumes t: "stands t c" and round: "run_spec_round T t bonus draft = Inr (acc, out, t1)"
  shows "out = greedy_run nxt (c @ [bonus]) (length out)" "out \<noteq> []"
    "stands t1 (c @ bonus # butlast out)"
proof -
  let ?batch = "bonus # draft"
  obtain rows t2 where v: "tv_verify T t ?batch = Inr (rows, t2)"
    and a: "accept_prefix_argmax ?batch rows = Inr acc" "tv_advance T t2 (commit_len acc) = Inr t1"
    and out: "out = take (commit_len acc - 1) draft @ [next_bonus acc]"
    using round by (auto simp: run_spec_round_def Let_def and_then_Inr build_chain_batch_def split: if_splits)
  have rows: "rows = verify_rows nxt c ?batch" "verified t2 c ?batch"
    using verify_law [OF t _ v] by auto
  have n: "1 \<le> commit_len acc" "commit_len acc \<le> length ?batch"
    using accept_prefix_argmax_Inr [OF a(1)] by auto
  have "emitted_tokens ?batch acc = out"
    using n by (cases "commit_len acc") (auto simp: emitted_tokens_def out)
  then show "out = greedy_run nxt (c @ [bonus]) (length out)"
    using accepted_is_greedy [of ?batch nxt c acc] a(1) rows(1) n by (auto simp: out)
  show "out \<noteq> []"
    by (simp add: out)
  have "take (commit_len acc) ?batch = bonus # butlast out"
    using n by (cases "commit_len acc") (auto simp: out)
  then show "stands t1 (c @ bonus # butlast out)"
    using advance_law [OF rows(2) n a(2)] by simp
qed

lemma spec_round_error:
  assumes t: "stands t c" and e: "run_spec_round T t bonus draft = Inl e"
    and len: "length draft \<le> tv_capacity T t - 1"
  shows "fails e"
proof -
  let ?batch = "bonus # draft"
  have "length draft < tv_capacity T t"
    using capacity_law [OF t] len by simp
  then consider "tv_verify T t ?batch = Inl e"
    | rows t1 where "tv_verify T t ?batch = Inr (rows, t1)" "accept_prefix_argmax ?batch rows = Inl e"
    | rows t1 acc where "tv_verify T t ?batch = Inr (rows, t1)" "accept_prefix_argmax ?batch rows = Inr acc"
        "tv_advance T t1 (commit_len acc) = Inl e"
    using e by (auto simp: run_spec_round_def Let_def and_then_Inl build_chain_batch_def)
  then show ?thesis
  proof cases
    case 1
    from verify_error [OF t _ this] show ?thesis
      by simp
  next
    case 2
    then show ?thesis
      using verify_law [OF t _ 2(1)] by (simp add: accept_prefix_argmax_Inl)
  next
    case 3
    have "verified t1 c ?batch" "1 \<le> commit_len acc" "commit_len acc \<le> length ?batch"
      using verify_law [OF t _ 3(1)] accept_prefix_argmax_Inr [OF 3(2)] by auto
    from advance_error [OF this 3(3)] show ?thesis .
  qed
qed

definition good_round :: "token list \<Rightarrow> token \<Rightarrow> spec_error + (token list \<times> spec_loop \<times> 't) \<Rightarrow> bool" where
  "good_round c bonus r \<longleftrightarrow> (case r of
     Inl e \<Rightarrow> fails e
   | Inr (out, sl, t) \<Rightarrow> out = greedy_run nxt (c @ [bonus]) (length out) \<and> out \<noteq> []
       \<and> stands t (c @ bonus # butlast out) \<and> tracks sl (c @ bonus # out))"

lemma round_with_draft_good:
  assumes t: "stands t c" and sl: "tracks sl (c @ [bonus])"
  shows "good_round c bonus (round_with_draft T bonus draft sl t)"
proof -
  define d where "d = take (tv_capacity T t - 1) draft"
  show ?thesis
  proof (cases "run_spec_round T t bonus d")
    case (Inl e)
    then show ?thesis
      using spec_round_error [OF t, of bonus d e]
      by (simp add: good_round_def round_with_draft_def d_def Let_def)
  next
    case (Inr p)
    obtain acc out t1 where p: "p = (acc, out, t1)"
      by (cases p)
    note greedy = spec_round_greedy [OF t Inr [unfolded p]]
    define sl0 where "sl0 = sl\<lparr>stats := count_round d acc out (stats sl)\<rparr>"
    obtain sl1 where ext: "extend_suffix out sl0 = Inr sl1" "tracks sl1 ((c @ [bonus]) @ out)"
      using extend_suffix_tracks [of sl0 "c @ [bonus]" out] sl by (auto simp: tracks_def sl0_def)
    moreover have "round_with_draft T bonus draft sl t = Inr (out, sl1, t1)"
      using Inr p ext(1) by (simp add: round_with_draft_def d_def [symmetric] sl0_def Let_def del: One_nat_def)
    ultimately show ?thesis
      using greedy by (simp add: good_round_def)
  qed
qed

lemma round_own_good:
  assumes "stands t c" "tracks sl (c @ [bonus])"
  shows "good_round c bonus (round_own T bonus sl t)"
  using round_with_draft_good [OF assms] by (simp add: round_own_def propose_draft_naive [OF assms(2)])

lemma spec_rounds_good:
  assumes "stands t c" "tracks sl (c @ [bonus])"
  shows "case spec_rounds T ds bonus sl t of
      Inl e \<Rightarrow> fails e
    | Inr (out, sl1, t1) \<Rightarrow> out = greedy_run nxt (c @ [bonus]) (length out) \<and> length ds \<le> length out"
  using assms
proof (induction ds arbitrary: c bonus sl t)
  case (Cons d ds)
  define r where "r = (case d of None \<Rightarrow> round_own T bonus sl t | Some x \<Rightarrow> round_with_draft T bonus x sl t)"
  have good: "good_round c bonus r"
    using round_own_good [OF Cons.prems] round_with_draft_good [OF Cons.prems]
    by (simp add: r_def split: option.split)
  show ?case
  proof (cases r)
    case (Inl e)
    then show ?thesis
      using good by (simp add: good_round_def r_def [symmetric])
  next
    case (Inr p)
    obtain out sl1 t1 where p: "p = (out, sl1, t1)"
      by (cases p)
    have out: "out = greedy_run nxt (c @ [bonus]) (length out)" "out \<noteq> []"
      "stands t1 (c @ bonus # butlast out)" "tracks sl1 ((c @ bonus # butlast out) @ [last out])"
      using good Inr p by (auto simp: good_round_def)
    have all: "(c @ bonus # butlast out) @ [last out] = (c @ [bonus]) @ out"
      using out(2) by simp
    show ?thesis
    proof (cases "spec_rounds T ds (last out) sl1 t1")
      case (Inl e)
      then show ?thesis
        using Cons.IH [OF out(3,4)] Inr p by (simp add: r_def [symmetric])
    next
      case rest: (Inr q)
      obtain outs sl2 t2 where q: "q = (outs, sl2, t2)"
        by (cases q)
      have "outs = greedy_run nxt ((c @ [bonus]) @ out) (length outs)" "length ds \<le> length outs"
        using Cons.IH [OF out(3,4)] rest q unfolding all by auto
      moreover have "1 \<le> length out"
        using out(2) by (cases out) auto
      ultimately show ?thesis
        using out(1) rest q Inr p by (simp add: r_def [symmetric] greedy_run_add)
    qed
  qed
qed simp

end

end
