(* ===== verification/Spec_Targets.thy ===== *)
theory Spec_Targets
  imports Spec_Seam
begin

text \<open>
  The providers of the speculative rounds: a decoder that keeps its contract makes
  \<open>DecoderChainTarget\<close> a verify target, and the models of \<open>wgpu_spec.rs\<close> are such decoders.
  Then the round that commits by running the accepted prefix again, and the suffix arm.
\<close>

section \<open>The adapter keeps the contract\<close>

lemma chain_capacity_pos: "Suc 0 \<le> chain_capacity rows pos span mx"
  by (simp add: chain_capacity_def)

sublocale decoder_seam \<subseteq> target: chain_seam "decoder_chain_target D"
  "\<lambda>t c. stands (dt_decoder t) c \<and> \<not> dt_stepped t"
  "\<lambda>t c batch. if dt_stepped t then length batch = 1 \<and> stands (dt_decoder t) (c @ batch)
     else verified (dt_decoder t) c batch"
  nxt "decoder_error D"
proof (unfold_locales, goal_cases)
  case (1 t c)
  then show ?case
    by (simp add: decoder_chain_target_def dt_capacity_def chain_capacity_pos split: prod.split)
next
  case (2 t c batch e)
  then show ?case
    by (auto simp: decoder_chain_target_def dt_verify_def and_then_Inl decoder_error_def split: if_splits)
next
  case (3 t c batch n e)
  then show ?case
    by (auto simp: decoder_chain_target_def dt_advance_def and_then_Inl decoder_error_def split: if_splits)
next
  case (4 t c batch rows t1)
  show ?case
  proof (cases "length batch = 1")
    case True
    then obtain a where a: "batch = [a]"
      by (auto simp: length_Suc_conv)
    then obtain b d where "do_step D (dt_decoder t) a = Inr (b, d)" "rows = [b]"
      "t1 = t\<lparr>dt_decoder := d, dt_stepped := True\<rparr>"
      using 4(3) by (auto simp: decoder_chain_target_def dt_verify_def and_then_Inr)
    then show ?thesis
      using step_law [of "dt_decoder t" c a b d] 4(1) a by (simp add: verify_rows_def)
  next
    case False
    then obtain d where "do_verify D (dt_decoder t) batch = Inr (rows, d)" "t1 = t\<lparr>dt_decoder := d\<rparr>"
      using 4(3) by (auto simp: decoder_chain_target_def dt_verify_def and_then_Inr)
    then show ?thesis
      using verify_law [of "dt_decoder t" c batch rows d] 4(1,2) by simp
  qed
next
  case (5 t c batch n t1)
  show ?case
  proof (cases "dt_stepped t")
    case True
    then show ?thesis
      using 5 by (auto simp: decoder_chain_target_def dt_advance_def split: if_splits)
  next
    case False
    then obtain d where "do_advance D (dt_decoder t) n = Inr d" "t1 = t\<lparr>dt_decoder := d\<rparr>"
      using 5(4) by (auto simp: decoder_chain_target_def dt_advance_def and_then_Inr)
    then show ?thesis
      using advance_law [of "dt_decoder t" c batch n d] 5 False by simp
  qed
qed

context decoder_seam
begin

lemma decoder_rounds_good:
  "stands (dt_decoder t) c \<Longrightarrow> \<not> dt_stepped t \<Longrightarrow> tracks sl (c @ [bonus]) \<Longrightarrow>
    case spec_rounds (decoder_chain_target D) ds bonus sl t of
      Inl e \<Rightarrow> decoder_error D e
    | Inr (out, sl1, t1) \<Rightarrow> out = greedy_run nxt (c @ [bonus]) (length out) \<and> length ds \<le> length out"
  by (rule target.spec_rounds_good) auto

end

section \<open>The models are decoders\<close>

definition model_decoder :: "'row device \<Rightarrow> ('row spec_model) decoder_ops" where
  "model_decoder dev =
     \<lparr>do_step = (\<lambda>m t. decode1 dev t m), do_verify = (\<lambda>m batch. verify_chain dev batch m),
      do_advance = (\<lambda>m n. advance_model n m), do_geometry = (\<lambda>m. (k_max m, k_max m)),
      do_pos = committed\<rparr>"

definition model_verified :: "'row device \<Rightarrow> 'row spec_model \<Rightarrow> token list \<Rightarrow> token list \<Rightarrow> bool" where
  "model_verified dev m c batch \<longleftrightarrow> holds dev c m \<and> length c + length batch \<le> max_seq m
     \<and> take (length c + length batch) (kv m) = rows_for dev (c @ batch)"

lemma decode1_InrD:
  assumes "holds dev c m" "decode1 dev a m = Inr (b, m1)"
  shows "b = next_token dev (c @ [a]) \<and> holds dev (c @ [a]) m1"
proof -
  have "length c < max_seq m"
    using assms by (auto simp: decode1_def holds_def split: if_splits)
  then show ?thesis
    using decode1_holds [OF assms(1), of a] assms(2) by auto
qed

lemma verify_chain_InrD:
  assumes "holds dev c m" "verify_chain dev batch m = Inr (rows, m1)"
  shows "rows = verify_rows (next_token dev) c batch \<and> model_verified dev m1 c batch"
proof -
  have len: "length batch = k_max m" "1 < k_max m" "length c + k_max m \<le> max_seq m"
    using assms by (auto simp: verify_chain_def holds_def split: if_splits)
  show ?thesis
    using verify_chain_holds [OF assms(1) len] assms(2) len by (auto simp: model_verified_def)
qed

lemma advance_InrD:
  assumes "model_verified dev m c batch" "n \<le> length batch" "advance_model n m = Inr m1"
  shows "holds dev (c @ take n batch) m1"
  using advance_holds [of dev c m batch n] assms by (auto simp: model_verified_def)

interpretation model: decoder_seam "model_decoder dev" "\<lambda>m c. holds dev c m"
  "\<lambda>m c batch. model_verified dev m c batch" "next_token dev" for dev
  by unfold_locales
    (simp_all add: model_decoder_def decode1_InrD verify_chain_InrD advance_InrD)

section \<open>Committing by a second forward\<close>

context mtp_seam
begin

lemma mtp_commit_stands:
  assumes v: "verified t c batch" and n: "1 \<le> n" "n \<le> length batch" and commit: "mtp_commit T t n batch = Inr t1"
  shows "stands t1 (c @ take n batch)"
proof (cases "n = length batch \<or> n < length batch \<and> mt_scan_replay T t")
  case True
  then have "mt_advance T t n = Inr t1"
    using commit by (auto simp: mtp_commit_def)
  with commit_law [OF v n(1) True] show ?thesis .
next
  case False
  then obtain t2 t3 where t2: "mt_advance T t 0 = Inr t2" and t3: "mt_commit_only T t2 (take n batch) = Inr t3"
    and t1: "mt_advance T t3 n = Inr t1"
    using commit n by (auto simp: mtp_commit_def and_then_Inr)
  have "take n batch \<noteq> []"
    using n by (cases batch) auto
  then have "verified t3 c (take n batch)"
    by (rule commit_only_law [OF roll_back_law [OF v t2] _ t3])
  from commit_law [OF this n(1) _ t1] show ?thesis
    using n by simp
qed

lemma mtp_round_greedy:
  assumes t: "stands t c" and round: "run_mtp_verify_round T t anchor drafts = Inr (r, t1)"
  shows "mr_emitted r = greedy_run nxt (c @ [anchor]) (length (mr_emitted r))"
    and "stands t1 (c @ anchor # butlast (mr_emitted r))"
proof -
  let ?batch = "anchor # drafts"
  obtain rows t2 acc where v: "mt_verify T t ?batch = Inr (rows, t2)"
    and a: "accept_prefix_argmax ?batch rows = Inr acc"
    and commit: "mtp_commit T t2 (commit_len acc) ?batch = Inr t1"
    and out: "mr_emitted r = take (draft_accepted acc) drafts @ [next_bonus acc]"
    using round by (auto simp: run_mtp_verify_round_def Let_def and_then_Inr build_chain_batch_def)
  have rows: "rows = verify_rows nxt c ?batch" "verified t2 c ?batch"
    using verify_law [OF t _ v] by auto
  have n: "1 \<le> commit_len acc" "commit_len acc \<le> length ?batch" "draft_accepted acc = commit_len acc - 1"
    using accept_prefix_argmax_Inr [OF a] by auto
  have e: "emitted_tokens ?batch acc = mr_emitted r" "take (commit_len acc) ?batch = anchor # butlast (mr_emitted r)"
    using n by (cases "commit_len acc"; auto simp: emitted_tokens_def out)+
  show "mr_emitted r = greedy_run nxt (c @ [anchor]) (length (mr_emitted r))"
    using accepted_is_greedy [of ?batch nxt c acc] a rows(1) n e(1) by (auto simp: out)
  have "stands t1 (c @ take (commit_len acc) ?batch)"
    by (rule mtp_commit_stands [OF rows(2) n(1,2) commit])
  then show "stands t1 (c @ anchor # butlast (mr_emitted r))"
    by (simp add: e(2))
qed

end

definition model_mtp :: "'row device \<Rightarrow> ('row spec_model) mtp_target" where
  "model_mtp dev =
     \<lparr>mt_verify = (\<lambda>m batch. verify_chain dev batch m),
      mt_commit_only = default_commit_only (\<lambda>m batch. verify_chain dev batch m),
      mt_advance = (\<lambda>m n. advance_model n m), mt_scan_replay = default_scan_replay\<rparr>"

lemma model_commit_only:
  "holds dev c m \<Longrightarrow> default_commit_only (\<lambda>m batch. verify_chain dev batch m) m batch = Inr m1 \<Longrightarrow>
    model_verified dev m1 c batch"
  by (auto simp: default_commit_only_def and_then_Inr dest: verify_chain_InrD)

lemma model_roll_back: "model_verified dev m c batch \<Longrightarrow> advance_model 0 m = Inr m1 \<Longrightarrow> holds dev c m1"
  using advance_InrD [of dev m c batch 0 m1] by simp

interpretation model_mtp: mtp_seam "model_mtp dev" "\<lambda>m c. holds dev c m"
  "\<lambda>m c batch. model_verified dev m c batch" "next_token dev" for dev
  by unfold_locales
    (auto simp: model_mtp_def default_scan_replay_def verify_chain_InrD model_commit_only
      intro: model_roll_back dest: advance_InrD)

section \<open>The suffix arm\<close>

definition arm_tracks :: "suffix_arm \<Rightarrow> token list \<Rightarrow> bool" where
  "arm_tracks arm ts \<longleftrightarrow> sam_extend_slice ts new_sam = Some (arm_sam arm)"

lemma arm_toks: "arm_tracks arm ts \<Longrightarrow> toks (arm_sam arm) = ts"
  using sam_extend_slice_total [of ts] by (simp add: arm_tracks_def)

lemma arm_extend_tracks:
  assumes "arm_tracks arm ts"
  shows "\<exists>arm1. arm_extend_capped us arm = Inr arm1
    \<and> arm_tracks arm1 (ts @ take (min (length us) (suffix_token_cap - length ts)) us)
    \<and> arm_draft_max arm1 = arm_draft_max arm \<and> arm_min_draft arm1 = arm_min_draft arm
    \<and> arm_min_match arm1 = arm_min_match arm"
  using extend_tracked [of ts "arm_sam arm" "take (min (length us) (suffix_token_cap - length ts)) us"]
    assms arm_toks [OF assms]
  by (auto simp: arm_extend_capped_def arm_tracks_def Let_def)

lemma arm_propose_naive:
  "arm_tracks arm ts \<Longrightarrow> arm_propose headroom arm =
     Inr (if suffix_token_cap \<le> length ts \<or> min (arm_draft_max arm) headroom < arm_min_draft arm then None
          else case naive_propose ts (min (arm_draft_max arm) headroom) (arm_min_match arm) of
            Some p \<Rightarrow> if arm_min_draft arm \<le> length (proposed p) then Some (proposed p) else None
          | None \<Rightarrow> None)"
  using propose_tracked [of ts "arm_sam arm"] arm_toks [of arm ts]
  by (auto simp: arm_propose_def arm_at_cap_def arm_tracks_def Let_def split: option.splits)

end
