(* ===== verification/Spec_Tree.thy ===== *)
theory Spec_Tree
  imports Spec_Chain
begin

text \<open>
  Speculation with a tree of drafts: \<open>nv-specdecode/src/eagle3.rs\<close> grows the tree level by
  level under a budget and flattens it with its attention mask, \<open>gemma4_verifier.rs\<close> lays the
  tree behind the context, runs one masked forward and walks down the greedy branch.

  Scores are floating point: the drafter, \<open>log_softmax\<close>, the selection of the best tokens, the
  sum of two log-probabilities and the stable sort of the candidates are parameters. The
  forward is a parameter as well: a row is computed from the rows it may attend to, its
  position and its token, and \<open>pick\<close> is the argmax over the rows a position attends to.
\<close>

section \<open>The draft tree\<close>

record draft_tree =
  tree_tokens :: "token list"
  parents :: "nat option list"
  depths :: "nat list"

definition empty_tree :: draft_tree where
  "empty_tree = \<lparr>tree_tokens = [], parents = [], depths = []\<rparr>"

record eagle3_config =
  max_depth :: nat
  branch_factor :: nat
  total_budget :: nat
  vocab_size :: nat

type_synonym 'f frontier_node = "nat option \<times> 'f \<times> token list"
type_synonym 'f candidate = "nat option \<times> token \<times> 'f \<times> token list"

record 'f scorer =
  score :: "token list \<Rightarrow> spec_error + 'f list"
  log_softmax :: "'f list \<Rightarrow> 'f list"
  top_k :: "'f list \<Rightarrow> nat \<Rightarrow> nat list"
  plus_lp :: "'f \<Rightarrow> 'f \<Rightarrow> 'f"
  zero_lp :: 'f
  best_first :: "'f candidate list \<Rightarrow> 'f candidate list"

definition node_candidates ::
  "'f scorer \<Rightarrow> eagle3_config \<Rightarrow> 'f frontier_node \<Rightarrow> spec_error + 'f candidate list" where
  "node_candidates S cfg node =
     (case node of (parent, parent_lp, prefix) \<Rightarrow>
        and_then (score S prefix) (\<lambda>logits.
          if length logits \<noteq> vocab_size cfg then Inl (Logit_Count (length logits) (vocab_size cfg))
          else let lps = log_softmax S logits in
            Inr (map (\<lambda>tok. (parent, word_of_nat tok, plus_lp S parent_lp (lps ! tok),
                   prefix @ [word_of_nat tok])) (top_k S lps (branch_factor cfg)))))"

fun frontier_candidates ::
  "'f scorer \<Rightarrow> eagle3_config \<Rightarrow> 'f frontier_node list \<Rightarrow> spec_error + 'f candidate list" where
  "frontier_candidates S cfg [] = Inr []"
| "frontier_candidates S cfg (node # rest) =
     and_then (node_candidates S cfg node) (\<lambda>cs.
     and_then (frontier_candidates S cfg rest) (\<lambda>ds. Inr (cs @ ds)))"

fun push_candidates ::
  "nat \<Rightarrow> 'f candidate list \<Rightarrow> draft_tree \<Rightarrow> 'f frontier_node list \<Rightarrow> draft_tree \<times> 'f frontier_node list"
where
  "push_candidates depth [] tree front = (tree, front)"
| "push_candidates depth ((parent, tok, joint, prefix) # cs) tree front =
     push_candidates depth cs
       \<lparr>tree_tokens = tree_tokens tree @ [tok], parents = parents tree @ [parent],
        depths = depths tree @ [depth]\<rparr>
       (front @ [(Some (length (tree_tokens tree)), joint, prefix)])"

fun expand_levels ::
  "'f scorer \<Rightarrow> eagle3_config \<Rightarrow> nat list \<Rightarrow> 'f frontier_node list \<Rightarrow> draft_tree \<Rightarrow> spec_error + draft_tree"
where
  "expand_levels S cfg [] front tree = Inr tree"
| "expand_levels S cfg (depth # rest) front tree =
     (if front = [] then Inr tree
      else let remaining = total_budget cfg - length (tree_tokens tree) in
        if remaining = 0 then Inr tree
        else and_then (frontier_candidates S cfg front) (\<lambda>cs.
          if cs = [] then Inr tree
          else let (tree1, front1) = push_candidates depth (take remaining (best_first S cs)) tree [] in
            if total_budget cfg \<le> length (tree_tokens tree1) then Inr tree1
            else expand_levels S cfg rest front1 tree1))"

definition expand_tree ::
  "'f scorer \<Rightarrow> eagle3_config \<Rightarrow> token list \<Rightarrow> spec_error + draft_tree" where
  "expand_tree S cfg c =
     (if max_depth cfg = 0 \<or> branch_factor cfg = 0 \<or> total_budget cfg = 0 then Inr empty_tree
      else expand_levels S cfg [1..<max_depth cfg + 1] [(None, zero_lp S, c)] empty_tree)"

section \<open>Masks and positions\<close>

text \<open>
  \<open>while let Some(idx) = cur\<close> up the parents, setting the entry \<open>at idx\<close>; \<^term>\<open>None\<close> stands for
  an index out of range or a cycle.
\<close>

partial_function (option) mark_path ::
  "(nat \<Rightarrow> nat) \<Rightarrow> nat option list \<Rightarrow> nat option \<Rightarrow> nat list \<Rightarrow> nat list option" where
  "mark_path entry ps cur m =
     (case cur of
        None \<Rightarrow> Some m
      | Some idx \<Rightarrow>
          if length m \<le> entry idx \<or> length ps \<le> idx then None
          else mark_path entry ps (ps ! idx) (m[entry idx := 1]))"

fun flatten_rows :: "nat \<Rightarrow> nat option list \<Rightarrow> nat list \<Rightarrow> nat list \<Rightarrow> nat list option" where
  "flatten_rows n ps [] m = Some m"
| "flatten_rows n ps (i # rest) m =
     Option.bind (mark_path (\<lambda>idx. i * n + idx) ps (Some i) m) (flatten_rows n ps rest)"

definition flatten_with_mask :: "draft_tree \<Rightarrow> (token list \<times> nat list) option" where
  "flatten_with_mask tree =
     (let n = length (tree_tokens tree) in
      map_option (Pair (tree_tokens tree))
        (flatten_rows n (parents tree) [0..<n] (replicate (n * n) 0)))"

definition tree_is_lower_tri :: "draft_tree \<Rightarrow> nat list option \<Rightarrow> bool" where
  "tree_is_lower_tri tree tm =
     (if tree_tokens tree = [] then True
      else case tm of
        Some m \<Rightarrow> m = lower_tri_mask (length (tree_tokens tree))
      | None \<Rightarrow> list_all (\<lambda>(i, par). case par of Some p \<Rightarrow> p + 1 = i | None \<Rightarrow> i = 0)
          (List.enumerate 0 (parents tree)))"

definition build_tree_positions :: "nat \<Rightarrow> draft_tree \<Rightarrow> int list" where
  "build_tree_positions context_len tree =
     map as_i32 [0..<context_len]
     @ map (\<lambda>i. as_i32 (context_len + depths tree ! i - 1)) [0..<length (tree_tokens tree)]"

definition set_all :: "nat \<Rightarrow> nat list \<Rightarrow> nat list \<Rightarrow> nat list" where
  "set_all base js m = fold (\<lambda>j m. m[base + j := 1]) js m"

definition copy_mask_row :: "nat list \<Rightarrow> nat \<Rightarrow> nat \<Rightarrow> nat \<Rightarrow> nat list \<Rightarrow> nat list" where
  "copy_mask_row tm n ti base m =
     fold (\<lambda>tj m. if tm ! (ti * n + tj) \<noteq> 0 then m[base + tj := 1] else m) [0..<n] m"

fun mask_tree_rows ::
  "nat \<Rightarrow> nat \<Rightarrow> nat option list \<Rightarrow> nat list option \<Rightarrow> nat list \<Rightarrow> nat list \<Rightarrow> nat list option" where
  "mask_tree_rows cl n ps tree_mask [] m = Some m"
| "mask_tree_rows cl n ps tree_mask (ti # rest) m =
     (let row = cl + ti; seq = cl + n; m1 = set_all (row * seq) [0..<cl] m in
      Option.bind
        (case tree_mask of
           Some tm \<Rightarrow> Some (copy_mask_row tm n ti (row * seq + cl) m1)
         | None \<Rightarrow> mark_path (\<lambda>idx. row * seq + (cl + idx)) ps (Some ti) m1)
        (mask_tree_rows cl n ps tree_mask rest))"

definition build_full_attn_mask ::
  "nat \<Rightarrow> draft_tree \<Rightarrow> nat list option \<Rightarrow> nat list option" where
  "build_full_attn_mask cl tree tree_mask =
     (let n = length (tree_tokens tree); seq = cl + n;
          m = fold (\<lambda>i. set_all (i * seq) [0..<Suc i]) [0..<cl] (replicate (seq * seq) 0)
      in mask_tree_rows cl n (parents tree) tree_mask [0..<n] m)"

section \<open>The forward\<close>

record 'row tree_device =
  tree_row :: "'row list \<Rightarrow> int \<Rightarrow> token \<Rightarrow> 'row"
  tree_pick :: "'row list \<Rightarrow> token"

text \<open>\<open>sees r j\<close>: row \<open>r\<close> attends to row \<open>j\<close>. Rows are computed in order, so \<open>j\<close> is never past \<open>r\<close>.\<close>

fun forward_rows ::
  "'row tree_device \<Rightarrow> (nat \<Rightarrow> nat \<Rightarrow> bool) \<Rightarrow> int list \<Rightarrow> token list \<Rightarrow> nat \<Rightarrow> 'row list" where
  "forward_rows dev sees pos ts 0 = []"
| "forward_rows dev sees pos ts (Suc r) =
     (let rows = forward_rows dev sees pos ts r in
      rows @ [tree_row dev (map ((!) rows) (filter (sees r) [0..<r])) (pos ! r) (ts ! r)])"

definition forward_argmax ::
  "'row tree_device \<Rightarrow> (nat \<Rightarrow> nat \<Rightarrow> bool) \<Rightarrow> int list \<Rightarrow> token list \<Rightarrow> token list" where
  "forward_argmax dev sees pos ts =
     (let rows = forward_rows dev sees pos ts (length ts) in
      map (\<lambda>r. tree_pick dev (map ((!) rows) (filter (sees r) [0..<Suc r]))) [0..<length ts])"

definition causal :: "nat \<Rightarrow> nat \<Rightarrow> bool" where
  "causal r j \<longleftrightarrow> j \<le> r"

definition masked :: "nat list \<Rightarrow> nat \<Rightarrow> nat \<Rightarrow> nat \<Rightarrow> bool" where
  "masked m seq r j \<longleftrightarrow> m ! (r * seq + j) \<noteq> 0"

section \<open>Walking down\<close>

definition add_child ::
  "nat \<times> nat option \<Rightarrow> nat list list \<times> nat list \<Rightarrow> nat list list \<times> nat list" where
  "add_child ip acc = (case snd ip of
     Some p \<Rightarrow> ((fst acc)[p := fst acc ! p @ [fst ip]], snd acc)
   | None \<Rightarrow> (fst acc, snd acc @ [fst ip]))"

definition children_and_roots :: "nat option list \<Rightarrow> nat \<Rightarrow> nat list list \<times> nat list" where
  "children_and_roots ps n = fold add_child (List.enumerate 0 ps) (replicate n [], [])"

partial_function (option) walk_loop ::
  "token list \<Rightarrow> nat list list \<Rightarrow> token list \<Rightarrow> nat \<Rightarrow> nat \<Rightarrow> token list \<Rightarrow> nat
     \<Rightarrow> (token list \<times> nat) option" where
  "walk_loop toks kids amax cl cur out accepted =
     (if length amax \<le> cl + cur \<or> length kids \<le> cur then None
      else let vtok = amax ! (cl + cur) in
        case find (\<lambda>c. toks ! c = vtok) (kids ! cur) of
          Some c \<Rightarrow> walk_loop toks kids amax cl c (out @ [vtok]) (accepted + 1)
        | None \<Rightarrow> Some (out @ [vtok], accepted))"

text \<open>\<open>amax\<close> holds the argmax of every row of the logits.\<close>

definition walk_accept ::
  "draft_tree \<Rightarrow> token list \<Rightarrow> nat \<Rightarrow> nat \<Rightarrow> (token list \<times> nat) option" where
  "walk_accept tree amax pref_last cl =
     (let n = length (tree_tokens tree) in
      if n = 0 then Some ([amax ! pref_last], 0)
      else let (kids, roots) = children_and_roots (parents tree) n; vtok = amax ! pref_last in
        case find (\<lambda>c. tree_tokens tree ! c = vtok) roots of
          None \<Rightarrow> Some ([vtok], 0)
        | Some c \<Rightarrow> walk_loop (tree_tokens tree) kids amax cl c [vtok] 1)"

definition or_panic :: "'a option \<Rightarrow> spec_error + 'a" where
  "or_panic x = (case x of Some v \<Rightarrow> Inr v | None \<Rightarrow> Inl Panicked)"

definition verify_tree ::
  "'row tree_device \<Rightarrow> token list \<Rightarrow> draft_tree \<Rightarrow> nat list option \<Rightarrow> spec_error + (token list \<times> nat)"
where
  "verify_tree dev c tree tree_mask =
     (let n = length (tree_tokens tree) in
      if c = [] then Inl Empty_Context
      else if (case tree_mask of Some m \<Rightarrow> length m \<noteq> n * n | None \<Rightarrow> False) then
        Inl (Mask_Size (length (the tree_mask)) n)
      else let joint = c @ tree_tokens tree; pos = build_tree_positions (length c) tree in
        and_then
          (if tree_is_lower_tri tree tree_mask then Inr (forward_argmax dev causal pos joint)
           else and_then (or_panic (build_full_attn_mask (length c) tree tree_mask)) (\<lambda>m.
             Inr (forward_argmax dev (masked m (length joint)) pos joint)))
          (\<lambda>amax. or_panic (walk_accept tree amax (length c - 1) (length c))))"

end
