(* ===== verification/Spec_Tree_Facts.thy ===== *)
theory Spec_Tree_Facts
  imports Spec_Tree
begin

text \<open>
  Facts about draft trees: the path of a node, the masks as sets of positions, the rows of the
  masked forward, and the walk along the greedy branch.
\<close>

section \<open>Well-formed trees and paths\<close>

definition tree_ok :: "nat option list \<Rightarrow> nat list \<Rightarrow> bool" where
  "tree_ok ps ds \<longleftrightarrow> length ds = length ps \<and> (\<forall>i<length ps. case ps ! i of
     None \<Rightarrow> ds ! i = 1
   | Some p \<Rightarrow> p < i \<and> ds ! i = Suc (ds ! p))"

definition well_formed_tree :: "draft_tree \<Rightarrow> bool" where
  "well_formed_tree tree \<longleftrightarrow> length (parents tree) = length (tree_tokens tree)
     \<and> tree_ok (parents tree) (depths tree)"

function path :: "nat option list \<Rightarrow> nat \<Rightarrow> nat list" where
  "path ps i = (case ps ! i of
     Some p \<Rightarrow> if p < i then path ps p @ [i] else [i]
   | None \<Rightarrow> [i])"
  by pat_completeness auto
termination
  by (relation "measure snd") auto

declare path.simps [simp del]

lemma tree_ok_parent: "tree_ok ps ds \<Longrightarrow> i < length ps \<Longrightarrow> ps ! i = Some p \<Longrightarrow> p < i \<and> ds ! i = Suc (ds ! p)"
  by (force simp: tree_ok_def)

lemma tree_ok_root: "tree_ok ps ds \<Longrightarrow> i < length ps \<Longrightarrow> ps ! i = None \<Longrightarrow> ds ! i = 1"
  by (force simp: tree_ok_def)

lemma path_root: "ps ! i = None \<Longrightarrow> path ps i = [i]"
  by (simp add: path.simps)

lemma path_child: "ps ! i = Some p \<Longrightarrow> p < i \<Longrightarrow> path ps i = path ps p @ [i]"
  by (subst path.simps) simp

lemma path_last: "path ps i = butlast (path ps i) @ [i]"
  by (subst (1 2) path.simps) (auto split: option.split)

lemma path_facts:
  assumes "tree_ok ps ds" "i < length ps"
  shows "sorted_wrt (<) (path ps i) \<and> set (path ps i) \<subseteq> {..i} \<and> length (path ps i) = ds ! i"
  using assms(2)
proof (induction i rule: less_induct)
  case (less i)
  show ?case
  proof (cases "ps ! i")
    case None
    then show ?thesis
      using tree_ok_root [OF assms(1) less.prems None] by (simp add: path_root)
  next
    case (Some p)
    then have p: "p < i" "ds ! i = Suc (ds ! p)"
      using tree_ok_parent [OF assms(1) less.prems Some] by auto
    then show ?thesis
      using less.IH [of p] less.prems path_child [OF Some p(1)] by (fastforce simp: sorted_wrt_append)
  qed
qed

section \<open>Masks as sets of positions\<close>

definition bitmap :: "nat \<Rightarrow> (nat \<Rightarrow> bool) \<Rightarrow> nat list \<Rightarrow> bool" where
  "bitmap N P m \<longleftrightarrow> length m = N \<and> (\<forall>q<N. m ! q = (if P q then 1 else 0))"

lemma bitmap_zero: "bitmap N (\<lambda>q. False) (replicate N 0)"
  by (simp add: bitmap_def)

lemma bitmap_cong: "bitmap N P m \<Longrightarrow> (\<And>q. q < N \<Longrightarrow> P q \<longleftrightarrow> Q q) \<Longrightarrow> bitmap N Q m"
  by (simp add: bitmap_def)

lemma bitmap_set: "bitmap N P m \<Longrightarrow> k < N \<Longrightarrow> bitmap N (\<lambda>q. P q \<or> q = k) (m[k := 1])"
  by (auto simp: bitmap_def nth_list_update)

lemma bitmap_fold:
  "bitmap N P m \<Longrightarrow> (\<forall>x\<in>set xs. f x < N) \<Longrightarrow>
    bitmap N (\<lambda>q. P q \<or> q \<in> f ` set xs) (fold (\<lambda>x m. m[f x := 1]) xs m)"
proof (induction xs arbitrary: P m)
  case (Cons x xs)
  have "bitmap N (\<lambda>q. P q \<or> q = f x) (m[f x := 1])"
    using Cons.prems by (intro bitmap_set) auto
  from Cons.IH [OF this] Cons.prems(2) show ?case
    by (auto elim: bitmap_cong)
qed simp

lemma bitmap_set_all:
  "bitmap N P m \<Longrightarrow> (\<forall>j\<in>set js. base + j < N) \<Longrightarrow>
    bitmap N (\<lambda>q. P q \<or> (\<exists>j\<in>set js. q = base + j)) (set_all base js m)"
  unfolding set_all_def by (rule bitmap_cong [OF bitmap_fold]) auto

lemma fold_filter_if: "fold (\<lambda>x m. if c x then f x m else m) xs m = fold f (filter c xs) m"
  by (induction xs arbitrary: m) auto

lemma bitmap_copy:
  "bitmap N P m \<Longrightarrow> base + n \<le> N \<Longrightarrow>
    bitmap N (\<lambda>q. P q \<or> (\<exists>tj<n. tm ! (ti * n + tj) \<noteq> 0 \<and> q = base + tj)) (copy_mask_row tm n ti base m)"
  unfolding copy_mask_row_def fold_filter_if by (rule bitmap_cong [OF bitmap_fold]) auto

lemma mark_path_bitmap:
  assumes ok: "tree_ok ps ds" and i: "i < length ps" and m: "bitmap N P m" and e: "\<forall>j<length ps. entry j < N"
  shows "\<exists>m1. mark_path entry ps (Some i) m = Some m1 \<and> bitmap N (\<lambda>q. P q \<or> q \<in> entry ` set (path ps i)) m1"
  using i m
proof (induction i arbitrary: m P rule: less_induct)
  case (less i)
  have b: "bitmap N (\<lambda>q. P q \<or> q = entry i) (m[entry i := 1])"
    using less.prems e by (intro bitmap_set) auto
  have step: "mark_path entry ps (Some i) m = mark_path entry ps (ps ! i) (m[entry i := 1])"
    using less.prems e by (subst mark_path.simps) (auto simp: bitmap_def)
  show ?case
  proof (cases "ps ! i")
    case None
    then show ?thesis
      using step b by (simp add: path_root mark_path.simps [of entry ps None])
  next
    case (Some p)
    then have p: "p < i"
      using tree_ok_parent [OF ok less.prems(1) Some] by simp
    obtain m1 where m1: "mark_path entry ps (Some p) (m[entry i := 1]) = Some m1"
      "bitmap N (\<lambda>q. (P q \<or> q = entry i) \<or> q \<in> entry ` set (path ps p)) m1"
      using less.IH [OF p _ b] p less.prems(1) by auto
    have "bitmap N (\<lambda>q. P q \<or> q \<in> entry ` set (path ps i)) m1"
      using m1(2) by (rule bitmap_cong) (auto simp: path_child [OF Some p])
    then show ?thesis
      using step Some m1(1) by simp
  qed
qed

lemma flatten_rows_bitmap:
  assumes "tree_ok ps ds" "n = length ps" "set is \<subseteq> {..<n}" "bitmap (n * n) P m"
  shows "\<exists>m1. flatten_rows n ps is m = Some m1
    \<and> bitmap (n * n) (\<lambda>q. P q \<or> (\<exists>i\<in>set is. \<exists>j\<in>set (path ps i). q = i * n + j)) m1"
  using assms(3,4)
proof (induction "is" arbitrary: P m)
  case (Cons i "is")
  have in_range: "\<forall>j<length ps. i * n + j < n * n"
  proof (intro allI impI)
    fix j
    assume "j < length ps"
    then have "i * n + j < Suc i * n"
      by (simp add: assms(2))
    also have "\<dots> \<le> n * n"
      using Cons.prems(1) by (intro mult_le_mono) auto
    finally show "i * n + j < n * n" .
  qed
  obtain m1 where m1: "mark_path (\<lambda>idx. i * n + idx) ps (Some i) m = Some m1"
    "bitmap (n * n) (\<lambda>q. P q \<or> q \<in> (\<lambda>idx. i * n + idx) ` set (path ps i)) m1"
    using mark_path_bitmap [OF assms(1) _ Cons.prems(2) in_range, of i] Cons.prems(1) assms(2) by auto
  obtain m2 where m2: "flatten_rows n ps is m1 = Some m2"
    "bitmap (n * n) (\<lambda>q. (P q \<or> q \<in> (\<lambda>idx. i * n + idx) ` set (path ps i))
       \<or> (\<exists>i\<in>set is. \<exists>j\<in>set (path ps i). q = i * n + j)) m2"
    using Cons.IH [OF _ m1(2)] Cons.prems(1) by auto
  then show ?case
    using m1(1) by (auto elim: bitmap_cong)
qed simp

lemma index_eq: "j < (n::nat) \<Longrightarrow> l < n \<Longrightarrow> i * n + j = k * n + l \<longleftrightarrow> i = k \<and> j = l"
  by (metis add.commute div_mult_self1_is_m div_mult_self3 less_nat_zero_code mod_mult_self3 mod_less
      div_less add_0 neq0_conv)

lemma index_less: "i < m \<Longrightarrow> j < n \<Longrightarrow> i * n + j < m * (n::nat)"
proof -
  assume "i < m" "j < n"
  then have "i * n + j < Suc i * n"
    by simp
  also have "\<dots> \<le> m * n"
    using \<open>i < m\<close> by (intro mult_le_mono) auto
  finally show ?thesis .
qed

lemma flatten_exact:
  assumes "well_formed_tree tree" "n = length (tree_tokens tree)"
  shows "\<exists>m. flatten_with_mask tree = Some (tree_tokens tree, m) \<and> length m = n * n
    \<and> (\<forall>i<n. \<forall>j<n. m ! (i * n + j) = (if j \<in> set (path (parents tree) i) then 1 else 0))"
proof -
  have ok: "tree_ok (parents tree) (depths tree)" "n = length (parents tree)"
    using assms by (auto simp: well_formed_tree_def)
  obtain m where m: "flatten_rows n (parents tree) [0..<n] (replicate (n * n) 0) = Some m"
    "bitmap (n * n) (\<lambda>q. False \<or> (\<exists>i\<in>set [0..<n]. \<exists>j\<in>set (path (parents tree) i). q = i * n + j)) m"
    using flatten_rows_bitmap [OF ok _ bitmap_zero, of "[0..<n]"] by (auto simp: atLeast0LessThan)
  have "m ! (i * n + j) = (if j \<in> set (path (parents tree) i) then 1 else 0)" if ij: "i < n" "j < n" for i j
  proof -
    have "(\<exists>k<n. \<exists>l\<in>set (path (parents tree) k). i * n + j = k * n + l) \<longleftrightarrow> j \<in> set (path (parents tree) i)"
      using path_facts [OF ok(1)] ok(2) ij by (fastforce simp: index_eq)
    then show ?thesis
      using m(2) index_less [OF ij] by (auto simp: bitmap_def Bex_def)
  qed
  then show ?thesis
    using m assms(2) by (auto simp: flatten_with_mask_def Let_def bitmap_def)
qed

section \<open>The full mask\<close>

lemma mask_tree_rows_bitmap:
  assumes ok: "tree_ok ps ds" and n: "n = length ps"
    and tm: "\<And>tm i j. tree_mask = Some tm \<Longrightarrow> i < n \<Longrightarrow> j < n \<Longrightarrow> tm ! (i * n + j) \<noteq> 0 \<longleftrightarrow> j \<in> set (path ps i)"
    and "set is \<subseteq> {..<n}" "bitmap ((cl + n) * (cl + n)) P m"
  shows "\<exists>m1. mask_tree_rows cl n ps tree_mask is m = Some m1 \<and> bitmap ((cl + n) * (cl + n))
    (\<lambda>q. P q \<or> (\<exists>i\<in>set is. (\<exists>j<cl. q = (cl + i) * (cl + n) + j)
        \<or> (\<exists>j\<in>set (path ps i). q = (cl + i) * (cl + n) + (cl + j)))) m1"
  using assms(4,5)
proof (induction "is" arbitrary: P m)
  case (Cons i "is")
  define N where "N = (cl + n) * (cl + n)"
  define base where "base = (cl + i) * (cl + n)"
  have i: "i < n"
    using Cons.prems(1) by simp
  have room: "base + (cl + j) < N" if "j < n" for j
    using index_less [of "cl + i" "cl + n" "cl + j" "cl + n"] i that by (simp add: N_def base_def)
  have room0: "base + j < N" if "j < cl" for j
    using index_less [of "cl + i" "cl + n" j "cl + n"] i that by (simp add: N_def base_def)
  define m0 where "m0 = set_all base [0..<cl] m"
  have b0: "bitmap N (\<lambda>q. P q \<or> (\<exists>j\<in>set [0..<cl]. q = base + j)) m0"
    using Cons.prems(2) room0 unfolding m0_def N_def by (intro bitmap_set_all) auto
  have sub: "set (path ps i) \<subseteq> {..<n}"
    using path_facts [OF ok, of i] i n by auto
  obtain m1 where m1: "(case tree_mask of
         Some tm \<Rightarrow> Some (copy_mask_row tm n i (base + cl) m0)
       | None \<Rightarrow> mark_path (\<lambda>idx. base + (cl + idx)) ps (Some i) m0) = Some m1"
    and b1: "bitmap N (\<lambda>q. (P q \<or> (\<exists>j\<in>set [0..<cl]. q = base + j))
       \<or> (\<exists>j\<in>set (path ps i). q = base + (cl + j))) m1"
  proof (cases tree_mask)
    case None
    have "\<forall>j<length ps. base + (cl + j) < N" "i < length ps"
      using room i n by auto
    then obtain m1 where m1: "mark_path (\<lambda>idx. base + (cl + idx)) ps (Some i) m0 = Some m1"
      "bitmap N (\<lambda>q. (P q \<or> (\<exists>j\<in>set [0..<cl]. q = base + j))
         \<or> q \<in> (\<lambda>idx. base + (cl + idx)) ` set (path ps i)) m1"
      using mark_path_bitmap [OF ok _ b0, of i "\<lambda>idx. base + (cl + idx)"] by blast
    from m1(2) have "bitmap N (\<lambda>q. (P q \<or> (\<exists>j\<in>set [0..<cl]. q = base + j))
         \<or> (\<exists>j\<in>set (path ps i). q = base + (cl + j))) m1"
      by (rule bitmap_cong) blast
    then show thesis
      using that [of m1] m1(1) None by simp
  next
    case (Some tm)
    have "Suc (cl + i) * (cl + n) \<le> (cl + n) * (cl + n)"
      using i by (intro mult_le_mono) auto
    then have "base + cl + n \<le> N"
      by (simp add: base_def N_def)
    then have "bitmap N (\<lambda>q. (P q \<or> (\<exists>j\<in>set [0..<cl]. q = base + j))
        \<or> (\<exists>j<n. tm ! (i * n + j) \<noteq> 0 \<and> q = base + cl + j)) (copy_mask_row tm n i (base + cl) m0)"
      by (rule bitmap_copy [OF b0])
    then have "bitmap N (\<lambda>q. (P q \<or> (\<exists>j\<in>set [0..<cl]. q = base + j))
        \<or> (\<exists>j\<in>set (path ps i). q = base + (cl + j))) (copy_mask_row tm n i (base + cl) m0)"
      by (rule bitmap_cong) (use tm [OF Some i] sub in \<open>auto simp: add.assoc\<close>)
    then show thesis
      using that [of "copy_mask_row tm n i (base + cl) m0"] Some by simp
  qed
  obtain m2 where m2: "mask_tree_rows cl n ps tree_mask is m1 = Some m2"
    and b2: "bitmap N (\<lambda>q. ((P q \<or> (\<exists>j\<in>set [0..<cl]. q = base + j)) \<or> (\<exists>j\<in>set (path ps i). q = base + (cl + j)))
       \<or> (\<exists>i\<in>set is. (\<exists>j<cl. q = (cl + i) * (cl + n) + j)
        \<or> (\<exists>j\<in>set (path ps i). q = (cl + i) * (cl + n) + (cl + j)))) m2"
    using Cons.IH [OF _ b1 [unfolded N_def]] Cons.prems(1) unfolding N_def by auto
  have "mask_tree_rows cl n ps tree_mask (i # is) m = Some m2"
    using m1 m2 by (simp only: mask_tree_rows.simps Let_def base_def m0_def Option.bind.simps)
  then show ?case
    using b2 unfolding N_def [symmetric]
    by (intro exI [of _ m2]) (auto simp: base_def elim!: bitmap_cong)
qed simp

lemma fold_upt_Suc: "fold f [0..<Suc k] z = f k (fold f [0..<k] z)"
  by simp

lemma causal_rows_bitmap:
  "k \<le> seq \<Longrightarrow> bitmap (seq * seq) (\<lambda>q. \<exists>i<k. \<exists>j\<le>i. q = i * seq + j)
     (fold (\<lambda>i. set_all (i * seq) [0..<Suc i]) [0..<k] (replicate (seq * seq) 0))"
proof (induction k)
  case 0
  then show ?case
    by (simp add: bitmap_def)
next
  case (Suc k)
  have "\<forall>j\<in>set [0..<Suc k]. k * seq + j < seq * seq"
    using Suc.prems by (auto intro!: index_less)
  then have "bitmap (seq * seq)
      (\<lambda>q. (\<exists>i<k. \<exists>j\<le>i. q = i * seq + j) \<or> (\<exists>j\<in>set [0..<Suc k]. q = k * seq + j))
      (fold (\<lambda>i. set_all (i * seq) [0..<Suc i]) [0..<Suc k] (replicate (seq * seq) 0))"
    unfolding fold_upt_Suc [of "\<lambda>i. set_all (i * seq) [0..<Suc i]"]
    using Suc by (intro bitmap_set_all) auto
  then show ?case
  proof (rule bitmap_cong)
    fix q
    have "(\<exists>j\<in>set [0..<Suc k]. q = k * seq + j) \<longleftrightarrow> (\<exists>j\<le>k. q = k * seq + j)"
      by (auto simp: less_Suc_eq_le simp del: upt_Suc)
    then show "((\<exists>i<k. \<exists>j\<le>i. q = i * seq + j) \<or> (\<exists>j\<in>set [0..<Suc k]. q = k * seq + j))
        \<longleftrightarrow> (\<exists>i<Suc k. \<exists>j\<le>i. q = i * seq + j)"
      by (simp only: less_Suc_eq) blast
  qed
qed

text \<open>What a row of the masked forward attends to: all before it, or the context and its path.\<close>

definition good_sees :: "(nat \<Rightarrow> nat \<Rightarrow> bool) \<Rightarrow> nat \<Rightarrow> nat option list \<Rightarrow> bool" where
  "good_sees sees cl ps \<longleftrightarrow> (\<forall>r<cl. \<forall>j\<le>r. sees r j)
     \<and> (\<forall>i<length ps. \<forall>j\<le>cl + i. sees (cl + i) j \<longleftrightarrow> j < cl \<or> (\<exists>x\<in>set (path ps i). j = cl + x))"

lemma full_mask_good:
  assumes tree: "well_formed_tree tree"
    and tm: "\<And>tm i j. tree_mask = Some tm \<Longrightarrow> i < n \<Longrightarrow> j < n \<Longrightarrow>
      tm ! (i * n + j) \<noteq> 0 \<longleftrightarrow> j \<in> set (path (parents tree) i)"
    and n: "n = length (tree_tokens tree)"
  shows "\<exists>m. build_full_attn_mask cl tree tree_mask = Some m \<and> good_sees (masked m (cl + n)) cl (parents tree)"
proof -
  let ?ps = "parents tree" and ?seq = "cl + n"
  have ok: "tree_ok ?ps (depths tree)" "n = length ?ps"
    using tree n by (auto simp: well_formed_tree_def)
  have "cl \<le> ?seq"
    by simp
  note rows = mask_tree_rows_bitmap [OF ok tm _ causal_rows_bitmap [OF this], of tree_mask "[0..<n]"]
  obtain m where m: "build_full_attn_mask cl tree tree_mask = Some m"
    and b: "bitmap (?seq * ?seq) (\<lambda>q. (\<exists>i<cl. \<exists>j\<le>i. q = i * ?seq + j) \<or> (\<exists>i\<in>set [0..<n].
      (\<exists>j<cl. q = (cl + i) * ?seq + j) \<or> (\<exists>j\<in>set (path ?ps i). q = (cl + i) * ?seq + (cl + j)))) m"
    using rows n by (auto simp: build_full_attn_mask_def Let_def atLeast0LessThan)
  have sub: "\<forall>i<n. \<forall>j\<in>set (path ?ps i). j < n"
    using path_facts [OF ok(1)] ok(2) by fastforce
  have entry: "masked m ?seq r j \<longleftrightarrow> (r < cl \<and> j \<le> r)
      \<or> (\<exists>i<n. r = cl + i \<and> (j < cl \<or> (\<exists>x\<in>set (path ?ps i). j = cl + x)))" if rj: "r < ?seq" "j < ?seq" for r j
  proof -
    have "(\<exists>i<cl. \<exists>l\<le>i. r * ?seq + j = i * ?seq + l) \<longleftrightarrow> r < cl \<and> j \<le> r"
      using rj by (auto simp: index_eq)
    moreover have "(\<exists>l<cl. r * ?seq + j = (cl + i) * ?seq + l) \<longleftrightarrow> r = cl + i \<and> j < cl" for i
      using rj by (auto simp: index_eq)
    moreover have "(\<exists>x\<in>set (path ?ps i). r * ?seq + j = (cl + i) * ?seq + (cl + x))
        \<longleftrightarrow> r = cl + i \<and> (\<exists>x\<in>set (path ?ps i). j = cl + x)" if "i < n" for i
      using rj sub that by (auto simp: index_eq)
    ultimately show ?thesis
      using b index_less [OF rj] by (auto simp: bitmap_def masked_def)
  qed
  have "good_sees (masked m ?seq) cl ?ps"
    unfolding good_sees_def ok(2) [symmetric] by (auto simp: entry)
  with m show ?thesis
    by blast
qed

section \<open>The rows of the forward\<close>

text \<open>Decoding one token at a time: the rows of a context, each at the position of its index.\<close>

definition tree_rows :: "'row tree_device \<Rightarrow> token list \<Rightarrow> 'row list" where
  "tree_rows dev ts = foldl (\<lambda>rs t. rs @ [tree_row dev rs (as_i32 (length rs)) t]) [] ts"

definition tree_next :: "'row tree_device \<Rightarrow> token list \<Rightarrow> token" where
  "tree_next dev ts = tree_pick dev (tree_rows dev ts)"

lemma tree_rows_Nil [simp]: "tree_rows dev [] = []"
  by (simp add: tree_rows_def)

lemma length_tree_rows [simp]: "length (tree_rows dev ts) = length ts"
  by (induction ts rule: rev_induct) (simp_all add: tree_rows_def)

lemma tree_rows_snoc:
  "tree_rows dev (ts @ [t]) = tree_rows dev ts @ [tree_row dev (tree_rows dev ts) (as_i32 (length ts)) t]"
proof -
  have "tree_rows dev (ts @ [t]) = tree_rows dev ts
      @ [tree_row dev (tree_rows dev ts) (as_i32 (length (tree_rows dev ts))) t]"
    unfolding tree_rows_def by simp
  then show ?thesis
    by simp
qed

lemma length_forward_rows [simp]: "length (forward_rows dev sees pos ts r) = r"
  by (induction r) (simp_all add: Let_def)

lemma forward_rows_prefix: "k \<le> r \<Longrightarrow> take k (forward_rows dev sees pos ts r) = forward_rows dev sees pos ts k"
  by (induction r) (auto simp: Let_def le_Suc_eq)

lemma forward_row:
  assumes "r < n"
  shows "forward_rows dev sees pos ts n ! r
    = tree_row dev (map ((!) (forward_rows dev sees pos ts n)) (filter (sees r) [0..<r])) (pos ! r) (ts ! r)"
proof -
  let ?R = "forward_rows dev sees pos ts n"
  have low: "forward_rows dev sees pos ts r ! j = ?R ! j" if "j < r" for j
    using that assms by (simp add: forward_rows_prefix [of r n, symmetric])
  have "?R ! r = take (Suc r) ?R ! r"
    by simp
  also have "\<dots> = forward_rows dev sees pos ts (Suc r) ! r"
    using assms forward_rows_prefix [of "Suc r" n dev sees pos ts] by simp
  also have "\<dots> = tree_row dev (map ((!) (forward_rows dev sees pos ts r)) (filter (sees r) [0..<r])) (pos ! r) (ts ! r)"
    by (simp add: Let_def nth_append)
  also have "map ((!) (forward_rows dev sees pos ts r)) (filter (sees r) [0..<r])
      = map ((!) ?R) (filter (sees r) [0..<r])"
    by (simp add: low)
  finally show ?thesis .
qed

lemma filter_upt_sorted:
  assumes "sorted_wrt (<) xs" "\<And>j. j \<in> set xs \<longleftrightarrow> j < k \<and> P j"
  shows "filter P [0..<k] = xs"
proof (rule sorted_distinct_set_unique)
  show "sorted xs" "distinct xs"
    using assms(1) by (simp_all add: strict_sorted_iff)
  show "sorted (filter P [0..<k])" "distinct (filter P [0..<k])"
    by (simp_all add: sorted_wrt_filter)
  show "set (filter P [0..<k]) = set xs"
    using assms(2) by auto
qed

lemma sees_path:
  assumes good: "good_sees sees cl ps" and ok: "tree_ok ps ds" and i: "i < length ps"
  shows "filter (sees (cl + i)) [0..<cl + i] = [0..<cl] @ map ((+) cl) (butlast (path ps i))"
    and "filter (sees (cl + i)) [0..<Suc (cl + i)] = [0..<cl] @ map ((+) cl) (path ps i)"
proof -
  have p: "sorted_wrt (<) (path ps i)" "set (path ps i) \<subseteq> {..i}"
    using path_facts [OF ok i] by auto
  have split: "path ps i = butlast (path ps i) @ [i]"
    by (rule path_last)
  have low: "set (butlast (path ps i)) \<subseteq> {..<i}" "sorted_wrt (<) (butlast (path ps i))"
    using p(1) by (subst (asm) split, auto simp: sorted_wrt_append)+
  have up: "sorted_wrt (<) ([0..<cl] @ map ((+) cl) xs)" if "sorted_wrt (<) xs" for xs
    using that by (auto simp: sorted_wrt_append sorted_wrt_map)
  have sees: "sees (cl + i) j \<longleftrightarrow> j < cl \<or> (\<exists>x\<in>set (path ps i). j = cl + x)" if "j \<le> cl + i" for j
    using good i that by (auto simp: good_sees_def)
  have inner: "x \<in> set (path ps i) \<longleftrightarrow> x \<in> set (butlast (path ps i)) \<or> x = i" for x
    by (subst split) auto
  show "filter (sees (cl + i)) [0..<cl + i] = [0..<cl] @ map ((+) cl) (butlast (path ps i))"
    by (rule filter_upt_sorted [OF up [OF low(2)]]) (use low(1) in \<open>auto simp: sees inner\<close>)
  show "filter (sees (cl + i)) [0..<Suc (cl + i)] = [0..<cl] @ map ((+) cl) (path ps i)"
    by (rule filter_upt_sorted [OF up [OF p(1)]]) (use p(2) in \<open>auto simp: sees less_Suc_eq_le\<close>)
qed

lemma sees_context:
  assumes "good_sees sees cl ps" "r < cl"
  shows "filter (sees r) [0..<r] = [0..<r]" "filter (sees r) [0..<Suc r] = [0..<Suc r]"
  using assms by (auto simp: good_sees_def filter_id_conv)

text \<open>The rows a tree node attends to are those of decoding the context and its path.\<close>

lemma forward_paths:
  fixes dev :: "'row tree_device"
  assumes tree: "well_formed_tree tree" and good: "good_sees sees (length c) (parents tree)"
  defines "R \<equiv> forward_rows dev sees (build_tree_positions (length c) tree) (c @ tree_tokens tree)
      (length c + length (tree_tokens tree))"
  shows "r \<le> length c \<Longrightarrow> map ((!) R) [0..<r] = tree_rows dev (take r c)"
    and "i < length (tree_tokens tree) \<Longrightarrow>
      map ((!) R) ([0..<length c] @ map ((+) (length c)) (path (parents tree) i))
        = tree_rows dev (c @ map ((!) (tree_tokens tree)) (path (parents tree) i))"
proof -
  let ?cl = "length c" and ?ps = "parents tree" and ?ts = "tree_tokens tree"
  have ok: "tree_ok ?ps (depths tree)" "length ?ps = length ?ts"
    using tree by (auto simp: well_formed_tree_def)
  have ctx: "map ((!) R) [0..<r] = tree_rows dev (take r c)" if "r \<le> ?cl" for r
    using that
  proof (induction r)
    case (Suc r)
    have "R ! r = tree_row dev (map ((!) R) [0..<r]) (as_i32 r) (c ! r)"
      using forward_row [of r "?cl + length ?ts" dev sees] Suc.prems sees_context(1) [OF good, of r]
      by (simp add: R_def build_tree_positions_def nth_append)
    then show ?case
      using Suc by (simp add: take_Suc_conv_app_nth tree_rows_snoc)
  qed simp
  show "r \<le> ?cl \<Longrightarrow> map ((!) R) [0..<r] = tree_rows dev (take r c)" for r
    by (rule ctx)
  have node: "map ((!) R) ([0..<?cl] @ map ((+) ?cl) (path ?ps i)) = tree_rows dev (c @ map ((!) ?ts) (path ?ps i))"
    if "i < length ?ts" for i
    using that
  proof (induction i rule: less_induct)
    case (less i)
    let ?up = "butlast (path ?ps i)"
    have i: "i < length ?ps"
      using less.prems ok(2) by simp
    have up: "map ((!) R) ([0..<?cl] @ map ((+) ?cl) ?up) = tree_rows dev (c @ map ((!) ?ts) ?up)"
    proof (cases "?ps ! i")
      case None
      then show ?thesis
        using ctx [of ?cl] by (simp add: path_root)
    next
      case (Some p)
      then have "p < i"
        using tree_ok_parent [OF ok(1) i] by simp
      then show ?thesis
        using less.IH [of p] less.prems by (simp add: path_child [OF Some])
    qed
    have "length (path ?ps i) = depths tree ! i"
      using path_facts [OF ok(1) i] by simp
    then have depth: "depths tree ! i = Suc (length ?up)"
      by (subst (asm) path_last) simp
    have "R ! (?cl + i) = tree_row dev (map ((!) R) ([0..<?cl] @ map ((+) ?cl) ?up))
        (as_i32 (?cl + length ?up)) (?ts ! i)"
      using forward_row [of "?cl + i" "?cl + length ?ts" dev sees] less.prems sees_path(1) [OF good ok(1) i]
      by (simp add: R_def build_tree_positions_def nth_append depth)
    then have row: "R ! (?cl + i) = tree_row dev (tree_rows dev (c @ map ((!) ?ts) ?up))
        (as_i32 (length (c @ map ((!) ?ts) ?up))) (?ts ! i)"
      unfolding up by simp
    have "map ((!) R) ([0..<?cl] @ map ((+) ?cl) (?up @ [i])) = tree_rows dev ((c @ map ((!) ?ts) ?up) @ [?ts ! i])"
      unfolding tree_rows_snoc row [symmetric] using up by simp
    then show ?case
      by (subst (1 2) path_last) simp
  qed
  show "i < length ?ts \<Longrightarrow> map ((!) R) ([0..<?cl] @ map ((+) ?cl) (path ?ps i))
      = tree_rows dev (c @ map ((!) ?ts) (path ?ps i))"
    by (rule node)
qed

text \<open>So its argmax is the greedy choice after the context and the tokens of the path.\<close>

lemma forward_argmax_paths:
  fixes dev :: "'row tree_device"
  assumes "well_formed_tree tree" "good_sees sees (length c) (parents tree)" "c \<noteq> []"
  defines "amax \<equiv> forward_argmax dev sees (build_tree_positions (length c) tree) (c @ tree_tokens tree)"
  shows "length amax = length c + length (tree_tokens tree)"
    and "amax ! (length c - 1) = tree_next dev c"
    and "i < length (tree_tokens tree) \<Longrightarrow> amax ! (length c + i)
      = tree_next dev (c @ map ((!) (tree_tokens tree)) (path (parents tree) i))"
proof -
  note rows = forward_paths [OF assms(1,2), of _ dev]
  have ok: "tree_ok (parents tree) (depths tree)" "length (parents tree) = length (tree_tokens tree)"
    using assms(1) by (auto simp: well_formed_tree_def)
  show "length amax = length c + length (tree_tokens tree)"
    by (simp add: amax_def forward_argmax_def Let_def)
  define R where "R = forward_rows dev sees (build_tree_positions (length c) tree) (c @ tree_tokens tree)
      (length c + length (tree_tokens tree))"
  have row: "amax ! r = tree_pick dev (map ((!) R) (filter (sees r) [0..<Suc r]))"
    if "r < length c + length (tree_tokens tree)" for r
    using that by (simp add: amax_def forward_argmax_def Let_def R_def del: upt_Suc)
  have "Suc (length c - 1) = length c" "length c - 1 < length c"
    using assms(3) by (cases c; simp)+
  then show "amax ! (length c - 1) = tree_next dev c"
    using sees_context(2) [OF assms(2), of "length c - 1"] rows(1) [of "length c"] row [of "length c - 1"]
    by (simp add: R_def tree_next_def del: upt_Suc)
  show "amax ! (length c + i) = tree_next dev (c @ map ((!) (tree_tokens tree)) (path (parents tree) i))"
    if "i < length (tree_tokens tree)"
    using sees_path(2) [OF assms(2) ok(1), of i] rows(2) [of i] row [of "length c + i"] that ok(2)
    by (simp add: R_def tree_next_def del: upt_Suc map_append)
qed

end
