(* ===== verification/Spec_Tree_Walk.thy ===== *)
theory Spec_Tree_Walk
  imports Spec_Tree_Facts
begin

text \<open>
  The walk along the greedy branch of a verified tree, the case where the tree is a chain and
  the forward needs no mask, and the shape of the trees the drafter grows.
\<close>

section \<open>Children and roots\<close>

lemma map_upt_update: "p < n \<Longrightarrow> (map f [0..<n])[p := f p @ ys] = map (\<lambda>q. f q @ (if p = q then ys else [])) [0..<n]"
  by (rule nth_equalityI) (auto simp: nth_list_update)

lemma children_and_roots_exact:
  assumes "\<And>p. Some p \<in> set ps \<Longrightarrow> p < n"
  shows "children_and_roots ps n = (map (\<lambda>p. filter (\<lambda>i. ps ! i = Some p) [0..<length ps]) [0..<n],
    filter (\<lambda>i. ps ! i = None) [0..<length ps])"
  using assms
proof (induction ps rule: rev_induct)
  case Nil
  then show ?case
    by (simp add: children_and_roots_def map_replicate_const)
next
  case (snoc x ps)
  have old: "filter (\<lambda>i. (ps @ [x]) ! i = y) [0..<length ps] = filter (\<lambda>i. ps ! i = y) [0..<length ps]" for y
    by (rule filter_cong) (auto simp: nth_append)
  have new: "filter (\<lambda>i. (ps @ [x]) ! i = y) [0..<length (ps @ [x])]
      = filter (\<lambda>i. ps ! i = y) [0..<length ps] @ (if x = y then [length ps] else [])" for y
    using old [of y] by simp
  have "children_and_roots (ps @ [x]) n = add_child (length ps, x) (children_and_roots ps n)"
    by (simp add: children_and_roots_def enumerate_append_eq)
  also have "\<dots> = add_child (length ps, x) (map (\<lambda>p. filter (\<lambda>i. ps ! i = Some p) [0..<length ps]) [0..<n],
      filter (\<lambda>i. ps ! i = None) [0..<length ps])"
    using snoc.IH snoc.prems by simp
  also have "\<dots> = (map (\<lambda>p. filter (\<lambda>i. ps ! i = Some p) [0..<length ps] @ (if x = Some p then [length ps] else [])) [0..<n],
      filter (\<lambda>i. ps ! i = None) [0..<length ps] @ (if x = None then [length ps] else []))"
  proof (cases x)
    case None
    then show ?thesis
      by (simp add: add_child_def)
  next
    case (Some p)
    then have "p < n"
      using snoc.prems by simp
    then show ?thesis
      using map_upt_update [of p n "\<lambda>p. filter (\<lambda>i. ps ! i = Some p) [0..<length ps]" "[length ps]"]
      by (simp add: add_child_def Some)
  qed
  finally show ?case
    by (simp only: new)
qed

lemma find_SomeD: "find P xs = Some x \<Longrightarrow> x \<in> set xs \<and> P x"
  by (induction xs) (auto split: if_splits)

section \<open>The walk\<close>

text \<open>Where a walk may stop: no node continues the accepted path with the next greedy token.\<close>

definition walk_stops :: "draft_tree \<Rightarrow> token list \<Rightarrow> nat \<Rightarrow> bool" where
  "walk_stops tree out k \<longleftrightarrow>
     (if k = 0 then \<forall>j<length (tree_tokens tree). parents tree ! j = None \<longrightarrow> tree_tokens tree ! j \<noteq> out ! 0
      else \<exists>i<length (tree_tokens tree). map ((!) (tree_tokens tree)) (path (parents tree) i) = take k out
        \<and> (\<forall>j<length (tree_tokens tree). parents tree ! j = Some i \<longrightarrow> tree_tokens tree ! j \<noteq> out ! k))"

definition greedy_walk ::
  "draft_tree \<Rightarrow> (token list \<Rightarrow> token) \<Rightarrow> token list \<Rightarrow> (token list \<times> nat) option \<Rightarrow> bool" where
  "greedy_walk tree nxt c r \<longleftrightarrow> (case r of
     Some (out, k) \<Rightarrow> out = greedy_run nxt c (Suc k) \<and> k \<le> length (tree_tokens tree) \<and> walk_stops tree out k
   | None \<Rightarrow> False)"

lemma greedy_run_snoc: "greedy_run nxt c (Suc n) = greedy_run nxt c n @ [nxt (c @ greedy_run nxt c n)]"
  using greedy_run_add [of nxt c n 1] by simp

lemma walk_loop_greedy:
  fixes tree :: draft_tree
  defines "ts \<equiv> tree_tokens tree" and "ps \<equiv> parents tree"
  assumes tree: "well_formed_tree tree" and n: "n = length ts"
    and kids: "kids = map (\<lambda>p. filter (\<lambda>i. ps ! i = Some p) [0..<n]) [0..<n]"
    and amax: "length amax = cl + n" "\<And>i. i < n \<Longrightarrow> amax ! (cl + i) = nxt (c @ map ((!) ts) (path ps i))"
    and cur: "cur < n" and out: "out = map ((!) ts) (path ps cur)" "out = greedy_run nxt c acc"
  shows "greedy_walk tree nxt c (walk_loop ts kids amax cl cur out acc)"
  using cur out
proof (induction "n - cur" arbitrary: cur out acc rule: less_induct)
  case less
  have ok: "tree_ok ps (depths tree)" "length ps = n"
    using tree n by (auto simp: well_formed_tree_def ts_def ps_def)
  have acc: "length out = acc"
    by (simp add: less.prems(3))
  define vtok where "vtok = amax ! (cl + cur)"
  have v: "out @ [vtok] = greedy_run nxt c (Suc acc)"
    unfolding greedy_run_snoc using amax(2) [OF less.prems(1)] less.prems(2,3) by (simp add: vtok_def)
  have p: "sorted_wrt (<) (path ps cur)" "set (path ps cur) \<subseteq> {..cur}"
    using path_facts [OF ok(1), of cur] less.prems(1) ok(2) by auto
  then have "card (set (path ps cur)) = length (path ps cur)"
    by (simp add: distinct_card strict_sorted_iff)
  moreover have "card (set (path ps cur)) \<le> card {..cur}"
    using p(2) by (intro card_mono) auto
  ultimately have "length (path ps cur) \<le> Suc cur"
    by simp
  moreover have "path ps cur \<noteq> []"
    by (subst path_last) simp
  ultimately have small: "acc \<le> n" "0 < acc"
    using acc less.prems(1,2) by auto
  have kid: "kids ! cur = filter (\<lambda>i. ps ! i = Some cur) [0..<n]"
    using less.prems(1) by (simp add: kids)
  have step: "walk_loop ts kids amax cl cur out acc = (case find (\<lambda>c. ts ! c = vtok) (kids ! cur) of
      Some c \<Rightarrow> walk_loop ts kids amax cl c (out @ [vtok]) (acc + 1)
    | None \<Rightarrow> Some (out @ [vtok], acc))"
  proof -
    have "\<not> (length amax \<le> cl + cur \<or> length kids \<le> cur)"
      using less.prems(1) amax(1) by (simp add: kids)
    then show ?thesis
      unfolding vtok_def by (subst walk_loop.simps) (simp only: if_False Let_def)
  qed
  show ?case
  proof (cases "find (\<lambda>c. ts ! c = vtok) (kids ! cur)")
    case None
    then have last: "\<forall>j<n. ps ! j = Some cur \<longrightarrow> ts ! j \<noteq> vtok"
      by (auto simp: kid find_None_iff)
    have "take acc (out @ [vtok]) = map ((!) ts) (path ps cur)" "(out @ [vtok]) ! acc = vtok"
      using less.prems(2) unfolding acc [symmetric] by (simp_all only: nth_append_length) simp
    then have "walk_stops tree (out @ [vtok]) acc"
      unfolding walk_stops_def ts_def [symmetric] ps_def [symmetric]
      using small(2) less.prems(1) last n by auto
    then show ?thesis
      unfolding step None greedy_walk_def option.case prod.case
      using v small(1) n by (simp only: ts_def [symmetric])
  next
    case (Some k)
    then have k: "k < n" "ps ! k = Some cur" "ts ! k = vtok"
      by (auto simp: kid dest!: find_SomeD)
    then have up: "cur < k"
      using tree_ok_parent [OF ok(1), of k cur] ok(2) by simp
    have "out @ [vtok] = map ((!) ts) (path ps k)"
      using less.prems(2) k(3) by (simp add: path_child [OF k(2) up])
    then have "greedy_walk tree nxt c (walk_loop ts kids amax cl k (out @ [vtok]) (Suc acc))"
      using less.hyps [OF _ k(1) _ v] up less.prems(1) by simp
    then show ?thesis
      by (simp only: step Some option.case Suc_eq_plus1)
  qed
qed

lemma walk_accept_greedy:
  assumes tree: "well_formed_tree tree" and n: "n = length (tree_tokens tree)"
    and amax: "length amax = cl + n" "amax ! (cl - 1) = nxt c"
      "\<And>i. i < n \<Longrightarrow> amax ! (cl + i) = nxt (c @ map ((!) (tree_tokens tree)) (path (parents tree) i))"
  shows "greedy_walk tree nxt c (walk_accept tree amax (cl - 1) cl)"
proof (cases "n = 0")
  case True
  then show ?thesis
    using amax(2) n by (simp add: walk_accept_def greedy_walk_def walk_stops_def)
next
  case False
  let ?ts = "tree_tokens tree" and ?ps = "parents tree"
  have ok: "tree_ok ?ps (depths tree)" "length ?ps = n"
    using tree n by (auto simp: well_formed_tree_def)
  have "p < n" if "Some p \<in> set ?ps" for p
    using that tree_ok_parent [OF ok(1)] ok(2) by (fastforce simp: in_set_conv_nth)
  then have cr: "children_and_roots ?ps n = (map (\<lambda>p. filter (\<lambda>i. ?ps ! i = Some p) [0..<n]) [0..<n],
      filter (\<lambda>i. ?ps ! i = None) [0..<n])"
    using children_and_roots_exact [of ?ps n] ok(2) by simp
  show ?thesis
  proof (cases "find (\<lambda>k. ?ts ! k = nxt c) (filter (\<lambda>i. ?ps ! i = None) [0..<n])")
    case None
    then have "\<forall>j<n. ?ps ! j = None \<longrightarrow> ?ts ! j \<noteq> nxt c"
      by (auto simp: find_None_iff)
    then show ?thesis
      using False None amax(2) n cr by (simp add: walk_accept_def greedy_walk_def walk_stops_def Let_def)
  next
    case (Some k)
    then have k: "k < n" "?ps ! k = None" "?ts ! k = nxt c"
      by (auto dest!: find_SomeD)
    have "greedy_walk tree nxt c (walk_loop ?ts (map (\<lambda>p. filter (\<lambda>i. ?ps ! i = Some p) [0..<n]) [0..<n])
        amax cl k [nxt c] 1)"
      by (rule walk_loop_greedy [OF tree n refl amax(1,3) k(1)]) (simp_all add: path_root [OF k(2)] k(3))
    then show ?thesis
      using False Some amax(2) n cr by (simp add: walk_accept_def Let_def)
  qed
qed

section \<open>Chains\<close>

lemma lower_tri_mask_exact:
  assumes "i < n" "j < n"
  shows "lower_tri_mask n ! (i * n + j) = (if j \<le> i then 1 else 0)"
proof -
  have "bitmap (n * n) (\<lambda>q. \<exists>i<n. \<exists>j\<le>i. q = i * n + j) (lower_tri_mask n)"
    using causal_rows_bitmap [of n n, unfolded set_all_def] by (simp add: lower_tri_mask_def del: upt_Suc)
  moreover have "(\<exists>k<n. \<exists>l\<le>k. i * n + j = k * n + l) \<longleftrightarrow> j \<le> i"
    using assms by (auto simp: index_eq)
  ultimately show ?thesis
    using index_less [OF assms] by (auto simp: bitmap_def)
qed

lemma chain_good:
  assumes tree: "well_formed_tree tree" and n: "n = length (tree_tokens tree)"
    and lower: "tree_is_lower_tri tree tree_mask"
    and tm: "\<And>tm i j. tree_mask = Some tm \<Longrightarrow> i < n \<Longrightarrow> j < n \<Longrightarrow>
      tm ! (i * n + j) \<noteq> 0 \<longleftrightarrow> j \<in> set (path (parents tree) i)"
  shows "good_sees causal cl (parents tree)"
proof -
  let ?ps = "parents tree"
  have ok: "tree_ok ?ps (depths tree)" "length ?ps = n"
    using tree n by (auto simp: well_formed_tree_def)
  have "set (path ?ps i) = {..i}" if i: "i < n" for i
  proof (cases tree_mask)
    case None
    have par: "?ps ! i = (if i = 0 then None else Some (i - 1))" if "i < n" for i
    proof -
      have "(i, ?ps ! i) \<in> set (List.enumerate 0 ?ps)"
        using that ok(2) by (simp add: in_set_enumerate_eq)
      moreover have "list_all (\<lambda>(i, par). case par of Some p \<Rightarrow> p + 1 = i | None \<Rightarrow> i = 0) (List.enumerate 0 ?ps)"
      proof -
        have "tree_tokens tree \<noteq> []"
          using that n by auto
        then show ?thesis
          using lower unfolding tree_is_lower_tri_def None option.case by (simp only: if_False)
      qed
      ultimately have "case ?ps ! i of Some p \<Rightarrow> p + 1 = i | None \<Rightarrow> i = 0"
        unfolding list_all_iff by (metis (mono_tags, lifting) case_prod_conv)
      then show ?thesis
        by (auto split: option.splits)
    qed
    show ?thesis
      using i
    proof (induction i)
      case 0
      then show ?case
        using par [of 0] by (simp add: path_root)
    next
      case (Suc i)
      then show ?case
        using par [of "Suc i"] by (auto simp: path_child [of ?ps "Suc i" i] atMost_Suc)
    qed
  next
    case (Some m)
    have "tree_tokens tree \<noteq> []"
      using i n by auto
    then have "m = lower_tri_mask n"
      using lower unfolding tree_is_lower_tri_def Some option.case n by (simp only: if_False)
    then have "j \<in> set (path ?ps i) \<longleftrightarrow> j \<le> i" if "j < n" for j
      using tm [OF Some i that] lower_tri_mask_exact [OF i that] by (cases "j \<le> i") simp_all
    then show ?thesis
      using path_facts [OF ok(1), of i] i ok(2) by (fastforce simp: set_eq_iff)
  qed
  moreover have "j \<le> cl + i \<Longrightarrow> j < cl \<or> (\<exists>x\<in>{..i}. j = cl + x)" for i j
    by (cases "j < cl") (auto intro: bexI [of _ "j - cl"])
  ultimately show ?thesis
    by (simp add: good_sees_def causal_def ok(2))
qed

section \<open>The verified tree\<close>

definition right_mask :: "draft_tree \<Rightarrow> nat list option \<Rightarrow> bool" where
  "right_mask tree tree_mask \<longleftrightarrow>
     (case tree_mask of None \<Rightarrow> True | Some m \<Rightarrow> flatten_with_mask tree = Some (tree_tokens tree, m))"

lemma verify_tree_greedy:
  fixes dev :: "'row tree_device"
  assumes tree: "well_formed_tree tree" and c: "c \<noteq> []" and rm: "right_mask tree tree_mask"
  shows "case verify_tree dev c tree tree_mask of
      Inl e \<Rightarrow> False
    | Inr r \<Rightarrow> greedy_walk tree (tree_next dev) c (Some r)"
proof -
  define n where "n = length (tree_tokens tree)"
  let ?pos = "build_tree_positions (length c) tree" and ?joint = "c @ tree_tokens tree"
  have tm: "length tm = n * n \<and> (\<forall>i<n. \<forall>j<n. tm ! (i * n + j) \<noteq> 0 \<longleftrightarrow> j \<in> set (path (parents tree) i))"
    if "tree_mask = Some tm" for tm
    using flatten_exact [OF tree n_def] rm that by (auto simp: right_mask_def)
  obtain sees where good: "good_sees sees (length c) (parents tree)"
    and fwd: "(if tree_is_lower_tri tree tree_mask then Inr (forward_argmax dev causal ?pos ?joint)
           else and_then (or_panic (build_full_attn_mask (length c) tree tree_mask)) (\<lambda>m.
             Inr (forward_argmax dev (masked m (length ?joint)) ?pos ?joint)))
       = Inr (forward_argmax dev sees ?pos ?joint)"
  proof (cases "tree_is_lower_tri tree tree_mask")
    case True
    then show thesis
      using that [of causal] chain_good [OF tree n_def True] tm by simp
  next
    case False
    then obtain m where "build_full_attn_mask (length c) tree tree_mask = Some m"
      "good_sees (masked m (length c + n)) (length c) (parents tree)"
      using full_mask_good [OF tree _ n_def, of tree_mask "length c"] tm by auto
    then show thesis
      using that [of "masked m (length c + n)"] False by (simp add: or_panic_def n_def)
  qed
  note amax = forward_argmax_paths [OF tree good c, where dev = dev, folded n_def]
  have "greedy_walk tree (tree_next dev) c
      (walk_accept tree (forward_argmax dev sees ?pos ?joint) (length c - 1) (length c))"
    by (rule walk_accept_greedy [OF tree n_def amax])
  moreover have "verify_tree dev c tree tree_mask
      = or_panic (walk_accept tree (forward_argmax dev sees ?pos ?joint) (length c - 1) (length c))"
    using c tm fwd by (auto simp: verify_tree_def Let_def n_def split: option.splits)
  ultimately show ?thesis
    by (auto simp: greedy_walk_def or_panic_def split: option.splits)
qed

section \<open>The trees the drafter grows\<close>

text \<open>The parent of a node to be pushed at a level.\<close>

definition valid_parent :: "nat \<Rightarrow> draft_tree \<Rightarrow> nat option \<Rightarrow> bool" where
  "valid_parent level tree par \<longleftrightarrow> (case par of
     None \<Rightarrow> level = 1
   | Some p \<Rightarrow> p < length (tree_tokens tree) \<and> Suc (depths tree ! p) = level)"

definition add_node :: "nat \<Rightarrow> nat option \<Rightarrow> token \<Rightarrow> draft_tree \<Rightarrow> draft_tree" where
  "add_node depth par tok tree = \<lparr>tree_tokens = tree_tokens tree @ [tok], parents = parents tree @ [par],
     depths = depths tree @ [depth]\<rparr>"

lemma push_one:
  assumes "well_formed_tree tree" "valid_parent depth tree par"
  shows "well_formed_tree (add_node depth par tok tree)"
    and "valid_parent (Suc depth) (add_node depth par tok tree) (Some (length (tree_tokens tree)))"
    and "valid_parent level tree q \<Longrightarrow> valid_parent level (add_node depth par tok tree) q"
proof -
  have len: "length (parents tree) = length (tree_tokens tree)" "length (depths tree) = length (tree_tokens tree)"
    using assms(1) by (auto simp: well_formed_tree_def tree_ok_def)
  show "well_formed_tree (add_node depth par tok tree)"
    using assms(1,2) len
    by (fastforce simp: add_node_def well_formed_tree_def tree_ok_def valid_parent_def nth_append less_Suc_eq
        split: option.splits)
  show "valid_parent (Suc depth) (add_node depth par tok tree) (Some (length (tree_tokens tree)))"
    using len by (simp add: valid_parent_def add_node_def nth_append)
  show "valid_parent level tree q \<Longrightarrow> valid_parent level (add_node depth par tok tree) q"
    using len by (auto simp: valid_parent_def add_node_def nth_append split: option.splits)
qed

lemma push_candidates_ok:
  assumes "well_formed_tree tree" "\<forall>x\<in>set cs. valid_parent depth tree (fst x)"
    and "\<forall>x\<in>set front. valid_parent (Suc depth) tree (fst x)" "push_candidates depth cs tree front = (tree1, front1)"
    and "\<forall>d\<in>set (depths tree). d \<le> depth"
  shows "well_formed_tree tree1 \<and> (\<forall>x\<in>set front1. valid_parent (Suc depth) tree1 (fst x))
    \<and> length (tree_tokens tree1) = length (tree_tokens tree) + length cs \<and> (\<forall>d\<in>set (depths tree1). d \<le> depth)"
  using assms
proof (induction depth cs tree front rule: push_candidates.induct)
  case (2 depth parent tok joint prefix cs tree front)
  have "valid_parent depth tree parent"
    using "2.prems"(2) by simp
  note one = push_one [OF "2.prems"(1) this, where tok = tok]
  have cs: "\<forall>x\<in>set cs. valid_parent depth (add_node depth parent tok tree) (fst x)"
    using "2.prems"(2) one(3) by simp
  have front: "\<forall>x\<in>set (front @ [(Some (length (tree_tokens tree)), joint, prefix)]).
      valid_parent (Suc depth) (add_node depth parent tok tree) (fst x)"
    using "2.prems"(3) one(2,3) by simp
  note ih = "2.IH" [folded add_node_def, OF one(1) cs front]
  have "\<forall>d\<in>set (depths (add_node depth parent tok tree)). d \<le> depth"
    using "2.prems"(5) by (simp add: add_node_def)
  then show ?case
    using ih "2.prems"(4) by (simp add: add_node_def)
qed simp

lemma node_candidates_parents:
  "node_candidates S cfg node = Inr cs \<Longrightarrow> x \<in> set cs \<Longrightarrow> fst x = fst node"
  by (cases node) (auto simp: node_candidates_def and_then_Inr Let_def split: if_splits)

lemma frontier_candidates_parents:
  "frontier_candidates S cfg front = Inr cs \<Longrightarrow> x \<in> set cs \<Longrightarrow> \<exists>node\<in>set front. fst x = fst node"
proof (induction front arbitrary: cs)
  case (Cons node rest)
  then obtain as bs where "node_candidates S cfg node = Inr as" "frontier_candidates S cfg rest = Inr bs" "cs = as @ bs"
    by (auto simp: and_then_Inr)
  then show ?case
    using Cons.IH Cons.prems(2) node_candidates_parents [of S cfg node as x] by auto
qed simp

definition scorer_error :: "'f scorer \<Rightarrow> eagle3_config \<Rightarrow> spec_error \<Rightarrow> bool" where
  "scorer_error S cfg e \<longleftrightarrow> (\<exists>c. score S c = Inl e
     \<or> (\<exists>logits. score S c = Inr logits \<and> length logits \<noteq> vocab_size cfg
         \<and> e = Logit_Count (length logits) (vocab_size cfg)))"

lemma frontier_candidates_error: "frontier_candidates S cfg front = Inl e \<Longrightarrow> scorer_error S cfg e"
  by (induction front)
    (auto simp: and_then_Inl node_candidates_def scorer_error_def Let_def split: if_splits prod.splits)

definition good_tree :: "eagle3_config \<Rightarrow> draft_tree \<Rightarrow> bool" where
  "good_tree cfg tree \<longleftrightarrow> well_formed_tree tree \<and> length (tree_tokens tree) \<le> total_budget cfg
     \<and> (\<forall>d\<in>set (depths tree). d \<le> max_depth cfg)"

lemma expand_levels_ok:
  assumes best: "\<And>cs. set (best_first S cs) \<subseteq> set cs"
    and "well_formed_tree tree" "\<forall>x\<in>set front. valid_parent depth tree (fst x)"
    and "length (tree_tokens tree) \<le> total_budget cfg" "\<forall>d\<in>set (depths tree). d < depth"
    and "depth \<le> Suc (max_depth cfg)"
  shows "case expand_levels S cfg [depth..<Suc (max_depth cfg)] front tree of
      Inl e \<Rightarrow> scorer_error S cfg e
    | Inr tree1 \<Rightarrow> good_tree cfg tree1"
  using assms(2-)
proof (induction "Suc (max_depth cfg) - depth" arbitrary: depth front tree)
  case 0
  then show ?case
    by (force simp: good_tree_def)
next
  case (Suc k)
  then have upt: "[depth..<Suc (max_depth cfg)] = depth # [Suc depth..<Suc (max_depth cfg)]"
    by (simp add: upt_conv_Cons del: upt_Suc)
  have stop: "good_tree cfg tree"
    using Suc.prems by (force simp: good_tree_def)
  define remaining where "remaining = total_budget cfg - length (tree_tokens tree)"
  show ?case
  proof (cases "front = [] \<or> remaining = 0")
    case True
    then show ?thesis
      using stop by (auto simp: upt remaining_def Let_def simp del: upt_Suc)
  next
    case False
    then have unfold: "expand_levels S cfg (depth # ds) front tree = and_then (frontier_candidates S cfg front)
        (\<lambda>cs. if cs = [] then Inr tree
          else let (tree1, front1) = push_candidates depth (take remaining (best_first S cs)) tree [] in
            if total_budget cfg \<le> length (tree_tokens tree1) then Inr tree1
            else expand_levels S cfg ds front1 tree1)" for ds
      unfolding expand_levels.simps Let_def remaining_def by auto
    show ?thesis
    proof (cases "frontier_candidates S cfg front")
      case (Inl e)
      then show ?thesis
        using frontier_candidates_error [OF Inl] by (simp add: upt unfold and_then_def del: upt_Suc expand_levels.simps)
    next
      case (Inr cs)
      obtain tree1 front1 where push: "push_candidates depth (take remaining (best_first S cs)) tree [] = (tree1, front1)"
        by fastforce
      have "\<forall>x\<in>set (take remaining (best_first S cs)). valid_parent depth tree (fst x)"
      proof
        fix x
        assume "x \<in> set (take remaining (best_first S cs))"
        then have "x \<in> set cs"
          using best [of cs] in_set_takeD by fastforce
        then show "valid_parent depth tree (fst x)"
          using frontier_candidates_parents [OF Inr] Suc.prems(2) by fastforce
      qed
      note p = push_candidates_ok [OF Suc.prems(1) this _ push]
      have "\<forall>d\<in>set (depths tree). d \<le> depth"
        using Suc.prems(4) by (auto intro: less_imp_le)
      then have t1: "well_formed_tree tree1" "\<forall>x\<in>set front1. valid_parent (Suc depth) tree1 (fst x)"
        "length (tree_tokens tree1) = length (tree_tokens tree) + length (take remaining (best_first S cs))"
        "\<forall>d\<in>set (depths tree1). d \<le> depth"
        using p by auto
      then have size: "length (tree_tokens tree1) \<le> total_budget cfg"
        using Suc.prems(3) by (simp add: remaining_def)
      have deep: "depth \<le> max_depth cfg"
        using Suc.hyps(2) by simp
      then have good: "good_tree cfg tree1"
        using t1(1,4) size by (fastforce simp: good_tree_def)
      have "case expand_levels S cfg [Suc depth..<Suc (max_depth cfg)] front1 tree1 of
          Inl e \<Rightarrow> scorer_error S cfg e | Inr tree1 \<Rightarrow> good_tree cfg tree1"
        by (rule Suc.hyps(1) [OF _ t1(1,2) size]) (use t1(4) Suc.hyps(2) deep in \<open>auto simp: less_Suc_eq_le\<close>)
      then show ?thesis
        using Inr push stop good by (simp add: upt unfold and_then_def del: upt_Suc expand_levels.simps)
    qed
  qed
qed

lemma expand_tree_ok:
  assumes "\<And>cs. set (best_first S cs) \<subseteq> set cs"
  shows "case expand_tree S cfg c of Inl e \<Rightarrow> scorer_error S cfg e | Inr tree \<Rightarrow> good_tree cfg tree"
  using expand_levels_ok [OF assms, of empty_tree "[(None, zero_lp S, c)]" 1 cfg]
  by (auto simp: expand_tree_def good_tree_def well_formed_tree_def tree_ok_def empty_tree_def valid_parent_def
      simp del: upt_Suc)

end
