(* ===== verification/Spec_Properties.thy ===== *)
theory Spec_Properties
  imports Spec_Targets Spec_Tree_Walk
begin

text \<open>
  The properties of the speculative decoders: whatever is drafted, what is emitted is what
  decoding one token at a time would have emitted.
\<close>

section \<open>A device to instantiate with\<close>

definition counting_device :: "token device" where
  "counting_device = \<lparr>row_of = (\<lambda>rows t. t), pick = (\<lambda>rows. last rows + 1)\<rparr>"


definition fresh_model :: "nat \<Rightarrow> nat \<Rightarrow> token spec_model" where
  "fresh_model k n = \<lparr>kv = replicate n 0, committed = 0, k_max = k, max_seq = n\<rparr>"

lemma fresh_model_holds: "holds dev [] (fresh_model k n)"
  by (simp add: holds_def fresh_model_def)

section \<open>Rounds of the serving loop\<close>

text \<open>
  C24. Speculative rounds over a decoder emit the greedy continuation, whatever was drafted: if the
  decoder keeps the contract of the verify seam (a step and every row of a verify answer the
  greedy choice, an advance keeps the rows it is given), then a run of rounds, with drafts of
  the suffix automaton or of a learned drafter of any length, emits at least a token a round and
  exactly the tokens of decoding one at a time, or stops with an error of the decoder.
\<close>

theorem speculative_rounds_are_greedy:
  assumes "decoder_seam D stands verified nxt"
    and "stands (dt_decoder t) c" "\<not> dt_stepped t" "tracks sl (c @ [bonus])"
  shows "case spec_rounds (decoder_chain_target D) ds bonus sl t of
      Inl e \<Rightarrow> decoder_error D e
    | Inr (out, sl1, t1) \<Rightarrow> out = greedy_run nxt (c @ [bonus]) (length out) \<and> length ds \<le> length out"
  by (rule decoder_seam.decoder_rounds_good [OF assms])

theorem speculative_rounds_are_greedy_witness:
  "case spec_rounds (decoder_chain_target (model_decoder counting_device)) [Some [6, 7, 9], None] 5
      (new_spec_loop (parse_knobs None None)\<lparr>sl_suffix := the (sam_extend_slice [5] new_sam)\<rparr>)
      \<lparr>dt_decoder = fresh_model 4 16, dt_max_seq = 16, dt_stepped = False\<rparr> of
      Inl e \<Rightarrow> decoder_error (model_decoder counting_device) e
    | Inr (out, sl1, t1) \<Rightarrow> out = greedy_run (next_token counting_device) [5] (length out) \<and> 2 \<le> length out"
proof -
  define sl where "sl = new_spec_loop (parse_knobs None None)\<lparr>sl_suffix := the (sam_extend_slice [5] new_sam)\<rparr>"
  have "tracks sl ([] @ [5])"
    using sam_extend_slice_total [of "[5]"] by (auto simp: tracks_def sl_def)
  moreover have "holds counting_device [] (fresh_model 4 16)"
    by (rule fresh_model_holds)
  ultimately have "case spec_rounds (decoder_chain_target (model_decoder counting_device)) [Some [6, 7, 9], None] 5 sl
      \<lparr>dt_decoder = fresh_model 4 16, dt_max_seq = 16, dt_stepped = False\<rparr> of
      Inl e \<Rightarrow> decoder_error (model_decoder counting_device) e
    | Inr (out, sl1, t1) \<Rightarrow> out = greedy_run (next_token counting_device) ([] @ [5]) (length out)
        \<and> length [Some [6, 7, 9 :: token], None] \<le> length out"
    by (intro speculative_rounds_are_greedy [OF model.decoder_seam_axioms]) simp_all
  moreover have "length [Some [6, 7, 9 :: token], None] = 2"
    by simp
  ultimately show ?thesis
    by (simp only: append_Nil sl_def)
qed

section \<open>Rounds that roll back\<close>






section \<open>Drafting and verifying on two models\<close>



section \<open>Trees\<close>





text \<open>
  C40. The drafter grows only well-formed trees within its limits: every parent is an earlier node one
  level up, there are at most \<open>total_budget\<close> nodes and none is deeper than \<open>max_depth\<close>, whatever
  the scores are; the drafter fails only where scoring a prefix fails or answers the wrong number
  of logits.
\<close>

theorem drafted_trees_are_well_formed:
  assumes "\<And>cs. set (best_first S cs) \<subseteq> set cs"
  shows "case expand_tree S cfg c of Inl e \<Rightarrow> scorer_error S cfg e | Inr tree \<Rightarrow> good_tree cfg tree"
  by (rule expand_tree_ok [OF assms])

theorem drafted_trees_are_well_formed_witness:
  "case expand_tree \<lparr>score = (\<lambda>c. Inr [3, 1, 2 :: nat]), log_softmax = (\<lambda>xs. xs), top_k = (\<lambda>xs k. [0..<k]),
      plus_lp = (+), zero_lp = 0, best_first = (\<lambda>cs. cs)\<rparr>
      \<lparr>max_depth = 2, branch_factor = 2, total_budget = 5, vocab_size = 3\<rparr> [4] of
      Inl e \<Rightarrow> scorer_error \<lparr>score = (\<lambda>c. Inr [3, 1, 2 :: nat]), log_softmax = (\<lambda>xs. xs), top_k = (\<lambda>xs k. [0..<k]),
        plus_lp = (+), zero_lp = (0 :: nat), best_first = (\<lambda>cs. cs)\<rparr>
        \<lparr>max_depth = 2, branch_factor = 2, total_budget = 5, vocab_size = 3\<rparr> e
    | Inr tree \<Rightarrow> good_tree \<lparr>max_depth = 2, branch_factor = 2, total_budget = 5, vocab_size = 3\<rparr> tree"
  by (rule drafted_trees_are_well_formed) simp_all

section \<open>The suffix arm\<close>

text \<open>What the arm drafts, by exhaustive search over the tokens it kept.\<close>

definition naive_arm_draft :: "token list \<Rightarrow> nat \<Rightarrow> nat \<Rightarrow> nat \<Rightarrow> token list option" where
  "naive_arm_draft ts draft_max headroom min_match =
     (if suffix_token_cap \<le> length ts \<or> min draft_max headroom < suffix_min_draft then None
      else case naive_propose ts (min draft_max headroom) min_match of
        Some p \<Rightarrow> if suffix_min_draft \<le> length (proposed p) then Some (proposed p) else None
      | None \<Rightarrow> None)"

text \<open>
  The suffix arm drafts what exhaustive search finds, or nothing: after any tokens, which it
  keeps up to its cap, it proposes the continuation of the longest repeated suffix, cut to the
  draft bound and the headroom, unless the cap is reached or the draft would be too short to pay.
\<close>

theorem suffix_arm_drafts_by_search:
  assumes "1 \<le> draft_max" "draft_max \<le> suffix_draft_ceiling"
  shows "and_then (with_draft_max min_match draft_max)
       (\<lambda>arm. and_then (arm_extend_capped ts arm) (arm_propose headroom))
     = Inr (naive_arm_draft (take suffix_token_cap ts) draft_max headroom min_match)"
proof -
  define arm where "arm = \<lparr>arm_sam = new_sam, arm_draft_max = draft_max, arm_min_draft = suffix_min_draft,
    arm_min_match = min_match, arm_rounds = 0, arm_drafted = 0, arm_accepted = 0\<rparr>"
  have arm: "with_draft_max min_match draft_max = Inr arm" "arm_tracks arm []"
    using assms by (simp_all add: with_draft_max_def arm_def arm_tracks_def)
  obtain arm1 where "arm_extend_capped ts arm = Inr arm1" "arm_tracks arm1 (take suffix_token_cap ts)"
    "arm_draft_max arm1 = draft_max" "arm_min_draft arm1 = suffix_min_draft" "arm_min_match arm1 = min_match"
    using arm_extend_tracks [OF arm(2), of ts] by (auto simp: arm_def min_def split: if_splits)
  then show ?thesis
    using arm(1) by (simp add: arm_propose_naive naive_arm_draft_def split: option.split)
qed

theorem suffix_arm_drafts_by_search_witness:
  "and_then (with_draft_max 2 7) (\<lambda>arm. and_then (arm_extend_capped [1, 2, 3, 4, 5, 1, 2] arm) (arm_propose 5))
     = Inr (naive_arm_draft (take suffix_token_cap [1, 2, 3, 4, 5, 1, 2]) 7 5 2)"
  by (rule suffix_arm_drafts_by_search) (simp_all add: suffix_draft_ceiling_def)

end
