(* ===== verification/Spec_Two_Branch.thy ===== *)
theory Spec_Two_Branch
  imports Spec_Chain
begin

text \<open>
  The fixed tree of \<open>nv-specdecode/src/qwen38_mtp.rs\<close>: an anchor, a chain of three drafts and a
  second branch of two (\<open>accept_two_branch_tree_m6\<close>), and the window over the last sixteen rounds
  that decides how deep the next chain is drafted (\<open>AcceptanceTrackingK\<close>).
\<close>

section \<open>Two branches\<close>

definition tree_row_count :: nat where
  "tree_row_count = 6"

definition branch_a_depth :: nat where
  "branch_a_depth = 3"

definition branch_b_first_row :: nat where
  "branch_b_first_row = 4"

record two_branch_accept =
  tb_emitted :: "token list"
  tb_drafts_accepted :: nat
  tb_depth_consumed :: nat
  tb_bonus_row :: nat
  tb_branch_b :: "nat option"

function branch_a_loop :: "token list \<Rightarrow> token list \<Rightarrow> nat \<Rightarrow> nat" where
  "branch_a_loop rows greedy a =
     (if a < branch_a_depth \<and> greedy ! a = rows ! (a + 1) then branch_a_loop rows greedy (a + 1) else a)"
  by pat_completeness auto
termination
  by (relation "measure (\<lambda>(rows, greedy, a). branch_a_depth - a)") auto

declare branch_a_loop.simps [simp del]

definition accept_two_branch :: "token list \<Rightarrow> token list \<Rightarrow> spec_error + two_branch_accept" where
  "accept_two_branch rows greedy =
     (if \<not> (length rows = tree_row_count \<and> length greedy = tree_row_count) then
        Inl (Row_Count (length rows) (length greedy))
      else let b0 = branch_b_first_row; t1 = greedy ! 0 in
        if t1 = rows ! 1 then
          let a = branch_a_loop rows greedy 1 in
          Inr \<lparr>tb_emitted = drop 1 (take (a + 1) rows) @ [greedy ! a], tb_drafts_accepted = a,
            tb_depth_consumed = a + 1, tb_bonus_row = a, tb_branch_b = None\<rparr>
        else if t1 = rows ! b0 then
          let b = (if greedy ! b0 = rows ! (b0 + 1) then 2 else 1); bonus_row = b0 + b - 1 in
          Inr \<lparr>tb_emitted = take b (drop b0 rows) @ [greedy ! bonus_row], tb_drafts_accepted = b,
            tb_depth_consumed = b + 1, tb_bonus_row = bonus_row, tb_branch_b = Some b\<rparr>
        else
          Inr \<lparr>tb_emitted = [t1], tb_drafts_accepted = 0, tb_depth_consumed = 1, tb_bonus_row = 0,
            tb_branch_b = None\<rparr>)"

text \<open>
  What the forward answers for the rows anchor, \<open>a1\<close>, \<open>a2\<close>, \<open>a3\<close>, \<open>b1\<close>, \<open>b2\<close>, each attending to its
  own branch only; and the path a result consumed.
\<close>

definition two_branch_rows :: "(token list \<Rightarrow> token) \<Rightarrow> token list \<Rightarrow> token list \<Rightarrow> token list" where
  "two_branch_rows nxt c rows = map (\<lambda>path. nxt (c @ map ((!) rows) path))
     [[0], [0, 1], [0, 1, 2], [0, 1, 2, 3], [0, 4], [0, 4, 5]]"

definition consumed_rows :: "two_branch_accept \<Rightarrow> nat list" where
  "consumed_rows r = (case tb_branch_b r of
     None \<Rightarrow> [0..<Suc (tb_drafts_accepted r)]
   | Some b \<Rightarrow> 0 # [4..<4 + b])"

definition two_branch_good :: "(token list \<Rightarrow> token) \<Rightarrow> token list \<Rightarrow> token list \<Rightarrow> two_branch_accept \<Rightarrow> bool" where
  "two_branch_good nxt c rows r \<longleftrightarrow>
     tb_emitted r = greedy_run nxt (c @ [rows ! 0]) (Suc (tb_drafts_accepted r))
   \<and> tb_depth_consumed r = Suc (tb_drafts_accepted r)
   \<and> consumed_rows r ! tb_drafts_accepted r = tb_bonus_row r
   \<and> map ((!) rows) (consumed_rows r) = rows ! 0 # butlast (tb_emitted r)"

lemma length_6: "length xs = 6 \<longleftrightarrow> (\<exists>a b c d e f. xs = [a, b, c, d, e, f])"
  by (auto simp: numeral_eq_Suc length_Suc_conv)

lemma accept_two_branch_greedy:
  assumes "length rows = tree_row_count"
  shows "case accept_two_branch rows (two_branch_rows nxt c rows) of
      Inl e \<Rightarrow> False
    | Inr r \<Rightarrow> two_branch_good nxt c rows r"
proof -
  obtain x a1 a2 a3 b1 b2 where rows: "rows = [x, a1, a2, a3, b1, b2]"
    using assms by (auto simp: tree_row_count_def length_6)
  show ?thesis
    by (auto simp: accept_two_branch_def rows two_branch_rows_def two_branch_good_def consumed_rows_def
        branch_a_loop.simps branch_a_depth_def branch_b_first_row_def tree_row_count_def Let_def
        numeral_eq_Suc upt_rec)
qed

section \<open>Tracking acceptance\<close>

definition tracking_window :: nat where
  "tracking_window = 16"

definition tracking_low :: nat where
  "tracking_low = 55"

definition tracking_high :: nat where
  "tracking_high = 70"

record acceptance_tracking =
  tr_window :: "(nat \<times> nat) list"
  tr_cursor :: nat
  tr_len :: nat
  tr_accepted :: nat
  tr_drafted :: nat
  live_k :: nat
  k2_rounds :: nat
  k3_rounds :: nat
  switches :: nat

definition new_tracking :: acceptance_tracking where
  "new_tracking = \<lparr>tr_window = replicate tracking_window (0, 0), tr_cursor = 0, tr_len = 0,
     tr_accepted = 0, tr_drafted = 0, live_k = 3, k2_rounds = 0, k3_rounds = 0, switches = 0\<rparr>"

definition next_k :: "acceptance_tracking \<Rightarrow> nat \<times> acceptance_tracking" where
  "next_k t =
     (let k = (if tr_len t = length (tr_window t) then
          if tr_accepted t * 100 < tr_drafted t * tracking_low then 2
          else if tr_drafted t * tracking_high \<le> tr_accepted t * 100 then 3
          else live_k t
        else live_k t);
        t1 = t\<lparr>live_k := k, switches := switches t + (if live_k t \<noteq> k then 1 else 0)\<rparr>
      in (k, if k = 2 then t1\<lparr>k2_rounds := k2_rounds t1 + 1\<rparr> else t1\<lparr>k3_rounds := k3_rounds t1 + 1\<rparr>))"

definition record_round :: "nat \<Rightarrow> nat \<Rightarrow> acceptance_tracking \<Rightarrow> spec_error + acceptance_tracking" where
  "record_round acc dr t =
     (if \<not> (2 \<le> dr \<and> dr \<le> 3 \<and> acc \<le> dr) then Inl Panicked
      else let (old_accepted, old_drafted) = tr_window t ! tr_cursor t in
        Inr (t\<lparr>tr_accepted := tr_accepted t + acc - old_accepted,
          tr_drafted := tr_drafted t + dr - old_drafted,
          tr_window := (tr_window t)[tr_cursor t := (acc, dr)],
          tr_cursor := (tr_cursor t + 1) mod length (tr_window t),
          tr_len := min (tr_len t + 1) (length (tr_window t))\<rparr>))"

text \<open>
  The window against the history of all recorded rounds: read from the cursor on it is the last
  sixteen, oldest first, and the two sums are theirs.
\<close>

definition recent :: "(nat \<times> nat) list \<Rightarrow> (nat \<times> nat) list" where
  "recent h = drop (length h - tracking_window) h"

definition tracks_history :: "acceptance_tracking \<Rightarrow> (nat \<times> nat) list \<Rightarrow> bool" where
  "tracks_history t h \<longleftrightarrow>
     length (tr_window t) = tracking_window \<and> tr_cursor t < tracking_window
   \<and> rotate (tr_cursor t) (tr_window t) = replicate (tracking_window - length (recent h)) (0, 0) @ recent h
   \<and> tr_len t = length (recent h)
   \<and> tr_accepted t = sum_list (map fst (recent h)) \<and> tr_drafted t = sum_list (map snd (recent h))
   \<and> (live_k t = 2 \<or> live_k t = 3)"

lemma rotate_update:
  assumes "c < length w"
  shows "rotate (Suc c mod length w) (w[c := x]) = tl (rotate c w) @ [x]" "hd (rotate c w) = w ! c"
proof -
  have split: "w = take c w @ w ! c # drop (Suc c) w"
    using assms by (rule id_take_nth_drop)
  have drop: "drop c w = w ! c # drop (Suc c) w"
    using assms by (rule Cons_nth_drop_Suc [symmetric])
  show "hd (rotate c w) = w ! c"
    using assms by (simp add: rotate_drop_take drop)
  show "rotate (Suc c mod length w) (w[c := x]) = tl (rotate c w) @ [x]"
  proof (cases "Suc c = length w")
    case True
    then show ?thesis
      using assms by (simp add: rotate_drop_take drop upd_conv_take_nth_drop)
  next
    case False
    then show ?thesis
      using assms by (simp add: rotate_drop_take drop upd_conv_take_nth_drop)
  qed
qed

lemma new_tracking_history: "tracks_history new_tracking []"
  by (simp add: tracks_history_def new_tracking_def recent_def tracking_window_def)

lemma next_k_history: "tracks_history t h \<Longrightarrow> tracks_history (snd (next_k t)) h"
  by (auto simp: tracks_history_def next_k_def Let_def)

lemma recent_snoc:
  "recent (h @ [x]) = (if length h < tracking_window then recent h else tl (recent h)) @ [x]"
proof (cases "length h < tracking_window")
  case False
  then have "length h - 15 = Suc (length h - 16)"
    by (simp add: tracking_window_def)
  then show ?thesis
    using False by (simp add: recent_def tracking_window_def tl_drop drop_Suc)
qed (simp add: recent_def tracking_window_def)

lemma record_round_history:
  assumes t: "tracks_history t h" and ok: "2 \<le> dr" "dr \<le> 3" "acc \<le> dr"
  shows "case record_round acc dr t of Inl e \<Rightarrow> False | Inr t1 \<Rightarrow> tracks_history t1 (h @ [(acc, dr)])"
proof -
  let ?w = "tr_window t" and ?c = "tr_cursor t"
  have w: "?c < length ?w" "length ?w = tracking_window"
    and rot: "rotate ?c ?w = replicate (tracking_window - length (recent h)) (0, 0) @ recent h"
    using t by (auto simp: tracks_history_def)
  note step = rotate_update(1) [OF w(1), of "(acc, dr)"] rotate_update(2) [OF w(1)]
  have len: "length (recent h) = min (length h) tracking_window"
    by (simp add: recent_def)
  have old: "?w ! ?c = (if length h < tracking_window then (0, 0) else hd (recent h))"
    using step(2) rot len by (auto simp: tracking_window_def hd_append min_def split: if_splits)
  have rot1: "rotate (Suc ?c mod length ?w) (?w[?c := (acc, dr)])
      = replicate (tracking_window - length (recent (h @ [(acc, dr)]))) (0, 0) @ recent (h @ [(acc, dr)])"
  proof (cases "length h < tracking_window")
    case True
    then have "tracking_window - length h = Suc (tracking_window - Suc (length h))"
      by simp
    then show ?thesis
      unfolding step(1) rot recent_snoc using True len by simp
  next
    case False
    then have "length (recent h) = tracking_window" "recent h \<noteq> []"
      using len by (auto simp: tracking_window_def)
    then show ?thesis
      unfolding step(1) rot recent_snoc using False by (simp add: tracking_window_def)
  qed
  have sums: "sum_list (map f (recent (h @ [(acc, dr)])))
      = sum_list (map f (recent h)) + f (acc, dr) - f (?w ! ?c)" if "f (0, 0) = 0" for f :: "nat \<times> nat \<Rightarrow> nat"
  proof (cases "length h < tracking_window")
    case True
    then show ?thesis
      using old that by (simp add: recent_snoc)
  next
    case False
    then have "recent h \<noteq> []"
      using len by (auto simp: tracking_window_def)
    then show ?thesis
      using False old by (cases "recent h") (simp_all add: recent_snoc)
  qed
  obtain oa od where o: "?w ! ?c = (oa, od)"
    by fastforce
  have "length (recent (h @ [(acc, dr)])) = min (Suc (length (recent h))) tracking_window"
    by (simp add: recent_def tracking_window_def)
  then show ?thesis
    using t ok rot1 sums [of fst] sums [of snd] o w
    by (simp add: record_round_def tracks_history_def tracking_window_def)
qed

text \<open>The depth of the next chain, from the last sixteen rounds and the depth before.\<close>

lemma next_k_from_history:
  assumes "tracks_history t h"
  shows "fst (next_k t) =
     (let a = sum_list (map fst (recent h)); d = sum_list (map snd (recent h)) in
      if length h < tracking_window then live_k t
      else if a * 100 < d * tracking_low then 2
      else if d * tracking_high \<le> a * 100 then 3 else live_k t)"
  using assms by (auto simp: tracks_history_def next_k_def Let_def recent_def)

end
