(* ===== verification/Prefix_Reuse.thy ===== *)
theory Prefix_Reuse
  imports Prelude
begin

text \<open>
  Reusing the state a model kept for an earlier prompt, \<open>nv-models/src/prefix_reuse.rs\<close>: how far
  a ring of KV slots can be rewound and where a saved state may be resumed. Positions and slot
  counts are \<open>usize\<close> values, here natural numbers; \<open>usize_max\<close> stands for "no bound".
\<close>

section \<open>Rewinding a ring\<close>

definition ring_rewind_reserved_slots :: nat where
  "ring_rewind_reserved_slots = 1"

record rewind_limits =
  ring_slots :: nat
  window :: nat
  prefill_chunk :: nat
  positional_state_only :: bool

definition no_rewind :: rewind_limits where
  "no_rewind = \<lparr>ring_slots = 0, window = 0, prefill_chunk = 0, positional_state_only = False\<rparr>"

definition positional :: "nat \<Rightarrow> nat \<Rightarrow> nat \<Rightarrow> rewind_limits" where
  "positional slots w chunk =
     \<lparr>ring_slots = slots, window = w, prefill_chunk = chunk, positional_state_only = True\<rparr>"

definition max_advance :: "rewind_limits \<Rightarrow> nat option" where
  "max_advance l =
     (if \<not> positional_state_only l then None
      else if ring_slots l = 0 then Some usize_max
      else Some ((ring_slots l + 1) - (window l + ring_rewind_reserved_slots)))"

definition admits :: "rewind_limits \<Rightarrow> nat \<Rightarrow> nat \<Rightarrow> bool" where
  "admits l frontier target =
     (case max_advance l of
        None \<Rightarrow> False
      | Some mx \<Rightarrow>
          if target = 0 \<or> frontier < target \<or> mx < frontier - target then False
          else prefill_chunk l = 0 \<or> prefill_chunk l dvd target)"

definition admits_from_high_water :: "rewind_limits \<Rightarrow> nat \<Rightarrow> nat \<Rightarrow> nat \<Rightarrow> bool" where
  "admits_from_high_water l frontier high_water target \<longleftrightarrow>
     target \<le> frontier \<and> admits l (max frontier high_water) target"

definition rewind_target :: "rewind_limits \<Rightarrow> nat \<Rightarrow> nat \<Rightarrow> nat option" where
  "rewind_target l frontier lcp =
     (let target = (if prefill_chunk l = 0 then lcp else lcp - lcp mod prefill_chunk l) in
      if admits l frontier target then Some target else None)"

text \<open>
  The ring after the positions below the frontier were written, each into the slot of its
  remainder: the position a slot holds.
\<close>

definition ring_holds :: "nat \<Rightarrow> nat \<Rightarrow> nat \<Rightarrow> nat option" where
  "ring_holds slots frontier s = foldl (\<lambda>held p. if p mod slots = s then Some p else held) None [0..<frontier]"

lemma ring_holds_recent:
  assumes "p < frontier" "frontier \<le> p + slots"
  shows "ring_holds slots frontier (p mod slots) = Some p"
  using assms
proof (induction frontier)
  case (Suc n)
  show ?case
  proof (cases "p = n")
    case True
    then show ?thesis
      by (simp add: ring_holds_def)
  next
    case False
    then have "p < n" "n < p + slots"
      using Suc.prems by auto
    then have "n mod slots \<noteq> p mod slots"
      by (metis add_less_cancel_left le_add_diff_inverse less_imp_le mod_eq_dvd_iff_nat nat_dvd_not_less zero_less_diff)
    then show ?thesis
      using Suc.IH \<open>p < n\<close> \<open>n < p + slots\<close> by (simp add: ring_holds_def)
  qed
qed simp

text \<open>After an admitted rewind every position the attention window needs is still in the ring.\<close>

lemma admits_window_kept:
  assumes "admits l (max frontier high_water) target" "0 < ring_slots l" "window l \<le> ring_slots l"
    and "p < target" "target \<le> p + window l"
  shows "ring_holds (ring_slots l) (max frontier high_water) (p mod ring_slots l) = Some p"
proof (rule ring_holds_recent)
  have "max frontier high_water - target \<le> ring_slots l - window l" "target \<le> max frontier high_water"
    using assms(1,2) by (auto simp: admits_def max_advance_def ring_rewind_reserved_slots_def split: if_splits option.splits)
  then show "p < max frontier high_water" "max frontier high_water \<le> p + ring_slots l"
    using assms(3-5) by linarith+
qed

lemma rewind_target_admitted:
  "rewind_target l frontier lcp = Some t \<Longrightarrow> t \<le> lcp \<and> 0 < t \<and> t \<le> frontier \<and> admits l frontier t"
  by (auto simp: rewind_target_def admits_def Let_def split: if_splits option.splits)

section \<open>Saved states\<close>

fun common_prefix_len :: "token list \<Rightarrow> token list \<Rightarrow> nat" where
  "common_prefix_len (x # xs) (y # ys) = (if x = y then Suc (common_prefix_len xs ys) else 0)"
| "common_prefix_len _ _ = 0"

definition exact_extend_target :: "nat \<Rightarrow> nat \<Rightarrow> nat \<Rightarrow> nat option" where
  "exact_extend_target frontier lcp live_pos =
     (if 0 < frontier \<and> frontier \<le> lcp \<and> live_pos = frontier then Some frontier else None)"

definition saved_state_resume_point :: "nat list \<Rightarrow> token list \<Rightarrow> token list \<Rightarrow> nat" where
  "saved_state_resume_point positions prev prompt =
     (let lcp = common_prefix_len prev prompt in
      case find (\<lambda>p. p < lcp) (rev positions) of Some p \<Rightarrow> p | None \<Rightarrow> 0)"

definition session_source :: "nat \<Rightarrow> nat \<times> nat \<Rightarrow> nat" where
  "session_source home reusable = (if home = 1 \<and> snd reusable < fst reusable then 0 else home)"

lemma common_prefix_take: "n \<le> common_prefix_len xs ys \<Longrightarrow> take n xs = take n ys"
proof (induction xs ys arbitrary: n rule: common_prefix_len.induct)
  case (1 x xs y ys)
  then show ?case
    by (cases n) (auto split: if_splits)
qed auto

lemma common_prefix_le: "common_prefix_len xs ys \<le> length xs \<and> common_prefix_len xs ys \<le> length ys"
  by (induction xs ys rule: common_prefix_len.induct) auto

lemma common_prefix_geI:
  "take n xs = take n ys \<Longrightarrow> n \<le> length xs \<Longrightarrow> n \<le> length ys \<Longrightarrow> n \<le> common_prefix_len xs ys"
proof (induction xs ys arbitrary: n rule: common_prefix_len.induct)
  case (1 x xs y ys)
  then show ?case
    by (cases n) auto
qed auto

lemma less_common_prefix:
  "p < common_prefix_len xs ys \<longleftrightarrow> p < length xs \<and> p < length ys \<and> take (Suc p) xs = take (Suc p) ys"
  using common_prefix_take [of "Suc p" xs ys] common_prefix_le [of xs ys] common_prefix_geI [of "Suc p" xs ys]
  by (auto simp: Suc_le_eq)

lemma resume_point_one:
  "saved_state_resume_point [pos] prev prompt = (if pos < common_prefix_len prev prompt then pos else 0)"
  by (simp add: saved_state_resume_point_def Let_def)

end
