(* ===== verification/Checkpoint_Lru.thy ===== *)
theory Checkpoint_Lru
  imports Prefix_Reuse
begin

text \<open>
  The checkpoints kept for prompts that share a prefix, \<open>nv-models/src/laguna_prefix.rs\<close>: a
  queue bounded by a number of entries and by the bytes it retains, where several entries may
  share one allocation that counts once. A checked addition that overflows is \<^term>\<open>None\<close>.

  The state of an entry is a value of any type; \<open>shared_allocation\<close> reads the identity and the
  size of the allocation it shares. The capacity of a vector of tokens is at least its length
  and otherwise up to the allocator: it is a field of the entry and an argument of the
  operations that receive or copy a vector. The closures \<open>make_state\<close>, \<open>make_allocation\<close> and
  \<open>attach\<close> are arguments. Reading the bounds from the environment is left out.
\<close>

section \<open>Positions\<close>

definition checkpoint_position :: "nat \<Rightarrow> nat \<Rightarrow> nat" where
  "checkpoint_position n chunk = (if n = 0 \<or> chunk = 0 then 0 else (n - 1) div chunk * chunk)"

definition prepared_len :: "nat \<Rightarrow> nat \<Rightarrow> nat \<Rightarrow> nat \<Rightarrow> nat option" where
  "prepared_len w cap next_m stored =
     Option.bind (checked_add stored next_m) (\<lambda>total.
       if total \<le> cap then Some total
       else Option.bind (checked_add (min stored w) next_m) (\<lambda>total.
         if total \<le> cap then Some total else None))"

definition checkpoint_preserves_sliding_layout :: "nat \<Rightarrow> nat \<Rightarrow> nat \<Rightarrow> nat \<Rightarrow> nat \<Rightarrow> bool" where
  "checkpoint_preserves_sliding_layout p chunk w max_seq next_m =
     (if chunk \<notin> {256, 512, 1024, 2048} \<or> p = 0 \<or> \<not> chunk dvd p \<or> w = 0 \<or> next_m = 0
         \<or> chunk < next_m then False
      else case map_option (\<lambda>cap. min cap max_seq) (checked_add w chunk) of
        None \<Rightarrow> False
      | Some cap \<Rightarrow>
          (case checked_add p next_m of
             None \<Rightarrow> False
           | Some end_pos \<Rightarrow>
               if max_seq < end_pos then False
               else case (prepared_len w cap next_m (min p cap), prepared_len w cap next_m (min p w)) of
                 (Some cold, Some restored) \<Rightarrow> cold = restored
               | _ \<Rightarrow> False))"

section \<open>The queue\<close>

record 's kv_checkpoint =
  ck_id :: nat
  ck_tokens :: "token list"
  ck_capacity :: nat
  ck_pos :: nat
  ck_bytes :: nat
  ck_state :: 's

record hit =
  hit_id :: nat
  hit_pos :: nat

record 's checkpoint_lru =
  queue :: "'s kv_checkpoint list"
  max_entries :: nat
  max_bytes :: nat
  next_id :: nat
  shared_allocation :: "'s \<Rightarrow> (nat \<times> nat) option"

definition with_shared_allocation :: "nat \<Rightarrow> nat \<Rightarrow> ('s \<Rightarrow> (nat \<times> nat) option) \<Rightarrow> 's checkpoint_lru" where
  "with_shared_allocation n b sa =
     \<lparr>queue = [], max_entries = n, max_bytes = b, next_id = 1, shared_allocation = sa\<rparr>"

definition new_checkpoint_lru :: "nat \<Rightarrow> nat \<Rightarrow> 's checkpoint_lru" where
  "new_checkpoint_lru n b = with_shared_allocation n b (\<lambda>s. None)"

definition token_vec_bytes :: "nat \<Rightarrow> nat option" where
  "token_vec_bytes capacity = checked_mul capacity 4"

section \<open>What is retained\<close>

fun previous_share :: "('s \<Rightarrow> (nat \<times> nat) option) \<Rightarrow> nat \<Rightarrow> 's kv_checkpoint list \<Rightarrow> nat option" where
  "previous_share sa ident [] = None"
| "previous_share sa ident (e # es) = (case sa (ck_state e) of
     Some (other, b) \<Rightarrow> if other = ident then Some b else previous_share sa ident es
   | None \<Rightarrow> previous_share sa ident es)"

fun retain_loop ::
  "('s \<Rightarrow> (nat \<times> nat) option) \<Rightarrow> ('s kv_checkpoint \<Rightarrow> bool) \<Rightarrow> 's kv_checkpoint list \<Rightarrow> 's kv_checkpoint list
     \<Rightarrow> nat \<Rightarrow> nat option" where
  "retain_loop sa keep before [] acc = Some acc"
| "retain_loop sa keep before (e # es) acc =
     (if \<not> keep e then retain_loop sa keep (before @ [e]) es acc
      else
        Option.bind (checked_add acc (ck_bytes e)) (\<lambda>acc.
        Option.bind (token_vec_bytes (ck_capacity e)) (\<lambda>tb.
        Option.bind (checked_add acc tb) (\<lambda>acc.
          case sa (ck_state e) of
            None \<Rightarrow> retain_loop sa keep (before @ [e]) es acc
          | Some (ident, b) \<Rightarrow>
              (case previous_share sa ident (filter keep before) of
                 Some previous_bytes \<Rightarrow>
                   if previous_bytes \<noteq> b then None else retain_loop sa keep (before @ [e]) es acc
               | None \<Rightarrow> Option.bind (checked_add acc b) (retain_loop sa keep (before @ [e]) es))))))"

definition retained_bytes :: "('s kv_checkpoint \<Rightarrow> bool) \<Rightarrow> 's checkpoint_lru \<Rightarrow> nat option" where
  "retained_bytes keep lru = retain_loop (shared_allocation lru) keep [] (queue lru) 0"

definition lru_bytes :: "'s checkpoint_lru \<Rightarrow> nat" where
  "lru_bytes lru = (case retained_bytes (\<lambda>e. True) lru of Some n \<Rightarrow> n | None \<Rightarrow> usize_max)"

fun additional_loop :: "('s \<Rightarrow> (nat \<times> nat) option) \<Rightarrow> nat \<Rightarrow> nat \<Rightarrow> nat \<Rightarrow> 's kv_checkpoint list \<Rightarrow> nat option" where
  "additional_loop sa ident b additional [] = Some additional"
| "additional_loop sa ident b additional (e # es) = (case sa (ck_state e) of
     Some (other, other_bytes) \<Rightarrow>
       if other = ident then if other_bytes \<noteq> b then None else additional_loop sa ident b 0 es
       else additional_loop sa ident b additional es
   | None \<Rightarrow> additional_loop sa ident b additional es)"

definition additional_shared_bytes :: "'s \<Rightarrow> 's checkpoint_lru \<Rightarrow> nat option" where
  "additional_shared_bytes s lru = (case shared_allocation lru s of
     None \<Rightarrow> Some 0
   | Some (ident, b) \<Rightarrow> additional_loop (shared_allocation lru) ident b b (queue lru))"

definition get_checkpoint :: "nat \<Rightarrow> 's checkpoint_lru \<Rightarrow> 's kv_checkpoint option" where
  "get_checkpoint i lru = find (\<lambda>e. ck_id e = i) (queue lru)"

definition within_bytes :: "nat option \<Rightarrow> nat \<Rightarrow> nat \<Rightarrow> bool" where
  "within_bytes retained extra limit \<longleftrightarrow>
     (case Option.bind retained (\<lambda>n. checked_add n extra) of Some n \<Rightarrow> n \<le> limit | None \<Rightarrow> False)"

definition within_count :: "nat \<Rightarrow> nat \<Rightarrow> nat \<Rightarrow> bool" where
  "within_count present extra limit \<longleftrightarrow> (case checked_add present extra of Some n \<Rightarrow> n \<le> limit | None \<Rightarrow> False)"

definition can_admit :: "nat \<Rightarrow> nat \<Rightarrow> nat list \<Rightarrow> 's checkpoint_lru \<Rightarrow> bool" where
  "can_admit extra_entries extra_bytes protected lru =
     (if max_entries lru = 0 \<or> list_ex (\<lambda>i. get_checkpoint i lru = None) protected then False
      else within_count (length (filter (\<lambda>e. ck_id e \<in> set protected) (queue lru))) extra_entries (max_entries lru)
        \<and> within_bytes (retained_bytes (\<lambda>e. ck_id e \<in> set protected) lru) extra_bytes (max_bytes lru))"

definition fits :: "nat \<Rightarrow> nat \<Rightarrow> 's checkpoint_lru \<Rightarrow> bool" where
  "fits extra_entries extra_bytes lru \<longleftrightarrow>
     within_count (length (queue lru)) extra_entries (max_entries lru)
   \<and> within_bytes (retained_bytes (\<lambda>e. True) lru) extra_bytes (max_bytes lru)"

section \<open>Operations\<close>

definition remove_checkpoint :: "nat \<Rightarrow> 's checkpoint_lru \<Rightarrow> 's kv_checkpoint option \<times> 's checkpoint_lru" where
  "remove_checkpoint i lru = (case position (\<lambda>e. ck_id e = i) (queue lru) of
     None \<Rightarrow> (None, lru)
   | Some k \<Rightarrow> (Some (queue lru ! k), lru\<lparr>queue := remove_at k (queue lru)\<rparr>))"

text \<open>The loop of \<open>make_room\<close>; \<^term>\<open>False\<close> when only protected entries are left.\<close>

function drop_until_fits ::
  "nat \<Rightarrow> nat \<Rightarrow> nat list \<Rightarrow> 's checkpoint_lru \<Rightarrow> bool \<times> 's checkpoint_lru" where
  "drop_until_fits n b protected lru =
     (if fits n b lru then (True, lru)
      else case position (\<lambda>e. ck_id e \<notin> set protected) (queue lru) of
        None \<Rightarrow> (False, lru)
      | Some i \<Rightarrow> drop_until_fits n b protected (lru\<lparr>queue := remove_at i (queue lru)\<rparr>))"
  by pat_completeness auto
termination
  by (relation "measure (\<lambda>(n, b, protected, lru). length (queue lru))")
    (auto dest: position_less simp: length_remove_at)

declare drop_until_fits.simps [simp del]

definition make_room ::
  "nat \<Rightarrow> nat \<Rightarrow> nat list \<Rightarrow> nat option \<Rightarrow> 's checkpoint_lru \<Rightarrow> bool \<times> 's checkpoint_lru" where
  "make_room n b protected replace lru =
     (if (case replace of Some i \<Rightarrow> i \<in> set protected | None \<Rightarrow> False) \<or> \<not> can_admit n b protected lru
      then (False, lru)
      else drop_until_fits n b protected
        (case replace of Some i \<Rightarrow> snd (remove_checkpoint i lru) | None \<Rightarrow> lru))"

fun select_loop ::
  "token list \<Rightarrow> ('s kv_checkpoint \<Rightarrow> bool) \<Rightarrow> 's kv_checkpoint list \<Rightarrow> hit option \<Rightarrow> hit option" where
  "select_loop prompt eligible [] best = best"
| "select_loop prompt eligible (e # es) best =
     (if ck_pos e = 0 \<or> length (ck_tokens e) < ck_pos e \<or> length prompt \<le> ck_pos e \<or> \<not> eligible e then
        select_loop prompt eligible es best
      else if (case best of Some h \<Rightarrow> ck_pos e < hit_pos h | None \<Rightarrow> False)
          \<or> common_prefix_len (ck_tokens e) prompt < ck_pos e then
        select_loop prompt eligible es best
      else select_loop prompt eligible es (Some \<lparr>hit_id = ck_id e, hit_pos = ck_pos e\<rparr>))"

definition select_where :: "token list \<Rightarrow> ('s kv_checkpoint \<Rightarrow> bool) \<Rightarrow> 's checkpoint_lru \<Rightarrow> hit option" where
  "select_where prompt eligible lru = select_loop prompt eligible (queue lru) None"

definition touch_checkpoint :: "nat \<Rightarrow> 's checkpoint_lru \<Rightarrow> 's checkpoint_lru" where
  "touch_checkpoint i lru = (case remove_checkpoint i lru of
     (Some e, lru1) \<Rightarrow> lru1\<lparr>queue := queue lru1 @ [e]\<rparr>
   | (None, lru1) \<Rightarrow> lru1)"

text \<open>\<open>next_id\<close> is a \<open>u64\<close>, whose largest value is that of \<open>usize\<close>.\<close>

definition push_checkpoint ::
  "token list \<Rightarrow> nat \<Rightarrow> nat \<Rightarrow> nat \<Rightarrow> 's \<Rightarrow> 's checkpoint_lru \<Rightarrow> nat option \<times> 's checkpoint_lru" where
  "push_checkpoint ts capacity p b s lru =
     (let i = next_id lru in case checked_add (next_id lru) 1 of
        None \<Rightarrow> (None, lru)
      | Some nid \<Rightarrow> (Some i, lru\<lparr>next_id := nid, queue := queue lru @
          [\<lparr>ck_id = i, ck_tokens = ts, ck_capacity = capacity, ck_pos = p, ck_bytes = b, ck_state = s\<rparr>]\<rparr>))"

text \<open>\<open>while !fits(..) { pop_front()? }\<close>; \<^term>\<open>None\<close> is the early return.\<close>

function pop_until_fits :: "nat \<Rightarrow> 's \<Rightarrow> 's checkpoint_lru \<Rightarrow> bool \<times> 's checkpoint_lru" where
  "pop_until_fits priv s lru =
     (case Option.bind (additional_shared_bytes s lru) (checked_add priv) of
        None \<Rightarrow> (False, lru)
      | Some n \<Rightarrow>
          if fits 1 n lru then (True, lru)
          else if queue lru = [] then (False, lru)
          else pop_until_fits priv s (lru\<lparr>queue := tl (queue lru)\<rparr>))"
  by pat_completeness auto
termination
  by (relation "measure (\<lambda>(priv, s, lru). length (queue lru))") auto

declare pop_until_fits.simps [simp del]

definition same_checkpoint :: "token list \<Rightarrow> nat \<Rightarrow> 's checkpoint_lru \<Rightarrow> nat option" where
  "same_checkpoint ts p lru = map_option ck_id (find (\<lambda>e. ck_pos e = p \<and> ck_tokens e = ts) (queue lru))"

definition drop_same :: "token list \<Rightarrow> nat \<Rightarrow> 's checkpoint_lru \<Rightarrow> 's checkpoint_lru" where
  "drop_same ts p lru = (case same_checkpoint ts p lru of
     Some i \<Rightarrow> snd (remove_checkpoint i lru)
   | None \<Rightarrow> lru)"

definition insert_checkpoint ::
  "token list \<Rightarrow> nat \<Rightarrow> nat \<Rightarrow> nat \<Rightarrow> 's \<Rightarrow> 's checkpoint_lru \<Rightarrow> nat option \<times> 's checkpoint_lru" where
  "insert_checkpoint ts capacity p b s lru =
     (if p = 0 \<or> length ts < p \<or> max_entries lru = 0 \<or> next_id lru = usize_max then (None, lru)
      else case Option.bind (token_vec_bytes capacity) (checked_add b) of
        None \<Rightarrow> (None, lru)
      | Some priv \<Rightarrow>
          (case checked_add priv (case shared_allocation lru s of Some (_, sb) \<Rightarrow> sb | None \<Rightarrow> 0) of
             None \<Rightarrow> (None, lru)
           | Some whole \<Rightarrow>
               if max_bytes lru < whole \<or> additional_shared_bytes s lru = None then (None, lru)
               else
                 let (ok, lru2) = pop_until_fits priv s (drop_same ts p lru)
                 in if ok then push_checkpoint ts capacity p b s lru2 else (None, lru2)))"

text \<open>\<open>capacity\<close> is the one of the copied vector; \<open>make_state\<close> the result of the closure.\<close>

definition insert_with ::
  "token list \<Rightarrow> nat \<Rightarrow> nat \<Rightarrow> nat \<Rightarrow> nat list \<Rightarrow> 'err + ('s \<times> nat) \<Rightarrow> 's checkpoint_lru
     \<Rightarrow> ('err + nat option) \<times> 's checkpoint_lru" where
  "insert_with ts capacity p reserved_private protected make_state lru =
     (case Option.bind (token_vec_bytes (length ts)) (\<lambda>n. checked_add n reserved_private) of
        None \<Rightarrow> (Inr None, lru)
      | Some reserved \<Rightarrow>
          if p = 0 \<or> length ts < p \<or> next_id lru = usize_max then (Inr None, lru)
          else let (ok, lru1) = make_room 1 reserved protected (same_checkpoint ts p lru) lru in
            if \<not> ok then (Inr None, lru1)
            else case make_state of
              Inl err \<Rightarrow> (Inl err, lru1)
            | Inr (s, actual_private) \<Rightarrow>
                if reserved_private < actual_private then (Inr None, lru1)
                else case Option.bind (Option.bind (token_vec_bytes capacity) (\<lambda>n. checked_add n actual_private))
                    (\<lambda>n. Option.bind (additional_shared_bytes s lru1) (checked_add n)) of
                  None \<Rightarrow> (Inr None, lru1)
                | Some n \<Rightarrow>
                    if n \<le> reserved \<and> fits 1 n lru1 then
                      let (r, lru2) = push_checkpoint ts capacity p actual_private s lru1 in (Inr r, lru2)
                    else (Inr None, lru1))"

text \<open>\<open>attach\<close> called on the state of every protected entry.\<close>

definition attach_all ::
  "nat list \<Rightarrow> (nat \<Rightarrow> 's \<Rightarrow> 'a \<Rightarrow> 's) \<Rightarrow> 'a \<Rightarrow> 's kv_checkpoint list \<Rightarrow> 's kv_checkpoint list" where
  "attach_all protected attach a q = map (\<lambda>e. if ck_id e \<in> set protected
     then e\<lparr>ck_state := attach (ck_id e) (ck_state e) a\<rparr> else e) q"

definition attach_with ::
  "nat list \<Rightarrow> nat \<Rightarrow> 'err + ('a \<times> nat) \<Rightarrow> (nat \<Rightarrow> 's \<Rightarrow> 'a \<Rightarrow> 's) \<Rightarrow> 's checkpoint_lru
     \<Rightarrow> ('err + bool) \<times> 's checkpoint_lru" where
  "attach_with protected reserved_shared make_allocation attach lru =
     (if protected = [] then (Inr False, lru)
      else let (ok, lru1) = make_room 0 reserved_shared protected None lru in
        if \<not> ok then (Inr False, lru1)
        else let before = lru_bytes lru1 in
          case make_allocation of
            Inl err \<Rightarrow> (Inl err, lru1)
          | Inr (allocation, actual_shared) \<Rightarrow>
              if reserved_shared < actual_shared then (Inr False, lru1)
              else
                let lru2 = lru1\<lparr>queue := attach_all protected attach allocation (queue lru1)\<rparr>;
                  valid = (case retained_bytes (\<lambda>e. True) lru2 of
                      None \<Rightarrow> False
                    | Some after \<Rightarrow> after \<le> max_bytes lru2
                        \<and> (case checked_add before actual_shared of Some n \<Rightarrow> after \<le> n | None \<Rightarrow> False))
                in (Inr valid, if valid then lru2
                   else lru2\<lparr>queue := filter (\<lambda>e. ck_id e \<notin> set protected) (queue lru2)\<rparr>))"

definition grow :: "nat \<Rightarrow> nat \<Rightarrow> 's checkpoint_lru \<Rightarrow> bool \<times> 's checkpoint_lru" where
  "grow i extra lru =
     (case Option.bind (get_checkpoint i lru) (\<lambda>e. checked_add (ck_bytes e) extra) of
        None \<Rightarrow> (False, snd (remove_checkpoint i lru))
      | Some b \<Rightarrow>
          let (ok, lru1) = make_room 0 extra [i] None lru in
          if \<not> ok then (False, snd (remove_checkpoint i lru1))
          else (True, (case position (\<lambda>e. ck_id e = i) (queue lru1) of
              Some k \<Rightarrow> lru1\<lparr>queue := (queue lru1)[k := (queue lru1 ! k)\<lparr>ck_bytes := b\<rparr>]\<rparr>
            | None \<Rightarrow> lru1)))"

end
