(* ===== verification/Checkpoint_Facts.thy ===== *)
theory Checkpoint_Facts
  imports Checkpoint_Lru "HOL-Library.Sublist"
begin

text \<open>
  The bytes a queue of checkpoints retains as a sum, and what the operations keep: the bounds on
  entries and bytes, distinct identities, positions inside their tokens, and the protected
  entries.
\<close>

section \<open>The cost of a queue\<close>

definition priv_bytes :: "'s kv_checkpoint \<Rightarrow> nat" where
  "priv_bytes e = ck_bytes e + ck_capacity e * 4"

definition shares :: "('s \<Rightarrow> (nat \<times> nat) option) \<Rightarrow> 's kv_checkpoint list \<Rightarrow> (nat \<times> nat) set" where
  "shares sa es = {p. \<exists>e\<in>set es. sa (ck_state e) = Some p}"

definition consistent :: "('s \<Rightarrow> (nat \<times> nat) option) \<Rightarrow> 's kv_checkpoint list \<Rightarrow> bool" where
  "consistent sa es \<longleftrightarrow> (\<forall>i b c. (i, b) \<in> shares sa es \<longrightarrow> (i, c) \<in> shares sa es \<longrightarrow> b = c)"

definition cost :: "('s \<Rightarrow> (nat \<times> nat) option) \<Rightarrow> 's kv_checkpoint list \<Rightarrow> nat" where
  "cost sa es = sum_by priv_bytes es + sum snd (shares sa es)"

lemma shares_simps [simp]:
  "shares sa [] = {}"
  "shares sa (e # es) = set_option (sa (ck_state e)) \<union> shares sa es"
  "shares sa (es @ ds) = shares sa es \<union> shares sa ds"
  by (auto simp: shares_def)

lemma finite_shares [simp]: "finite (shares sa es)"
  by (induction es) auto

lemma consistentD: "consistent sa es \<Longrightarrow> (i, b) \<in> shares sa es \<Longrightarrow> (i, c) \<in> shares sa es \<Longrightarrow> b = c"
  unfolding consistent_def by blast

lemma consistent_Nil [simp]: "consistent sa []"
  by (simp add: consistent_def)

lemma cost_Nil [simp]: "cost sa [] = 0"
  by (simp add: cost_def)

lemma consistent_mono: "shares sa es \<subseteq> shares sa ds \<Longrightarrow> consistent sa ds \<Longrightarrow> consistent sa es"
  unfolding consistent_def by blast

lemma cost_snoc:
  "cost sa (es @ [e]) = cost sa es + priv_bytes e
     + (case sa (ck_state e) of None \<Rightarrow> 0 | Some p \<Rightarrow> if p \<in> shares sa es then 0 else snd p)"
proof (cases "sa (ck_state e)")
  case (Some p)
  then show ?thesis
    by (cases "p \<in> shares sa es") (simp_all add: cost_def insert_absorb)
qed (simp add: cost_def)

lemma cost_append_le: "cost sa es \<le> cost sa (es @ ds)"
proof -
  have "sum snd (shares sa es) \<le> sum snd (shares sa (es @ ds))"
    by (rule sum_mono2) auto
  then show ?thesis
    by (simp add: cost_def)
qed

lemma subseq_facts:
  assumes "subseq xs ys"
  shows "set xs \<subseteq> set ys" "sum_by (f :: 'a \<Rightarrow> nat) xs \<le> sum_by f ys"
    "distinct (map g ys) \<Longrightarrow> distinct (map g xs)"
  using assms
  by (induction xs ys rule: list_emb.induct) auto

lemma subseq_remove_at: "subseq (remove_at i xs) xs"
proof -
  have "subseq (take i xs @ drop (Suc i) xs) (take i xs @ drop i xs)"
    using suffix_imp_subseq [OF suffix_drop [of 1 "drop i xs"]] by (intro list_emb_append_mono) simp_all
  then show ?thesis
    by (simp add: remove_at_def)
qed

lemma cost_subseq:
  assumes "subseq es ds" "consistent sa ds"
  shows "consistent sa es" "cost sa es \<le> cost sa ds"
proof -
  have "shares sa es \<subseteq> shares sa ds"
    using subseq_facts(1) [OF assms(1)] by (auto simp: shares_def)
  then show "consistent sa es" "cost sa es \<le> cost sa ds"
    using assms consistent_mono subseq_facts(2) [OF assms(1)]
    by (auto simp: cost_def intro!: add_mono sum_mono2)
qed

section \<open>The loops compute it\<close>

lemma previous_share_exact:
  "consistent sa es \<Longrightarrow> previous_share sa i es = Some b \<longleftrightarrow> (i, b) \<in> shares sa es"
proof (induction es)
  case (Cons e es)
  have "consistent sa es"
    using consistent_mono [of sa es "e # es"] Cons.prems by auto
  note IH = Cons.IH [OF this]
  show ?case
  proof (cases "sa (ck_state e)")
    case (Some p)
    obtain j d where p: "p = (j, d)"
      by (cases p)
    have "(i, b) \<in> shares sa es \<Longrightarrow> j = i \<Longrightarrow> d = b"
      using consistentD [OF Cons.prems, of i d b] Some p by simp
    then show ?thesis
      using IH Some p by auto
  qed (simp add: IH)
qed simp

lemma retain_loop_keep:
  "retain_loop sa keep before es t = retain_loop sa (\<lambda>e. True) (filter keep before) (filter keep es) t"
proof (induction es arbitrary: before t)
  case (Cons e es)
  then show ?case
    by (cases "keep e") (auto intro!: Option.bind_cong split: option.split prod.split)
qed simp

lemma retain_loop_cost:
  assumes "consistent sa before" "cost sa before \<le> usize_max"
  shows "retain_loop sa (\<lambda>e. True) before es (cost sa before)
    = (if consistent sa (before @ es) \<and> cost sa (before @ es) \<le> usize_max
       then Some (cost sa (before @ es)) else None)"
  using assms
proof (induction es arbitrary: before)
  case (Cons e es)
  let ?B = "before @ [e]"
  have whole: "before @ e # es = ?B @ es"
    by simp
  have le: "cost sa ?B \<le> cost sa (?B @ es)" "cost sa before + priv_bytes e \<le> cost sa ?B"
    using cost_append_le [of sa ?B es] by (simp_all only: cost_snoc le_add1)
  have part: "consistent sa (?B @ es) \<Longrightarrow> consistent sa ?B"
    by (rule consistent_mono) auto
  have IH: "retain_loop sa (\<lambda>e. True) ?B es (cost sa ?B) = (if consistent sa (?B @ es) \<and> cost sa (?B @ es) \<le> usize_max
      then Some (cost sa (?B @ es)) else None)" if "consistent sa ?B" "cost sa ?B \<le> usize_max"
    by (rule Cons.IH [OF that])
  show ?case
  proof (cases "cost sa before + priv_bytes e \<le> usize_max")
    case False
    then show ?thesis
      using le unfolding whole
      by (auto simp: checked_add_def token_vec_bytes_def checked_mul_def priv_bytes_def add.assoc)
  next
    case True
    then have sums: "checked_add (cost sa before) (ck_bytes e) = Some (cost sa before + ck_bytes e)"
      "token_vec_bytes (ck_capacity e) = Some (ck_capacity e * 4)"
      "checked_add (cost sa before + ck_bytes e) (ck_capacity e * 4) = Some (cost sa before + priv_bytes e)"
      by (auto simp: checked_add_def token_vec_bytes_def checked_mul_def priv_bytes_def)
    show ?thesis
    proof (cases "sa (ck_state e)")
      case None
      then have "cost sa ?B = cost sa before + priv_bytes e" "consistent sa ?B"
        using Cons.prems(1) by (auto simp: cost_snoc consistent_def)
      then show ?thesis
        using IH True None sums unfolding whole by simp
    next
      case (Some p)
      obtain i b where p: "p = (i, b)"
        by (cases p)
      show ?thesis
      proof (cases "previous_share sa i before")
        case None
        then have new: "(i, c) \<notin> shares sa before" for c
          using previous_share_exact [OF Cons.prems(1), of i c] by simp
        then have c: "cost sa ?B = cost sa before + priv_bytes e + b" "consistent sa ?B"
          using Some p Cons.prems(1) by (auto simp: cost_snoc consistent_def)
        show ?thesis
        proof (cases "cost sa ?B \<le> usize_max")
          case True
          then show ?thesis
            using IH [OF c(2) True] Some p None sums c(1) unfolding whole by (simp add: checked_add_def)
        next
          case False
          then show ?thesis
            using Some p None sums c(1) le(1) unfolding whole by (simp add: checked_add_def)
        qed
      next
        case prev: (Some d)
        then have d: "(i, d) \<in> shares sa before"
          using previous_share_exact [OF Cons.prems(1)] by simp
        show ?thesis
        proof (cases "d = b")
          case True
          then have "cost sa ?B = cost sa before + priv_bytes e" "consistent sa ?B"
            using Some p d Cons.prems(1) by (auto simp: cost_snoc consistent_def)
          then show ?thesis
            using IH \<open>cost sa before + priv_bytes e \<le> usize_max\<close> Some p prev sums True unfolding whole by simp
        next
          case False
          then have "\<not> consistent sa (?B @ es)"
            using d Some p by (auto simp: consistent_def)
          then show ?thesis
            using Some p prev sums False unfolding whole by simp
        qed
      qed
    qed
  qed
qed simp

lemma retained_exact:
  "retained_bytes keep lru = (let es = filter keep (queue lru); sa = shared_allocation lru in
     if consistent sa es \<and> cost sa es \<le> usize_max then Some (cost sa es) else None)"
  using retain_loop_cost [of "shared_allocation lru" "[]" "filter keep (queue lru)"]
  by (simp add: retained_bytes_def retain_loop_keep [of _ keep] Let_def)

text \<open>Some entry gives the allocation \<open>i\<close> another size than \<open>b\<close>.\<close>

definition clash :: "('s \<Rightarrow> (nat \<times> nat) option) \<Rightarrow> 's kv_checkpoint list \<Rightarrow> nat \<Rightarrow> nat \<Rightarrow> bool" where
  "clash sa es i b \<longleftrightarrow> (\<exists>c. (i, c) \<in> shares sa es \<and> c \<noteq> b)"

lemma clash_Nil: "\<not> clash sa [] i b"
  by (simp add: clash_def)

lemma clash_Cons: "clash sa (e # es) i b \<longleftrightarrow> (\<exists>c. sa (ck_state e) = Some (i, c) \<and> c \<noteq> b) \<or> clash sa es i b"
  unfolding clash_def shares_simps by (cases "sa (ck_state e)") auto

lemma clash_consistent: "consistent sa es \<Longrightarrow> (i, b) \<in> shares sa es \<Longrightarrow> \<not> clash sa es i b"
  unfolding clash_def consistent_def by blast

lemma additional_loop_exact:
  "consistent sa es \<Longrightarrow> additional_loop sa i b x es =
     (if clash sa es i b then None else if (i, b) \<in> shares sa es then Some 0 else Some x)"
proof (induction es arbitrary: x)
  case Nil
  then show ?case
    by (simp add: clash_Nil)
next
  case (Cons e es)
  have "consistent sa es"
    using consistent_mono [of sa es "e # es"] Cons.prems by auto
  note IH = Cons.IH [OF this]
  consider "\<forall>c. sa (ck_state e) \<noteq> Some (i, c)" | "sa (ck_state e) = Some (i, b)"
    | c where "sa (ck_state e) = Some (i, c)" "c \<noteq> b"
    by blast
  then show ?case
  proof cases
    case 1
    then have "(i, b) \<in> shares sa (e # es) \<longleftrightarrow> (i, b) \<in> shares sa es"
      "additional_loop sa i b x (e # es) = additional_loop sa i b x es"
      by (auto split: option.split)
    then show ?thesis
      using 1 by (simp only: IH clash_Cons simp_thms)
  next
    case 2
    then have "(i, b) \<in> shares sa (e # es)"
      by simp
    moreover have "additional_loop sa i b x (e # es) = additional_loop sa i b 0 es"
      using 2 by simp
    ultimately show ?thesis
      using clash_consistent [OF Cons.prems, of i b] by (simp add: IH clash_Cons del: shares_simps)
  next
    case 3
    then have "clash sa (e # es) i b" "additional_loop sa i b x (e # es) = None"
      by (auto simp: clash_Cons)
    then show ?thesis
      by simp
  qed
qed

lemma additional_exact:
  assumes ok: "consistent (shared_allocation lru) (queue lru)" and x: "additional_shared_bytes s lru = Some x"
    and e: "ck_state e = s"
  shows "consistent (shared_allocation lru) (queue lru @ [e])"
    and "cost (shared_allocation lru) (queue lru @ [e]) = cost (shared_allocation lru) (queue lru) + priv_bytes e + x"
proof -
  let ?sa = "shared_allocation lru" and ?q = "queue lru"
  have "consistent ?sa (?q @ [e])
      \<and> cost ?sa (?q @ [e]) = cost ?sa ?q + priv_bytes e + x"
  proof (cases "?sa s")
    case None
    then have "shares ?sa (?q @ [e]) = shares ?sa ?q"
      using e by simp
    then show ?thesis
      using ok x e None by (simp add: additional_shared_bytes_def cost_snoc consistent_def del: shares_simps)
  next
    case (Some p)
    obtain i b where p: "p = (i, b)"
      by (cases p)
    have loop: "additional_loop ?sa i b b ?q = Some x"
      using x Some p by (simp add: additional_shared_bytes_def)
    then have no: "\<not> clash ?sa ?q i b" and x_eq: "x = (if (i, b) \<in> shares ?sa ?q then 0 else b)"
      unfolding additional_loop_exact [OF ok] by (auto split: if_splits)
    have sh: "shares ?sa (?q @ [e]) = insert (i, b) (shares ?sa ?q)"
      using e Some p by simp
    have "consistent ?sa (?q @ [e])"
      using ok no unfolding consistent_def clash_def sh by blast
    then show ?thesis
      using Some p x_eq e by (simp add: cost_snoc)
  qed
  then show "consistent ?sa (?q @ [e])" "cost ?sa (?q @ [e]) = cost ?sa ?q + priv_bytes e + x"
    by auto
qed

end
