(* ===== verification/Checkpoint_Ops.thy ===== *)
theory Checkpoint_Ops
  imports Checkpoint_Facts
begin

text \<open>
  The cache of checkpoints as an event-driven component: every operation keeps the bounds.
\<close>

section \<open>The invariant\<close>

definition machine_sized :: "'s checkpoint_lru \<Rightarrow> bool" where
  "machine_sized lru \<longleftrightarrow> max_entries lru \<le> usize_max \<and> max_bytes lru \<le> usize_max \<and> next_id lru \<le> usize_max"

definition well_placed :: "'s checkpoint_lru \<Rightarrow> 's kv_checkpoint \<Rightarrow> bool" where
  "well_placed lru e \<longleftrightarrow> ck_id e < next_id lru \<and> 0 < ck_pos e \<and> ck_pos e \<le> length (ck_tokens e)"

definition lru_ok :: "'s checkpoint_lru \<Rightarrow> bool" where
  "lru_ok lru \<longleftrightarrow> machine_sized lru \<and> length (queue lru) \<le> max_entries lru
     \<and> consistent (shared_allocation lru) (queue lru)
     \<and> cost (shared_allocation lru) (queue lru) \<le> max_bytes lru
     \<and> distinct (map ck_id (queue lru)) \<and> (\<forall>e\<in>set (queue lru). well_placed lru e)"

lemma lru_okD:
  assumes "lru_ok lru"
  shows "machine_sized lru" "length (queue lru) \<le> max_entries lru"
    "consistent (shared_allocation lru) (queue lru)" "cost (shared_allocation lru) (queue lru) \<le> max_bytes lru"
    "distinct (map ck_id (queue lru))" "\<And>e. e \<in> set (queue lru) \<Longrightarrow> well_placed lru e"
  using assms by (auto simp: lru_ok_def)

lemma lru_ok_subseq:
  assumes ok: "lru_ok lru" and sub: "subseq q (queue lru)"
  shows "lru_ok (lru\<lparr>queue := q\<rparr>)"
proof -
  have "length q \<le> length (queue lru)"
    using sub by (rule list_emb_length)
  moreover have "cost (shared_allocation lru) q \<le> max_bytes lru" "consistent (shared_allocation lru) q"
    using cost_subseq [OF sub lru_okD(3) [OF ok]] lru_okD(4) [OF ok] by auto
  ultimately show ?thesis
    using lru_okD [OF ok] subseq_facts(1,3) [OF sub]
    by (auto simp: lru_ok_def machine_sized_def well_placed_def)
qed

lemma within_count_iff: "limit \<le> usize_max \<Longrightarrow> within_count n x limit \<longleftrightarrow> n + x \<le> limit"
  by (auto simp: within_count_def checked_add_def)

lemma within_bytes_iff:
  "limit \<le> usize_max \<Longrightarrow> within_bytes (retained_bytes keep lru) x limit \<longleftrightarrow>
     consistent (shared_allocation lru) (filter keep (queue lru))
     \<and> cost (shared_allocation lru) (filter keep (queue lru)) + x \<le> limit"
  by (auto simp: within_bytes_def retained_exact checked_add_def Let_def split: if_splits)

lemma fits_iff:
  assumes "machine_sized lru"
  shows "fits n b lru \<longleftrightarrow> length (queue lru) + n \<le> max_entries lru
     \<and> consistent (shared_allocation lru) (queue lru)
     \<and> cost (shared_allocation lru) (queue lru) + b \<le> max_bytes lru"
  using assms by (simp add: fits_def machine_sized_def within_count_iff within_bytes_iff)

section \<open>Making room\<close>

definition protected_entries :: "nat list \<Rightarrow> 's checkpoint_lru \<Rightarrow> 's kv_checkpoint list" where
  "protected_entries protected lru = filter (\<lambda>e. ck_id e \<in> set protected) (queue lru)"

lemma queue_same: "lru\<lparr>queue := queue lru\<rparr> = lru"
  by simp

lemma remove_checkpoint_subseq:
  "\<exists>q. snd (remove_checkpoint i lru) = lru\<lparr>queue := q\<rparr> \<and> subseq q (queue lru)
     \<and> (i \<notin> set protected \<longrightarrow> filter (\<lambda>e. ck_id e \<in> set protected) q = protected_entries protected lru)"
proof (cases "position (\<lambda>e. ck_id e = i) (queue lru)")
  case None
  then show ?thesis
    by (auto simp: remove_checkpoint_def protected_entries_def intro: exI [of _ "queue lru"])
next
  case (Some k)
  then have k: "k < length (queue lru)" "ck_id (queue lru ! k) = i"
    using position_SomeD by fastforce+
  have "queue lru = take k (queue lru) @ queue lru ! k # drop (Suc k) (queue lru)"
    using k(1) by (rule remove_at_split)
  then have "filter (\<lambda>e. ck_id e \<in> set protected) (queue lru)
      = filter (\<lambda>e. ck_id e \<in> set protected) (remove_at k (queue lru))" if "i \<notin> set protected"
    using that k(2) unfolding remove_at_def by (metis (no_types, lifting) filter.simps(2) filter_append)
  then show ?thesis
    using Some subseq_remove_at [of k "queue lru"]
    by (auto simp: remove_checkpoint_def protected_entries_def)
qed

lemma drop_until_fits_result:
  assumes "machine_sized lru"
  shows "\<exists>q. snd (drop_until_fits n b protected lru) = lru\<lparr>queue := q\<rparr> \<and> subseq q (queue lru)
     \<and> filter (\<lambda>e. ck_id e \<in> set protected) q = protected_entries protected lru
     \<and> (fst (drop_until_fits n b protected lru) \<longrightarrow> fits n b (lru\<lparr>queue := q\<rparr>))
     \<and> (\<not> fst (drop_until_fits n b protected lru) \<longrightarrow> q = protected_entries protected lru
          \<and> \<not> fits n b (lru\<lparr>queue := q\<rparr>))"
  using assms
proof (induction n b protected lru rule: drop_until_fits.induct)
  case (1 n b protected lru)
  consider "fits n b lru"
    | "\<not> fits n b lru" "position (\<lambda>e. ck_id e \<notin> set protected) (queue lru) = None"
    | i where "\<not> fits n b lru" "position (\<lambda>e. ck_id e \<notin> set protected) (queue lru) = Some i"
    by (cases "position (\<lambda>e. ck_id e \<notin> set protected) (queue lru)") auto
  then show ?case
  proof cases
    case 1
    then show ?thesis
      by (auto simp: drop_until_fits.simps [of n b protected lru] protected_entries_def intro: exI [of _ "queue lru"])
  next
    case 2
    then have "filter (\<lambda>e. ck_id e \<in> set protected) (queue lru) = queue lru"
      by (simp add: position_None_iff)
    then show ?thesis
      using 2 by (auto simp: drop_until_fits.simps [of n b protected lru] protected_entries_def intro: exI [of _ "queue lru"])
  next
    case 3
    let ?lru = "lru\<lparr>queue := remove_at i (queue lru)\<rparr>"
    have i: "i < length (queue lru)" "ck_id (queue lru ! i) \<notin> set protected"
      using position_SomeD [OF 3(2)] by auto
    have "queue lru = take i (queue lru) @ queue lru ! i # drop (Suc i) (queue lru)"
      using i(1) by (rule remove_at_split)
    then have same: "protected_entries protected ?lru = protected_entries protected lru"
      using i(2) unfolding remove_at_def protected_entries_def
      by (metis (no_types, lifting) checkpoint_lru.select_convs(1) checkpoint_lru.surjective
          checkpoint_lru.update_convs(1) filter.simps(2) filter_append)
    have "drop_until_fits n b protected lru = drop_until_fits n b protected ?lru"
      using 3 by (simp add: drop_until_fits.simps [of n b protected lru])
    moreover have "machine_sized ?lru"
      using "1.prems" by (simp add: machine_sized_def)
    ultimately show ?thesis
      using "1.IH" [OF 3] subseq_order.order_trans [OF _ subseq_remove_at [of i "queue lru"]] same by fastforce
  qed
qed

text \<open>
  Room is made exactly when the protected entries alone leave it; they are all kept, and the
  cache stays as it is otherwise.
\<close>

lemma make_room_result:
  assumes ok: "machine_sized lru" "consistent (shared_allocation lru) (queue lru)"
    and replace: "\<And>i. replace = Some i \<Longrightarrow> i \<notin> set protected"
  shows "\<exists>q. snd (make_room n b protected replace lru) = lru\<lparr>queue := q\<rparr> \<and> subseq q (queue lru)
     \<and> filter (\<lambda>e. ck_id e \<in> set protected) q = protected_entries protected lru
     \<and> fst (make_room n b protected replace lru) = can_admit n b protected lru
     \<and> (can_admit n b protected lru \<longrightarrow> fits n b (lru\<lparr>queue := q\<rparr>))
     \<and> (\<not> can_admit n b protected lru \<longrightarrow> q = queue lru)"
proof (cases "can_admit n b protected lru")
  case False
  then show ?thesis
    by (auto simp: make_room_def protected_entries_def intro: exI [of _ "queue lru"])
next
  case True
  obtain q0 where q0: "(case replace of Some i \<Rightarrow> snd (remove_checkpoint i lru) | None \<Rightarrow> lru) = lru\<lparr>queue := q0\<rparr>"
    "subseq q0 (queue lru)" "filter (\<lambda>e. ck_id e \<in> set protected) q0 = protected_entries protected lru"
  proof (cases replace)
    case None
    then show thesis
      using that [of "queue lru"] by (simp add: protected_entries_def)
  next
    case (Some i)
    then show thesis
      using that remove_checkpoint_subseq [of i lru protected] replace by auto
  qed
  let ?lru = "lru\<lparr>queue := q0\<rparr>" and ?P = "protected_entries protected lru"
  have "machine_sized ?lru"
    using ok(1) by (simp add: machine_sized_def)
  from drop_until_fits_result [OF this, of n b protected] q0(3)
  obtain q where q: "snd (drop_until_fits n b protected ?lru) = lru\<lparr>queue := q\<rparr>" "subseq q q0"
    "filter (\<lambda>e. ck_id e \<in> set protected) q = ?P"
    "fst (drop_until_fits n b protected ?lru) \<Longrightarrow> fits n b (lru\<lparr>queue := q\<rparr>)"
    "\<not> fst (drop_until_fits n b protected ?lru) \<Longrightarrow> q = ?P \<and> \<not> fits n b (lru\<lparr>queue := q\<rparr>)"
    by (auto simp: protected_entries_def)
  have "fits n b (lru\<lparr>queue := ?P\<rparr>)"
    using True ok(1)
    by (auto simp: fits_def can_admit_def protected_entries_def machine_sized_def within_count_iff within_bytes_iff
        split: if_splits)
  then have "fst (drop_until_fits n b protected ?lru)"
    using q(5) by auto
  moreover have "make_room n b protected replace lru = drop_until_fits n b protected ?lru"
    using True replace q0(1) by (auto simp: make_room_def split: option.splits)
  ultimately show ?thesis
    using True q(1,3,4) subseq_order.order_trans [OF q(2) q0(2)] by auto
qed

lemma make_room_protected:
  assumes "replace = Some i" "i \<in> set protected"
  shows "make_room n b protected replace lru = (False, lru)"
  using assms by (simp add: make_room_def)

lemma make_room_ok:
  assumes "lru_ok lru"
  shows "lru_ok (snd (make_room n b protected replace lru))"
    "fst (make_room n b protected replace lru) \<Longrightarrow> fits n b (snd (make_room n b protected replace lru))"
proof -
  have "lru_ok (snd (make_room n b protected replace lru))
      \<and> (fst (make_room n b protected replace lru) \<longrightarrow> fits n b (snd (make_room n b protected replace lru)))"
  proof (cases "\<exists>i. replace = Some i \<and> i \<in> set protected")
    case True
    then obtain i where "replace = Some i" "i \<in> set protected"
      by blast
    then show ?thesis
      using assms make_room_protected [of replace i protected n b lru] by simp
  next
    case False
    then obtain q where "snd (make_room n b protected replace lru) = lru\<lparr>queue := q\<rparr>" "subseq q (queue lru)"
      "fst (make_room n b protected replace lru) = can_admit n b protected lru"
      "can_admit n b protected lru \<longrightarrow> fits n b (lru\<lparr>queue := q\<rparr>)"
      using make_room_result [OF lru_okD(1) [OF assms] lru_okD(3) [OF assms], of replace protected n b] by auto
    then show ?thesis
      using lru_ok_subseq [OF assms] by auto
  qed
  then show "lru_ok (snd (make_room n b protected replace lru))"
    "fst (make_room n b protected replace lru) \<Longrightarrow> fits n b (snd (make_room n b protected replace lru))"
    by auto
qed

section \<open>Inserting\<close>

lemma push_checkpoint_ok:
  assumes ok: "lru_ok lru" and p: "0 < p" "p \<le> length ts" and x: "additional_shared_bytes s lru = Some x"
    and fits: "fits 1 (b + capacity * 4 + x) lru"
  shows "lru_ok (snd (push_checkpoint ts capacity p b s lru))"
proof (cases "checked_add (next_id lru) 1")
  case None
  then show ?thesis
    using ok by (simp add: push_checkpoint_def Let_def)
next
  case (Some nid)
  define e where "e = \<lparr>ck_id = next_id lru, ck_tokens = ts, ck_capacity = capacity, ck_pos = p, ck_bytes = b, ck_state = s\<rparr>"
  have nid: "nid = Suc (next_id lru)" "nid \<le> usize_max"
    using Some by (auto simp: checked_add_Some)
  have push: "snd (push_checkpoint ts capacity p b s lru) = lru\<lparr>next_id := nid, queue := queue lru @ [e]\<rparr>"
    using Some by (simp add: push_checkpoint_def e_def Let_def)
  have "ck_state e = s" "priv_bytes e = b + capacity * 4"
    by (simp_all add: e_def priv_bytes_def)
  note e = additional_exact [OF lru_okD(3) [OF ok] x this(1)] this(2)
  have f: "length (queue lru) + 1 \<le> max_entries lru"
    "cost (shared_allocation lru) (queue lru) + (b + capacity * 4 + x) \<le> max_bytes lru"
    using fits fits_iff [OF lru_okD(1) [OF ok]] by auto
  have "\<forall>d\<in>set (queue lru). ck_id d \<noteq> ck_id e"
  proof
    fix d
    assume "d \<in> set (queue lru)"
    from lru_okD(6) [OF ok this] show "ck_id d \<noteq> ck_id e"
      by (simp add: well_placed_def e_def)
  qed
  then have fresh: "ck_id e \<notin> ck_id ` set (queue lru)"
    by fastforce
  show ?thesis
    unfolding push lru_ok_def
  proof (intro conjI)
    show "machine_sized (lru\<lparr>next_id := nid, queue := queue lru @ [e]\<rparr>)"
      using lru_okD(1) [OF ok] nid by (simp add: machine_sized_def)
    show "\<forall>d\<in>set (queue (lru\<lparr>next_id := nid, queue := queue lru @ [e]\<rparr>)).
        well_placed (lru\<lparr>next_id := nid, queue := queue lru @ [e]\<rparr>) d"
      using lru_okD(6) [OF ok] p nid by (auto simp: well_placed_def e_def less_Suc_eq)
  qed (use e f fresh lru_okD(5) [OF ok] in auto)
qed

lemma pop_until_fits_ok:
  assumes "lru_ok lru"
  shows "lru_ok (snd (pop_until_fits priv s lru))
    \<and> next_id (snd (pop_until_fits priv s lru)) = next_id lru
    \<and> (fst (pop_until_fits priv s lru) \<longrightarrow> (\<exists>x. additional_shared_bytes s (snd (pop_until_fits priv s lru)) = Some x
        \<and> fits 1 (priv + x) (snd (pop_until_fits priv s lru))))"
  using assms
proof (induction priv s lru rule: pop_until_fits.induct)
  case (1 priv s lru)
  show ?case
  proof (cases "Option.bind (additional_shared_bytes s lru) (checked_add priv)")
    case None
    then show ?thesis
      using "1.prems" by (simp add: pop_until_fits.simps [of priv s lru])
  next
    case (Some n)
    then obtain x where x: "additional_shared_bytes s lru = Some x" "n = priv + x"
      by (auto simp: bind_eq_Some_conv checked_add_Some)
    consider "fits 1 n lru" | "\<not> fits 1 n lru" "queue lru = []" | "\<not> fits 1 n lru" "queue lru \<noteq> []"
      by blast
    then show ?thesis
    proof cases
      case 3
      let ?lru = "lru\<lparr>queue := tl (queue lru)\<rparr>"
      have "subseq (tl (queue lru)) (queue lru)"
        using 3(2) by (cases "queue lru") auto
      then have "lru_ok ?lru"
        by (rule lru_ok_subseq [OF "1.prems"])
      moreover have "pop_until_fits priv s lru = pop_until_fits priv s ?lru"
        using 3 Some by (simp add: pop_until_fits.simps [of priv s lru])
      ultimately show ?thesis
        using "1.IH" [OF Some 3] by simp
    qed (use "1.prems" Some x in \<open>auto simp: pop_until_fits.simps [of priv s lru]\<close>)
  qed
qed

lemma remove_checkpoint_ok: "lru_ok lru \<Longrightarrow> lru_ok (snd (remove_checkpoint i lru))"
  using remove_checkpoint_subseq [of i lru "[]"] lru_ok_subseq by fastforce

lemma drop_same_subseq: "\<exists>q. drop_same ts p lru = lru\<lparr>queue := q\<rparr> \<and> subseq q (queue lru)"
proof (cases "same_checkpoint ts p lru")
  case None
  then show ?thesis
    by (intro exI [of _ "queue lru"]) (simp add: drop_same_def)
next
  case (Some i)
  then show ?thesis
    using remove_checkpoint_subseq [of i lru "[]"] by (auto simp: drop_same_def)
qed

lemma insert_checkpoint_ok:
  assumes ok: "lru_ok lru"
  shows "lru_ok (snd (insert_checkpoint ts capacity p b s lru))"
proof -
  define lru1 where "lru1 = drop_same ts p lru"
  obtain q where "lru1 = lru\<lparr>queue := q\<rparr>" "subseq q (queue lru)"
    using drop_same_subseq [of ts p lru] by (auto simp: lru1_def)
  then have ok1: "lru_ok lru1"
    using lru_ok_subseq [OF ok] by simp
  show ?thesis
  proof (cases "\<exists>priv. 0 < p \<and> p \<le> length ts
      \<and> Option.bind (token_vec_bytes capacity) (checked_add b) = Some priv
      \<and> insert_checkpoint ts capacity p b s lru = (case pop_until_fits priv s lru1 of
          (ok, lru2) \<Rightarrow> if ok then push_checkpoint ts capacity p b s lru2 else (None, lru2))")
    case True
    then obtain priv where priv: "0 < p" "p \<le> length ts"
      "Option.bind (token_vec_bytes capacity) (checked_add b) = Some priv"
      "insert_checkpoint ts capacity p b s lru = (case pop_until_fits priv s lru1 of
          (ok, lru2) \<Rightarrow> if ok then push_checkpoint ts capacity p b s lru2 else (None, lru2))"
      by blast
    have "priv = b + capacity * 4"
      using priv(3) by (auto simp: bind_eq_Some_conv token_vec_bytes_def checked_mul_Some checked_add_Some)
    then show ?thesis
      using priv(1,2,4) pop_until_fits_ok [OF ok1, of priv s] push_checkpoint_ok
      by (auto simp: case_prod_unfold)
  next
    case False
    then have "snd (insert_checkpoint ts capacity p b s lru) = lru"
      by (auto simp: insert_checkpoint_def lru1_def Let_def split: option.splits if_splits)
    then show ?thesis
      using ok by simp
  qed
qed

lemma insert_with_ok:
  assumes ok: "lru_ok lru"
  shows "lru_ok (snd (insert_with ts capacity p reserved protected make_state lru))"
proof (cases "Option.bind (token_vec_bytes (length ts)) (\<lambda>n. checked_add n reserved)")
  case None
  then show ?thesis
    using ok by (simp add: insert_with_def)
next
  case (Some room)
  obtain made lru1 where room: "make_room 1 room protected (same_checkpoint ts p lru) lru = (made, lru1)"
    by fastforce
  have ok1: "lru_ok lru1"
    using make_room_ok(1) [OF ok, of 1 room protected "same_checkpoint ts p lru"] room by simp
  show ?thesis
  proof (cases "\<exists>s actual n. 0 < p \<and> p \<le> length ts \<and> n \<le> room \<and> fits 1 n lru1
      \<and> Option.bind (Option.bind (token_vec_bytes capacity) (\<lambda>n. checked_add n actual))
          (\<lambda>n. Option.bind (additional_shared_bytes s lru1) (checked_add n)) = Some n
      \<and> snd (insert_with ts capacity p reserved protected make_state lru)
          = snd (push_checkpoint ts capacity p actual s lru1)")
    case True
    then obtain s actual n where n: "0 < p" "p \<le> length ts" "fits 1 n lru1"
      "Option.bind (Option.bind (token_vec_bytes capacity) (\<lambda>n. checked_add n actual))
          (\<lambda>n. Option.bind (additional_shared_bytes s lru1) (checked_add n)) = Some n"
      "snd (insert_with ts capacity p reserved protected make_state lru)
          = snd (push_checkpoint ts capacity p actual s lru1)"
      by blast
    obtain x where "additional_shared_bytes s lru1 = Some x" "n = actual + capacity * 4 + x"
      using n(4) by (auto simp: bind_eq_Some_conv token_vec_bytes_def checked_mul_Some checked_add_Some)
    then show ?thesis
      using push_checkpoint_ok [OF ok1 n(1,2)] n(3,5) by simp
  next
    case False
    then have "snd (insert_with ts capacity p reserved protected make_state lru) \<in> {lru, lru1}"
      using Some room
      by (auto simp: insert_with_def case_prod_unfold Let_def split: option.splits if_splits sum.splits)
    then show ?thesis
      using ok ok1 by auto
  qed
qed

section \<open>Attaching and growing\<close>

lemma attach_all_facts [simp]:
  "length (attach_all protected attach a q) = length q"
  "map ck_id (attach_all protected attach a q) = map ck_id q"
  "filter (\<lambda>e. ck_id e \<notin> set protected) (attach_all protected attach a q) = filter (\<lambda>e. ck_id e \<notin> set protected) q"
  by (induction q) (auto simp: attach_all_def)

lemma attach_all_placed:
  "\<forall>e\<in>set q. well_placed lru e \<Longrightarrow> e \<in> set (attach_all protected attach a q) \<Longrightarrow> well_placed lru e"
  by (auto simp: attach_all_def well_placed_def)

lemma attach_with_ok:
  assumes ok: "lru_ok lru"
  shows "lru_ok (snd (attach_with protected reserved make_allocation attach lru))"
proof -
  obtain made lru1 where room: "make_room 0 reserved protected None lru = (made, lru1)"
    by fastforce
  have ok1: "lru_ok lru1"
    using make_room_ok(1) [OF ok, of 0 reserved protected None] room by simp
  show ?thesis
  proof (cases "protected \<noteq> [] \<and> made \<and> (\<exists>a n. make_allocation = Inr (a, n) \<and> n \<le> reserved)")
    case False
    then have "snd (attach_with protected reserved make_allocation attach lru) \<in> {lru, lru1}"
      using room by (auto simp: attach_with_def Let_def split: sum.splits prod.splits)
    then show ?thesis
      using ok ok1 by auto
  next
    case True
    then obtain a n where a: "make_allocation = Inr (a, n)" "n \<le> reserved"
      by auto
    let ?lru2 = "lru1\<lparr>queue := attach_all protected attach a (queue lru1)\<rparr>"
    define valid where "valid = (case retained_bytes (\<lambda>e. True) ?lru2 of
        None \<Rightarrow> False
      | Some after \<Rightarrow> after \<le> max_bytes ?lru2
          \<and> (case checked_add (lru_bytes lru1) n of Some k \<Rightarrow> after \<le> k | None \<Rightarrow> False))"
    have result: "snd (attach_with protected reserved make_allocation attach lru) = (if valid then ?lru2
        else ?lru2\<lparr>queue := filter (\<lambda>e. ck_id e \<notin> set protected) (queue ?lru2)\<rparr>)"
      using True room a by (simp add: attach_with_def Let_def valid_def)
    show ?thesis
    proof (cases valid)
      case False
      have "subseq (filter (\<lambda>e. ck_id e \<notin> set protected) (queue lru1)) (queue lru1)"
        by (rule subseq_filter_left)
      from lru_ok_subseq [OF ok1 this] show ?thesis
        using False by (simp add: result)
    next
      case True
      then have "consistent (shared_allocation lru1) (queue ?lru2)"
        "cost (shared_allocation lru1) (queue ?lru2) \<le> max_bytes lru1"
        by (auto simp: valid_def retained_exact Let_def split: if_splits option.splits)
      moreover have "\<forall>e\<in>set (queue ?lru2). well_placed ?lru2 e"
      proof
        fix e
        assume "e \<in> set (queue ?lru2)"
        then have "e \<in> set (attach_all protected attach a (queue lru1))"
          by simp
        moreover have "\<forall>d\<in>set (queue lru1). well_placed lru1 d"
          using lru_okD(6) [OF ok1] by blast
        ultimately have "well_placed lru1 e"
          by (metis attach_all_placed)
        then show "well_placed ?lru2 e"
          by (simp add: well_placed_def)
      qed
      ultimately show ?thesis
        using True lru_okD(1,2,5) [OF ok1] by (simp add: result lru_ok_def machine_sized_def)
    qed
  qed
qed

lemma shares_update:
  "k < length es \<Longrightarrow> ck_state e = ck_state (es ! k) \<Longrightarrow> shares sa (es[k := e]) = shares sa es"
proof (induction es arbitrary: k)
  case (Cons d es)
  then show ?case
    by (cases k) simp_all
qed simp

lemma sum_by_update: "k < length es \<Longrightarrow> sum_by f (es[k := e]) + f (es ! k) = sum_by f es + (f e :: nat)"
proof (induction es arbitrary: k)
  case (Cons d es)
  then show ?case
    by (cases k) (auto simp: add_ac)
qed simp

lemma grow_ok:
  assumes ok: "lru_ok lru"
  shows "lru_ok (snd (grow i extra lru))"
proof (cases "Option.bind (get_checkpoint i lru) (\<lambda>e. checked_add (ck_bytes e) extra)")
  case None
  then show ?thesis
    using remove_checkpoint_ok [OF ok] by (simp add: grow_def)
next
  case (Some b)
  then obtain e where e: "get_checkpoint i lru = Some e" "b = ck_bytes e + extra"
    by (auto simp: bind_eq_Some_conv checked_add_Some)
  obtain made lru1 where room: "make_room 0 extra [i] None lru = (made, lru1)"
    by fastforce
  have ok1: "lru_ok lru1"
    using make_room_ok(1) [OF ok, of 0 extra "[i]" None] room by simp
  show ?thesis
  proof (cases made)
    case False
    then show ?thesis
      using Some room remove_checkpoint_ok [OF ok1] by (simp add: grow_def)
  next
    case True
    have fits: "fits 0 extra lru1"
      using make_room_ok(2) [OF ok, of 0 extra "[i]" None] room True by simp
    have "filter (\<lambda>d. ck_id d = i) (queue lru1) = filter (\<lambda>d. ck_id d = i) (queue lru)"
      using make_room_result [OF lru_okD(1) [OF ok] lru_okD(3) [OF ok], of None "[i]" 0 extra] room
      by (auto simp: protected_entries_def)
    moreover have "find (\<lambda>d. ck_id d = i) q = (case filter (\<lambda>d. ck_id d = i) q of [] \<Rightarrow> None | d # ds \<Rightarrow> Some d)"
      for q :: "'a kv_checkpoint list"
      by (induction q) auto
    ultimately have found: "find (\<lambda>d. ck_id d = i) (queue lru1) = Some e"
      using e(1) by (simp add: get_checkpoint_def)
    then obtain k where k: "position (\<lambda>d. ck_id d = i) (queue lru1) = Some k" "queue lru1 ! k = e"
      using position_find [of "queue lru1" "\<lambda>d. ck_id d = i"] by (cases "position (\<lambda>d. ck_id d = i) (queue lru1)") auto
    have len: "k < length (queue lru1)"
      using k(1) by (rule position_less)
    let ?e = "e\<lparr>ck_bytes := b\<rparr>"
    have result: "snd (grow i extra lru) = lru1\<lparr>queue := (queue lru1)[k := ?e]\<rparr>"
      using Some room True k by (simp add: grow_def)
    have same: "shares sa ((queue lru1)[k := ?e]) = shares sa (queue lru1)" for sa
      using shares_update [OF len, of ?e] k(2) by simp
    have "sum_by priv_bytes ((queue lru1)[k := ?e]) = sum_by priv_bytes (queue lru1) + extra"
      using sum_by_update [OF len, of priv_bytes ?e] k(2) e(2) by (simp add: priv_bytes_def)
    then have "cost (shared_allocation lru1) ((queue lru1)[k := ?e]) \<le> max_bytes lru1"
      using fits fits_iff [OF lru_okD(1) [OF ok1]] by (simp add: cost_def same)
    moreover have "map ck_id ((queue lru1)[k := ?e]) = map ck_id (queue lru1)"
      using k(2) len by (simp add: map_update) (metis list_update_id nth_map)
    moreover have "\<forall>d\<in>set ((queue lru1)[k := ?e]). well_placed lru1 d"
    proof
      fix d
      assume "d \<in> set ((queue lru1)[k := ?e])"
      then have "d = ?e \<or> d \<in> set (queue lru1)"
        using set_update_subset_insert by fastforce
      then show "well_placed lru1 d"
        using lru_okD(6) [OF ok1] k(2) nth_mem [OF len] by (auto simp: well_placed_def)
    qed
    ultimately show ?thesis
      using lru_okD(1-3) [OF ok1] unfolding result
      by (simp add: lru_ok_def consistent_def same machine_sized_def well_placed_def)
         (metis (no_types) lru_okD(5) [OF ok1])
  qed
qed

lemma touch_checkpoint_ok:
  assumes ok: "lru_ok lru"
  shows "lru_ok (touch_checkpoint i lru)"
proof (cases "position (\<lambda>e. ck_id e = i) (queue lru)")
  case None
  then show ?thesis
    using ok by (simp add: touch_checkpoint_def remove_checkpoint_def)
next
  case (Some k)
  then have k: "k < length (queue lru)"
    by (rule position_less)
  let ?q = "remove_at k (queue lru) @ [queue lru ! k]"
  have m: "mset ?q = mset (queue lru)"
    using mset_remove_at [OF k] by simp
  then have s: "set ?q = set (queue lru)"
    by (metis set_mset_mset)
  have sh: "shares sa ?q = shares sa (queue lru)" for sa
    unfolding shares_def s by (rule refl)
  have "sum_by priv_bytes (queue lru) = sum_by priv_bytes ?q"
    using sum_by_remove_at [OF k, of priv_bytes] by simp
  then have "cost sa ?q = cost sa (queue lru)" for sa
    by (simp only: cost_def sh)
  moreover have "distinct (map ck_id ?q)"
    using lru_okD(5) [OF ok] mset_eq_imp_distinct_iff [of "map ck_id ?q" "map ck_id (queue lru)"] m
    by (simp only: mset_map)
  moreover have "touch_checkpoint i lru = lru\<lparr>queue := ?q\<rparr>"
    using Some by (simp add: touch_checkpoint_def remove_checkpoint_def)
  moreover have "length ?q = length (queue lru)"
    using m by (metis size_mset)
  moreover have "consistent sa ?q = consistent sa (queue lru)" for sa
    by (simp only: consistent_def sh)
  moreover have "\<forall>e\<in>set ?q. well_placed lru e"
    unfolding s using lru_okD(6) [OF ok] by blast
  ultimately show ?thesis
    using lru_okD(1-4) [OF ok] unfolding lru_ok_def
    by (simp add: machine_sized_def well_placed_def del: set_append length_append map_append)
qed

section \<open>Selecting\<close>

definition usable :: "token list \<Rightarrow> ('s kv_checkpoint \<Rightarrow> bool) \<Rightarrow> 's kv_checkpoint \<Rightarrow> bool" where
  "usable prompt eligible e \<longleftrightarrow> eligible e \<and> 0 < ck_pos e \<and> ck_pos e \<le> length (ck_tokens e)
     \<and> ck_pos e < length prompt \<and> take (ck_pos e) (ck_tokens e) = take (ck_pos e) prompt"

definition best_hit :: "token list \<Rightarrow> ('s kv_checkpoint \<Rightarrow> bool) \<Rightarrow> 's kv_checkpoint list \<Rightarrow> hit option \<Rightarrow> bool" where
  "best_hit prompt eligible es r \<longleftrightarrow> (case r of
     None \<Rightarrow> \<forall>e\<in>set es. \<not> usable prompt eligible e
   | Some h \<Rightarrow> (\<exists>e\<in>set es. usable prompt eligible e \<and> hit_id h = ck_id e \<and> hit_pos h = ck_pos e)
       \<and> (\<forall>e\<in>set es. usable prompt eligible e \<longrightarrow> ck_pos e \<le> hit_pos h))"

lemma usable_iff:
  "usable prompt eligible e \<longleftrightarrow> \<not> (ck_pos e = 0 \<or> length (ck_tokens e) < ck_pos e \<or> length prompt \<le> ck_pos e \<or> \<not> eligible e)
     \<and> \<not> common_prefix_len (ck_tokens e) prompt < ck_pos e"
  using common_prefix_take [of "ck_pos e" "ck_tokens e" prompt] common_prefix_geI [of "ck_pos e" "ck_tokens e" prompt]
  by (auto simp: usable_def not_less)

lemma select_loop_best:
  "best_hit prompt eligible ds best \<Longrightarrow> best_hit prompt eligible (ds @ es) (select_loop prompt eligible es best)"
proof (induction es arbitrary: ds best)
  case (Cons e es)
  let ?next = "if usable prompt eligible e \<and> \<not> (case best of Some h \<Rightarrow> ck_pos e < hit_pos h | None \<Rightarrow> False)
      then Some \<lparr>hit_id = ck_id e, hit_pos = ck_pos e\<rparr> else best"
  have "best_hit prompt eligible (ds @ [e]) ?next"
    using Cons.prems by (cases best) (auto simp: best_hit_def)
  from Cons.IH [OF this] have "best_hit prompt eligible (ds @ e # es) (select_loop prompt eligible es ?next)"
    by simp
  moreover have "select_loop prompt eligible (e # es) best = select_loop prompt eligible es ?next"
    by (auto simp: usable_iff)
  ultimately show ?case
    by simp
qed simp

lemma select_where_best: "best_hit prompt eligible (queue lru) (select_where prompt eligible lru)"
  using select_loop_best [of prompt eligible "[]" None "queue lru"] by (simp add: select_where_def best_hit_def)

end
