(* ===== verification/Session_Lru.thy ===== *)
theory Session_Lru
  imports Prefix_Reuse
begin

text \<open>
  The cache of sessions, \<open>nv-models/src/session_lru.rs\<close>: saved states of conversations in three
  tiers (the working state of the device, parked on the device, spilled to disk) under a budget
  of bytes for the last two. The trait \<open>Held\<close> is the pair of functions \<open>tier_of\<close> and \<open>bytes_of\<close>
  on the value of an entry. The clock and the sums of bytes are \<open>u64\<close> values, here natural numbers: the
  clock counts uses, one by one, and the sums are bytes that are held. The counters for telemetry
  (\<open>SessionCacheMetrics\<close>) are left out.
\<close>

section \<open>Entries\<close>

datatype tier = In_Place | Device | Disk

text \<open>The derived order.\<close>

fun tier_rank :: "tier \<Rightarrow> nat" where
  "tier_rank In_Place = 0"
| "tier_rank Device = 1"
| "tier_rank Disk = 2"

record 't held_ops =
  tier_of :: "'t \<Rightarrow> tier"
  bytes_of :: "'t \<Rightarrow> nat"

record 't entry =
  model :: u64
  e_tokens :: "token list"
  pos :: nat
  used :: nat
  held_value :: 't

definition resume_point :: "token list \<Rightarrow> 't entry \<Rightarrow> nat" where
  "resume_point prompt e = saved_state_resume_point [pos e] (e_tokens e) prompt"

definition covered_by :: "'t entry \<Rightarrow> 't entry \<Rightarrow> bool" where
  "covered_by newer e \<longleftrightarrow> model e = model newer \<and> pos e \<le> pos newer
     \<and> pos e < length (e_tokens newer) \<and> pos e < length (e_tokens e)
     \<and> take (Suc (pos e)) (e_tokens e) = take (Suc (pos e)) (e_tokens newer)"

record budget =
  device_bytes :: nat
  disk_bytes :: nat

record 't session_lru =
  entries :: "'t entry list"
  lru_budget :: budget
  clock :: nat

definition new_session_lru :: "budget \<Rightarrow> 't session_lru" where
  "new_session_lru b = \<lparr>entries = [], lru_budget = b, clock = 0\<rparr>"

definition set_budget :: "budget \<Rightarrow> 't session_lru \<Rightarrow> 't session_lru" where
  "set_budget b lru = lru\<lparr>lru_budget := b\<rparr>"

definition tick :: "'t session_lru \<Rightarrow> nat \<times> 't session_lru" where
  "tick lru = (clock lru + 1, lru\<lparr>clock := clock lru + 1\<rparr>)"

section \<open>Looking up\<close>

definition in_tier :: "'t held_ops \<Rightarrow> tier \<Rightarrow> 't entry \<Rightarrow> bool" where
  "in_tier ops t e \<longleftrightarrow> tier_of ops (held_value e) = t"

definition tier_bytes :: "'t held_ops \<Rightarrow> tier \<Rightarrow> 't entry list \<Rightarrow> nat" where
  "tier_bytes ops t es = sum_list (map (\<lambda>e. bytes_of ops (held_value e)) (filter (in_tier ops t) es))"

definition tier_count :: "'t held_ops \<Rightarrow> tier \<Rightarrow> 't session_lru \<Rightarrow> nat" where
  "tier_count ops t lru = length (filter (in_tier ops t) (entries lru))"

definition fits_device :: "nat \<Rightarrow> 't session_lru \<Rightarrow> bool" where
  "fits_device n lru \<longleftrightarrow> n \<le> device_bytes (lru_budget lru)"

definition fits_disk :: "nat \<Rightarrow> 't session_lru \<Rightarrow> bool" where
  "fits_disk n lru \<longleftrightarrow> n \<le> disk_bytes (lru_budget lru)"

text \<open>\<open>max_by_key\<close> keeps the last of the greatest, \<open>min_by_key\<close> the first of the least.\<close>

fun max_by :: "('a \<Rightarrow> 'a \<Rightarrow> bool) \<Rightarrow> 'a list \<Rightarrow> 'a option" where
  "max_by le [] = None"
| "max_by le (x # xs) = (case max_by le xs of
     None \<Rightarrow> Some x
   | Some y \<Rightarrow> if le x y then Some y else Some x)"

fun min_by :: "('a \<Rightarrow> nat) \<Rightarrow> 'a list \<Rightarrow> 'a option" where
  "min_by key [] = None"
| "min_by key (x # xs) = (case min_by key xs of
     None \<Rightarrow> Some x
   | Some y \<Rightarrow> if key x \<le> key y then Some x else Some y)"

text \<open>The order of the keys (resume point, nearer tier, last use).\<close>

definition worse_or_equal :: "'t held_ops \<Rightarrow> 't entry list \<Rightarrow> nat \<times> nat \<Rightarrow> nat \<times> nat \<Rightarrow> bool" where
  "worse_or_equal ops es x y \<longleftrightarrow>
     (let ex = es ! fst x; ey = es ! fst y;
          tx = tier_rank (tier_of ops (held_value ex)); ty = tier_rank (tier_of ops (held_value ey)) in
      snd x < snd y \<or> snd x = snd y \<and> (ty < tx \<or> ty = tx \<and> used ex \<le> used ey))"

definition best :: "'t held_ops \<Rightarrow> u64 \<Rightarrow> token list \<Rightarrow> tier list \<Rightarrow> 't session_lru \<Rightarrow> (nat \<times> nat) option" where
  "best ops m prompt tiers lru =
     (let es = entries lru in
      max_by (worse_or_equal ops es)
        (filter (\<lambda>(i, r). 0 < r)
          (map (\<lambda>i. (i, resume_point prompt (es ! i)))
            (filter (\<lambda>i. model (es ! i) = m \<and> tier_of ops (held_value (es ! i)) \<in> set tiers) [0..<length es]))))"

definition find_in_place :: "'t held_ops \<Rightarrow> u64 \<Rightarrow> 't session_lru \<Rightarrow> nat option" where
  "find_in_place ops m lru = position (\<lambda>e. model e = m \<and> in_tier ops In_Place e) (entries lru)"

definition touch :: "nat \<Rightarrow> 't session_lru \<Rightarrow> 't session_lru option" where
  "touch i lru =
     (let (t, lru1) = tick lru in
      if i < length (entries lru1) then Some (lru1\<lparr>entries := (entries lru1)[i := (entries lru1 ! i)\<lparr>used := t\<rparr>]\<rparr>)
      else None)"

definition remove_entry :: "nat \<Rightarrow> 't session_lru \<Rightarrow> ('t entry \<times> 't session_lru) option" where
  "remove_entry i lru =
     (if i < length (entries lru) then Some (entries lru ! i, lru\<lparr>entries := remove_at i (entries lru)\<rparr>) else None)"

section \<open>Inserting and evicting\<close>

text \<open>The loop of \<open>insert\<close>: what stays and what goes, in order.\<close>

fun split_covered :: "'t entry \<Rightarrow> 't entry list \<Rightarrow> 't entry list \<times> 't entry list" where
  "split_covered e [] = ([], [])"
| "split_covered e (x # xs) = (let (stay, gone) = split_covered e xs in
     if covered_by e x then (stay, x # gone) else (x # stay, gone))"

definition lru_insert :: "'t entry \<Rightarrow> 't session_lru \<Rightarrow> 't entry list \<times> 't session_lru" where
  "lru_insert e lru = (let (stay, gone) = split_covered e (entries lru) in
     (gone, lru\<lparr>entries := stay @ [e]\<rparr>))"

definition pinned :: "'t held_ops \<Rightarrow> 't entry list \<Rightarrow> 't entry \<Rightarrow> bool" where
  "pinned ops es e \<longleftrightarrow> in_tier ops In_Place e
     \<or> \<not> list_ex (\<lambda>x. model x = model e \<and> used e < used x) es"

definition victim :: "'t held_ops \<Rightarrow> tier \<Rightarrow> 't entry list \<Rightarrow> nat option" where
  "victim ops t es =
     min_by (\<lambda>i. used (es ! i))
       (filter (\<lambda>i. in_tier ops t (es ! i) \<and> \<not> pinned ops es (es ! i)) [0..<length es])"

text \<open>What may never be evicted: a working state, and the latest session of a model.\<close>

definition must_stay :: "'t held_ops \<Rightarrow> 't entry list \<Rightarrow> 't entry \<Rightarrow> bool" where
  "must_stay ops es e \<longleftrightarrow> in_tier ops In_Place e \<or> (\<forall>x\<in>set es. model x = model e \<longrightarrow> used x \<le> used e)"

lemma pinned_must_stay: "pinned ops es e = must_stay ops es e"
  by (auto simp: pinned_def must_stay_def list_ex_iff not_less)

lemma min_by_None: "min_by key xs = None \<longleftrightarrow> xs = []"
  by (cases xs) (auto split: option.splits if_splits)

lemma min_by_in: "min_by key xs = Some x \<Longrightarrow> x \<in> set xs \<and> (\<forall>y\<in>set xs. key x \<le> key y)"
proof (induction xs arbitrary: x)
  case (Cons a xs)
  show ?case
  proof (cases "min_by key xs")
    case None
    then show ?thesis
      using Cons.prems by (auto simp: min_by_None)
  next
    case (Some y)
    then show ?thesis
      using Cons.IH [OF Some] Cons.prems by (auto split: if_splits)
  qed
qed simp

lemma victimD:
  assumes "victim ops t es = Some i"
  shows "i < length es \<and> in_tier ops t (es ! i) \<and> \<not> must_stay ops es (es ! i)
    \<and> (\<forall>e\<in>set es. in_tier ops t e \<and> \<not> must_stay ops es e \<longrightarrow> used (es ! i) \<le> used e)"
  using min_by_in [OF assms [unfolded victim_def pinned_must_stay]] by (fastforce simp: in_set_conv_nth)

function evict_loop ::
  "'t held_ops \<Rightarrow> tier \<Rightarrow> nat \<Rightarrow> 't entry list \<Rightarrow> 't entry list \<Rightarrow> 't entry list \<times> 't entry list" where
  "evict_loop ops t limit es out =
     (if limit < tier_bytes ops t es then
        (case victim ops t es of
           Some i \<Rightarrow> evict_loop ops t limit (remove_at i es) (out @ [es ! i])
         | None \<Rightarrow> (es, out))
      else (es, out))"
  by pat_completeness auto
termination
  by (relation "measure (\<lambda>(ops, t, limit, es, out). length es)") (auto dest: victimD simp: length_remove_at)

declare evict_loop.simps [simp del]

definition evict_lru :: "'t held_ops \<Rightarrow> tier \<Rightarrow> nat \<Rightarrow> 't session_lru \<Rightarrow> 't entry list \<times> 't session_lru" where
  "evict_lru ops t limit lru =
     (let (es, out) = evict_loop ops t limit (entries lru) [] in (out, lru\<lparr>entries := es\<rparr>))"

record 't evicted =
  from_device :: "'t entry list"
  from_disk :: "'t entry list"

definition enforce :: "'t held_ops \<Rightarrow> 't session_lru \<Rightarrow> 't evicted \<times> 't session_lru" where
  "enforce ops lru =
     (let (dev, lru1) = evict_lru ops Device (device_bytes (lru_budget lru)) lru;
          (disk, lru2) = evict_lru ops Disk (disk_bytes (lru_budget lru1)) lru1
      in (\<lparr>from_device = dev, from_disk = disk\<rparr>, lru2))"

section \<open>Eviction\<close>

lemma must_stay_after_victim:
  assumes "victim ops t es = Some i"
  shows "must_stay ops (remove_at i es) e = must_stay ops es e"
proof -
  let ?v = "es ! i" and ?rest = "remove_at i es"
  have i: "i < length es" and v: "\<not> must_stay ops es ?v"
    using victimD [OF assms] by auto
  have es: "set es = insert ?v (set ?rest)"
    using mset_remove_at [OF i] by (metis set_mset_add_mset_insert set_mset_mset)
  obtain x where x: "x \<in> set es" "model x = model ?v" "used ?v < used x"
    using v by (auto simp: must_stay_def not_le)
  then have "x \<in> set ?rest"
    using es by auto
  then show ?thesis
    using x(2,3) unfolding must_stay_def es by (auto dest: less_le_trans)
qed

text \<open>
  What evicting keeps: nothing is lost or invented, the victims are of the tier and go in the
  order of their last use, oldest first, and no other entry that might have gone is older.
\<close>

definition evicts :: "'t held_ops \<Rightarrow> tier \<Rightarrow> 't entry list \<Rightarrow> 't entry list \<Rightarrow> 't entry list \<Rightarrow> bool" where
  "evicts ops t es es1 out \<longleftrightarrow> mset es = mset es1 + mset out
     \<and> (\<forall>e. must_stay ops es1 e = must_stay ops es e)
     \<and> (\<forall>e\<in>set out. in_tier ops t e \<and> \<not> must_stay ops es e) \<and> sorted (map used out)
     \<and> (\<forall>x\<in>set out. \<forall>e\<in>set es1. in_tier ops t e \<and> \<not> must_stay ops es e \<longrightarrow> used x \<le> used e)"

definition within_limit :: "'t held_ops \<Rightarrow> tier \<Rightarrow> nat \<Rightarrow> 't entry list \<Rightarrow> bool" where
  "within_limit ops t limit es \<longleftrightarrow> tier_bytes ops t es \<le> limit \<or> (\<forall>e\<in>set es. in_tier ops t e \<longrightarrow> must_stay ops es e)"

lemma victim_None: "victim ops t es = None \<longleftrightarrow> (\<forall>e\<in>set es. in_tier ops t e \<longrightarrow> must_stay ops es e)"
  by (force simp: victim_def pinned_must_stay min_by_None filter_empty_conv in_set_conv_nth)

lemma evict_loop_evicts:
  "\<exists>ev. snd (evict_loop ops t limit es out) = out @ ev \<and> evicts ops t es (fst (evict_loop ops t limit es out)) ev
     \<and> within_limit ops t limit (fst (evict_loop ops t limit es out))"
proof (induction ops t limit es out rule: evict_loop.induct)
  case (1 ops t limit es out)
  show ?case
  proof (cases "limit < tier_bytes ops t es \<and> victim ops t es \<noteq> None")
    case True
    then obtain i where i: "victim ops t es = Some i"
      by auto
    let ?v = "es ! i" and ?rest = "remove_at i es"
    note v = victimD [OF i] and same = must_stay_after_victim [OF i]
    have step: "evict_loop ops t limit es out = evict_loop ops t limit ?rest (out @ [?v])"
      using True i by (simp add: evict_loop.simps [of ops t limit es out])
    obtain ev where ev: "snd (evict_loop ops t limit ?rest (out @ [?v])) = (out @ [?v]) @ ev"
      "evicts ops t ?rest (fst (evict_loop ops t limit ?rest (out @ [?v]))) ev"
      "within_limit ops t limit (fst (evict_loop ops t limit ?rest (out @ [?v])))"
      using "1.IH" True i by blast
    define es1 where "es1 = fst (evict_loop ops t limit ?rest (out @ [?v]))"
    have all: "mset es = add_mset ?v (mset ?rest)" "mset ?rest = mset es1 + mset ev"
      using mset_remove_at [of i es] v ev(2) by (simp_all add: evicts_def es1_def)
    then have "mset es = mset es1 + mset (?v # ev)"
      by simp
    then have sub: "set es = set es1 \<union> set (?v # ev)"
      by (metis set_mset_mset set_mset_union)
    have "evicts ops t es es1 (?v # ev)"
      unfolding evicts_def
    proof (intro conjI)
      show "mset es = mset es1 + mset (?v # ev)"
        by fact
      show "\<forall>e. must_stay ops es1 e = must_stay ops es e" "\<forall>e\<in>set (?v # ev). in_tier ops t e \<and> \<not> must_stay ops es e"
        using ev(2) v same by (auto simp: evicts_def es1_def)
      show "sorted (map used (?v # ev))"
        "\<forall>x\<in>set (?v # ev). \<forall>e\<in>set es1. in_tier ops t e \<and> \<not> must_stay ops es e \<longrightarrow> used x \<le> used e"
        using ev(2) v same sub by (auto simp: evicts_def es1_def)
    qed
    then show ?thesis
      using ev(1,3) by (simp add: step es1_def)
  next
    case False
    then have stop: "evict_loop ops t limit es out = (es, out)"
      by (auto simp: evict_loop.simps [of ops t limit es out])
    have "within_limit ops t limit es"
      using False by (auto simp: within_limit_def victim_None)
    then show ?thesis
      by (simp add: stop evicts_def)
  qed
qed

definition enforced :: "'t held_ops \<Rightarrow> 't session_lru \<Rightarrow> 't evicted \<times> 't session_lru \<Rightarrow> bool" where
  "enforced ops lru r \<longleftrightarrow> (\<exists>mid.
     evicts ops Device (entries lru) mid (from_device (fst r))
   \<and> evicts ops Disk mid (entries (snd r)) (from_disk (fst r))
   \<and> within_limit ops Device (device_bytes (lru_budget lru)) (entries (snd r))
   \<and> within_limit ops Disk (disk_bytes (lru_budget lru)) (entries (snd r))
   \<and> lru_budget (snd r) = lru_budget lru)"

lemma tier_bytes_mset: "mset xs = mset ys \<Longrightarrow> tier_bytes ops t xs = tier_bytes ops t ys"
proof -
  have "tier_bytes ops t zs = sum_mset (image_mset (\<lambda>e. bytes_of ops (held_value e)) (filter_mset (in_tier ops t) (mset zs)))" for zs
    by (simp add: tier_bytes_def flip: mset_filter mset_map sum_mset_sum_list)
  then show "mset xs = mset ys \<Longrightarrow> tier_bytes ops t xs = tier_bytes ops t ys"
    by simp
qed

lemma evicts_other_tier:
  assumes "evicts ops t es es1 out" "t \<noteq> t1" "within_limit ops t1 limit es"
  shows "within_limit ops t1 limit es1"
proof -
  have "filter (in_tier ops t1) out = []"
    using assms(1,2) by (auto simp: evicts_def in_tier_def filter_empty_conv)
  then have "tier_bytes ops t1 (es1 @ out) = tier_bytes ops t1 es1"
    by (simp add: tier_bytes_def)
  moreover have m: "mset es = mset (es1 @ out)"
    using assms(1) by (simp add: evicts_def)
  ultimately have "tier_bytes ops t1 es = tier_bytes ops t1 es1"
    using tier_bytes_mset by metis
  moreover have "set es1 \<subseteq> set es"
    using m by (metis Un_upper1 set_append set_mset_mset)
  ultimately show ?thesis
    using assms(1,3) by (auto simp: within_limit_def evicts_def)
qed

lemma enforce_enforced: "enforced ops lru (enforce ops lru)"
proof -
  define r1 where "r1 = evict_loop ops Device (device_bytes (lru_budget lru)) (entries lru) []"
  define r2 where "r2 = evict_loop ops Disk (disk_bytes (lru_budget lru)) (fst r1) []"
  have r1: "evicts ops Device (entries lru) (fst r1) (snd r1)" "within_limit ops Device (device_bytes (lru_budget lru)) (fst r1)"
    using evict_loop_evicts [of ops Device "device_bytes (lru_budget lru)" "entries lru" "[]"] by (auto simp: r1_def)
  have r2: "evicts ops Disk (fst r1) (fst r2) (snd r2)" "within_limit ops Disk (disk_bytes (lru_budget lru)) (fst r2)"
    using evict_loop_evicts [of ops Disk "disk_bytes (lru_budget lru)" "fst r1" "[]"] by (auto simp: r2_def)
  have "enforce ops lru = (\<lparr>from_device = snd r1, from_disk = snd r2\<rparr>, lru\<lparr>entries := fst r2\<rparr>)"
    by (simp add: enforce_def evict_lru_def r1_def r2_def case_prod_unfold Let_def)
  then show ?thesis
    using r1 r2 evicts_other_tier [OF r2(1) _ r1(2)] by (auto simp: enforced_def)
qed

section \<open>Inserting\<close>

lemma split_covered_filter: "split_covered e xs = (filter (\<lambda>x. \<not> covered_by e x) xs, filter (covered_by e) xs)"
  by (induction xs) (auto simp: Let_def)

text \<open>
  What an insertion drops serves no prompt better: every prompt that can resume the new entry
  resumes it at least as late.
\<close>

lemma covered_resumes_later:
  assumes "covered_by e x" "pos e < common_prefix_len (e_tokens e) prompt"
  shows "resume_point prompt x \<le> resume_point prompt e"
  using assms by (auto simp: resume_point_def resume_point_one covered_by_def)

section \<open>Looking up\<close>

lemma max_by_in:
  assumes "\<And>x y z. le x y \<Longrightarrow> le y z \<Longrightarrow> le x z" "\<And>x y. le x y \<or> le y x"
  shows "max_by le xs = Some x \<Longrightarrow> x \<in> set xs \<and> (\<forall>y\<in>set xs. le y x)"
proof (induction xs arbitrary: x)
  case (Cons a xs)
  have refl: "le z z" for z
    using assms(2) by blast
  show ?case
  proof (cases "max_by le xs")
    case None
    then have "xs = []"
      by (cases xs) (auto split: option.splits if_splits)
    then show ?thesis
      using Cons.prems refl by simp
  next
    case (Some y)
    then show ?thesis
      using Cons.IH [OF Some] Cons.prems assms refl by (auto split: if_splits) blast+
  qed
qed simp

definition resumable :: "'t held_ops \<Rightarrow> u64 \<Rightarrow> tier list \<Rightarrow> 't entry \<Rightarrow> bool" where
  "resumable ops m tiers e \<longleftrightarrow> model e = m \<and> tier_of ops (held_value e) \<in> set tiers"

lemma max_by_None: "max_by le xs = None \<longleftrightarrow> xs = []"
  by (cases xs) (auto split: option.splits if_splits)

text \<open>The answer of \<open>best\<close> against all candidates.\<close>

definition best_of :: "'t held_ops \<Rightarrow> u64 \<Rightarrow> token list \<Rightarrow> tier list \<Rightarrow> 't entry list \<Rightarrow> (nat \<times> nat) option \<Rightarrow> bool" where
  "best_of ops m prompt tiers es r \<longleftrightarrow> (case r of
     None \<Rightarrow> \<forall>e\<in>set es. resumable ops m tiers e \<longrightarrow> resume_point prompt e = 0
   | Some (i, n) \<Rightarrow> i < length es \<and> resumable ops m tiers (es ! i) \<and> 0 < n \<and> n = pos (es ! i)
       \<and> n < length prompt \<and> take (Suc n) (e_tokens (es ! i)) = take (Suc n) prompt
       \<and> (\<forall>j<length es. resumable ops m tiers (es ! j) \<longrightarrow> resume_point prompt (es ! j) \<le> n))"

lemma best_is_best: "best_of ops m prompt tiers (entries lru) (best ops m prompt tiers lru)"
proof -
  let ?es = "entries lru"
  let ?xs = "filter (\<lambda>(i, r). 0 < r) (map (\<lambda>i. (i, resume_point prompt (?es ! i)))
      (filter (\<lambda>i. resumable ops m tiers (?es ! i)) [0..<length ?es]))"
  have best: "best ops m prompt tiers lru = max_by (worse_or_equal ops ?es) ?xs"
    by (simp add: best_def resumable_def Let_def)
  show ?thesis
  proof (cases "best ops m prompt tiers lru")
    case None
    then have "?xs = []"
      by (simp add: best max_by_None)
    then show ?thesis
      using None by (fastforce simp: best_of_def filter_empty_conv in_set_conv_nth)
  next
    case (Some x)
    have "x \<in> set ?xs \<and> (\<forall>y\<in>set ?xs. worse_or_equal ops ?es y x)"
      by (rule max_by_in [OF _ _ Some [unfolded best]]) (auto simp: worse_or_equal_def Let_def)
    moreover obtain i n where x: "x = (i, n)"
      by (cases x)
    ultimately have i: "i < length ?es" "resumable ops m tiers (?es ! i)" "n = resume_point prompt (?es ! i)" "0 < n"
      and worse: "\<forall>y\<in>set ?xs. worse_or_equal ops ?es y (i, n)"
      by auto
    have all: "resume_point prompt (?es ! j) \<le> n" if "j < length ?es" "resumable ops m tiers (?es ! j)" for j
    proof (cases "resume_point prompt (?es ! j) = 0")
      case False
      then have "(j, resume_point prompt (?es ! j)) \<in> set ?xs"
        using that by auto
      then have "worse_or_equal ops ?es (j, resume_point prompt (?es ! j)) (i, n)"
        using worse by blast
      then show ?thesis
        by (auto simp: worse_or_equal_def Let_def)
    qed simp
    have "n = pos (?es ! i)" "n < common_prefix_len (e_tokens (?es ! i)) prompt"
      using i(3,4) by (auto simp: resume_point_def resume_point_one split: if_splits)
    then show ?thesis
      using i all Some x by (simp add: best_of_def less_common_prefix)
  qed
qed

end
