(* ===== verification/Prefix_Properties.thy ===== *)
theory Prefix_Properties
  imports Checkpoint_Ops Session_Lru
begin

text \<open>
  The properties of the caches that let a prompt resume a state kept for an earlier one: their
  bounds over every run, what an admitted checkpoint can count on, the eviction of sessions and
  the prefixes prompts resume from.
\<close>

section \<open>The checkpoint cache as a component\<close>

datatype ('s, 'a, 'err) checkpoint_event =
  Insert_Checkpoint "token list" nat nat nat 's
| Insert_With "token list" nat nat nat "nat list" "'err + ('s \<times> nat)"
| Attach "nat list" nat "'err + ('a \<times> nat)" "nat \<Rightarrow> 's \<Rightarrow> 'a \<Rightarrow> 's"
| Grow nat nat
| Touch nat
| Remove nat

fun checkpoint_step :: "('s, 'a, 'err) checkpoint_event \<Rightarrow> 's checkpoint_lru \<Rightarrow> 's checkpoint_lru" where
  "checkpoint_step (Insert_Checkpoint ts capacity p b s) lru = snd (insert_checkpoint ts capacity p b s lru)"
| "checkpoint_step (Insert_With ts capacity p r ids made) lru = snd (insert_with ts capacity p r ids made lru)"
| "checkpoint_step (Attach ids r made attach) lru = snd (attach_with ids r made attach lru)"
| "checkpoint_step (Grow i extra) lru = snd (grow i extra lru)"
| "checkpoint_step (Touch i) lru = touch_checkpoint i lru"
| "checkpoint_step (Remove i) lru = snd (remove_checkpoint i lru)"

definition same_limits :: "'s checkpoint_lru \<Rightarrow> 's checkpoint_lru \<Rightarrow> bool" where
  "same_limits lru lru1 \<longleftrightarrow> max_entries lru1 = max_entries lru \<and> max_bytes lru1 = max_bytes lru
     \<and> shared_allocation lru1 = shared_allocation lru"

lemma same_limits_simps [simp]:
  "same_limits lru lru" "same_limits lru (lru1\<lparr>queue := q\<rparr>) = same_limits lru lru1"
  "same_limits lru (lru1\<lparr>next_id := n\<rparr>) = same_limits lru lru1"
  by (auto simp: same_limits_def)

lemma same_limits_trans [trans]: "same_limits a b \<Longrightarrow> same_limits b c \<Longrightarrow> same_limits a c"
  by (simp add: same_limits_def)

lemma remove_limits: "same_limits lru (snd (remove_checkpoint i lru))"
  by (simp add: remove_checkpoint_def split: option.split)

lemma drop_limits: "same_limits lru (snd (drop_until_fits n b protected lru))"
proof (induction n b protected lru rule: drop_until_fits.induct)
  case (1 n b protected lru)
  show ?case
  proof (cases "fits n b lru")
    case False
    then show ?thesis
      using 1 by (cases "position (\<lambda>e. ck_id e \<notin> set protected) (queue lru)")
        (auto simp: drop_until_fits.simps [of n b protected lru] same_limits_def)
  qed (simp add: drop_until_fits.simps [of n b protected lru])
qed

lemma make_room_limits: "same_limits lru (snd (make_room n b protected replace lru))"
  using drop_limits same_limits_trans [OF remove_limits drop_limits]
  by (auto simp: make_room_def split: option.split)

lemma push_limits: "same_limits lru (snd (push_checkpoint ts capacity p b s lru))"
  by (simp add: push_checkpoint_def Let_def split: option.split)

lemma pop_limits: "same_limits lru (snd (pop_until_fits priv s lru))"
proof (induction priv s lru rule: pop_until_fits.induct)
  case (1 priv s lru)
  show ?case
  proof (cases "Option.bind (additional_shared_bytes s lru) (checked_add priv)")
    case (Some n)
    then show ?thesis
      using 1 [OF Some] by (auto simp: pop_until_fits.simps [of priv s lru] same_limits_def)
  qed (simp add: pop_until_fits.simps [of priv s lru])
qed

lemma insert_limits: "same_limits lru (snd (insert_checkpoint ts capacity p b s lru))"
proof -
  have pop: "same_limits lru (snd (pop_until_fits priv s (drop_same ts p lru)))" for priv
  proof -
    have "same_limits lru (drop_same ts p lru)"
      using drop_same_subseq [of ts p lru] by auto
    then show ?thesis
      by (rule same_limits_trans [OF _ pop_limits])
  qed
  moreover have "same_limits lru (snd (push_checkpoint ts capacity p b s (snd (pop_until_fits priv s (drop_same ts p lru)))))"
    for priv
    by (rule same_limits_trans [OF pop push_limits])
  ultimately show ?thesis
    by (auto simp: insert_checkpoint_def case_prod_unfold Let_def split: option.split)
qed

lemma insert_with_limits: "same_limits lru (snd (insert_with ts capacity p r ids made lru))"
proof -
  have "same_limits lru (snd (push_checkpoint ts capacity p actual s (snd (make_room 1 n ids replace lru))))"
    for actual s n replace
    by (rule same_limits_trans [OF make_room_limits push_limits])
  then show ?thesis
    using make_room_limits
    by (auto simp: insert_with_def case_prod_unfold Let_def split: option.split sum.split)
qed

lemma attach_limits: "same_limits lru (snd (attach_with ids r made attach lru))"
  using make_room_limits [of lru 0 r ids None]
  by (auto simp: attach_with_def case_prod_unfold Let_def split: sum.split)

lemma grow_limits: "same_limits lru (snd (grow i extra lru))"
  using make_room_limits [of lru 0 extra "[i]" None] same_limits_trans [OF make_room_limits remove_limits]
    remove_limits [of lru i]
  by (auto simp: grow_def case_prod_unfold Let_def split: option.split)

lemma touch_limits: "same_limits lru (touch_checkpoint i lru)"
  using remove_limits [of lru i] by (auto simp: touch_checkpoint_def split: option.split prod.split)

definition bounded_cache :: "nat \<Rightarrow> nat \<Rightarrow> ('s \<Rightarrow> (nat \<times> nat) option) \<Rightarrow> 's checkpoint_lru \<Rightarrow> bool" where
  "bounded_cache n b sa lru \<longleftrightarrow>
     lru_ok lru \<and> max_entries lru = n \<and> max_bytes lru = b \<and> shared_allocation lru = sa"

lemma checkpoint_step_keeps:
  assumes "bounded_cache n b sa lru"
  shows "bounded_cache n b sa (checkpoint_step e lru)"
proof -
  have "lru_ok (checkpoint_step e lru)"
    using assms
    by (cases e) (simp_all add: bounded_cache_def insert_checkpoint_ok insert_with_ok attach_with_ok grow_ok
        touch_checkpoint_ok remove_checkpoint_ok)
  moreover have "same_limits lru (checkpoint_step e lru)"
    by (cases e) (simp_all add: remove_limits insert_limits insert_with_limits attach_limits grow_limits touch_limits)
  ultimately show ?thesis
    using assms by (simp add: bounded_cache_def same_limits_def)
qed

interpretation checkpoints: component "bounded_cache n b sa" "\<lambda>e lru. True" checkpoint_step for n b sa
  by unfold_locales (rule checkpoint_step_keeps)

lemma guarded_True: "guarded (\<lambda>e s. True) f es s"
  by (induction es arbitrary: s) auto

lemma new_cache_bounded: "n \<le> usize_max \<Longrightarrow> b \<le> usize_max \<Longrightarrow> bounded_cache n b sa (with_shared_allocation n b sa)"
  by (simp add: bounded_cache_def lru_ok_def with_shared_allocation_def machine_sized_def usize_max_def)

lemma retained_ok: "lru_ok lru \<Longrightarrow> retained_bytes (\<lambda>e. True) lru = Some (cost (shared_allocation lru) (queue lru))"
  using lru_okD(1,3,4) [of lru] by (auto simp: retained_exact Let_def machine_sized_def)

text \<open>
  C30. The checkpoint cache keeps its bounds. Over every sequence of insertions, reserved insertions,
  attachments of shared allocations, growth, use and removal, whatever the closures answer, a
  cache created with room for \<open>n\<close> entries and \<open>b\<close> bytes never holds more than either, counting each
  shared allocation once and all token vectors at their capacity; its own accounting never
  overflows and agrees with that count, and no two entries have the same identity.
\<close>

theorem checkpoint_cache_keeps_bounds:
  fixes es :: "('s, 'a, 'err) checkpoint_event list" and sa :: "'s \<Rightarrow> (nat \<times> nat) option"
  assumes "n \<le> usize_max" "b \<le> usize_max"
  defines "lru \<equiv> run checkpoint_step es (with_shared_allocation n b sa)"
  shows "length (queue lru) \<le> n \<and> consistent sa (queue lru) \<and> cost sa (queue lru) \<le> b
    \<and> retained_bytes (\<lambda>e. True) lru = Some (cost sa (queue lru))
    \<and> distinct (map ck_id (queue lru)) \<and> list_all (well_placed lru) (queue lru)"
proof -
  have "bounded_cache n b sa lru"
    unfolding lru_def by (rule checkpoints.run_keeps [OF new_cache_bounded [OF assms(1,2)] guarded_True])
  then show ?thesis
    using lru_okD [of lru] retained_ok [of lru] by (auto simp: bounded_cache_def list_all_iff)
qed

theorem checkpoint_cache_keeps_bounds_witness:
  "length (queue (run checkpoint_step
      [Insert_Checkpoint [1, 2, 3] 3 2 10 (), Insert_With [1, 2, 4] 4 2 40 [1] (Inr ((), 8)),
       Attach [1] 5 (Inr ((), 5)) (\<lambda>i s a. a), Grow 1 7, Touch 1, Remove 2 :: (unit, unit, unit) checkpoint_event]
      (with_shared_allocation 2 100 (\<lambda>s. None)))) \<le> 2"
  by (rule conjunct1 [OF checkpoint_cache_keeps_bounds [where b = 100]]) (simp_all add: usize_max_def)

section \<open>What an insertion can count on\<close>

definition own_share :: "'s \<Rightarrow> 's checkpoint_lru \<Rightarrow> nat" where
  "own_share s lru = (case shared_allocation lru s of Some (_, b) \<Rightarrow> b | None \<Rightarrow> 0)"

text \<open>The checkpoint fits when it is alone, and nobody gives its allocation another size.\<close>

definition insertable :: "token list \<Rightarrow> nat \<Rightarrow> nat \<Rightarrow> nat \<Rightarrow> 's \<Rightarrow> 's checkpoint_lru \<Rightarrow> bool" where
  "insertable ts capacity p b s lru \<longleftrightarrow> 0 < p \<and> p \<le> length ts \<and> 0 < max_entries lru \<and> next_id lru < usize_max
     \<and> b + capacity * 4 + own_share s lru \<le> max_bytes lru
     \<and> (case shared_allocation lru s of
          Some (i, c) \<Rightarrow> \<not> clash (shared_allocation lru) (queue lru) i c
        | None \<Rightarrow> True)"

lemma insertable_subseq:
  assumes "insertable ts capacity p b s lru" "subseq q (queue lru)"
  shows "insertable ts capacity p b s (lru\<lparr>queue := q\<rparr>)"
proof -
  have "shares (shared_allocation lru) q \<subseteq> shares (shared_allocation lru) (queue lru)"
    using subseq_facts(1) [OF assms(2)] by (auto simp: shares_def)
  then have "clash (shared_allocation lru) q i c \<Longrightarrow> clash (shared_allocation lru) (queue lru) i c" for i c
    unfolding clash_def by blast
  then show ?thesis
    using assms(1) by (auto simp: insertable_def own_share_def split: option.splits)
qed

lemma insertable_additional:
  assumes "insertable ts capacity p b s lru" "consistent (shared_allocation lru) (queue lru)"
    and "subseq q (queue lru)"
  shows "\<exists>x. additional_shared_bytes s (lru\<lparr>queue := q\<rparr>) = Some x \<and> x \<le> own_share s lru"
proof (cases "shared_allocation lru s")
  case None
  then show ?thesis
    by (simp add: additional_shared_bytes_def)
next
  case (Some y)
  obtain i c where y: "y = (i, c)"
    by (cases y)
  have "\<not> clash (shared_allocation lru) q i c"
    using insertable_subseq [OF assms(1,3)] Some y by (simp add: insertable_def)
  then show ?thesis
    using Some y additional_loop_exact [OF cost_subseq(1) [OF assms(3,2)], of i c c]
    by (simp add: additional_shared_bytes_def own_share_def)
qed

lemma pop_until_fits_succeeds:
  assumes "machine_sized lru" "insertable ts capacity p b s lru" "consistent (shared_allocation lru) (queue lru)"
    and "priv = b + capacity * 4"
  shows "fst (pop_until_fits priv s lru) \<and> next_id (snd (pop_until_fits priv s lru)) = next_id lru"
  using assms
proof (induction priv s lru rule: pop_until_fits.induct)
  case (1 priv s lru)
  obtain x where x: "additional_shared_bytes s lru = Some x" "x \<le> own_share s lru"
    using insertable_additional [OF "1.prems"(2,3), of "queue lru"] by auto
  have small: "priv + x \<le> max_bytes lru" "max_bytes lru \<le> usize_max"
    using "1.prems"(1,2,4) x(2) by (auto simp: insertable_def machine_sized_def)
  then have n: "Option.bind (additional_shared_bytes s lru) (checked_add priv) = Some (priv + x)"
    using x(1) by (simp add: checked_add_def)
  consider "fits 1 (priv + x) lru" | "\<not> fits 1 (priv + x) lru" "queue lru = []"
    | "\<not> fits 1 (priv + x) lru" "queue lru \<noteq> []"
    by blast
  then show ?case
  proof cases
    case 1
    then show ?thesis
      using n by (simp add: pop_until_fits.simps [of priv s lru])
  next
    case 2
    then show ?thesis
      using small(1) "1.prems"(2) fits_iff [OF "1.prems"(1), of 1 "priv + x"] by (simp add: insertable_def)
  next
    case 3
    let ?lru = "lru\<lparr>queue := tl (queue lru)\<rparr>"
    have sub: "subseq (tl (queue lru)) (queue lru)"
      using 3(2) by (cases "queue lru") auto
    have "machine_sized ?lru" "consistent (shared_allocation ?lru) (queue ?lru)"
      using "1.prems"(1) cost_subseq(1) [OF sub "1.prems"(3)] by (simp_all add: machine_sized_def)
    moreover have "insertable ts capacity p b s ?lru"
      by (rule insertable_subseq [OF "1.prems"(2) sub])
    ultimately have "fst (pop_until_fits priv s ?lru) \<and> next_id (snd (pop_until_fits priv s ?lru)) = next_id ?lru"
      using "1.IH" [OF n 3] "1.prems"(4) by blast
    moreover have "pop_until_fits priv s lru = pop_until_fits priv s ?lru"
      using 3 n by (simp add: pop_until_fits.simps [of priv s lru])
    moreover have "next_id ?lru = next_id lru"
      by simp
    ultimately show ?thesis
      by metis
  qed
qed

lemma find_append_None: "find P xs = None \<Longrightarrow> find P (xs @ [x]) = (if P x then Some x else None)"
  by (induction xs) (auto split: if_splits)

text \<open>
  C31. A checkpoint that fits on its own is always admitted. When its position lies inside its tokens,
  its bytes fit the budget alone and its shared allocation is not known with another size, the
  insertion returns the next identity and the cache then holds exactly the inserted entry under
  it: older entries make way, the new one never fails.
\<close>

theorem inserted_checkpoint_is_kept:
  assumes ok: "lru_ok lru" and fits: "insertable ts capacity p b s lru"
  shows "case insert_checkpoint ts capacity p b s lru of
      (None, lru1) \<Rightarrow> False
    | (Some i, lru1) \<Rightarrow> i = next_id lru \<and> get_checkpoint i lru1 = Some
        \<lparr>ck_id = i, ck_tokens = ts, ck_capacity = capacity, ck_pos = p, ck_bytes = b, ck_state = s\<rparr>"
proof -
  let ?priv = "b + capacity * 4"
  define lru1 where "lru1 = drop_same ts p lru"
  obtain q where q: "lru1 = lru\<lparr>queue := q\<rparr>" "subseq q (queue lru)"
    using drop_same_subseq [of ts p lru] by (auto simp: lru1_def)
  have ok1: "lru_ok lru1"
    using lru_ok_subseq [OF ok q(2)] q(1) by simp
  have fits1: "insertable ts capacity p b s lru1"
    using insertable_subseq [OF fits q(2)] q(1) by simp
  obtain lru2 where pop: "pop_until_fits ?priv s lru1 = (True, lru2)" "next_id lru2 = next_id lru"
    using pop_until_fits_succeeds [OF lru_okD(1) [OF ok1] fits1 lru_okD(3) [OF ok1] refl] q(1)
    by (cases "pop_until_fits ?priv s lru1") auto
  have room: "?priv + own_share s lru \<le> usize_max"
    using fits lru_okD(1) [OF ok] by (auto simp: insertable_def machine_sized_def)
  then have sums: "Option.bind (token_vec_bytes capacity) (checked_add b) = Some ?priv"
    "checked_add ?priv (own_share s lru) = Some (?priv + own_share s lru)"
    by (auto simp: token_vec_bytes_def checked_mul_def checked_add_def)
  obtain x where shared: "additional_shared_bytes s lru = Some x"
    using insertable_additional [OF fits lru_okD(3) [OF ok], of "queue lru"] by auto
  have "insert_checkpoint ts capacity p b s lru = push_checkpoint ts capacity p b s lru2"
    using fits sums shared pop(1)
    by (simp add: insert_checkpoint_def insertable_def own_share_def lru1_def Let_def)
  moreover have "checked_add (next_id lru) 1 = Some (Suc (next_id lru))"
    using fits by (simp add: insertable_def checked_add_def)
  moreover have "lru_ok lru2"
    using pop_until_fits_ok [OF ok1, of ?priv s] pop(1) by simp
  then have "\<forall>e\<in>set (queue lru2). ck_id e \<noteq> next_id lru"
    using lru_okD(6) [of lru2] pop(2) by (fastforce simp: well_placed_def)
  then have "find (\<lambda>e. ck_id e = next_id lru) (queue lru2) = None"
    by (simp add: find_None_iff)
  then have "find (\<lambda>e. ck_id e = next_id lru) (queue lru2 @ [e]) = (if ck_id e = next_id lru then Some e else None)" for e
    by (simp add: find_append_None)
  ultimately show ?thesis
    using pop(2) by (simp add: push_checkpoint_def get_checkpoint_def Let_def)
qed

theorem inserted_checkpoint_is_kept_witness:
  "case insert_checkpoint [1, 2, 3] 3 2 10 () (with_shared_allocation 2 100 (\<lambda>s :: unit. None)) of
      (None, lru1) \<Rightarrow> False
    | (Some i, lru1) \<Rightarrow> i = 1 \<and> get_checkpoint i lru1 = Some
        \<lparr>ck_id = i, ck_tokens = [1, 2, 3], ck_capacity = 3, ck_pos = 2, ck_bytes = 10, ck_state = ()\<rparr>"
proof -
  have first: "next_id (with_shared_allocation 2 100 (\<lambda>s :: unit. None)) = 1"
    by (simp add: with_shared_allocation_def)
  have ok: "lru_ok (with_shared_allocation 2 100 (\<lambda>s :: unit. None))"
    using new_cache_bounded [of 2 100 "\<lambda>s :: unit. None"] by (simp add: bounded_cache_def usize_max_def)
  have fits: "insertable [1, 2, 3] 3 2 10 () (with_shared_allocation 2 100 (\<lambda>s :: unit. None))"
    by (simp add: insertable_def with_shared_allocation_def own_share_def usize_max_def)
  show ?thesis
    using inserted_checkpoint_is_kept [OF ok fits] unfolding first .
qed

text \<open>
  C32. A prompt resumes at the longest checkpoint it can use: the selection answers an entry whose
  tokens up to its position are a proper prefix of the prompt, none of the usable entries lies
  further, and it answers nothing only when no entry is usable.
\<close>

theorem selected_checkpoint_is_longest:
  "best_hit prompt eligible (queue lru) (select_where prompt eligible lru)"
  by (rule select_where_best)

section \<open>Sessions\<close>

text \<open>
  C33. Enforcing the budget of the session cache evicts only what it may and enough of it: no session is
  lost or invented, device sessions and then disk sessions go in the order of their last use,
  never a working state nor the latest session of a model, and afterwards each tier is
  within its budget or holds only such sessions.
\<close>

theorem session_budget_is_enforced: "enforced ops lru (enforce ops lru)"
  by (rule enforce_enforced)

end
