(* ===== verification/Vram_Gate.thy ===== *)
theory Vram_Gate
  imports Prelude
begin

text \<open>
  The admission of chat requests by device memory, \<open>src/oapi/admission.rs\<close>: a ledger of the bytes
  in flight, the bytes that stay with pooled objects (\<open>retained\<close>) and the number of requests, all
  behind one mutex, and tasks that wait for room until a deadline. Bytes are \<open>u64\<close> values, here
  natural numbers with the saturating operations written out; times are in milliseconds.

  Parameters are the time, the bytes that the plan ledger records outside the KV reserve
  (\<open>vram_plan.rs\<close>), and the limits read from the environment; telemetry is left out.
\<close>

section \<open>The ledger\<close>

record gate_state =
  gs_used :: nat
  gs_retained :: nat
  gs_active :: nat

datatype gate_capacity = Budget_Less_Ledger nat nat

fun capacity_bytes :: "nat \<Rightarrow> gate_capacity \<Rightarrow> nat" where
  "capacity_bytes planned (Budget_Less_Ledger budget measured_static) = budget - max measured_static planned"

record vram_gate =
  vg_capacity :: gate_capacity
  vg_transient_pad :: nat
  vg_queue :: nat

record vram_guard =
  g_charge :: nat
  g_sticky :: nat

record rejected =
  rj_needed :: nat
  rj_used :: nat
  rj_capacity :: nat
  rj_active :: nat
  rj_waited :: nat

definition empty_gate_state :: gate_state where
  "empty_gate_state = \<lparr>gs_used = 0, gs_retained = 0, gs_active = 0\<rparr>"

definition set_sticky :: "nat \<Rightarrow> vram_guard \<Rightarrow> vram_guard" where
  "set_sticky n g = g\<lparr>g_sticky := n\<rparr>"

text \<open>The critical section of \<open>drop\<close>. The fixed capacity used by tests is left out above.\<close>

definition drop_guard :: "vram_guard \<Rightarrow> gate_state \<Rightarrow> gate_state" where
  "drop_guard g st =
     (let grown = max (gs_retained st) (g_sticky g);
          kept = (if 0 < g_sticky g then grown - gs_retained st else 0)
      in \<lparr>gs_used = gs_used st - (g_charge g - kept),
          gs_retained = (if 0 < g_sticky g then grown else gs_retained st),
          gs_active = gs_active st - 1\<rparr>)"

record admit_request =
  rq_sticky :: nat
  rq_extra :: nat
  rq_pad :: nat
  rq_started :: nat

definition charge_for :: "admit_request \<Rightarrow> gate_state \<Rightarrow> nat" where
  "charge_for r st =
     saturating_add (saturating_add (rq_sticky r - gs_retained st) (rq_extra r)) (rq_pad r)"

datatype admit_outcome = Admitted vram_guard | Refused rejected | Waits

text \<open>The critical section of \<open>admit\<close>, at the time \<open>now\<close>.\<close>

definition admit_section ::
  "vram_gate \<Rightarrow> nat \<Rightarrow> nat \<Rightarrow> admit_request \<Rightarrow> gate_state \<Rightarrow> admit_outcome \<times> gate_state" where
  "admit_section vg planned now r st =
     (let capacity = capacity_bytes planned (vg_capacity vg);
          charge = charge_for r st;
          fits = saturating_add (gs_used st) charge \<le> capacity
      in if fits \<or> gs_active st = 0 then
           (Admitted \<lparr>g_charge = charge, g_sticky = rq_sticky r\<rparr>,
            st\<lparr>gs_used := saturating_add (gs_used st) charge, gs_active := gs_active st + 1\<rparr>)
         else if rq_started r + vg_queue vg \<le> now then
           (Refused \<lparr>rj_needed = charge, rj_used = gs_used st, rj_capacity = capacity,
              rj_active = gs_active st, rj_waited = now - rq_started r\<rparr>, st)
         else (Waits, st))"

definition retry_after_secs :: "vram_gate \<Rightarrow> nat" where
  "retry_after_secs vg = max ((vg_queue vg + 999) div 1000) 1"

text \<open>\<open>admit_or_bail\<close> and \<open>admit_or_bail_measured\<close> differ in the pad.\<close>

definition bail_request :: "vram_gate \<Rightarrow> nat \<Rightarrow> nat \<Rightarrow> nat \<Rightarrow> admit_request" where
  "bail_request vg sticky extra now =
     \<lparr>rq_sticky = sticky, rq_extra = extra, rq_pad = vg_transient_pad vg, rq_started = now\<rparr>"

definition default_batch_pad_mib :: nat where
  "default_batch_pad_mib = 64"

definition measured_request :: "nat option \<Rightarrow> nat \<Rightarrow> nat \<Rightarrow> nat \<Rightarrow> admit_request" where
  "measured_request pad_mib sticky extra now =
     \<lparr>rq_sticky = sticky, rq_extra = extra,
      rq_pad = (case pad_mib of Some mib \<Rightarrow> mib * 2 ^ 20 mod 2 ^ 64 | None \<Rightarrow> default_batch_pad_mib * 2 ^ 20),
      rq_started = now\<rparr>"

section \<open>Tasks at the gate\<close>

text \<open>
  A task between two turns of the loop of \<open>admit\<close> waits for a notification or its deadline; it
  registered for the notification inside the critical section. \<open>drop\<close> leaves the mutex first and
  notifies afterwards, so that other sections may come between: \<open>gy_pending\<close> counts the
  notifications still to be sent.
\<close>

record gate_system =
  gy_state :: gate_state
  gy_guards :: "(nat \<times> vram_guard) list"
  gy_waiting :: "(nat \<times> admit_request \<times> bool) list"
  gy_pending :: nat
  gy_rejected :: "(nat \<times> rejected) list"

definition new_gate_system :: gate_system where
  "new_gate_system =
     \<lparr>gy_state = empty_gate_state, gy_guards = [], gy_waiting = [], gy_pending = 0, gy_rejected = []\<rparr>"

definition without :: "nat \<Rightarrow> (nat \<times> 'a) list \<Rightarrow> (nat \<times> 'a) list" where
  "without i xs = filter (\<lambda>p. fst p \<noteq> i) xs"

definition sticky_at :: "nat \<Rightarrow> nat \<Rightarrow> (nat \<times> vram_guard) list \<Rightarrow> (nat \<times> vram_guard) list" where
  "sticky_at i n gs = map (\<lambda>(j, g). (j, if j = i then set_sticky n g else g)) gs"

definition wake_all :: "(nat \<times> admit_request \<times> bool) list \<Rightarrow> (nat \<times> admit_request \<times> bool) list" where
  "wake_all ws = map (\<lambda>(j, r, w). (j, r, True)) ws"

definition attempt :: "vram_gate \<Rightarrow> nat \<Rightarrow> nat \<Rightarrow> nat \<Rightarrow> admit_request \<Rightarrow> gate_system \<Rightarrow> gate_system" where
  "attempt vg i planned now r gy =
     (case admit_section vg planned now r (gy_state gy) of
        (Admitted g, st) \<Rightarrow> gy\<lparr>gy_state := st, gy_guards := (i, g) # gy_guards gy,
          gy_waiting := without i (gy_waiting gy)\<rparr>
      | (Refused rj, st) \<Rightarrow> gy\<lparr>gy_state := st, gy_waiting := without i (gy_waiting gy),
          gy_rejected := gy_rejected gy @ [(i, rj)]\<rparr>
      | (Waits, st) \<Rightarrow> gy\<lparr>gy_state := st, gy_waiting := (i, r, False) # without i (gy_waiting gy)\<rparr>)"

datatype gate_event =
  Arrive nat nat admit_request
| Retry nat nat nat
| Give_Up nat
| Set_Sticky nat nat
| Drop_Guard nat
| Notify_Waiters

fun gate_step :: "vram_gate \<Rightarrow> gate_event \<Rightarrow> gate_system \<Rightarrow> gate_system" where
  "gate_step vg (Arrive i planned r) gy =
     (if i \<in> fst ` set (gy_guards gy) \<union> fst ` set (gy_waiting gy) then gy
      else attempt vg i planned (rq_started r) r gy)"
| "gate_step vg (Retry i planned now) gy = (case map_of (gy_waiting gy) i of
     Some (r, woken) \<Rightarrow>
       if woken \<or> rq_started r + vg_queue vg \<le> now then attempt vg i planned now r gy else gy
   | None \<Rightarrow> gy)"
| "gate_step vg (Give_Up i) gy = gy\<lparr>gy_waiting := without i (gy_waiting gy)\<rparr>"
| "gate_step vg (Set_Sticky i n) gy =
     gy\<lparr>gy_guards := sticky_at i n (gy_guards gy)\<rparr>"
| "gate_step vg (Drop_Guard i) gy = (case map_of (gy_guards gy) i of
     Some g \<Rightarrow> gy\<lparr>gy_state := drop_guard g (gy_state gy), gy_guards := without i (gy_guards gy),
       gy_pending := gy_pending gy + 1\<rparr>
   | None \<Rightarrow> gy)"
| "gate_step vg Notify_Waiters gy =
     (if gy_pending gy = 0 then gy
      else gy\<lparr>gy_pending := gy_pending gy - 1, gy_waiting := wake_all (gy_waiting gy)\<rparr>)"

section \<open>The books\<close>

text \<open>
  What the callers keep: the bytes asked for do not overflow the ledger, and the bytes declared
  sticky before a release were charged for or are retained already (they declare none, or
  the share of the charge that goes back to the pool).
\<close>

definition event_ok :: "gate_event \<Rightarrow> gate_system \<Rightarrow> bool" where
  "event_ok e gy = (let st = gy_state gy;
       room = (\<lambda>r. gs_used st + (rq_sticky r - gs_retained st) + rq_extra r + rq_pad r \<le> usize_max) in
     case e of
       Arrive i planned r \<Rightarrow> room r
     | Retry i planned now \<Rightarrow> (case map_of (gy_waiting gy) i of Some (r, w) \<Rightarrow> room r | None \<Rightarrow> True)
     | Set_Sticky i n \<Rightarrow> (case map_of (gy_guards gy) i of Some g \<Rightarrow> n \<le> g_charge g + gs_retained st | None \<Rightarrow> True)
     | _ \<Rightarrow> True)"

definition woken :: "nat \<times> admit_request \<times> bool \<Rightarrow> bool" where
  "woken p = snd (snd p)"

lemma woken_simps [simp]: "woken (i, r, w) = w"
  by (simp add: woken_def)

definition justified :: "vram_gate \<Rightarrow> rejected \<Rightarrow> bool" where
  "justified vg rj \<longleftrightarrow> vg_queue vg \<le> rj_waited rj \<and> 0 < rj_active rj \<and> rj_capacity rj < rj_used rj + rj_needed rj"

definition balanced :: "vram_gate \<Rightarrow> gate_system \<Rightarrow> bool" where
  "balanced vg gy \<longleftrightarrow>
     gs_used (gy_state gy) = gs_retained (gy_state gy) + sum_by (\<lambda>p. g_charge (snd p)) (gy_guards gy)
   \<and> gs_active (gy_state gy) = length (gy_guards gy)
   \<and> (gs_used (gy_state gy) \<le> capacity_bytes 0 (vg_capacity vg) \<or> length (gy_guards gy) \<le> 1)
   \<and> (\<forall>p\<in>set (gy_guards gy). g_sticky (snd p) \<le> g_charge (snd p) + gs_retained (gy_state gy))
   \<and> distinct (map fst (gy_guards gy)) \<and> distinct (map fst (gy_waiting gy))
   \<and> fst ` set (gy_guards gy) \<inter> fst ` set (gy_waiting gy) = {}
   \<and> (\<forall>p\<in>set (gy_rejected gy). justified vg (snd p))
   \<and> (gy_pending gy = 0 \<and> gs_active (gy_state gy) = 0 \<longrightarrow> (\<forall>p\<in>set (gy_waiting gy). woken p))"

lemma set_without [simp]: "set (without i xs) = {p \<in> set xs. fst p \<noteq> i}"
  by (auto simp: without_def)

lemma distinct_without: "distinct (map fst xs) \<Longrightarrow> distinct (map fst (without i xs))"
  by (simp add: without_def distinct_map inj_on_def)

lemma without_fresh: "i \<notin> fst ` set xs \<Longrightarrow> without i xs = xs"
  by (auto simp: without_def filter_id_conv image_iff)

lemma sum_by_without:
  assumes "distinct (map fst xs)" "map_of xs i = Some x"
  shows "sum_by (\<lambda>p. f (snd p)) xs = f x + sum_by (\<lambda>p. f (snd p)) (without i xs)"
  using assms
proof (induction xs)
  case (Cons p xs)
  have "without (fst p) xs = xs"
    using Cons.prems(1) by (intro without_fresh) auto
  moreover have "without i (p # xs) = (if fst p = i then without i xs else p # without i xs)"
    by (simp add: without_def)
  ultimately show ?case
    using Cons by (cases "fst p = i") (auto simp: add.left_commute)
qed simp

lemma length_without:
  "distinct (map fst xs) \<Longrightarrow> map_of xs i = Some x \<Longrightarrow> length xs = Suc (length (without i xs))"
  using sum_by_without [of xs i x "\<lambda>y. 1 :: nat"] by (simp add: sum_by_def sum_list_triv)

lemma sticky_at_keys [simp]: "map fst (sticky_at i n gs) = map fst gs"
  by (induction gs) (auto simp: sticky_at_def)

lemma wake_all_keys [simp]: "map fst (wake_all ws) = map fst ws"
  by (induction ws) (auto simp: wake_all_def)

lemma same_keys [simp]:
  "fst ` set (sticky_at i n gs) = fst ` set gs" "fst ` set (wake_all ws) = fst ` set ws"
  "length (sticky_at i n gs) = length gs"
  using sticky_at_keys [of i n gs] wake_all_keys [of ws] by (metis set_map, metis set_map, simp add: sticky_at_def)

lemma sticky_at_charges [simp]: "sum_by (\<lambda>p. g_charge (snd p)) (sticky_at i n gs) = sum_by (\<lambda>p. g_charge (snd p)) gs"
  by (induction gs) (auto simp: sticky_at_def set_sticky_def)

lemma wake_all_woken [simp]: "p \<in> set (wake_all ws) \<Longrightarrow> woken p"
  by (auto simp: wake_all_def)

lemma capacity_bytes_le: "capacity_bytes planned c \<le> capacity_bytes 0 c"
  by (cases c) auto

lemma charge_exact:
  "gs_used st + (rq_sticky r - gs_retained st) + rq_extra r + rq_pad r \<le> usize_max \<Longrightarrow>
   charge_for r st = (rq_sticky r - gs_retained st) + rq_extra r + rq_pad r
   \<and> saturating_add (gs_used st) (charge_for r st) = gs_used st + charge_for r st"
  by (simp add: charge_for_def saturating_add_exact)

lemma balancedD:
  assumes "balanced vg gy"
  shows "gs_used (gy_state gy) = gs_retained (gy_state gy) + sum_by (\<lambda>p. g_charge (snd p)) (gy_guards gy)"
    "gs_active (gy_state gy) = length (gy_guards gy)"
    "gs_used (gy_state gy) \<le> capacity_bytes 0 (vg_capacity vg) \<or> length (gy_guards gy) \<le> 1"
    "p \<in> set (gy_guards gy) \<Longrightarrow> g_sticky (snd p) \<le> g_charge (snd p) + gs_retained (gy_state gy)"
    "distinct (map fst (gy_guards gy))" "distinct (map fst (gy_waiting gy))"
    "fst ` set (gy_guards gy) \<inter> fst ` set (gy_waiting gy) = {}"
    "q \<in> set (gy_rejected gy) \<Longrightarrow> justified vg (snd q)"
    "gy_pending gy = 0 \<Longrightarrow> gs_active (gy_state gy) = 0 \<Longrightarrow> w \<in> set (gy_waiting gy) \<Longrightarrow> woken w"
  using assms by (auto simp: balanced_def)

lemma attempt_balanced:
  assumes b: "balanced vg gy" and i: "i \<notin> fst ` set (gy_guards gy)"
    and room: "gs_used (gy_state gy) + (rq_sticky r - gs_retained (gy_state gy)) + rq_extra r + rq_pad r \<le> usize_max"
  shows "balanced vg (attempt vg i planned now r gy)"
proof -
  let ?st = "gy_state gy"
  note exact = charge_exact [OF room]
  let ?in = "saturating_add (gs_used ?st) (charge_for r ?st) \<le> capacity_bytes planned (vg_capacity vg) \<or> gs_active ?st = 0"
  show ?thesis
  proof (cases ?in)
    case True
    have "rq_sticky r \<le> charge_for r ?st + gs_retained ?st"
      using exact by simp
    moreover have "gs_used ?st + charge_for r ?st \<le> capacity_bytes 0 (vg_capacity vg) \<or> gy_guards gy = []"
      using True exact capacity_bytes_le [of planned "vg_capacity vg"] balancedD(2) [OF b] by auto
    ultimately show ?thesis
      using True exact b i
      by (auto simp: attempt_def admit_section_def balanced_def Let_def distinct_without)
  next
    case False
    then show ?thesis
      using b i exact
      by (auto simp: attempt_def admit_section_def balanced_def Let_def distinct_without justified_def)
  qed
qed

lemma drop_balanced:
  assumes b: "balanced vg gy" and g: "map_of (gy_guards gy) i = Some g"
  shows "balanced vg (gate_step vg (Drop_Guard i) gy)"
proof -
  let ?st = "gy_state gy" and ?rest = "without i (gy_guards gy)"
  define kept where "kept = (if 0 < g_sticky g then max (gs_retained ?st) (g_sticky g) - gs_retained ?st else 0)"
  note split = length_without [OF balancedD(5) [OF b] g] sum_by_without [OF balancedD(5) [OF b] g, of g_charge]
  have "g_sticky g \<le> g_charge g + gs_retained ?st"
    using balancedD(4) [OF b, of "(i, g)"] map_of_SomeD [OF g] by simp
  then have kept: "kept \<le> g_charge g"
    by (auto simp: kept_def)
  have st: "drop_guard g ?st = \<lparr>gs_used = gs_used ?st - (g_charge g - kept),
      gs_retained = gs_retained ?st + kept, gs_active = gs_active ?st - 1\<rparr>"
    by (auto simp: drop_guard_def kept_def Let_def)
  have used: "gs_used ?st - (g_charge g - kept) = gs_retained ?st + kept + sum_by (\<lambda>p. g_charge (snd p)) ?rest"
    using balancedD(1) [OF b] split(2) kept by simp
  have bound: "gs_used ?st - (g_charge g - kept) \<le> capacity_bytes 0 (vg_capacity vg) \<or> length ?rest \<le> 1"
    using balancedD(3) [OF b] split(1) by auto
  show ?thesis
    unfolding balanced_def
    using b split(1) used bound
    by (auto simp: g st distinct_without trans_le_add1 balanced_def intro: trans_le_add1)
qed

lemma gate_step_balanced:
  assumes b: "balanced vg gy" and ok: "event_ok e gy"
  shows "balanced vg (gate_step vg e gy)"
proof (cases e)
  case (Arrive i planned r)
  then show ?thesis
    using b ok attempt_balanced [OF b, of i r planned "rq_started r"] by (auto simp: event_ok_def Let_def)
next
  case (Retry i planned now)
  show ?thesis
  proof (cases "map_of (gy_waiting gy) i")
    case (Some x)
    then have "i \<in> fst ` set (gy_waiting gy)"
      by (metis image_eqI fst_conv map_of_SomeD)
    then have "i \<notin> fst ` set (gy_guards gy)"
      using balancedD(7) [OF b] by blast
    then show ?thesis
      using b ok Some Retry attempt_balanced [OF b, of i "fst x" planned now]
      by (cases x) (simp add: event_ok_def Let_def)
  qed (use b Retry in simp)
next
  case (Give_Up i)
  then show ?thesis
    using b by (auto simp: balanced_def distinct_without)
next
  case (Set_Sticky i n)
  have "g_sticky (snd q) \<le> g_charge (snd q) + gs_retained (gy_state gy)"
    if q: "q \<in> set (sticky_at i n (gy_guards gy))" for q
  proof -
    obtain g where g: "(fst q, g) \<in> set (gy_guards gy)" "snd q = (if fst q = i then set_sticky n g else g)"
      using q by (auto simp: sticky_at_def)
    then have "map_of (gy_guards gy) (fst q) = Some g"
      using balancedD(5) [OF b] by simp
    then show ?thesis
      using ok Set_Sticky g(2) balancedD(4) [OF b g(1)] by (auto simp: event_ok_def set_sticky_def)
  qed
  then show ?thesis
    using b unfolding Set_Sticky balanced_def by auto
next
  case (Drop_Guard i)
  then show ?thesis
    using b drop_balanced [OF b, of i] by (cases "map_of (gy_guards gy) i") auto
next
  case Notify_Waiters
  then show ?thesis
    using b unfolding Notify_Waiters balanced_def by auto
qed

interpretation gate: component "balanced vg" event_ok "gate_step vg" for vg
  by unfold_locales (rule gate_step_balanced)

lemma new_gate_balanced: "balanced vg new_gate_system"
  by (simp add: balanced_def new_gate_system_def empty_gate_state_def)

section \<open>Properties\<close>

text \<open>
  C28. The admission ledger is exact. Over every interleaving of arrivals, retries, releases and
  notifications, with the plan ledger changing at will, the bytes in flight are the retained
  bytes and the charges of the requests that hold a guard, the counter is their number, two
  requests together never exceed the budget less the measured static bytes, and a request is
  refused only after its whole wait, when it did not fit beside others.
\<close>

theorem vram_ledger_is_exact:
  assumes "guarded event_ok (gate_step vg) es new_gate_system"
  defines "gy \<equiv> run (gate_step vg) es new_gate_system"
  shows "gs_used (gy_state gy) = gs_retained (gy_state gy) + sum_list (map (\<lambda>(i, g). g_charge g) (gy_guards gy))
    \<and> gs_active (gy_state gy) = length (gy_guards gy)
    \<and> (1 < length (gy_guards gy) \<longrightarrow> gs_used (gy_state gy) \<le> capacity_bytes 0 (vg_capacity vg))
    \<and> list_all (\<lambda>(i, rj). justified vg rj) (gy_rejected gy)"
proof -
  have "balanced vg gy"
    unfolding gy_def by (rule gate.run_keeps [OF new_gate_balanced assms(1)])
  then show ?thesis
    using balancedD(1-3,8) [of vg gy]
    by (auto simp: sum_by_def case_prod_unfold list_all_iff)
qed

definition sample_gate :: vram_gate where
  "sample_gate = \<lparr>vg_capacity = Budget_Less_Ledger 120 20, vg_transient_pad = 5, vg_queue = 50\<rparr>"

text \<open>Two requests share the gate; a third waits for the first to leave, a fourth is refused.\<close>

definition sample_events :: "gate_event list" where
  "sample_events =
     [Arrive 1 0 (bail_request sample_gate 20 15 0), Arrive 2 0 (bail_request sample_gate 0 35 1),
      Arrive 3 0 (bail_request sample_gate 20 35 2), Arrive 4 0 (bail_request sample_gate 0 95 3),
      Drop_Guard 1, Notify_Waiters, Retry 3 0 10, Retry 4 0 60, Set_Sticky 3 0]"

lemma sample_events_ok: "guarded event_ok (gate_step sample_gate) sample_events new_gate_system"
  by (simp add: sample_events_def sample_gate_def new_gate_system_def empty_gate_state_def bail_request_def event_ok_def
      attempt_def admit_section_def charge_for_def saturating_add_def drop_guard_def without_def wake_all_def sticky_at_def set_sticky_def usize_max_def Let_def)

theorem vram_ledger_is_exact_witness:
  "list_all (\<lambda>(i, rj). justified sample_gate rj) (gy_rejected (run (gate_step sample_gate) sample_events new_gate_system))"
  using vram_ledger_is_exact [OF sample_events_ok] by blast

text \<open>
  C29. No request is forgotten at an idle gate. Whatever happened before, when no request holds a
  guard then every waiting one is admitted at its next turn: at once when nothing is left to be
  notified, and otherwise after the notification, whatever it asks for.
\<close>

theorem idle_gate_admits_waiters:
  assumes "guarded event_ok (gate_step vg) es new_gate_system"
  defines "gy \<equiv> run (gate_step vg) es new_gate_system"
  assumes "gy_guards gy = []" "i \<in> fst ` set (gy_waiting gy)"
  shows "i \<in> fst ` set (gy_guards (gate_step vg (Retry i planned now) (gate_step vg Notify_Waiters gy)))"
proof -
  let ?gy = "gate_step vg Notify_Waiters gy"
  have b: "balanced vg gy"
    unfolding gy_def by (rule gate.run_keeps [OF new_gate_balanced assms(1)])
  have idle: "gs_active (gy_state gy) = 0"
    using balancedD(2) [OF b] assms(3) by simp
  have "list_all woken (gy_waiting ?gy)"
    using balancedD(9) [OF b _ idle] by (auto simp: list_all_iff)
  moreover have "i \<in> fst ` set (gy_waiting ?gy)"
    using assms(4) by simp
  then obtain r w where r: "map_of (gy_waiting ?gy) i = Some (r, w)"
    by (metis map_of_eq_None_iff not_None_eq surj_pair)
  ultimately have "w"
    using map_of_SomeD [OF r] by (auto simp: list_all_iff)
  moreover have "gs_active (gy_state ?gy) = 0"
    using idle by simp
  ultimately show ?thesis
    using r by (simp add: attempt_def admit_section_def Let_def)
qed

theorem idle_gate_admits_waiters_witness:
  "3 \<in> fst ` set (gy_guards (gate_step sample_gate (Retry 3 0 20) (gate_step sample_gate Notify_Waiters
     (run (gate_step sample_gate) [Arrive 1 0 (bail_request sample_gate 20 15 0),
        Arrive 3 0 (bail_request sample_gate 20 95 2), Drop_Guard 1] new_gate_system))))"
  by (rule idle_gate_admits_waiters)
    (simp_all add: sample_gate_def new_gate_system_def empty_gate_state_def bail_request_def event_ok_def
      attempt_def admit_section_def charge_for_def saturating_add_def drop_guard_def without_def wake_all_def sticky_at_def set_sticky_def usize_max_def Let_def)

end
