(* ===== verification/Cold_Tier.thy ===== *)
theory Cold_Tier
  imports Prelude
begin

text \<open>
  The models that are loaded on demand and unloaded again, \<open>src/oapi/cold_tier.rs\<close>: one slot per
  model, a registry of slots, eviction of the least recently used when the device is short of
  memory and of the idle ones by a sweeper. Times are in milliseconds.

  The value of a slot is of any type. What the device reports as free is a parameter that may
  depend on the slots; the outcome of a loader is an argument. A request is followed alone:
  the lock held while loading keeps two requests from loading one slot twice.
\<close>

section \<open>Slots\<close>

definition retry_after_failed_load :: nat where
  "retry_after_failed_load = 30000"

record 'v slot =
  cs_name :: string
  cs_estimate :: nat
  cs_value :: "'v option"
  cs_last_used :: "nat option"
  cs_failed_at :: "nat option"

definition build_slot :: "string \<Rightarrow> nat \<Rightarrow> 'v option \<Rightarrow> nat \<Rightarrow> 'v slot" where
  "build_slot n est v now = \<lparr>cs_name = n, cs_estimate = est, cs_value = v,
     cs_last_used = map_option (\<lambda>x. now) v, cs_failed_at = None\<rparr>"

definition demand_slot :: "string \<Rightarrow> nat \<Rightarrow> nat \<Rightarrow> 'v slot list \<Rightarrow> 'v slot list" where
  "demand_slot n est now slots = slots @ [build_slot n est None now]"

definition resident_slot :: "string \<Rightarrow> 'v \<Rightarrow> nat \<Rightarrow> 'v slot" where
  "resident_slot n v now = build_slot n 0 (Some v) now"

definition is_loaded :: "'v slot \<Rightarrow> bool" where
  "is_loaded s \<longleftrightarrow> cs_value s \<noteq> None"

definition peek :: "nat \<Rightarrow> 'v slot \<Rightarrow> 'v option \<times> 'v slot" where
  "peek now s = (cs_value s, if cs_value s \<noteq> None then s\<lparr>cs_last_used := Some now\<rparr> else s)"

definition in_retry_backoff :: "nat \<Rightarrow> 'v slot \<Rightarrow> bool" where
  "in_retry_backoff now s \<longleftrightarrow>
     (case cs_failed_at s of Some t \<Rightarrow> now - t < retry_after_failed_load | None \<Rightarrow> False)"

definition store_loaded :: "'v option \<Rightarrow> nat \<Rightarrow> 'v slot \<Rightarrow> 'v option \<times> 'v slot" where
  "store_loaded loaded now s = (case loaded of
     Some v \<Rightarrow> (Some v, s\<lparr>cs_value := Some v, cs_last_used := Some now, cs_failed_at := None\<rparr>)
   | None \<Rightarrow> (None, s\<lparr>cs_failed_at := Some now\<rparr>))"

definition load_failed :: "'v slot \<Rightarrow> bool" where
  "load_failed s \<longleftrightarrow> cs_failed_at s \<noteq> None"

definition evict_slot :: "'v slot \<Rightarrow> bool \<times> 'v slot" where
  "evict_slot s = (if cs_value s = None then (False, s) else (True, s\<lparr>cs_value := None\<rparr>))"

definition load_blocking :: "'v option \<Rightarrow> nat \<Rightarrow> 'v slot \<Rightarrow> bool \<times> 'v slot" where
  "load_blocking loaded now s =
     (if is_loaded s then (True, s)
      else let (r, s1) = store_loaded loaded now s in (r \<noteq> None, s1))"

section \<open>Making room\<close>

record free_report =
  free_before :: "nat option"
  free_after :: "nat option"
  fr_evicted :: "string list"
  satisfied :: bool

definition idle_report :: free_report where
  "idle_report = \<lparr>free_before = None, free_after = None, fr_evicted = [], satisfied = True\<rparr>"

text \<open>An unset time comes first, as in the order of \<open>Option\<close>.\<close>

definition used_key :: "'v slot \<Rightarrow> nat" where
  "used_key s = (case cs_last_used s of None \<Rightarrow> 0 | Some t \<Rightarrow> Suc t)"

definition eviction_order :: "string option \<Rightarrow> 'v slot list \<Rightarrow> nat list" where
  "eviction_order exclude slots =
     sort_key (\<lambda>i. used_key (slots ! i))
       (filter (\<lambda>i. is_loaded (slots ! i) \<and> exclude \<noteq> Some (cs_name (slots ! i))) [0..<length slots])"

text \<open>The loop over the candidates; \<open>free\<close> is the reading before, used when the device gives none.\<close>

fun evict_until ::
  "('v slot list \<Rightarrow> nat option) \<Rightarrow> nat \<Rightarrow> nat \<Rightarrow> nat list \<Rightarrow> 'v slot list \<Rightarrow> free_report \<Rightarrow> free_report \<times> 'v slot list" where
  "evict_until dev need free [] slots rep = (rep, slots)"
| "evict_until dev need free (i # is) slots rep =
     (let (gone, s) = evict_slot (slots ! i);
          slots1 = slots[i := s];
          rep1 = (if gone then rep\<lparr>fr_evicted := fr_evicted rep @ [cs_name s]\<rparr> else rep);
          now_free = (case dev slots1 of Some f \<Rightarrow> f | None \<Rightarrow> free);
          rep2 = rep1\<lparr>free_after := Some now_free\<rparr>
      in if need \<le> now_free then (rep2, slots1) else evict_until dev need free is slots1 rep2)"

definition ensure_free ::
  "('v slot list \<Rightarrow> nat option) \<Rightarrow> nat \<Rightarrow> string option \<Rightarrow> 'v slot list \<Rightarrow> free_report \<times> 'v slot list" where
  "ensure_free dev need exclude slots =
     (if need = 0 then (idle_report, slots)
      else let candidates = eviction_order exclude slots in
        if candidates = [] then (idle_report, slots)
        else case dev slots of
          None \<Rightarrow> (idle_report, slots)
        | Some free \<Rightarrow>
            let rep = idle_report\<lparr>free_before := Some free, free_after := Some free\<rparr> in
            if need \<le> free then (rep, slots)
            else
              let (rep1, slots1) = evict_until dev need free candidates slots rep
              in (rep1\<lparr>satisfied := (case free_after rep1 of Some f \<Rightarrow> need \<le> f | None \<Rightarrow> False)\<rparr>, slots1))"

definition sweep_idle :: "nat \<Rightarrow> nat \<Rightarrow> 'v slot list \<Rightarrow> string list \<times> 'v slot list" where
  "sweep_idle idle now slots =
     (if idle = 0 then ([], slots)
      else let stale = (\<lambda>s. is_loaded s \<and> (case cs_last_used s of Some t \<Rightarrow> idle \<le> now - t | None \<Rightarrow> False))
        in (map cs_name (filter stale slots), map (\<lambda>s. if stale s then snd (evict_slot s) else s) slots))"

section \<open>A request\<close>

text \<open>
  \<open>get\<close> on the slot \<open>k\<close>: a first look, then under the lock a second one, the backoff after a failed
  load, room on the device and the loader. The times are those of the two looks, of the
  question for the backoff and of the store.
\<close>

definition get_slot ::
  "('v slot list \<Rightarrow> nat option) \<Rightarrow> nat \<Rightarrow> nat \<times> nat \<times> nat \<times> nat \<Rightarrow> 'v option \<Rightarrow> 'v slot list
     \<Rightarrow> 'v option \<times> 'v slot list" where
  "get_slot dev k moments loaded slots =
     (let (t1, t2, t3, t4) = moments; (first, s1) = peek t1 (slots ! k) in
      if first \<noteq> None then (first, slots[k := s1])
      else let (second, s2) = peek t2 s1 in
        if second \<noteq> None then (second, slots[k := s2])
        else if in_retry_backoff t3 s2 then (None, slots[k := s2])
        else let (rep, slots1) = ensure_free dev (cs_estimate s2) (Some (cs_name s2)) (slots[k := s2]);
            (r, s3) = store_loaded loaded t4 (slots1 ! k)
          in (r, slots1[k := s3]))"

section \<open>What eviction does\<close>

definition unload :: "nat set \<Rightarrow> 'v slot list \<Rightarrow> 'v slot list" where
  "unload I slots = map (\<lambda>i. if i \<in> I then (slots ! i)\<lparr>cs_value := None\<rparr> else slots ! i) [0..<length slots]"

text \<open>What the device has free after \<open>n\<close> of the candidates went; \<open>free\<close> before any.\<close>

definition free_level :: "('v slot list \<Rightarrow> nat option) \<Rightarrow> nat \<Rightarrow> nat list \<Rightarrow> 'v slot list \<Rightarrow> nat \<Rightarrow> nat" where
  "free_level dev free order slots n =
     (if n = 0 then free else case dev (unload (set (take n order)) slots) of Some f \<Rightarrow> f | None \<Rightarrow> free)"

definition lru_order :: "string option \<Rightarrow> 'v slot list \<Rightarrow> nat list \<Rightarrow> bool" where
  "lru_order exclude slots order \<longleftrightarrow> distinct order
     \<and> set order = {i. i < length slots \<and> cs_value (slots ! i) \<noteq> None \<and> exclude \<noteq> Some (cs_name (slots ! i))}
     \<and> sorted (map (\<lambda>i. used_key (slots ! i)) order)"

text \<open>
  The first \<open>n\<close> candidates go, no more than needed: after fewer the device was still short; and
  everything that may go has gone if it stays short.
\<close>

definition frees_in_order ::
  "('v slot list \<Rightarrow> nat option) \<Rightarrow> nat \<Rightarrow> nat \<Rightarrow> nat list \<Rightarrow> 'v slot list \<Rightarrow> nat \<Rightarrow> free_report \<times> 'v slot list \<Rightarrow> bool" where
  "frees_in_order dev need free order slots n r \<longleftrightarrow>
     n \<le> length order \<and> snd r = unload (set (take n order)) slots
   \<and> fr_evicted (fst r) = map (\<lambda>i. cs_name (slots ! i)) (take n order)
   \<and> (\<forall>m<n. free_level dev free order slots m < need)
   \<and> free_after (fst r) = Some (free_level dev free order slots n)
   \<and> satisfied (fst r) = (need \<le> free_level dev free order slots n)
   \<and> (satisfied (fst r) \<or> n = length order)"

lemma eviction_order_lru: "lru_order exclude slots (eviction_order exclude slots)"
  by (auto simp: lru_order_def eviction_order_def is_loaded_def)

lemma length_unload [simp]: "length (unload I slots) = length slots"
  by (simp add: unload_def)

lemma unload_empty [simp]: "unload {} slots = slots"
  by (simp add: unload_def map_nth)

lemma evict_unload:
  assumes "i < length slots" "i \<notin> I" "cs_value (slots ! i) \<noteq> None"
  shows "evict_slot (unload I slots ! i) = (True, (slots ! i)\<lparr>cs_value := None\<rparr>)"
    "(unload I slots)[i := (slots ! i)\<lparr>cs_value := None\<rparr>] = unload (insert i I) slots"
proof -
  show "evict_slot (unload I slots ! i) = (True, (slots ! i)\<lparr>cs_value := None\<rparr>)"
    using assms by (simp add: unload_def evict_slot_def)
  show "(unload I slots)[i := (slots ! i)\<lparr>cs_value := None\<rparr>] = unload (insert i I) slots"
    using assms by (intro nth_equalityI) (auto simp: unload_def nth_list_update)
qed

lemma evict_until_frees:
  assumes order: "order = ds @ is" "distinct order"
    and loaded: "\<forall>i\<in>set is. i < length slots \<and> cs_value (slots ! i) \<noteq> None"
    and rep: "fr_evicted rep = map (\<lambda>i. cs_name (slots ! i)) ds"
      "free_after rep = Some (free_level dev free order slots (length ds))"
    and short: "\<forall>m\<le>length ds. free_level dev free order slots m < need"
    and r: "evict_until dev need free is (unload (set ds) slots) rep = r"
  shows "\<exists>n. n \<le> length order \<and> snd r = unload (set (take n order)) slots
    \<and> fr_evicted (fst r) = map (\<lambda>i. cs_name (slots ! i)) (take n order)
    \<and> (\<forall>m<n. free_level dev free order slots m < need)
    \<and> free_after (fst r) = Some (free_level dev free order slots n)
    \<and> (need \<le> free_level dev free order slots n \<or> n = length order)"
  using assms
proof (induction "is" arbitrary: ds rep)
  case Nil
  then show ?case
    by (intro exI [of _ "length ds"]) auto
next
  case (Cons i "is")
  have i: "i < length slots" "i \<notin> set ds" "cs_value (slots ! i) \<noteq> None"
    using Cons.prems(1-3) by auto
  note ev = evict_unload [OF i]
  let ?slots1 = "unload (set (ds @ [i])) slots" and ?level = "free_level dev free order slots (Suc (length ds))"
  define rep2 where "rep2 = rep\<lparr>fr_evicted := fr_evicted rep @ [cs_name (slots ! i)], free_after := Some ?level\<rparr>"
  have take: "take (Suc (length ds)) order = ds @ [i]"
    using Cons.prems(1) by simp
  have level: "?level = (case dev ?slots1 of Some f \<Rightarrow> f | None \<Rightarrow> free)"
    by (simp add: free_level_def take)
  have r: "r = (if need \<le> ?level then (rep2, ?slots1) else evict_until dev need free is ?slots1 rep2)"
    using Cons.prems(7) ev by (simp add: level rep2_def Let_def cong: if_cong)
  have names: "fr_evicted rep2 = map (\<lambda>i. cs_name (slots ! i)) (ds @ [i])" "free_after rep2 = Some ?level"
    using Cons.prems(4) by (simp_all add: rep2_def)
  show ?case
  proof (cases "need \<le> ?level")
    case True
    then show ?thesis
      using r names take Cons.prems(1,6) by (intro exI [of _ "Suc (length ds)"]) (simp add: less_Suc_eq_le)
  next
    case False
    then have "\<forall>m\<le>length (ds @ [i]). free_level dev free order slots m < need"
      using Cons.prems(6) by (simp add: le_Suc_eq)
    moreover have "order = (ds @ [i]) @ is" "\<forall>i\<in>set is. i < length slots \<and> cs_value (slots ! i) \<noteq> None"
      using Cons.prems(1,3) by simp_all
    ultimately show ?thesis
      using Cons.IH [of "ds @ [i]" rep2] Cons.prems(2) names r False by simp
  qed
qed

text \<open>
  C34. Room on the device is made by unloading the least recently used models. When memory is short
  and something may go, there is an order of all loaded models but the excluded one, by their
  last use, such that exactly an initial part of it is unloaded: after any shorter part the
  device was still short, and all of them go only if it stays short; the report says which
  went, what is free now and whether it is enough.
\<close>

theorem eviction_is_minimal_and_oldest_first:
  assumes "0 < need" "dev slots = Some free"
    and "i < length slots" "cs_value (slots ! i) \<noteq> None" "exclude \<noteq> Some (cs_name (slots ! i))"
  shows "\<exists>order n. lru_order exclude slots order
    \<and> frees_in_order dev need free order slots n (ensure_free dev need exclude slots)"
proof -
  define order where "order = eviction_order exclude slots"
  have lru: "lru_order exclude slots order"
    unfolding order_def by (rule eviction_order_lru)
  then have "i \<in> set order"
    using assms(3-5) by (simp add: lru_order_def)
  then have some: "order \<noteq> []"
    by auto
  let ?rep = "idle_report\<lparr>free_before := Some free, free_after := Some free\<rparr>"
  let ?r = "ensure_free dev need exclude slots"
  have "\<exists>n. frees_in_order dev need free order slots n ?r"
  proof (cases "need \<le> free")
    case True
    then have "?r = (?rep, slots)"
      using assms(1,2) some by (simp add: ensure_free_def order_def Let_def)
    then show ?thesis
      using True by (intro exI [of _ 0]) (simp add: frees_in_order_def free_level_def idle_report_def)
  next
    case False
    define r1 where "r1 = evict_until dev need free order slots ?rep"
    have r: "?r = ((fst r1)\<lparr>satisfied := (case free_after (fst r1) of Some f \<Rightarrow> need \<le> f | None \<Rightarrow> False)\<rparr>, snd r1)"
      using assms(1,2) some False by (simp add: ensure_free_def order_def r1_def Let_def case_prod_unfold)
    obtain n where "n \<le> length order" "snd r1 = unload (set (take n order)) slots"
      "fr_evicted (fst r1) = map (\<lambda>i. cs_name (slots ! i)) (take n order)"
      "\<forall>m<n. free_level dev free order slots m < need"
      "free_after (fst r1) = Some (free_level dev free order slots n)"
      "need \<le> free_level dev free order slots n \<or> n = length order"
      using evict_until_frees [of order "[]" order slots ?rep dev free need r1] lru False
      by (auto simp: r1_def lru_order_def idle_report_def free_level_def)
    then show ?thesis
      by (intro exI [of _ n]) (simp add: r frees_in_order_def)
  qed
  then show ?thesis
    using lru by blast
qed

definition sample_slots :: "nat slot list" where
  "sample_slots = [build_slot ''tts'' 4 (Some 1) 30, build_slot ''asr'' 4 (Some 2) 10, build_slot ''ocr'' 4 (Some 3) 20]"

definition sample_device :: "nat slot list \<Rightarrow> nat option" where
  "sample_device s = Some (4 * length (filter (\<lambda>x. \<not> is_loaded x) s))"

theorem eviction_is_minimal_and_oldest_first_witness:
  "\<exists>order n. lru_order (Some ''asr'') sample_slots order
    \<and> frees_in_order sample_device 4 0 order sample_slots n (ensure_free sample_device 4 (Some ''asr'') sample_slots)"
  by (rule eviction_is_minimal_and_oldest_first [where i = 0])
    (simp_all add: sample_slots_def sample_device_def build_slot_def is_loaded_def)

section \<open>Requests\<close>

text \<open>
  A request is answered by the value the slot holds afterwards, or by nothing: then its loader
  failed now, or did within the backoff before. Loading never unloads the slot itself.
\<close>

lemma ensure_free_keeps_excluded:
  assumes "k < length slots"
  shows "length (snd (ensure_free dev need (Some (cs_name (slots ! k))) slots)) = length slots
    \<and> snd (ensure_free dev need (Some (cs_name (slots ! k))) slots) ! k = slots ! k"
proof -
  have "length (snd (evict_until dev need free is slots1 rep)) = length slots1
      \<and> (k \<notin> set is \<longrightarrow> snd (evict_until dev need free is slots1 rep) ! k = slots1 ! k)" for free "is" slots1 rep
    by (induction dev need free "is" slots1 rep rule: evict_until.induct) (auto simp: Let_def case_prod_unfold)
  moreover have "k \<notin> set (eviction_order (Some (cs_name (slots ! k))) slots)"
    by (simp add: eviction_order_def)
  ultimately show ?thesis
    using assms by (auto simp: ensure_free_def Let_def case_prod_unfold split: option.split)
qed

lemma get_slot_answers:
  assumes "k < length slots" "get_slot dev k (t1, t2, t3, t4) loaded slots = (r, slots1)"
  shows "case r of
      Some v \<Rightarrow> cs_value (slots1 ! k) = Some v
    | None \<Rightarrow> in_retry_backoff t3 (slots ! k) \<or> loaded = None \<and> cs_failed_at (slots1 ! k) = Some t4"
proof (cases "cs_value (slots ! k)")
  case (Some v)
  then show ?thesis
    using assms by (simp add: get_slot_def peek_def Some) (auto simp: Some)
next
  case None
  define rep where "rep = ensure_free dev (cs_estimate (slots ! k)) (Some (cs_name (slots ! k))) slots"
  have "length (snd rep) = length slots"
    using ensure_free_keeps_excluded [OF assms(1)] by (simp add: rep_def)
  then show ?thesis
    using assms None
    by (auto simp: get_slot_def peek_def store_loaded_def Let_def case_prod_unfold simp flip: rep_def
        split: if_splits option.splits)
qed

end
