(* ===== verification/Spec2Isabelle.thy ===== *)
theory Spec2Isabelle
  imports Kv_Layout Pool_Properties Scheduler_Properties Realtime_Properties
    Grammar_Properties Batch_Protocol Tokenizer_Properties
    Ranges_Properties Suffix_Properties Spec_Properties Spec_Two_Branch
    Prefix_Properties Vram_Gate Cold_Tier
begin

text \<open>
  A verification library for speaches-plus, a speech and language server written in Rust.

  The program. An HTTP and WebSocket server (\<open>src/rust/src\<close>) answers chat, speech and realtime
  voice requests. Chat requests go to an inference engine (\<open>src/rust/crates/nv-engine\<close>): a thread
  owns a batch engine, which owns a scheduler, which owns a pool of KV-cache blocks. The
  scheduler picks a batch, a model runs it on the device, the tokens are applied and streamed to the
  clients over bounded channels. A request may carry a grammar (\<open>nv-grammar\<close>), which masks
  the logits so that only texts of the grammar are generated. Single-user decoding on WebGPU
  speculates: tokens are drafted by lookup in a suffix automaton (\<open>nv-lookup\<close>), by a smaller
  model or as a tree, and verified in one pass (\<open>nv-specdecode\<close>, \<open>oapi/chat_engine_wgpu\<close>). A realtime
  voice session (\<open>src/rust/src/realtime\<close>) is one state behind a mutex on which many tasks work; it
  decides with a tokenizer of its own (\<open>src/rust/src/eou\<close>) when a speaker has finished.

  Prelude. \<open>Prelude\<close> has the machine types (\<open>token\<close> and other words), the sum type for fallible
  operations and the lemmas on vectors every component uses; \<open>Machine_Int\<close> has the wrapping,
  checked and saturating \<open>usize\<close> operations.

  The block pool: \<open>nv-engine/src/block_manager.rs\<close>, \<open>kv.rs\<close>.
  \<open>Block_Manager\<close> has the state (blocks, free list, hash map) and every method; \<open>Block_Pool\<close> the
  reference-count invariant \<open>pool_ok\<close> relative to the multiset of all block tables and the
  locale \<open>reference_pool\<close>; \<open>Block_Alloc\<close> and \<open>Block_Ops\<close> what allocation, publication, growth and
  copy on write promise; \<open>Pool_Properties\<close> the properties: an allocation describes its
  sequence, a shared block holds the same prefix, counted tokens are computed, a refused allocation
  gives back what it took. \<open>Kv_Layout\<close> has the offsets into the device buffer and pool sizing at 64
  bits; the halves of the blocks are disjoint and inside the buffer.

  The scheduler: \<open>nv-engine/src/sequence.rs\<close>, \<open>scheduler.rs\<close>.
  \<open>Sequence\<close> is the life cycle of one request, \<open>Scheduler\<close> the queues and every method (\<open>step\<close>,
  \<open>complete_step\<close>, \<open>complete_verify_step\<close>, \<open>abort\<close>, preemption). \<open>Scheduler_Inv\<close> and
  \<open>Scheduler_Ops\<close> state and preserve the invariant, \<open>Scheduler_Facts\<close> and \<open>Scheduler_Batch\<close> what a
  batch is made of, \<open>Scheduler_Contract\<close> the locales that carry a fact about single requests
  through every method, \<open>Scheduler_Service\<close> their instances, \<open>Scheduler_Properties\<close> the scheduler as
  an event-driven component (locale \<open>component\<close>) with its properties over all runs: the
  invariant, conservation of requests, no write into a shared block, budgets, progress, proper
  stops, and that a sequence that fits the pool never fails for lack of blocks.

  The engine and its thread: \<open>nv-engine/src/batch_engine.rs\<close>, \<open>batch_runtime.rs\<close>.
  \<open>Batch_Engine\<close> has admission, one step, streaming, failing and draining, with the channels as an
  explicit store of addresses; \<open>Batch_Runtime\<close> has the thread, one atomic action of a client, a
  reader or the thread per event, so every interleaving is a run. \<open>Batch_Contract\<close> is what the
  engine relies on in the scheduler, \<open>Batch_Streams\<close>, \<open>Batch_Facts\<close>, \<open>Batch_Turn\<close> and
  \<open>Batch_Invariant\<close> the books of the engine and its invariant, \<open>Batch_Properties\<close> what clients get
  (well-formed streams, the tokens streamed are the answer, a failed step fails every request,
  shutdown), \<open>Batch_Protocol\<close> the client's protocol as an abstract machine and the refinement of it.

  The realtime session: \<open>realtime/state.rs\<close>, \<open>session.rs\<close>, \<open>pipeline.rs\<close>, \<open>eou_eager.rs\<close>, with the
  types of \<open>types.rs\<close> and \<open>defaults.rs\<close>. \<open>Realtime_State\<close> has the state, the consistency check and the
  transitions of the response phase; \<open>Realtime_Session\<close> one definition per critical section;
  \<open>Realtime_Inv\<close> the machine of all sections under their guards and its invariant;
  \<open>Realtime_Properties\<close> the properties and the window in which a barge-in ends the session.

  Guided decoding: \<open>nv-grammar/src/json.rs\<close>, \<open>lib.rs\<close>, \<open>ranges.rs\<close>. \<open>Json_Automaton\<close> is the byte
  automaton, \<open>Json_Language\<close> JSON as a language and the proof that they agree; \<open>Grammar\<close> the
  combined automaton, mask rows and their cache, masking, advancing, deferral and checkpoints,
  \<open>Grammar_Facts\<close> and \<open>Grammar_Properties\<close> that the mask allows exactly what can be advanced over and
  that a rollback undoes speculation. \<open>Ranges\<close> builds the expressions of numeric ranges;
  \<open>Ranges_Facts\<close>, \<open>Ranges_Decimals\<close> and \<open>Ranges_Properties\<close> show their languages exact.

  The tokenizer: \<open>eou/byte_map.rs\<close>, \<open>special_trie.rs\<close>, \<open>bpe.rs\<close>. \<open>Utf8\<close>, \<open>Byte_Map\<close>,
  \<open>Special_Trie\<close>, \<open>Pre_Split\<close> and \<open>Bpe\<close> follow the files; \<open>Tokenizer_Properties\<close> has the round
  trip, the longest match of special tokens, the tiling of the text and the normal form of merging.

  Drafts by lookup: \<open>nv-lookup/src/suffix_automaton.rs\<close>. \<open>Suffix_Automaton\<close> is the construction and
  the proposal; \<open>Factors\<close>, \<open>Sam_Walks\<close> and \<open>Sam_Correct\<close> tie its states to the left-maximal
  factors of the text; \<open>Suffix_Properties\<close> has totality, linear size and the equality of a
  proposal with exhaustive search.

  Speculative decoding: \<open>nv-specdecode/src/chain.rs\<close>, \<open>wgpu_spec.rs\<close>, \<open>qwen38_mtp.rs\<close>,
  \<open>qwen38_sufspec.rs\<close>, \<open>eagle3.rs\<close>, \<open>gemma4_verifier.rs\<close>, \<open>oapi/chat_engine_wgpu/spec.rs\<close> and the
  adapter \<open>DecoderChainTarget\<close> of \<open>oapi/chat_engine_wgpu.rs\<close>. \<open>Spec_Chain\<close> has batches and
  acceptance with the reference \<open>greedy_run\<close>; \<open>Spec_Model\<close> the model with its KV rows;
  \<open>Spec_Generate\<close> the two-model generator; \<open>Spec_Loop\<close> the rounds of the server, of the target that
  rolls back, and the suffix arm; \<open>Spec_Seam\<close> the contracts of the verify targets as the locales
  \<open>chain_seam\<close>, \<open>decoder_seam\<close> and \<open>mtp_seam\<close>; \<open>Spec_Targets\<close> their providers; \<open>Spec_Tree\<close> drafting,
  laying out and walking a tree, \<open>Spec_Tree_Facts\<close> and \<open>Spec_Tree_Walk\<close> paths, masks and the
  masked forward; \<open>Spec_Two_Branch\<close> the fixed tree of two branches and the window of recent rounds
  that sets the depth of the next chain; \<open>Spec_Properties\<close> that all of it is greedy decoding.

  Reusing prefixes: \<open>nv-models/src/prefix_reuse.rs\<close>, \<open>session_lru.rs\<close>, \<open>laguna_prefix.rs\<close>.
  \<open>Prefix_Reuse\<close> is how far a ring of KV slots can be rewound, with the proof that an admitted
  rewind finds its whole window in the ring, and the points to resume from; \<open>Session_Lru\<close> the
  sessions in three tiers under a budget, the exact lookup and eviction; \<open>Checkpoint_Lru\<close> the
  queue of checkpoints whose entries may share allocations; \<open>Checkpoint_Facts\<close> and
  \<open>Checkpoint_Ops\<close> its bytes as a sum and what every operation keeps; \<open>Prefix_Properties\<close> the
  bounds over every run, the admission of whatever fits alone, the longest usable checkpoint and
  the eviction of sessions.

  Device memory of the server: \<open>oapi/admission.rs\<close>, \<open>cold_tier.rs\<close>. \<open>Vram_Gate\<close> is the ledger of
  bytes in flight with the tasks that wait at it, one event per critical section and the
  notification apart from the release; the ledger is exact, refusals are justified and no
  request is forgotten at an idle gate. \<open>Cold_Tier\<close> has the models loaded on demand: what is
  evicted is the oldest and no more than needed.

  How the parts rest on each other. The scheduler's invariant contains the pool's, with the block
  tables of the live sequences as the references held; the engine's invariant contains the
  scheduler's and relates its sequences to the channels; the runtime's contains the engine's.
  The speculative rounds use the suffix automaton through its equality with exhaustive search.

  Parameters and hypotheses. The hash \<open>xxh3\<close> is any function: blocks are compared by their
  tokens. The model behind \<open>BatchStepper\<close> answers anything, or fails. The order in which a \<open>HashMap\<close>
  yields its keys is a parameter, as are the dense automaton of the crate regex-automata, the classes
  \<open>is_alphabetic\<close> and \<open>is_numeric\<close>, the values parsed from JSON files and from the environment,
  and the device: a row of a KV cache is computed from the rows it may attend to, and a token is
  picked from rows. Floating-point scores only order candidates, by a parameter that must not
  invent any. A decoder behind the verify seam is assumed to keep the contract the source states in
  \<open>CHAIN_VERIFY_SEAM\<close>; the models of \<open>Spec_Model\<close> are shown to keep it. The states that the caches of
  prefixes keep are values of any type, and the closures that make them are arguments.

  Numbers. Token ids, hashes, masks and bracket stacks are words. \<open>usize\<close> counters are natural numbers
  where the invariants bound them by the size of a collection in memory, and 64-bit values with
  written-out wrapping where arithmetic on configuration could overflow (\<open>Kv_Layout\<close>, \<open>Machine_Int\<close>).
  Ranges have 20 integer and 17 fraction digits, as in the code.

  Loops and fuel. Loops are structural recursion or carry a measure. The walks of the suffix
  automaton, the parent walks of a draft tree and the walk over a verified tree are partial
  functions or carry fuel whose exhaustion is an error value, and the theorems show that they
  return. One unit of fuel is enough for the combined automaton, since its JSON part resumes the
  dense automaton at most once a byte.

  Not modelled. The transformer, speech and vision models and their kernels (the rest of \<open>nv-models\<close>,
  \<open>nv-kernels\<close>, \<open>nv-layers\<close>, \<open>nv-quant\<close>, \<open>nv-tts\<close>, \<open>nv-omni\<close>, \<open>nv-ocr\<close>, \<open>nv-train\<close> and others): tensor
  arithmetic in floating point on a device, most of the lines of the repository, with no discrete
  contract beyond the interfaces above. The HTTP handlers, the wire protocol and the telemetry: conversions of
  JSON and input or output. The regular expressions of JSON schemas (\<open>schema.rs\<close>, \<open>pattern.rs\<close>):
  conversions between the trees of external crates. Voice activity, sentence segmentation and
  alignment: heuristics in floating point. Clients in other languages. Inside the modelled
  files, printing, metrics, thread creation, moving averages and the hidden rows of learned
  drafters are left out.
\<close>

end
